(* ===== verification/Prelude.thy ===== *)
theory Prelude
  imports Main "HOL-Library.List_Lexorder" "HOL-Library.Char_ord" "HOL-Library.Product_Lexorder"
    "HOL-Library.Monad_Syntax"
begin

section \<open>Prelude: the Rust integers, results and ordered maps the components share\<close>

text \<open>
  This theory holds what every component of the model uses and no component owns:
  \<^item> the bounded integers of Rust. A signed integer (\<open>i64\<close>, \<open>i128\<close>) is an
    \<open>int\<close>, an unsigned one (\<open>u32\<close>, \<open>u64\<close>) is a \<open>nat\<close>. Each checked, saturating or
    converting operation of the source is written with its range test; a plain operation
    that could leave the range is written with its wrap-around (\<open>wrap_i64\<close>);
  \<^item> \<open>Result\<close> as a sum, with its bind;
  \<^item> \<open>BTreeMap\<close> (and \<open>HashMap\<close>, whose iteration order the code never shows) as an
    association list kept strictly sorted on its keys, with the contract of an ordered map
    as a locale and its laws proved for the model.
\<close>

named_theorems arith_defs \<open>definitions of the bounded arithmetic\<close>

subsection \<open>Bounded integers\<close>

definition i64_min :: int where "i64_min = - 9223372036854775808"
definition i64_max :: int where "i64_max = 9223372036854775807"
definition u64_max :: nat where "u64_max = 18446744073709551615"
definition u32_max :: nat where "u32_max = 4294967295"

definition in_i64 :: "int \<Rightarrow> bool" where
  "in_i64 x \<longleftrightarrow> i64_min \<le> x \<and> x \<le> i64_max"

text \<open>\<open>i64::try_from(i128)\<close>.\<close>

definition try_i64 :: "int \<Rightarrow> int option" where
  "try_i64 x = (if in_i64 x then Some x else None)"

text \<open>\<open>i64::checked_add\<close>, \<open>checked_sub\<close>, \<open>checked_mul\<close>, \<open>checked_neg\<close>.\<close>

definition checked_add :: "int \<Rightarrow> int \<Rightarrow> int option" where
  "checked_add a b = try_i64 (a + b)"

definition checked_sub :: "int \<Rightarrow> int \<Rightarrow> int option" where
  "checked_sub a b = try_i64 (a - b)"

definition checked_mul :: "int \<Rightarrow> int \<Rightarrow> int option" where
  "checked_mul a b = try_i64 (a * b)"

definition checked_neg :: "int \<Rightarrow> int option" where
  "checked_neg a = try_i64 (- a)"

text \<open>\<open>i64::saturating_add\<close>, and the wrap-around of a plain \<open>i64\<close> operation in a
  release build.\<close>

definition sat_i64 :: "int \<Rightarrow> int" where
  "sat_i64 x = max i64_min (min i64_max x)"

definition sat_add :: "int \<Rightarrow> int \<Rightarrow> int" where
  "sat_add a b = sat_i64 (a + b)"

definition wrap_i64 :: "int \<Rightarrow> int" where
  "wrap_i64 x = (x - i64_min) mod 18446744073709551616 + i64_min"

text \<open>\<open>u64::checked_add\<close> and \<open>u64::saturating_add\<close>.\<close>

definition checked_add_u64 :: "nat \<Rightarrow> nat \<Rightarrow> nat option" where
  "checked_add_u64 a b = (if a + b \<le> u64_max then Some (a + b) else None)"

definition sat_add_u64 :: "nat \<Rightarrow> nat \<Rightarrow> nat" where
  "sat_add_u64 a b = min u64_max (a + b)"

lemmas [arith_defs] =
  i64_min_def i64_max_def u64_max_def u32_max_def in_i64_def try_i64_def checked_add_def
  checked_sub_def checked_mul_def checked_neg_def sat_i64_def sat_add_def
  checked_add_u64_def sat_add_u64_def

lemma try_i64_Some [simp]: "try_i64 x = Some y \<longleftrightarrow> in_i64 x \<and> y = x"
  by (auto simp: try_i64_def)

lemma try_i64_None [simp]: "try_i64 x = None \<longleftrightarrow> \<not> in_i64 x"
  by (auto simp: try_i64_def)

lemma checked_add_Some [simp]: "checked_add a b = Some c \<longleftrightarrow> in_i64 (a + b) \<and> c = a + b"
  by (auto simp: checked_add_def)

lemma checked_sub_Some [simp]: "checked_sub a b = Some c \<longleftrightarrow> in_i64 (a - b) \<and> c = a - b"
  by (auto simp: checked_sub_def)

lemma checked_mul_Some [simp]: "checked_mul a b = Some c \<longleftrightarrow> in_i64 (a * b) \<and> c = a * b"
  by (auto simp: checked_mul_def)

lemma checked_neg_Some [simp]: "checked_neg a = Some c \<longleftrightarrow> in_i64 (- a) \<and> c = - a"
  by (auto simp: checked_neg_def)

lemma checked_add_None [simp]: "checked_add a b = None \<longleftrightarrow> \<not> in_i64 (a + b)"
  by (simp add: checked_add_def)

lemma checked_sub_None [simp]: "checked_sub a b = None \<longleftrightarrow> \<not> in_i64 (a - b)"
  by (simp add: checked_sub_def)

lemma checked_mul_None [simp]: "checked_mul a b = None \<longleftrightarrow> \<not> in_i64 (a * b)"
  by (simp add: checked_mul_def)

lemma checked_neg_None [simp]: "checked_neg a = None \<longleftrightarrow> \<not> in_i64 (- a)"
  by (simp add: checked_neg_def)

lemma checked_add_u64_Some [simp]:
  "checked_add_u64 a b = Some c \<longleftrightarrow> a + b \<le> u64_max \<and> c = a + b"
  by (auto simp: checked_add_u64_def)

lemma checked_add_u64_None [simp]: "checked_add_u64 a b = None \<longleftrightarrow> u64_max < a + b"
  by (auto simp: checked_add_u64_def)

lemma in_i64_between: "in_i64 a \<Longrightarrow> in_i64 b \<Longrightarrow> a \<le> x \<Longrightarrow> x \<le> b \<Longrightarrow> in_i64 x"
  by (simp add: in_i64_def)

lemma in_i64_0 [simp]: "in_i64 0"
  by (simp add: arith_defs)

lemma wrap_i64_id [simp]: "in_i64 x \<Longrightarrow> wrap_i64 x = x"
  by (simp add: wrap_i64_def in_i64_def i64_min_def i64_max_def)

lemma wrap_i64_in [simp]: "in_i64 (wrap_i64 x)"
proof -
  have "0 \<le> (x - i64_min) mod 18446744073709551616"
    and "(x - i64_min) mod 18446744073709551616 < 18446744073709551616"
    by simp_all
  then show ?thesis
    unfolding wrap_i64_def in_i64_def i64_max_def i64_min_def by linarith
qed

lemma sat_add_nonneg: "0 \<le> a \<Longrightarrow> 0 \<le> b \<Longrightarrow> sat_add a b = min i64_max (a + b)"
  by (simp add: sat_add_def sat_i64_def i64_min_def i64_max_def)

subsection \<open>Results\<close>

text \<open>\<open>Result<T, E>\<close> is \<open>'e + 'a\<close>, \<open>Inl\<close> the error; \<open>?\<close> is \<open>res_bind\<close> and
  \<open>ok_or\<close> turns an option into a result.\<close>

fun res_bind :: "'e + 'a \<Rightarrow> ('a \<Rightarrow> 'e + 'b) \<Rightarrow> 'e + 'b" where
  "res_bind (Inl e) f = Inl e"
| "res_bind (Inr x) f = f x"

definition ok_or :: "'e \<Rightarrow> 'a option \<Rightarrow> 'e + 'a" where
  "ok_or e x = (case x of None \<Rightarrow> Inl e | Some y \<Rightarrow> Inr y)"

definition require :: "bool \<Rightarrow> 'e \<Rightarrow> 'e + unit" where
  "require b e = (if b then Inr () else Inl e)"

definition result_ok :: "'e + 'a \<Rightarrow> 'a option" where
  "result_ok r = (case r of Inl _ \<Rightarrow> None | Inr x \<Rightarrow> Some x)"

lemma res_bind_Inr [simp]: "res_bind r f = Inr y \<longleftrightarrow> (\<exists>x. r = Inr x \<and> f x = Inr y)"
  by (cases r) auto

lemma ok_or_Inr [simp]: "ok_or e x = Inr y \<longleftrightarrow> x = Some y"
  by (auto simp: ok_or_def split: option.splits)

lemma ok_or_Inl [simp]: "ok_or e x = Inl e' \<longleftrightarrow> x = None \<and> e' = e"
  by (auto simp: ok_or_def split: option.splits)

lemma ok_or_Some [simp]: "ok_or e (Some x) = Inr x"
  by (simp add: ok_or_def)

lemma require_Inr [simp]: "require b e = Inr u \<longleftrightarrow> b"
  by (simp add: require_def)

lemma require_Inl [simp]: "require b e = Inl e' \<longleftrightarrow> \<not> b \<and> e' = e"
  by (auto simp: require_def)

lemma result_ok_Some [simp]: "result_ok r = Some x \<longleftrightarrow> r = Inr x"
  by (auto simp: result_ok_def split: sum.splits)

lemma result_ok_simps [simp]: "result_ok (Inr x) = Some x" "result_ok (Inl e) = None"
  by (simp_all add: result_ok_def)

text \<open>What holds of every entry of an association list holds of what a lookup finds.\<close>

lemma map_of_list_all: "list_all P m \<Longrightarrow> map_of m k = Some v \<Longrightarrow> P (k, v)"
  by (auto simp: list_all_iff dest!: map_of_SomeD)

subsection \<open>Machines whose failed steps change nothing\<close>

lemma find_member: "find P xs = Some x \<Longrightarrow> x \<in> set xs \<and> P x"
  by (induction xs) (auto split: if_splits)

text \<open>
  A component whose operations return a new state or an error is run over a list of
  operations; an operation that fails leaves the state as it was, which is what a caller
  that reports the error and goes on sees.
\<close>

fun run_ops :: "('s \<Rightarrow> 'op \<Rightarrow> 'e + 's) \<Rightarrow> 's \<Rightarrow> 'op list \<Rightarrow> 's" where
  "run_ops step s [] = s"
| "run_ops step s (x # xs) =
     (case step s x of Inl _ \<Rightarrow> run_ops step s xs | Inr t \<Rightarrow> run_ops step t xs)"

locale invariant_machine =
  fixes step :: "'s \<Rightarrow> 'op \<Rightarrow> 'e + 's"
    and inv :: "'s \<Rightarrow> bool"
  assumes step_keeps: "inv s \<Longrightarrow> step s x = Inr t \<Longrightarrow> inv t"
begin

lemma run_keeps: "inv s \<Longrightarrow> inv (run_ops step s xs)"
  by (induction xs arbitrary: s) (auto split: sum.splits intro: step_keeps)

text \<open>A quantity no step changes is the same at the end of every run.\<close>

lemma run_constant:
  assumes "\<And>s x t. inv s \<Longrightarrow> step s x = Inr t \<Longrightarrow> f t = f s"
  shows "inv s \<Longrightarrow> f (run_ops step s xs) = f s"
proof (induction xs arbitrary: s)
  case (Cons x xs)
  then show ?case
    using step_keeps [of s x] assms [of s x] by (cases "step s x") auto
qed simp

end

end
