(* ===== verification/F64.thy ===== *)
theory F64
  imports Complex_Main Prelude "HOL-Library.Log_Nat"
begin

section \<open>Rust's f64, as far as the exchange uses it\<close>

text \<open>
  The wire carries a price and a quantity as IEEE binary64. The exchange multiplies one by
  100 or by 10, rounds, subtracts, compares and casts (\<open>domain.rs\<close>, \<open>to_grid\<close>),
  and divides a whole number by 100, 10 or 1000 on the way out (\<open>matcher.rs\<close>). A finite
  binary64 value is the rational it denotes; every arithmetic operation is the exact
  operation followed by one rounding to nearest, ties to even, with overflow to infinity
  (\<open>round64\<close>). The sign of a zero is dropped: no operation here can observe it.
\<close>

datatype f64 = Finite rat | Infinite bool | NaN

text \<open>\<open>floor_log2 x\<close> for a positive rational, from the bit lengths of its numerator and
  denominator.\<close>

definition pow2 :: "int \<Rightarrow> rat" where
  "pow2 k = (if 0 \<le> k then 2 ^ nat k else 1 / 2 ^ nat (- k))"

definition floor_log2 :: "rat \<Rightarrow> int" where
  "floor_log2 x =
     (let (a, b) = quotient_of x; k = bitlen a - bitlen b
      in if pow2 k \<le> x then k else k - 1)"

text \<open>Nearest integer, ties to even, and nearest integer, ties away from zero
  (\<open>f64::round\<close>).\<close>

definition round_even :: "rat \<Rightarrow> int" where
  "round_even y =
     (let n = \<lfloor>y\<rfloor>; d = y - of_int n
      in if d < 1 / 2 then n else if 1 / 2 < d then n + 1 else if even n then n else n + 1)"

definition round_away :: "rat \<Rightarrow> int" where
  "round_away y = (if 0 \<le> y then \<lfloor>y + 1 / 2\<rfloor> else - \<lfloor>- y + 1 / 2\<rfloor>)"

text \<open>Exponent of the last place of a binary64 result of magnitude \<open>x\<close>: 53 significant bits,
  never below the subnormal step \<open>2^-1074\<close>.\<close>

definition ulp_exp :: "rat \<Rightarrow> int" where
  "ulp_exp x = max (- 1074) (floor_log2 x - 52)"

definition f64_limit :: rat where
  "f64_limit = pow2 1024"

definition round_mag :: "rat \<Rightarrow> rat" where
  "round_mag x = of_int (round_even (x / pow2 (ulp_exp x))) * pow2 (ulp_exp x)"

definition round64 :: "rat \<Rightarrow> f64" where
  "round64 x =
     (if x = 0 then Finite 0
      else let m = round_mag \<bar>x\<bar> in
        if f64_limit \<le> m then Infinite (x < 0) else Finite (if x < 0 then - m else m))"

fun f64_is_finite :: "f64 \<Rightarrow> bool" where
  "f64_is_finite (Finite _) = True"
| "f64_is_finite _ = False"

text \<open>\<open>value * scale\<close> for a positive finite scale.\<close>

fun f64_scale :: "f64 \<Rightarrow> rat \<Rightarrow> f64" where
  "f64_scale (Finite x) s = round64 (x * s)"
| "f64_scale (Infinite n) s = Infinite n"
| "f64_scale NaN s = NaN"

text \<open>\<open>units as f64 / scale\<close> for an \<open>i64\<close>: the conversion rounds, then the quotient.\<close>

fun f64_div :: "f64 \<Rightarrow> rat \<Rightarrow> f64" where
  "f64_div (Finite x) s = round64 (x / s)"
| "f64_div (Infinite n) s = Infinite n"
| "f64_div NaN s = NaN"

definition f64_of_int :: "int \<Rightarrow> f64" where
  "f64_of_int n = round64 (of_int n)"

text \<open>The cast \<open>x as i64\<close> of a whole finite value saturates.\<close>

definition cast_i64 :: "rat \<Rightarrow> int" where
  "cast_i64 x = sat_i64 \<lfloor>x\<rfloor>"

text \<open>The literal \<open>1e-6\<close>: the binary64 value nearest to a millionth.\<close>

definition grid_tolerance :: rat where
  "grid_tolerance = (case round64 (1 / 1000000) of Finite x \<Rightarrow> x | _ \<Rightarrow> 0)"

end
