(* ===== verification/Domain.thy ===== *)
theory Domain
  imports F64
begin

section \<open>What a message is (services/src/domain.rs)\<close>

text \<open>
  The data every program of the exchange shares: sides, order terms, the five kinds of
  message with their envelope accessors, and \<open>to_grid\<close>, the one reading of a wire number
  as whole cents or whole tenths.
\<close>

subsection \<open>Sides and terms\<close>

datatype side = Buy | Sell

datatype order_type = Limit | Market

datatype time_in_force = GoodTillCancel | ImmediateOrCancel | FillOrKill

fun is_limit :: "order_type \<Rightarrow> bool" where
  "is_limit Limit = True"
| "is_limit Market = False"

fun is_good_till_cancel :: "time_in_force \<Rightarrow> bool" where
  "is_good_till_cancel GoodTillCancel = True"
| "is_good_till_cancel _ = False"

fun opposite :: "side \<Rightarrow> side" where
  "opposite Buy = Sell"
| "opposite Sell = Buy"

lemma opposite_opposite [simp]: "opposite (opposite s) = s"
  by (cases s) simp_all

lemma opposite_neq [simp]: "opposite s \<noteq> s" "s \<noteq> opposite s"
  by (cases s; simp)+

subsection \<open>Reading a side\<close>

text \<open>\<open>to_uppercase\<close> on the bytes the seven accepted spellings can hold: any string with
  another byte matches no arm either way.\<close>

definition upper_byte :: "char \<Rightarrow> char" where
  "upper_byte c =
     (if 97 \<le> (of_char c :: nat) \<and> (of_char c :: nat) \<le> 122
      then char_of ((of_char c :: nat) - 32) else c)"

definition side_from_str :: "string \<Rightarrow> string + side" where
  "side_from_str s =
     (let u = map upper_byte s
      in if u \<in> {''BUY'', ''BID'', ''B''} then Inr Buy
         else if u \<in> {''SELL'', ''ASK'', ''S''} then Inr Sell
         else Inl (CHR 39 # s @ CHR 39 # '' is not a valid side''))"

subsection \<open>Messages\<close>

type_synonym account_id = nat
type_synonym order_id = nat

definition OPERATOR_ACCOUNT :: account_id where
  "OPERATOR_ACCOUNT = u32_max"

datatype order_message =
  New (msg_id: order_id) (msg_timestamp: nat) (msg_account: account_id) string side f64 f64
    "string option" order_type time_in_force bool
| Cancel (msg_id: order_id) (msg_timestamp: nat) (msg_account: account_id) order_id
    "string option"
| EngineRule (msg_id: order_id) (msg_timestamp: nat) (msg_account: account_id) nat
    "string option" string string
| ListSymbol (msg_id: order_id) (msg_timestamp: nat) (msg_account: account_id) string f64 f64
    "string option" string string
| DelistSymbol (msg_id: order_id) (msg_timestamp: nat) (msg_account: account_id) string
    "string option" string string

fun msg_nonce :: "order_message \<Rightarrow> string option" where
  "msg_nonce (New _ _ _ _ _ _ _ nonce _ _ _) = nonce"
| "msg_nonce (Cancel _ _ _ _ nonce) = nonce"
| "msg_nonce (EngineRule _ _ _ _ nonce _ _) = nonce"
| "msg_nonce (ListSymbol _ _ _ _ _ _ nonce _ _) = nonce"
| "msg_nonce (DelistSymbol _ _ _ _ nonce _ _) = nonce"

fun msg_kind :: "order_message \<Rightarrow> string" where
  "msg_kind (New _ _ _ _ _ _ _ _ _ _ _) = ''New''"
| "msg_kind (Cancel _ _ _ _ _) = ''Cancel''"
| "msg_kind (EngineRule _ _ _ _ _ _ _) = ''EngineRule''"
| "msg_kind (ListSymbol _ _ _ _ _ _ _ _ _) = ''ListSymbol''"
| "msg_kind (DelistSymbol _ _ _ _ _ _ _) = ''DelistSymbol''"

subsection \<open>The grid\<close>

definition MAX_GRID_UNITS :: int where
  "MAX_GRID_UNITS = 1000000000"

text \<open>\<open>scaled.round()\<close> is exact on binary64, so only the product and the difference
  \<open>scaled - scaled.round()\<close> round.\<close>

definition to_grid :: "f64 \<Rightarrow> rat \<Rightarrow> int option" where
  "to_grid value scale =
     (case f64_scale value scale of
        Finite scaled \<Rightarrow>
          let rounded = of_int (round_away scaled) in
          (case round64 (scaled - rounded) of
             Finite off \<Rightarrow>
               if grid_tolerance < \<bar>off\<bar> then None
               else let units = cast_i64 rounded
                 in if 0 < units \<and> units \<le> MAX_GRID_UNITS then Some units else None
           | _ \<Rightarrow> None)
      | _ \<Rightarrow> None)"

lemma to_grid_range: "to_grid v s = Some u \<Longrightarrow> 0 < u \<and> u \<le> MAX_GRID_UNITS"
  by (auto simp: to_grid_def Let_def split: f64.splits if_splits)

lemma to_grid_in_i64: "to_grid v s = Some u \<Longrightarrow> in_i64 u"
  using to_grid_range [of v s u] by (auto simp: MAX_GRID_UNITS_def arith_defs)

subsection \<open>Whole numbers of units are read exactly\<close>

lemma round_even_int [simp]: "round_even (of_int n) = n"
  by (simp add: round_even_def Let_def)

lemma bitlen_one: "bitlen 1 = 1"
  by code_simp

lemma floor_log2_int: "0 < k \<Longrightarrow> k < 2 ^ 53 \<Longrightarrow> floor_log2 (of_int k) \<le> 52"
  using bitlen_le_iff_power [of k 53] bitlen_one by (simp add: floor_log2_def Let_def)

lemma pow2_neg: "e \<le> 0 \<Longrightarrow> pow2 e = 1 / 2 ^ nat (- e)"
  by (cases "e = 0") (simp_all add: pow2_def)

lemma round64_int:
  assumes "0 < k" and "k < 2 ^ 53"
  shows "round64 (of_int k) = Finite (of_int k)"
proof -
  let ?x = "of_int k :: rat" and ?e = "ulp_exp (of_int k)"
  have e: "?e \<le> 0" using floor_log2_int [OF assms] by (simp add: ulp_exp_def)
  have "?x / pow2 ?e = of_int (k * 2 ^ nat (- ?e))" by (simp add: pow2_neg [OF e])
  then have "round_mag ?x = of_int (k * 2 ^ nat (- ?e)) * pow2 ?e"
    unfolding round_mag_def by (simp only: round_even_int)
  also have "\<dots> = ?x" by (simp add: pow2_neg [OF e])
  finally have m: "round_mag ?x = ?x" .
  have "?x < 2 ^ 53" using assms(2) by (metis of_int_less_iff of_int_numeral of_int_power)
  also have "\<dots> \<le> f64_limit" by (simp add: f64_limit_def pow2_def)
  finally show ?thesis using assms(1) m by (simp add: round64_def Let_def)
qed

lemma round_away_int [simp]: "round_away (of_int n) = n"
proof -
  have "\<lfloor>(of_int m :: rat) + 1 / 2\<rfloor> = m" for m :: int
    by (rule floor_unique) simp_all
  from this [of n] this [of "- n"] show ?thesis by (simp add: round_away_def)
qed

lemma grid_tolerance_nonneg: "0 \<le> grid_tolerance"
proof -
  have "0 \<le> pow2 e" for e by (simp add: pow2_def)
  moreover have "0 \<le> round_even y" if "0 \<le> y" for y
    using that by (auto simp: round_even_def Let_def)
  ultimately have "0 \<le> round_mag (1 / 1000000)" by (simp add: round_mag_def)
  then show ?thesis by (simp add: grid_tolerance_def round64_def Let_def)
qed

lemma to_grid_whole:
  assumes "x * s = of_int k" and "0 < k" and "k \<le> MAX_GRID_UNITS"
  shows "to_grid (Finite x) s = Some k"
proof -
  have "round64 (x * s) = Finite (of_int k)"
    unfolding assms(1) using assms(2,3) by (intro round64_int) (simp_all add: MAX_GRID_UNITS_def)
  moreover have "round64 0 = Finite 0" by (simp add: round64_def)
  moreover have "cast_i64 (of_int k) = k"
    using assms(2,3) by (simp add: cast_i64_def sat_i64_def i64_min_def i64_max_def MAX_GRID_UNITS_def)
  ultimately show ?thesis using assms(2,3) grid_tolerance_nonneg by (simp add: to_grid_def Let_def)
qed

end
