(* ===== verification/Logchain.thy ===== *)
theory Logchain
  imports Prelude
begin

section \<open>Hex text and the chain hash (services/src/logchain.rs)\<close>

text \<open>
  Bytes are HOL characters (a \<open>char\<close> is one byte), so a Rust \<open>String\<close> is the list of its
  UTF-8 bytes. This theory models the hex writer and reader every signed statement goes
  through, the nonce form \<open>inbox.rs\<close> accepts, and the chain hash over the messages. SHA-256
  is third-party code: it is the argument \<open>sha\<close> of every definition that hashes.
\<close>

type_synonym bytes = string

subsection \<open>Hex\<close>

definition hex_digit :: "nat \<Rightarrow> char" where
  "hex_digit n = char_of (if n < 10 then 48 + n else 87 + n)"

definition to_hex :: "bytes \<Rightarrow> string" where
  "to_hex bs =
     concat (map (\<lambda>b. [hex_digit (of_char b div 16), hex_digit (of_char b mod 16)]) bs)"

definition hex_value :: "char \<Rightarrow> nat option" where
  "hex_value c =
     (let n = (of_char c :: nat)
      in if 48 \<le> n \<and> n \<le> 57 then Some (n - 48)
         else if 97 \<le> n \<and> n \<le> 102 then Some (n - 87)
         else if 65 \<le> n \<and> n \<le> 70 then Some (n - 55)
         else None)"

text \<open>\<open>u8::from_str_radix(&hex[i..i + 2], 16)\<close> on two bytes. The library accepts a leading
  \<open>+\<close> before at least one digit.\<close>

definition radix16_pair :: "char \<Rightarrow> char \<Rightarrow> nat option" where
  "radix16_pair c d =
     (if c = CHR ''+'' then hex_value d
      else do { a \<leftarrow> hex_value c; b \<leftarrow> hex_value d; Some (16 * a + b) })"

fun hex_pairs :: "string \<Rightarrow> bytes option" where
  "hex_pairs [] = Some []"
| "hex_pairs [c] = None"
| "hex_pairs (c # d # s) =
     do { n \<leftarrow> radix16_pair c d; rest \<leftarrow> hex_pairs s; Some (char_of n # rest) }"

definition is_ascii :: "string \<Rightarrow> bool" where
  "is_ascii s \<longleftrightarrow> (\<forall>c \<in> set s. (of_char c :: nat) < 128)"

definition from_hex :: "nat \<Rightarrow> string \<Rightarrow> bytes option" where
  "from_hex n hex = (if length hex \<noteq> n * 2 \<or> \<not> is_ascii hex then None else hex_pairs hex)"

text \<open>So a hexadecimal text of one byte may be \<open>+f\<close>.\<close>

lemma plus_pair_is_read: "from_hex 1 ''+f'' = Some [char_of (15 :: nat)]"
  by code_simp

text \<open>\<open>inbox.rs\<close>: a nonce is 32 lowercase hex characters, checked by reading and printing
  it again.\<close>

definition NONCE_BYTES :: nat where "NONCE_BYTES = 16"

definition canonical_nonce :: "string \<Rightarrow> bytes option" where
  "canonical_nonce nonce =
     do { b \<leftarrow> from_hex NONCE_BYTES nonce; if to_hex b = nonce then Some b else None }"

lemma of_char_less [simp]: "(of_char c :: nat) < 256"
  by (simp add: of_char_def)

lemma hex_digit_code:
  "n < 16 \<Longrightarrow> (of_char (hex_digit n) :: nat) = (if n < 10 then 48 + n else 87 + n)"
  by (simp add: hex_digit_def)

lemma hex_value_hex_digit [simp]: "n < 16 \<Longrightarrow> hex_value (hex_digit n) = Some n"
  by (auto simp: hex_value_def Let_def hex_digit_code)

lemma hex_digit_not_plus [simp]: "n < 16 \<Longrightarrow> hex_digit n \<noteq> CHR ''+''"
proof
  assume "n < 16" "hex_digit n = CHR ''+''"
  then have "(of_char (hex_digit n) :: nat) = of_char CHR ''+''" by simp
  with \<open>n < 16\<close> show False by (simp add: hex_digit_code split: if_splits)
qed

lemma radix16_hex_digits:
  "radix16_pair (hex_digit (of_char b div 16)) (hex_digit (of_char b mod 16)) = Some (of_char b)"
proof -
  have "(of_char b :: nat) div 16 < 16" using of_char_less [of b] by (simp add: less_mult_imp_div_less)
  then show ?thesis by (simp add: radix16_pair_def)
qed

lemma hex_pairs_to_hex [simp]: "hex_pairs (to_hex bs) = Some bs"
  by (induction bs) (simp_all add: to_hex_def radix16_hex_digits)

lemma length_to_hex [simp]: "length (to_hex bs) = length bs * 2"
  by (induction bs) (simp_all add: to_hex_def)

lemma hex_digit_ascii: "n < 16 \<Longrightarrow> (of_char (hex_digit n) :: nat) < 128"
  by (simp add: hex_digit_code)

lemma is_ascii_to_hex [simp]: "is_ascii (to_hex bs)"
proof -
  have "(of_char b :: nat) div 16 < 16" for b :: char
    using of_char_less [of b] by (simp add: less_mult_imp_div_less)
  then show ?thesis by (auto simp: is_ascii_def to_hex_def intro: hex_digit_ascii)
qed

lemma from_hex_to_hex: "length bs = n \<Longrightarrow> from_hex n (to_hex bs) = Some bs"
  by (simp add: from_hex_def)

lemma to_hex_inj: "to_hex a = to_hex b \<Longrightarrow> a = b"
  by (metis hex_pairs_to_hex option.inject)

lemma hex_pairs_length: "hex_pairs s = Some bs \<Longrightarrow> length s = 2 * length bs"
  by (induction s arbitrary: bs rule: hex_pairs.induct) (auto split: Option.bind_splits)

lemma canonical_nonce_iff:
  "canonical_nonce s = Some b \<longleftrightarrow> s = to_hex b \<and> length b = NONCE_BYTES"
  by (auto simp: canonical_nonce_def from_hex_def bind_eq_Some_conv split: if_splits
      dest: hex_pairs_length)

subsection \<open>The chain\<close>

definition EMPTY_CHAIN :: bytes where
  "EMPTY_CHAIN = replicate 32 (char_of (0 :: nat))"

definition extend_bytes :: "(bytes \<Rightarrow> bytes) \<Rightarrow> bytes \<Rightarrow> bytes \<Rightarrow> bytes" where
  "extend_bytes sha chain message_bytes = sha (chain @ message_bytes)"

end
