(* ===== verification/Operator.thy ===== *)
theory Operator
  imports Domain Logchain
begin

section \<open>Operator messages (services/src/operator.rs)\<close>

text \<open>
  The owner's three kinds of message carry a signature over a statement that names the kind,
  the session, the fields and the nonce. This theory models the statement, the symbol rule
  and the check of a message against the key of the log. Ed25519 is third-party code: a
  verifying key is its 32 bytes, \<open>point\<close> says whether \<open>VerifyingKey::from_bytes\<close>
  accepts them, and \<open>strict key statement signature\<close> is \<open>verify_strict\<close>.
\<close>

subsection \<open>Text\<close>

fun show_nat :: "nat \<Rightarrow> string" where
  "show_nat n = (if n < 10 then [char_of (48 + n)] else show_nat (n div 10) @ [char_of (48 + n mod 10)])"

declare show_nat.simps [simp del]

definition show_int :: "int \<Rightarrow> string" where
  "show_int i = (if i < 0 then CHR ''-'' # show_nat (nat (- i)) else show_nat (nat i))"

text \<open>\<open>str::trim\<close>: the UTF-8 encodings of the characters with the White\_Space property.\<close>

definition byte_string :: "nat list \<Rightarrow> string" where
  "byte_string = map char_of"

definition white_space :: "string list" where
  "white_space = map byte_string
     ([[9], [10], [11], [12], [13], [32], [194, 133], [194, 160], [225, 154, 128]]
      @ map (\<lambda>n. [226, 128, 128 + n]) [0..<11]
      @ [[226, 128, 168], [226, 128, 169], [226, 128, 175], [226, 129, 159], [227, 128, 128]])"

fun starts_with :: "string \<Rightarrow> string \<Rightarrow> bool" where
  "starts_with [] s = True"
| "starts_with (c # p) [] = False"
| "starts_with (c # p) (d # s) = (c = d \<and> starts_with p s)"

function strip_front :: "string list \<Rightarrow> string \<Rightarrow> string" where
  "strip_front toks s =
     (case find (\<lambda>t. t \<noteq> [] \<and> s \<noteq> [] \<and> starts_with t s) toks of
        None \<Rightarrow> s
      | Some t \<Rightarrow> strip_front toks (drop (length t) s))"
  by pat_completeness auto
termination
  by (relation "measure (\<lambda>(toks, s). length s)") (auto simp: find_Some_iff)

declare strip_front.simps [simp del]

definition trim :: "string \<Rightarrow> string" where
  "trim s = rev (strip_front (map rev white_space) (rev (strip_front white_space s)))"

subsection \<open>Symbols\<close>

datatype symbol_error = EmptySymbol | SymbolTooLong nat | BadSymbolByte char

definition MAX_SYMBOL_LENGTH :: nat where "MAX_SYMBOL_LENGTH = 32"

definition is_upper_byte :: "char \<Rightarrow> bool" where
  "is_upper_byte c \<longleftrightarrow> 65 \<le> (of_char c :: nat) \<and> (of_char c :: nat) \<le> 90"

definition is_digit_byte :: "char \<Rightarrow> bool" where
  "is_digit_byte c \<longleftrightarrow> 48 \<le> (of_char c :: nat) \<and> (of_char c :: nat) \<le> 57"

definition symbol_byte :: "char \<Rightarrow> bool" where
  "symbol_byte c \<longleftrightarrow> is_upper_byte c \<or> is_digit_byte c \<or> c = CHR ''-''"

definition valid_symbol :: "string \<Rightarrow> symbol_error + unit" where
  "valid_symbol symbol =
     (if symbol = [] then Inl EmptySymbol
      else if MAX_SYMBOL_LENGTH < length symbol then Inl (SymbolTooLong (length symbol))
      else case find (\<lambda>c. \<not> symbol_byte c) symbol of
             Some bad \<Rightarrow> Inl (BadSymbolByte bad)
           | None \<Rightarrow> Inr ())"

lemma valid_symbol_iff:
  "valid_symbol s = Inr u \<longleftrightarrow> s \<noteq> [] \<and> length s \<le> MAX_SYMBOL_LENGTH \<and> list_all symbol_byte s"
  by (auto simp: valid_symbol_def find_None_iff list_all_iff split: option.splits)
    (metis find_None_iff option.distinct(1))

subsection \<open>Statements\<close>

datatype operator_kind = OpList | OpDelist | OpRule

fun op_prefix :: "operator_kind \<Rightarrow> string" where
  "op_prefix OpList = ''exchange-operator-list-v1''"
| "op_prefix OpDelist = ''exchange-operator-delist-v1''"
| "op_prefix OpRule = ''exchange-operator-rule-v1''"

fun join_lines :: "string list \<Rightarrow> string" where
  "join_lines [] = []"
| "join_lines [l] = l"
| "join_lines (l # ls) = l @ CHR 10 # join_lines ls"

definition operator_statement :: "operator_kind \<Rightarrow> string \<Rightarrow> string list \<Rightarrow> bytes" where
  "operator_statement kind session fields = join_lines (op_prefix kind # session # fields)"

datatype operator_error =
  NoNonce | BadNonce | BadSymbol symbol_error | BadPriceStep | BadQuantityStep | NotOperatorKind
| BadPublicKey | UntrustedKey | BadSignatureText | BadSignature | NotOnCurve

definition kind_and_fields :: "order_message \<Rightarrow> operator_error + (operator_kind \<times> string list)" where
  "kind_and_fields message =
     res_bind (ok_or NoNonce (msg_nonce message)) (\<lambda>text.
     res_bind (ok_or BadNonce (canonical_nonce text)) (\<lambda>raw.
     let nonce = to_hex raw in
     case message of
       ListSymbol _ _ _ symbol price_step quantity_step _ _ _ \<Rightarrow>
         (case valid_symbol symbol of
            Inl e \<Rightarrow> Inl (BadSymbol e)
          | Inr _ \<Rightarrow>
              res_bind (ok_or BadPriceStep (to_grid price_step 100)) (\<lambda>price_step_cents.
              res_bind (ok_or BadQuantityStep (to_grid quantity_step 10)) (\<lambda>quantity_step_tenths.
              Inr (OpList, [symbol, show_int price_step_cents, show_int quantity_step_tenths, nonce]))))
     | DelistSymbol _ _ _ symbol _ _ _ \<Rightarrow>
         (case valid_symbol symbol of
            Inl e \<Rightarrow> Inl (BadSymbol e)
          | Inr _ \<Rightarrow> Inr (OpDelist, [symbol, nonce]))
     | EngineRule _ _ _ version _ _ _ \<Rightarrow> Inr (OpRule, [show_nat version, nonce])
     | New _ _ _ _ _ _ _ _ _ _ _ \<Rightarrow> Inl NotOperatorKind
     | Cancel _ _ _ _ _ \<Rightarrow> Inl NotOperatorKind))"

fun fields_of :: "order_message \<Rightarrow> operator_error + (string \<times> string)" where
  "fields_of (EngineRule _ _ _ _ _ public_key signature) = Inr (public_key, signature)"
| "fields_of (ListSymbol _ _ _ _ _ _ _ public_key signature) = Inr (public_key, signature)"
| "fields_of (DelistSymbol _ _ _ _ _ public_key signature) = Inr (public_key, signature)"
| "fields_of _ = Inl NotOperatorKind"

subsection \<open>The check\<close>

definition operator_verify ::
  "(bytes \<Rightarrow> bytes \<Rightarrow> bytes \<Rightarrow> bool) \<Rightarrow> order_message \<Rightarrow> string \<Rightarrow> bytes \<Rightarrow> operator_error + unit" where
  "operator_verify strict message session key =
     res_bind (fields_of message) (\<lambda>(public_key, signature).
     res_bind (ok_or BadPublicKey (from_hex 32 (trim public_key))) (\<lambda>named.
     res_bind (require (named = key) UntrustedKey) (\<lambda>_.
     res_bind (ok_or BadSignatureText (from_hex 64 (trim signature))) (\<lambda>signature_bytes.
     res_bind (kind_and_fields message) (\<lambda>(kind, fields).
     require (strict key (operator_statement kind session fields) signature_bytes)
       BadSignature)))))"

definition named_key :: "(bytes \<Rightarrow> bool) \<Rightarrow> order_message \<Rightarrow> operator_error + bytes" where
  "named_key point message =
     res_bind (fields_of message) (\<lambda>(public_key, _).
     res_bind (ok_or BadPublicKey (from_hex 32 (trim public_key))) (\<lambda>bytes.
     if point bytes then Inr bytes else Inl NotOnCurve))"

subsection \<open>Keys and signatures in canonical hex\<close>

lemma white_space_codes:
  assumes "t \<in> set white_space"
  shows "t \<noteq> [] \<and> ((of_char (hd t) :: nat) < 48 \<or> 102 < (of_char (hd t) :: nat)) \<and>
    ((of_char (last t) :: nat) < 48 \<or> 102 < (of_char (last t) :: nat))"
  using assms by (auto simp: white_space_def byte_string_def)

lemma starts_with_hd: "starts_with t s \<Longrightarrow> t \<noteq> [] \<Longrightarrow> s \<noteq> [] \<and> hd t = hd s"
  by (cases t; cases s) auto

lemma strip_front_id:
  "list_all (\<lambda>t. s = [] \<or> t = [] \<or> hd t \<noteq> hd s) toks \<Longrightarrow> strip_front toks s = s"
  by (subst strip_front.simps) (auto simp: list_all_iff find_None_iff find_Some_iff split: option.splits dest!: starts_with_hd)

lemma hex_ends:
  assumes "bs \<noteq> []"
  shows "\<exists>n < 16. hd (to_hex bs) = hex_digit n" "\<exists>n < 16. last (to_hex bs) = hex_digit n"
proof -
  obtain b r where "bs = b # r" using assms by (cases bs) auto
  moreover have "(of_char b :: nat) div 16 < 16" for b :: char
    using of_char_less [of b] by (simp add: less_mult_imp_div_less)
  ultimately show "\<exists>n < 16. hd (to_hex bs) = hex_digit n" by (auto simp: to_hex_def)
  have "last (to_hex bs) = hex_digit (of_char (last bs) mod 16)"
    using assms by (induction bs) (auto simp: to_hex_def)
  then show "\<exists>n < 16. last (to_hex bs) = hex_digit n" by (intro exI [of _ "of_char (last bs) mod 16"]) simp
qed

text \<open>Hex text has no white space to trim.\<close>

lemma trim_to_hex: "trim (to_hex bs) = to_hex bs"
proof (cases "bs = []")
  case True
  then show ?thesis using strip_front_id [of "[]"] by (simp add: trim_def to_hex_def list_all_iff)
next
  case False
  have ne: "to_hex bs \<noteq> []" using False length_to_hex [of bs] by (metis length_0_conv mult_is_0 zero_neq_numeral)
  have w: "t \<noteq> [] \<and> (\<forall>n < 16. hd t \<noteq> hex_digit n \<and> last t \<noteq> hex_digit n)" if "t \<in> set white_space" for t
    using white_space_codes [OF that] hex_digit_code by (auto split: if_splits)
  have "strip_front white_space (to_hex bs) = to_hex bs"
    using w hex_ends(1) [OF False] by (intro strip_front_id) (force simp: list_all_iff)
  moreover have "strip_front (map rev white_space) (rev (to_hex bs)) = rev (to_hex bs)"
    using w hex_ends(2) [OF False] ne by (intro strip_front_id) (force simp: list_all_iff hd_rev)
  ultimately show ?thesis by (simp add: trim_def)
qed
end
