(* ===== verification/Ordered_Map.thy ===== *)
theory Ordered_Map
  imports Prelude
begin

section \<open>Rust's BTreeMap as a strictly sorted association list\<close>

text \<open>
  \<open>BTreeMap<K, V>\<close> iterates in key order and holds one value per key, so a value of it is
  the list of its entries, strictly sorted on the keys. \<open>bput\<close> is \<open>insert\<close>,
  \<open>bdel\<close> is \<open>remove\<close>, \<open>map_of\<close> is \<open>get\<close>, the list itself is the
  iteration. A \<open>HashMap\<close> is modelled by the same lists: the source never lets the
  iteration order of one reach a result (it sorts, counts or sums what it reads).

  The locale \<open>ordered_map\<close> is the contract the components rely on; its lemmas (the sum
  over the entries after an update, extensionality, updates that commute) are proved from
  the contract once.
\<close>

lemma eq_on_sorted_keys:
  fixes xs ys :: "('k::linorder \<times> 'v) list"
  assumes "sorted_wrt (<) (map fst xs)" and "sorted_wrt (<) (map fst ys)"
    and "\<And>k v. (k, v) \<in> set xs \<longleftrightarrow> (k, v) \<in> set ys"
  shows "xs = ys"
proof -
  have eq: "set xs = set ys" using assms(3) by auto
  have "inj_on fst (set xs \<union> set ys)"
    using assms(1) by (simp add: eq [symmetric] strict_sorted_iff distinct_map)
  then show ?thesis
    by (rule map_sorted_distinct_set_unique) (use assms eq in \<open>simp_all add: strict_sorted_iff\<close>)
qed

subsection \<open>The contract\<close>

locale ordered_map =
  fixes get :: "'m \<Rightarrow> 'k::linorder \<Rightarrow> 'v option"
    and put :: "'m \<Rightarrow> 'k \<Rightarrow> 'v \<Rightarrow> 'm"
    and del :: "'m \<Rightarrow> 'k \<Rightarrow> 'm"
    and entries :: "'m \<Rightarrow> ('k \<times> 'v) list"
    and ok :: "'m \<Rightarrow> bool"
  assumes get_put: "ok m \<Longrightarrow> get (put m k v) = (get m)(k \<mapsto> v)"
    and get_del: "ok m \<Longrightarrow> get (del m k) = (get m)(k := None)"
    and ok_put: "ok m \<Longrightarrow> ok (put m k v)"
    and ok_del: "ok m \<Longrightarrow> ok (del m k)"
    and entries_sorted: "ok m \<Longrightarrow> sorted_wrt (<) (map fst (entries m))"
    and entries_get: "ok m \<Longrightarrow> map_of (entries m) = get m"
begin

lemma entries_distinct: "ok m \<Longrightarrow> distinct (map fst (entries m))"
  using entries_sorted [of m] by (simp add: strict_sorted_iff)

lemma entries_iff: "ok m \<Longrightarrow> (k, v) \<in> set (entries m) \<longleftrightarrow> get m k = Some v"
  by (metis entries_distinct entries_get map_of_eq_Some_iff)

lemma finite_dom_get: "ok m \<Longrightarrow> finite (dom (get m))"
  by (metis entries_get finite_dom_map_of)

lemma entries_ext: "ok m \<Longrightarrow> ok m' \<Longrightarrow> get m = get m' \<Longrightarrow> entries m = entries m'"
  by (metis entries_iff entries_sorted eq_on_sorted_keys)

lemma total_dom:
  fixes f :: "'k \<times> 'v \<Rightarrow> 'n::ab_group_add"
  assumes "ok m"
  shows "(\<Sum>e\<leftarrow>entries m. f e) = (\<Sum>k\<in>dom (get m). f (k, the (get m k)))"
proof -
  have "distinct (entries m)"
    using entries_distinct [OF assms] by (simp add: distinct_map)
  then have "(\<Sum>e\<leftarrow>entries m. f e) = sum f (set (entries m))"
    by (rule sum_list_distinct_conv_sum_set)
  also have "set (entries m) = (\<lambda>k. (k, the (get m k))) ` dom (get m)"
    by (auto simp: entries_iff [OF assms] image_iff)
  also have "sum f \<dots> = (\<Sum>k\<in>dom (get m). f (k, the (get m k)))"
    by (subst sum.reindex) (auto intro: inj_onI)
  finally show ?thesis .
qed

lemma total_put:
  fixes f :: "'k \<times> 'v \<Rightarrow> 'n::ab_group_add"
  assumes "ok m"
  shows "(\<Sum>e\<leftarrow>entries (put m k v). f e) =
    (\<Sum>e\<leftarrow>entries m. f e) - (case get m k of None \<Rightarrow> 0 | Some w \<Rightarrow> f (k, w)) + f (k, v)"
proof -
  let ?g = "\<lambda>k'. f (k', the (get m k'))"
  have fin: "finite (dom (get m))" by (rule finite_dom_get [OF assms])
  have new: "(\<Sum>e\<leftarrow>entries (put m k v). f e) = (\<Sum>k'\<in>dom (get m) - {k}. ?g k') + f (k, v)"
    using fin by (simp add: total_dom ok_put get_put assms sum.insert_remove add.commute)
  show ?thesis
  proof (cases "get m k")
    case None
    then have "dom (get m) - {k} = dom (get m)" by auto
    then show ?thesis using new None by (simp add: total_dom assms)
  next
    case (Some w)
    then have "k \<in> dom (get m)" by auto
    with fin have "(\<Sum>k'\<in>dom (get m). ?g k') = ?g k + (\<Sum>k'\<in>dom (get m) - {k}. ?g k')"
      by (rule sum.remove)
    then show ?thesis using new Some by (simp add: total_dom assms)
  qed
qed

lemma total_del:
  fixes f :: "'k \<times> 'v \<Rightarrow> 'n::ab_group_add"
  assumes "ok m"
  shows "(\<Sum>e\<leftarrow>entries (del m k). f e) =
    (\<Sum>e\<leftarrow>entries m. f e) - (case get m k of None \<Rightarrow> 0 | Some w \<Rightarrow> f (k, w))"
proof -
  let ?g = "\<lambda>k'. f (k', the (get m k'))"
  have fin: "finite (dom (get m))" by (rule finite_dom_get [OF assms])
  have new: "(\<Sum>e\<leftarrow>entries (del m k). f e) = (\<Sum>k'\<in>dom (get m) - {k}. ?g k')"
    by (simp add: total_dom ok_del get_del assms)
  show ?thesis
  proof (cases "get m k")
    case None
    then have "dom (get m) - {k} = dom (get m)" by auto
    then show ?thesis using new None by (simp add: total_dom assms)
  next
    case (Some w)
    then have "k \<in> dom (get m)" by auto
    with fin have "(\<Sum>k'\<in>dom (get m). ?g k') = ?g k + (\<Sum>k'\<in>dom (get m) - {k}. ?g k')"
      by (rule sum.remove)
    then show ?thesis using new Some by (simp add: total_dom assms)
  qed
qed

lemma put_put: "ok m \<Longrightarrow> entries (put (put m k v) k w) = entries (put m k w)"
  by (rule entries_ext) (simp_all add: ok_put get_put)

lemma put_commute:
  "ok m \<Longrightarrow> k \<noteq> k' \<Longrightarrow> entries (put (put m k v) k' w) = entries (put (put m k' w) k v)"
  by (rule entries_ext) (simp_all add: ok_put get_put fun_upd_twist)

lemma put_same: "ok m \<Longrightarrow> get m k = Some v \<Longrightarrow> entries (put m k v) = entries m"
  by (rule entries_ext) (simp_all add: ok_put get_put fun_upd_idem)

lemma del_put: "ok m \<Longrightarrow> get m k = None \<Longrightarrow> entries (del (put m k v) k) = entries m"
  by (rule entries_ext) (simp_all add: ok_put ok_del get_put get_del fun_upd_idem)

end

subsection \<open>The model's ordered map\<close>

type_synonym ('k, 'v) bmap = "('k \<times> 'v) list"

fun bput :: "('k::linorder, 'v) bmap \<Rightarrow> 'k \<Rightarrow> 'v \<Rightarrow> ('k, 'v) bmap" where
  "bput [] k v = [(k, v)]"
| "bput ((k', v') # m) k v =
     (if k < k' then (k, v) # (k', v') # m
      else if k = k' then (k, v) # m
      else (k', v') # bput m k v)"

definition bdel :: "('k::linorder, 'v) bmap \<Rightarrow> 'k \<Rightarrow> ('k, 'v) bmap" where
  "bdel m k = filter (\<lambda>e. fst e \<noteq> k) m"

definition bmap_ok :: "('k::linorder, 'v) bmap \<Rightarrow> bool" where
  "bmap_ok m \<longleftrightarrow> sorted_wrt (<) (map fst m)"

text \<open>\<open>get(..).copied().unwrap_or(d)\<close>, and \<open>collect()\<close> of a sequence of pairs.\<close>

definition bget_or :: "'v \<Rightarrow> ('k::linorder, 'v) bmap \<Rightarrow> 'k \<Rightarrow> 'v" where
  "bget_or d m k = (case map_of m k of None \<Rightarrow> d | Some v \<Rightarrow> v)"

definition bcollect :: "('k::linorder \<times> 'v) list \<Rightarrow> ('k, 'v) bmap" where
  "bcollect xs = foldl (\<lambda>m e. bput m (fst e) (snd e)) [] xs"

lemma map_of_bput [simp]: "map_of (bput m k v) = (map_of m)(k \<mapsto> v)"
  by (induction m k v rule: bput.induct) (auto simp: fun_eq_iff)

lemma map_of_bdel [simp]: "map_of (bdel m k) = (map_of m)(k := None)"
  by (induction m) (auto simp: bdel_def fun_eq_iff)

lemma set_bput_subset: "set (bput m k v) \<subseteq> insert (k, v) (set m)"
  by (induction m k v rule: bput.induct) auto

lemma list_all_bput: "list_all P m \<Longrightarrow> P (k, v) \<Longrightarrow> list_all P (bput m k v)"
  using set_bput_subset [of m k v] by (auto simp: list_all_iff)

lemma keys_bput: "fst ` set (bput m k v) = insert k (fst ` set m)"
  by (induction m k v rule: bput.induct) auto

lemma bmap_ok_Nil [simp, intro]: "bmap_ok []"
  by (simp add: bmap_ok_def)

lemma bmap_ok_Cons: "bmap_ok ((k, v) # m) \<longleftrightarrow> (\<forall>e \<in> set m. k < fst e) \<and> bmap_ok m"
  by (auto simp: bmap_ok_def)

lemma bmap_ok_bput [simp, intro]: "bmap_ok m \<Longrightarrow> bmap_ok (bput m k v)"
proof (induction m k v rule: bput.induct)
  case (2 k' v' m k v)
  have "\<forall>e \<in> set (bput m k v). k' < fst e" if "k' < k"
    using that "2.prems" set_bput_subset [of m k v] by (auto simp: bmap_ok_Cons)
  with 2 show ?case by (force simp: bmap_ok_Cons not_less)
qed (simp add: bmap_ok_Cons)

lemma bmap_ok_filter [simp, intro]: "bmap_ok m \<Longrightarrow> bmap_ok (filter P m)"
  by (simp add: bmap_ok_def sorted_wrt_filter sorted_wrt_map)

lemma bmap_ok_bdel [simp, intro]: "bmap_ok m \<Longrightarrow> bmap_ok (bdel m k)"
  by (simp add: bdel_def)

interpretation bm: ordered_map map_of bput bdel "\<lambda>m. m" bmap_ok
  by unfold_locales (simp_all, simp add: bmap_ok_def)

lemmas bsum_simps = bm.total_put bm.total_del

lemma bmap_ok_distinct: "bmap_ok m \<Longrightarrow> distinct (map fst m)"
  by (rule bm.entries_distinct)

lemma map_of_filter_distinct:
  "distinct (map fst m) \<Longrightarrow> map_of (filter P m) k =
     (case map_of m k of None \<Rightarrow> None | Some v \<Rightarrow> if P (k, v) then Some v else None)"
proof (induction m)
  case (Cons e m)
  have "map_of (filter P m) k = None" if "k \<notin> fst ` set m"
    using that by (auto simp: map_of_eq_None_iff)
  with Cons show ?case by (cases e) (auto simp: map_of_eq_None_iff split: option.splits)
qed simp

lemma bget_or_bput: "bget_or d (bput m k v) k' = (if k' = k then v else bget_or d m k')"
  by (simp add: bget_or_def)

lemma bmap_ok_bcollect [simp]: "bmap_ok (bcollect xs)"
proof -
  have "bmap_ok m \<Longrightarrow> bmap_ok (foldl (\<lambda>m e. bput m (fst e) (snd e)) m xs)" for m
    by (induction xs arbitrary: m) auto
  then show ?thesis by (simp add: bcollect_def)
qed

lemma map_of_bcollect:
  assumes "distinct (map fst xs)"
  shows "map_of (bcollect xs) = map_of xs"
proof -
  have "map_of (foldl (\<lambda>m e. bput m (fst e) (snd e)) m xs) = map_of m ++ map_of xs" for m
    using assms
  proof (induction xs arbitrary: m)
    case (Cons e xs)
    then have "e \<in> set (e # xs)" "fst e \<notin> dom (map_of xs)"
      by (auto simp: dom_map_of_conv_image_fst)
    then have "(map_of m)(fst e \<mapsto> snd e) ++ map_of xs = map_of m ++ (map_of xs)(fst e \<mapsto> snd e)"
      by (auto simp: fun_eq_iff map_add_def split: option.splits)
    with Cons show ?case by (simp add: fun_upd_def)
  qed simp
  then show ?thesis by (simp add: bcollect_def)
qed

lemma bcollect_id: "bmap_ok m \<Longrightarrow> bcollect m = m"
  by (rule bm.entries_ext) (simp_all add: map_of_bcollect bmap_ok_distinct)

lemma length_bput:
  "bmap_ok m \<Longrightarrow> length (bput m k v) = (if map_of m k = None then Suc (length m) else length m)"
proof (induction m k v rule: bput.induct)
  case (2 k' v' m k v)
  have "map_of m k = None" if "k < k'"
    using 2(2) that by (force simp: bmap_ok_Cons map_of_eq_None_iff)
  with 2 show ?case by (auto simp: bmap_ok_Cons)
qed simp

end
