(* ===== verification/Ledger.thy ===== *)
theory Ledger
  imports Operator Ordered_Map
begin

section \<open>The funded ledger (services/src/ledger.rs)\<close>

text \<open>
  The spot simulation: spendable and reserved units of each asset per account, the
  reservation behind every open order, and the sequence cursor. All amounts are checked
  \<open>i64\<close> arithmetic, sums of a fill are \<open>i128\<close> (four \<open>i64\<close> terms at most, so written as
  plain integers). A failed operation returns an error and no ledger: the caller's ledger
  is unchanged, as in the source, where every failure precedes the first mutation.
\<close>

subsection \<open>Data\<close>

definition ASSET_SCALE :: int where "ASSET_SCALE = 1000"
definition LEDGER_VERSION :: nat where "LEDGER_VERSION = 1"

datatype ledger_mode = SyntheticLegacy | FundedSimulation

record market_assets =
  ma_symbol :: string
  base_asset :: string
  quote_asset :: string

record funding =
  fu_account :: account_id
  fu_asset :: string
  fu_units :: int

record funding_config =
  fc_markets :: "market_assets list"
  fc_funding :: "funding list"
  fee_units :: int

record balance =
  available :: int
  reserved :: int

definition no_balance :: balance where
  "no_balance = \<lparr>available = 0, reserved = 0\<rparr>"

record reservation =
  rsv_order_id :: order_id
  rsv_account :: account_id
  rsv_symbol :: string
  rsv_side :: side
  rsv_limit_cents :: int
  rsv_remaining_tenths :: int
  rsv_asset :: string
  rsv_units :: int

type_synonym balance_key = "account_id \<times> string"

record ledger =
  lg_mode :: ledger_mode
  lg_config :: "funding_config option"
  lg_last_sequence :: order_id
  lg_balances :: "(balance_key, balance) bmap"
  lg_reservations :: "(order_id, reservation) bmap"

record balance_row =
  br_account :: account_id
  br_asset :: string
  br_balance :: balance

record ledger_snapshot =
  ls_version :: nat
  ls_mode :: ledger_mode
  ls_asset_scale :: int
  ls_config :: "funding_config option"
  ls_last_sequence :: order_id
  ls_balances :: "balance_row list"
  ls_reservations :: "reservation list"

text \<open>The persisted form of an open order (\<open>store.rs\<close>).\<close>

record order_row =
  or_order_id :: order_id
  or_account :: account_id
  or_symbol :: string
  or_side :: side
  or_price_cents :: int
  or_qty_tenths :: int

datatype ledger_error =
  SequenceExhausted | ReplayedSequence | NoAssetMapping string | NonPositiveTerms
| ReservationOverflow | InsufficientAvailable string account_id | ReserveOverflow | BadBalance
| FillOutsideSequence | InvalidFill | MakerMissing | TakerMissing | ReservationsDisagree
| FillExceedsTerms | BaseOverflow | QuoteOverflow | BuyReserveOverflow | ImprovementOverflow
| AvailableOverflow | ReservedOverflow | FillUnderflow | ReservedBalanceMissing
| ReleaseOverflow | ReleaseUnderflow | SequenceOutOfOrder | UnsupportedSnapshot
| SyntheticHasFunds | FundedConfigMissing | DuplicateBalance | OutsideHistory
| DuplicateReservation | UnconfiguredAsset | AssetTotalDiffers | TermsDisagree
| ObligationsOverflow | ReservedDiffers | ObligationWithoutBalance | OpenOrdersDiffer
| DuplicateOpenOrder | OpenOrderLacksReservation | OpenOrderDiffers | CursorDiffers | BadPolicy
| BadMarketMapping | BadGenesisFunding

subsection \<open>Amounts\<close>

definition check_balance :: "balance \<Rightarrow> ledger_error + unit" where
  "check_balance b =
     require (\<not> (available b < 0 \<or> reserved b < 0 \<or> checked_add (available b) (reserved b) = None))
       BadBalance"

definition reserve_units :: "side \<Rightarrow> int \<Rightarrow> int \<Rightarrow> ledger_error + int" where
  "reserve_units sd price_cents qty_tenths =
     (if price_cents \<le> 0 \<or> qty_tenths \<le> 0 then Inl NonPositiveTerms
      else ok_or ReservationOverflow
        (case sd of
           Buy \<Rightarrow> checked_mul price_cents qty_tenths
         | Sell \<Rightarrow> checked_mul qty_tenths 100))"

definition after_fill :: "reservation \<Rightarrow> int \<Rightarrow> ledger_error + reservation" where
  "after_fill before qty_tenths =
     res_bind
       (ok_or FillUnderflow
         (do { left \<leftarrow> checked_sub (rsv_remaining_tenths before) qty_tenths;
               if 0 \<le> left then Some left else None }))
       (\<lambda>left.
     res_bind
       (if left = 0 then Inr 0 else reserve_units (rsv_side before) (rsv_limit_cents before) left)
       (\<lambda>units. Inr (before\<lparr>rsv_remaining_tenths := left, rsv_units := units\<rparr>)))"

definition add_delta ::
  "(balance_key, int \<times> int) bmap \<Rightarrow> account_id \<Rightarrow> string \<Rightarrow> int \<Rightarrow> int \<Rightarrow>
   (balance_key, int \<times> int) bmap" where
  "add_delta into account asset av rv =
     (let entry = bget_or (0, 0) into (account, asset)
      in bput into (account, asset) (fst entry + av, snd entry + rv))"

subsection \<open>Configuration\<close>

definition asset_byte :: "char \<Rightarrow> bool" where
  "asset_byte c \<longleftrightarrow> is_upper_byte c \<or> is_digit_byte c \<or> c = CHR ''_''"

definition valid_asset :: "string \<Rightarrow> bool" where
  "valid_asset asset \<longleftrightarrow> asset \<noteq> [] \<and> length asset \<le> 32 \<and> list_all asset_byte asset"

text \<open>The loop over the markets: the symbols seen so far on the way in, the assets on the
  way out. One refusal for all causes.\<close>

fun check_markets ::
  "string list \<Rightarrow> string list \<Rightarrow> market_assets list \<Rightarrow> ledger_error + string list" where
  "check_markets symbols assets [] = Inr assets"
| "check_markets symbols assets (m # ms) =
     (if result_ok (valid_symbol (ma_symbol m)) = None
         \<or> ma_symbol m \<in> set symbols
         \<or> \<not> valid_asset (base_asset m)
         \<or> \<not> valid_asset (quote_asset m)
         \<or> base_asset m = quote_asset m
      then Inl BadMarketMapping
      else check_markets (ma_symbol m # symbols) (base_asset m # quote_asset m # assets) ms)"

fun check_funding ::
  "string list \<Rightarrow> balance_key list \<Rightarrow> funding list \<Rightarrow> ledger_error + unit" where
  "check_funding assets funded [] = Inr ()"
| "check_funding assets funded (g # gs) =
     (if fu_units g \<le> 0 \<or> fu_asset g \<notin> set assets \<or> (fu_account g, fu_asset g) \<in> set funded
      then Inl BadGenesisFunding
      else check_funding assets ((fu_account g, fu_asset g) # funded) gs)"

definition validate_config :: "funding_config \<Rightarrow> ledger_error + unit" where
  "validate_config config =
     (if fee_units config \<noteq> 0 \<or> fc_markets config = [] then Inl BadPolicy
      else res_bind (check_markets [] [] (fc_markets config)) (\<lambda>assets.
        check_funding assets [] (fc_funding config)))"

definition synthetic_legacy :: ledger where
  "synthetic_legacy =
     \<lparr>lg_mode = SyntheticLegacy, lg_config = None, lg_last_sequence = 0,
      lg_balances = [], lg_reservations = []\<rparr>"

definition sorted_config :: "funding_config \<Rightarrow> funding_config" where
  "sorted_config config =
     config\<lparr>fc_markets := sort_key ma_symbol (fc_markets config),
            fc_funding := sort_key (\<lambda>g. (fu_account g, fu_asset g)) (fc_funding config)\<rparr>"

definition funded :: "funding_config \<Rightarrow> ledger_error + ledger" where
  "funded config0 =
     (let config = sorted_config config0 in
      res_bind (validate_config config) (\<lambda>_.
      Inr \<lparr>lg_mode = FundedSimulation, lg_config = Some config, lg_last_sequence = 0,
           lg_balances = bcollect
             (map (\<lambda>g. ((fu_account g, fu_asset g), \<lparr>available = fu_units g, reserved = 0\<rparr>))
               (fc_funding config)),
           lg_reservations = []\<rparr>))"

subsection \<open>Reading\<close>

definition is_funded :: "ledger \<Rightarrow> bool" where
  "is_funded l \<longleftrightarrow> lg_mode l = FundedSimulation"

definition balance_of :: "ledger \<Rightarrow> account_id \<Rightarrow> string \<Rightarrow> balance" where
  "balance_of l account asset = bget_or no_balance (lg_balances l) (account, asset)"

definition config_market :: "funding_config \<Rightarrow> string \<Rightarrow> market_assets option" where
  "config_market config symbol = find (\<lambda>m. ma_symbol m = symbol) (fc_markets config)"

definition ledger_market :: "ledger \<Rightarrow> string \<Rightarrow> ledger_error + market_assets" where
  "ledger_market l symbol =
     ok_or (NoAssetMapping symbol)
       (do { config \<leftarrow> lg_config l; config_market config symbol })"

fun reserve_asset :: "side \<Rightarrow> market_assets \<Rightarrow> string" where
  "reserve_asset Buy m = quote_asset m"
| "reserve_asset Sell m = base_asset m"

subsection \<open>Reserve\<close>

definition reserve ::
  "ledger \<Rightarrow> order_id \<Rightarrow> account_id \<Rightarrow> string \<Rightarrow> side \<Rightarrow> int \<Rightarrow> int \<Rightarrow> ledger_error + ledger" where
  "reserve l order account symbol sd limit_cents qty_tenths =
     (if \<not> is_funded l then Inr l else
      res_bind (ok_or SequenceExhausted (checked_add_u64 (lg_last_sequence l) 1)) (\<lambda>expected.
      res_bind (require (\<not> (order \<noteq> expected \<or> map_of (lg_reservations l) order \<noteq> None))
                 ReplayedSequence) (\<lambda>_.
      res_bind (ledger_market l symbol) (\<lambda>market.
      let asset = reserve_asset sd market in
      res_bind (reserve_units sd limit_cents qty_tenths) (\<lambda>units.
      let before = balance_of l account asset in
      res_bind (ok_or (InsufficientAvailable asset account)
                 (do { amount \<leftarrow> checked_sub (available before) units;
                       if 0 \<le> amount then Some amount else None })) (\<lambda>avail'.
      res_bind (ok_or ReserveOverflow (checked_add (reserved before) units)) (\<lambda>reserved'.
      let after = \<lparr>available = avail', reserved = reserved'\<rparr> in
      res_bind (check_balance after) (\<lambda>_.
      Inr (l\<lparr>lg_balances := bput (lg_balances l) (account, asset) after,
             lg_reservations := bput (lg_reservations l) order
               \<lparr>rsv_order_id = order, rsv_account = account, rsv_symbol = symbol,
                rsv_side = sd, rsv_limit_cents = limit_cents,
                rsv_remaining_tenths = qty_tenths, rsv_asset = asset, rsv_units = units\<rparr>\<rparr>)))))))))"

subsection \<open>Settle a fill\<close>

definition fill_deltas ::
  "market_assets \<Rightarrow> reservation \<Rightarrow> reservation \<Rightarrow> int \<Rightarrow> int \<Rightarrow> int \<Rightarrow> int \<Rightarrow>
   (balance_key, int \<times> int) bmap" where
  "fill_deltas market buyer seller base cash buyer_reserved improvement =
     add_delta
       (add_delta
         (add_delta
           (add_delta []
             (rsv_account buyer) (quote_asset market) improvement (- buyer_reserved))
           (rsv_account seller) (quote_asset market) cash 0)
         (rsv_account seller) (base_asset market) 0 (- base))
       (rsv_account buyer) (base_asset market) base 0"

fun stage_balances ::
  "(balance_key, balance) bmap \<Rightarrow> (balance_key, int \<times> int) bmap \<Rightarrow>
   ledger_error + (balance_key \<times> balance) list" where
  "stage_balances balances [] = Inr []"
| "stage_balances balances ((key, (available_delta, reserved_delta)) # rest) =
     (let before = bget_or no_balance balances key in
      res_bind (ok_or AvailableOverflow (try_i64 (available before + available_delta))) (\<lambda>a.
      res_bind (ok_or ReservedOverflow (try_i64 (reserved before + reserved_delta))) (\<lambda>r.
      let after = \<lparr>available = a, reserved = r\<rparr> in
      res_bind (check_balance after) (\<lambda>_.
      res_bind (stage_balances balances rest) (\<lambda>staged.
      Inr ((key, after) # staged))))))"

definition put_balances ::
  "(balance_key, balance) bmap \<Rightarrow> (balance_key \<times> balance) list \<Rightarrow> (balance_key, balance) bmap" where
  "put_balances balances staged = foldl (\<lambda>m e. bput m (fst e) (snd e)) balances staged"

definition put_reservation ::
  "(order_id, reservation) bmap \<Rightarrow> reservation \<Rightarrow> (order_id, reservation) bmap" where
  "put_reservation rs after =
     (if rsv_remaining_tenths after = 0 then bdel rs (rsv_order_id after)
      else bput rs (rsv_order_id after) after)"

definition settle_fill ::
  "ledger \<Rightarrow> order_id \<Rightarrow> order_id \<Rightarrow> int \<Rightarrow> int \<Rightarrow> ledger_error + ledger" where
  "settle_fill l maker_order taker_order price_cents qty_tenths =
     (if \<not> is_funded l then Inr l else
      res_bind (ok_or SequenceExhausted (checked_add_u64 (lg_last_sequence l) 1)) (\<lambda>expected.
      res_bind (require (taker_order = expected) FillOutsideSequence) (\<lambda>_.
      res_bind (require (\<not> (maker_order = taker_order \<or> price_cents \<le> 0 \<or> qty_tenths \<le> 0))
                 InvalidFill) (\<lambda>_.
      res_bind (ok_or MakerMissing (map_of (lg_reservations l) maker_order)) (\<lambda>maker.
      res_bind (ok_or TakerMissing (map_of (lg_reservations l) taker_order)) (\<lambda>taker.
      res_bind (require (\<not> (rsv_symbol maker \<noteq> rsv_symbol taker \<or> rsv_side maker = rsv_side taker))
                 ReservationsDisagree) (\<lambda>_.
      res_bind (ledger_market l (rsv_symbol maker)) (\<lambda>market.
      let buyer = (if rsv_side maker = Buy then maker else taker);
          seller = (if rsv_side maker = Buy then taker else maker) in
      res_bind (require (\<not> (rsv_limit_cents buyer < price_cents \<or> price_cents < rsv_limit_cents seller
                          \<or> rsv_remaining_tenths buyer < qty_tenths
                          \<or> rsv_remaining_tenths seller < qty_tenths))
                 FillExceedsTerms) (\<lambda>_.
      res_bind (ok_or BaseOverflow (checked_mul qty_tenths 100)) (\<lambda>base.
      res_bind (ok_or QuoteOverflow (checked_mul price_cents qty_tenths)) (\<lambda>cash.
      res_bind (ok_or BuyReserveOverflow (checked_mul (rsv_limit_cents buyer) qty_tenths)) (\<lambda>buyer_reserved.
      res_bind (ok_or ImprovementOverflow (checked_sub buyer_reserved cash)) (\<lambda>improvement.
      res_bind (stage_balances (lg_balances l)
                 (fill_deltas market buyer seller base cash buyer_reserved improvement)) (\<lambda>staged.
      res_bind (after_fill maker qty_tenths) (\<lambda>maker_next.
      res_bind (after_fill taker qty_tenths) (\<lambda>taker_next.
      Inr (l\<lparr>lg_balances := put_balances (lg_balances l) staged,
             lg_reservations :=
               put_reservation (put_reservation (lg_reservations l) maker_next) taker_next\<rparr>)
      ))))))))))))))))"

text \<open>\<open>stage_reserved_fills\<close>: (maker, taker, cents, tenths) in order, on one staged ledger.\<close>

fun stage_reserved_fills ::
  "ledger \<Rightarrow> (order_id \<times> order_id \<times> int \<times> int) list \<Rightarrow> ledger_error + ledger" where
  "stage_reserved_fills staged [] = Inr staged"
| "stage_reserved_fills staged ((maker, taker, price, quantity) # fills) =
     res_bind (settle_fill staged maker taker price quantity) (\<lambda>staged'.
     stage_reserved_fills staged' fills)"

subsection \<open>Release and the cursor\<close>

definition release :: "ledger \<Rightarrow> order_id \<Rightarrow> ledger_error + (bool \<times> ledger)" where
  "release l order =
     (case map_of (lg_reservations l) order of
        None \<Rightarrow> Inr (False, l)
      | Some r \<Rightarrow>
          let key = (rsv_account r, rsv_asset r) in
          res_bind (ok_or ReservedBalanceMissing (map_of (lg_balances l) key)) (\<lambda>before.
          res_bind (ok_or ReleaseOverflow (checked_add (available before) (rsv_units r))) (\<lambda>a.
          res_bind (ok_or ReleaseUnderflow (checked_sub (reserved before) (rsv_units r))) (\<lambda>v.
          let after = \<lparr>available = a, reserved = v\<rparr> in
          res_bind (check_balance after) (\<lambda>_.
          Inr (True, l\<lparr>lg_balances := bput (lg_balances l) key after,
                       lg_reservations := bdel (lg_reservations l) order\<rparr>))))))"

definition finish_sequence :: "ledger \<Rightarrow> order_id \<Rightarrow> ledger_error + ledger" where
  "finish_sequence l sequence =
     res_bind (ok_or SequenceExhausted (checked_add_u64 (lg_last_sequence l) 1)) (\<lambda>expected.
     res_bind (require (sequence = expected) SequenceOutOfOrder) (\<lambda>_.
     Inr (l\<lparr>lg_last_sequence := sequence\<rparr>)))"

end
