(* ===== verification/Ledger_Lemmas.thy ===== *)
theory Ledger_Lemmas
  imports Ledger
begin

section \<open>Ledger: what each operation does to every balance\<close>

text \<open>
  Inversion of the amounts, then the pointwise effect of the operations on the balances and
  on the reservations, then the invariant (nonnegative balances, every reserved unit backed
  by exactly one reservation, every asset conserved against its genesis funding) and its
  preservation by each operation.
\<close>

named_theorems ledger_simps \<open>inversions and pointwise effects of the ledger operations\<close>

subsection \<open>Amounts\<close>

definition balance_good :: "balance \<Rightarrow> bool" where
  "balance_good b \<longleftrightarrow> 0 \<le> available b \<and> 0 \<le> reserved b \<and> available b + reserved b \<le> i64_max"

lemma check_balance_iff [simp]: "check_balance b = Inr u \<longleftrightarrow> balance_good b"
  by (auto simp: check_balance_def balance_good_def arith_defs)

lemma balance_good_no_balance [simp]: "balance_good no_balance"
  by (simp add: balance_good_def no_balance_def arith_defs)

definition units_of :: "side \<Rightarrow> int \<Rightarrow> int \<Rightarrow> int" where
  "units_of sd price qty = (case sd of Buy \<Rightarrow> price * qty | Sell \<Rightarrow> qty * 100)"

lemma reserve_units_iff [ledger_simps]:
  "reserve_units sd p q = Inr u \<longleftrightarrow> 0 < p \<and> 0 < q \<and> u = units_of sd p q \<and> in_i64 u"
  by (cases sd) (auto simp: reserve_units_def units_of_def not_less)

lemma units_of_pos: "0 < p \<Longrightarrow> 0 < q \<Longrightarrow> 0 < units_of sd p q"
  by (cases sd) (simp_all add: units_of_def)

lemma units_of_diff: "units_of sd p (q - f) = units_of sd p q - units_of sd p f"
  by (cases sd) (simp_all add: units_of_def algebra_simps)

lemma after_fill_iff [ledger_simps]:
  "after_fill r q = Inr r' \<longleftrightarrow>
     in_i64 (rsv_remaining_tenths r - q) \<and> q \<le> rsv_remaining_tenths r \<and>
     (if rsv_remaining_tenths r = q
      then r' = r\<lparr>rsv_remaining_tenths := 0, rsv_units := 0\<rparr>
      else \<exists>u. reserve_units (rsv_side r) (rsv_limit_cents r) (rsv_remaining_tenths r - q) = Inr u \<and>
           r' = r\<lparr>rsv_remaining_tenths := rsv_remaining_tenths r - q, rsv_units := u\<rparr>)"
  by (auto simp: after_fill_def bind_eq_Some_conv)

lemma after_fill_fields:
  assumes "after_fill r q = Inr r'"
  shows "rsv_order_id r' = rsv_order_id r" "rsv_account r' = rsv_account r"
    "rsv_asset r' = rsv_asset r" "rsv_symbol r' = rsv_symbol r" "rsv_side r' = rsv_side r"
    "rsv_limit_cents r' = rsv_limit_cents r"
    "rsv_remaining_tenths r' = rsv_remaining_tenths r - q"
  using assms by (auto simp: after_fill_iff split: if_splits)

lemma after_fill_units:
  assumes "after_fill r q = Inr r'"
    and "rsv_units r = units_of (rsv_side r) (rsv_limit_cents r) (rsv_remaining_tenths r)"
  shows "rsv_units r' = rsv_units r - units_of (rsv_side r) (rsv_limit_cents r) q"
  using assms by (auto simp: after_fill_iff reserve_units_iff units_of_diff split: if_splits)

subsection \<open>Deltas of a fill\<close>

lemma add_delta_ok [simp, intro]: "bmap_ok m \<Longrightarrow> bmap_ok (add_delta m a s x y)"
  by (simp add: add_delta_def Let_def)

lemma add_delta_get:
  "fst (bget_or (0, 0) (add_delta m a s x y) k) =
     fst (bget_or (0, 0) m k) + (if k = (a, s) then x else 0)"
  "snd (bget_or (0, 0) (add_delta m a s x y) k) =
     snd (bget_or (0, 0) m k) + (if k = (a, s) then y else 0)"
  by (simp_all add: add_delta_def Let_def bget_or_bput)

definition delta_total :: "string \<Rightarrow> (balance_key, int \<times> int) bmap \<Rightarrow> int" where
  "delta_total a m = (\<Sum>e\<leftarrow>m. if snd (fst e) = a then fst (snd e) + snd (snd e) else 0)"

lemma delta_total_add:
  "bmap_ok m \<Longrightarrow> delta_total t (add_delta m a s x y) = delta_total t m + (if s = t then x + y else 0)"
  by (auto simp: delta_total_def add_delta_def Let_def bsum_simps bget_or_def split: option.splits)

lemma fill_deltas_ok [simp]: "bmap_ok (fill_deltas mk b s base cash br im)"
  by (simp add: fill_deltas_def)

lemma fill_deltas_total: "im = br - cash \<Longrightarrow> delta_total t (fill_deltas mk b s base cash br im) = 0"
  by (simp add: fill_deltas_def delta_total_add) (simp add: delta_total_def)

lemma fill_deltas_available:
  "fst (bget_or (0, 0) (fill_deltas mk b s base cash br im) k) =
     (if k = (rsv_account b, quote_asset mk) then im else 0) +
     (if k = (rsv_account s, quote_asset mk) then cash else 0) +
     (if k = (rsv_account b, base_asset mk) then base else 0)"
  by (simp add: fill_deltas_def add_delta_get) (simp add: bget_or_def)

lemma fill_deltas_reserved:
  "snd (bget_or (0, 0) (fill_deltas mk b s base cash br im) k) =
     (if k = (rsv_account b, quote_asset mk) then - br else 0) +
     (if k = (rsv_account s, base_asset mk) then - base else 0)"
  by (simp add: fill_deltas_def add_delta_get) (simp add: bget_or_def)

subsection \<open>Staged balances\<close>

lemma stage_balances_keys: "stage_balances m ds = Inr st \<Longrightarrow> map fst st = map fst ds"
  by (induction m ds arbitrary: st rule: stage_balances.induct) (auto simp: Let_def)

lemma stage_balances_entry:
  assumes "stage_balances m ds = Inr st"
  shows "map_of st k = map_option
    (\<lambda>d. \<lparr>available = available (bget_or no_balance m k) + fst d,
          reserved = reserved (bget_or no_balance m k) + snd d\<rparr>) (map_of ds k)"
  using assms by (induction m ds arbitrary: st rule: stage_balances.induct) (auto simp: Let_def)

lemma stage_balances_good: "stage_balances m ds = Inr st \<Longrightarrow> e \<in> set st \<Longrightarrow> balance_good (snd e)"
  by (induction m ds arbitrary: st rule: stage_balances.induct) (auto simp: Let_def)

lemma put_balances_simps [simp]:
  "put_balances m [] = m"
  "put_balances m (e # es) = put_balances (bput m (fst e) (snd e)) es"
  by (simp_all add: put_balances_def)

lemma put_balances_ok [simp, intro]: "bmap_ok m \<Longrightarrow> bmap_ok (put_balances m st)"
  by (induction st arbitrary: m) auto

lemma put_balances_get:
  "distinct (map fst st) \<Longrightarrow>
     map_of (put_balances m st) k = (case map_of st k of None \<Rightarrow> map_of m k | Some b \<Rightarrow> Some b)"
proof (induction st arbitrary: m)
  case (Cons e st)
  have "map_of st (fst e) = None"
    using Cons.prems by (auto simp: map_of_eq_None_iff)
  with Cons show ?case by (cases e) (auto split: option.splits)
qed simp

text \<open>The effect of a staged set of deltas on one balance, and on the total of an asset.\<close>

lemma staged_balance:
  assumes "stage_balances m ds = Inr st" and "bmap_ok ds"
  shows "bget_or no_balance (put_balances m st) k =
    \<lparr>available = available (bget_or no_balance m k) + fst (bget_or (0, 0) ds k),
     reserved = reserved (bget_or no_balance m k) + snd (bget_or (0, 0) ds k)\<rparr>"
proof -
  have "distinct (map fst st)"
    using stage_balances_keys [OF assms(1)] bmap_ok_distinct [OF assms(2)] by simp
  then have "map_of (put_balances m st) k =
      (case map_of st k of None \<Rightarrow> map_of m k | Some b \<Rightarrow> Some b)"
    by (rule put_balances_get)
  then show ?thesis
    by (auto simp: bget_or_def stage_balances_entry [OF assms(1)] split: option.splits)
qed

definition asset_total :: "string \<Rightarrow> (balance_key, balance) bmap \<Rightarrow> int" where
  "asset_total a m = (\<Sum>e\<leftarrow>m. if snd (fst e) = a then available (snd e) + reserved (snd e) else 0)"

lemma asset_total_put:
  "bmap_ok m \<Longrightarrow> asset_total a (bput m k b) = asset_total a m +
     (if snd k = a then available b + reserved b
        - (available (bget_or no_balance m k) + reserved (bget_or no_balance m k)) else 0)"
  by (auto simp: asset_total_def bsum_simps bget_or_def no_balance_def split: option.splits)

lemma staged_total:
  assumes "stage_balances m ds = Inr st" and "distinct (map fst ds)" and "bmap_ok m'"
    and "\<And>k. k \<in> fst ` set ds \<Longrightarrow> map_of m' k = map_of m k"
  shows "asset_total a (put_balances m' st) = asset_total a m' + delta_total a ds"
  using assms
proof (induction m ds arbitrary: m' st rule: stage_balances.induct)
  case (2 m key da dr rest)
  let ?b = "bget_or no_balance m key"
  obtain st' where st: "st = (key, \<lparr>available = available ?b + da, reserved = reserved ?b + dr\<rparr>) # st'"
    and st': "stage_balances m rest = Inr st'"
    using "2.prems"(1) by (auto simp: Let_def)
  let ?m = "bput m' key \<lparr>available = available ?b + da, reserved = reserved ?b + dr\<rparr>"
  have get: "map_of ?m k = map_of m k" if "k \<in> fst ` set rest" for k
    using that "2.prems"(2,4) by auto
  have "asset_total a (put_balances ?m st') = asset_total a ?m + delta_total a rest"
    by (rule "2.IH" [OF refl refl st' _ _ get]) (use "2.prems" in auto)
  moreover have "bget_or no_balance m' key = ?b"
    using "2.prems"(4) [of key] by (simp add: bget_or_def)
  ultimately show ?case
    using "2.prems"(3) st by (simp add: asset_total_put delta_total_def)
qed (simp add: delta_total_def)

end
