(* ===== verification/Ledger_Invariant.thy ===== *)
theory Ledger_Invariant
  imports Ledger_Lemmas
begin

section \<open>Ledger: the accounting invariant and its preservation\<close>

text \<open>
  What \<open>Ledger::validate\<close> checks on a recovered ledger, as a predicate: balances are
  nonnegative and name configured assets, every reservation holds exactly the units its terms
  ask for, the reserved side of every balance is the sum of its account's reservations, and
  each asset adds up to its genesis funding. Every operation preserves it.
\<close>

subsection \<open>The invariant\<close>

definition owed :: "(order_id, reservation) bmap \<Rightarrow> balance_key \<Rightarrow> int" where
  "owed rs k =
     (\<Sum>e\<leftarrow>rs. if (rsv_account (snd e), rsv_asset (snd e)) = k then rsv_units (snd e) else 0)"

definition granted :: "funding_config \<Rightarrow> string \<Rightarrow> int" where
  "granted c a = (\<Sum>g\<leftarrow>fc_funding c. if fu_asset g = a then fu_units g else 0)"

definition asset_configured :: "funding_config \<Rightarrow> string \<Rightarrow> bool" where
  "asset_configured c a \<longleftrightarrow> list_ex (\<lambda>m. base_asset m = a \<or> quote_asset m = a) (fc_markets c)"

definition config_wf :: "funding_config \<Rightarrow> bool" where
  "config_wf c \<longleftrightarrow> list_all (\<lambda>m. base_asset m \<noteq> quote_asset m) (fc_markets c)"

definition rsv_good :: "funding_config \<Rightarrow> reservation \<Rightarrow> bool" where
  "rsv_good c r \<longleftrightarrow>
     (case config_market c (rsv_symbol r) of
        None \<Rightarrow> False
      | Some m \<Rightarrow> rsv_asset r = reserve_asset (rsv_side r) m \<and>
          reserve_units (rsv_side r) (rsv_limit_cents r) (rsv_remaining_tenths r) = Inr (rsv_units r))"

definition funded_inv ::
  "funding_config \<Rightarrow> (balance_key, balance) bmap \<Rightarrow> (order_id, reservation) bmap \<Rightarrow> bool" where
  "funded_inv c bal rs \<longleftrightarrow>
     config_wf c \<and>
     (\<forall>e \<in> set bal. balance_good (snd e) \<and> asset_configured c (snd (fst e))) \<and>
     (\<forall>e \<in> set rs. rsv_good c (snd e)) \<and>
     (\<forall>k. reserved (bget_or no_balance bal k) = owed rs k) \<and>
     (\<forall>a. asset_total a bal = granted c a)"

definition ledger_shape :: "ledger \<Rightarrow> bool" where
  "ledger_shape l \<longleftrightarrow> bmap_ok (lg_balances l) \<and> bmap_ok (lg_reservations l) \<and>
     list_all (\<lambda>e. rsv_order_id (snd e) = fst e) (lg_reservations l)"

definition ledger_inv :: "ledger \<Rightarrow> bool" where
  "ledger_inv l \<longleftrightarrow> ledger_shape l \<and>
     (is_funded l \<longrightarrow>
        (case lg_config l of None \<Rightarrow> False
         | Some c \<Rightarrow> funded_inv c (lg_balances l) (lg_reservations l)))"

subsection \<open>Obligations under updates\<close>

lemma owed_bput:
  "bmap_ok rs \<Longrightarrow> owed (bput rs i r) k =
     owed rs k - (case map_of rs i of None \<Rightarrow> 0
        | Some r0 \<Rightarrow> if (rsv_account r0, rsv_asset r0) = k then rsv_units r0 else 0)
     + (if (rsv_account r, rsv_asset r) = k then rsv_units r else 0)"
  by (auto simp: owed_def bsum_simps split: option.splits)

lemma owed_bdel:
  "bmap_ok rs \<Longrightarrow> owed (bdel rs i) k =
     owed rs k - (case map_of rs i of None \<Rightarrow> 0
        | Some r0 \<Rightarrow> if (rsv_account r0, rsv_asset r0) = k then rsv_units r0 else 0)"
  by (auto simp: owed_def bsum_simps split: option.splits)

lemma owed_after_fill:
  assumes "bmap_ok rs" and "map_of rs i = Some r" and "rsv_order_id r = i"
    and "after_fill r q = Inr r'"
    and "rsv_units r = units_of (rsv_side r) (rsv_limit_cents r) (rsv_remaining_tenths r)"
  shows "owed (put_reservation rs r') k = owed rs k -
    (if k = (rsv_account r, rsv_asset r) then units_of (rsv_side r) (rsv_limit_cents r) q else 0)"
  using assms after_fill_fields [OF assms(4)] after_fill_units [OF assms(4,5)]
  by (auto simp: put_reservation_def owed_bput owed_bdel units_of_def split: side.splits)

lemma bmap_ok_put_reservation [simp, intro]: "bmap_ok rs \<Longrightarrow> bmap_ok (put_reservation rs r)"
  by (simp add: put_reservation_def)

lemma map_of_put_reservation:
  "map_of (put_reservation rs r) =
     (map_of rs)(rsv_order_id r := (if rsv_remaining_tenths r = 0 then None else Some r))"
  by (simp add: put_reservation_def)

lemma set_put_reservation:
  "bmap_ok rs \<Longrightarrow> e \<in> set (put_reservation rs r) \<Longrightarrow>
     e \<in> set rs \<or> e = (rsv_order_id r, r) \<and> rsv_remaining_tenths r \<noteq> 0"
  using set_bput_subset [of rs "rsv_order_id r" r]
  by (auto simp: put_reservation_def bdel_def split: if_splits)

lemma rsv_good_after_fill:
  assumes "rsv_good c r" and "after_fill r q = Inr r'" and "rsv_remaining_tenths r' \<noteq> 0"
  shows "rsv_good c r'"
  using assms by (auto simp: rsv_good_def after_fill_iff split: option.splits if_splits)

lemma rsv_good_put_reservation:
  assumes "\<forall>e \<in> set rs. rsv_good c (snd e)" and "bmap_ok rs" and "rsv_good c r"
    and "after_fill r q = Inr r'"
  shows "\<forall>e \<in> set (put_reservation rs r'). rsv_good c (snd e)"
  using assms(1) set_put_reservation [OF assms(2)] rsv_good_after_fill [OF assms(3,4)] by fastforce

lemma rsv_good_units:
  "rsv_good c r \<Longrightarrow> rsv_units r = units_of (rsv_side r) (rsv_limit_cents r) (rsv_remaining_tenths r)"
  by (auto simp: rsv_good_def reserve_units_iff split: option.splits)

lemma config_market_mem: "config_market c s = Some m \<Longrightarrow> m \<in> set (fc_markets c) \<and> ma_symbol m = s"
  by (auto simp: config_market_def find_Some_iff)

lemma reserve_asset_configured: "config_market c s = Some m \<Longrightarrow> asset_configured c (reserve_asset sd m)"
  using config_market_mem [of c s m] by (cases sd) (auto simp: asset_configured_def list_ex_iff)

lemma config_wf_assets: "config_wf c \<Longrightarrow> config_market c s = Some m \<Longrightarrow> base_asset m \<noteq> quote_asset m"
  using config_market_mem [of c s m] by (auto simp: config_wf_def list_all_iff)

subsection \<open>Inversion of the operations\<close>

lemma reserve_cases:
  assumes "reserve l i a s sd p q = Inr l'" and "is_funded l"
  obtains c m u where "lg_config l = Some c" and "config_market c s = Some m"
    and "i = lg_last_sequence l + 1" and "map_of (lg_reservations l) i = None"
    and "reserve_units sd p q = Inr u"
    and "u \<le> available (balance_of l a (reserve_asset sd m))"
    and "balance_good \<lparr>available = available (balance_of l a (reserve_asset sd m)) - u,
           reserved = reserved (balance_of l a (reserve_asset sd m)) + u\<rparr>"
    and "l' = l\<lparr>lg_balances := bput (lg_balances l) (a, reserve_asset sd m)
             \<lparr>available = available (balance_of l a (reserve_asset sd m)) - u,
              reserved = reserved (balance_of l a (reserve_asset sd m)) + u\<rparr>,
           lg_reservations := bput (lg_reservations l) i
             \<lparr>rsv_order_id = i, rsv_account = a, rsv_symbol = s, rsv_side = sd,
              rsv_limit_cents = p, rsv_remaining_tenths = q,
              rsv_asset = reserve_asset sd m, rsv_units = u\<rparr>\<rparr>"
  using assms
  by (auto simp: reserve_def Let_def ledger_market_def bind_eq_Some_conv split: if_splits)

lemma release_cases:
  assumes "release l i = Inr (b, l')"
  obtains "map_of (lg_reservations l) i = None" and "l' = l" and "\<not> b"
  | r bal where "b" and "map_of (lg_reservations l) i = Some r"
    and "map_of (lg_balances l) (rsv_account r, rsv_asset r) = Some bal"
    and "balance_good \<lparr>available = available bal + rsv_units r, reserved = reserved bal - rsv_units r\<rparr>"
    and "l' = l\<lparr>lg_balances := bput (lg_balances l) (rsv_account r, rsv_asset r)
             \<lparr>available = available bal + rsv_units r, reserved = reserved bal - rsv_units r\<rparr>,
           lg_reservations := bdel (lg_reservations l) i\<rparr>"
  using assms by (auto simp: release_def Let_def split: option.splits)

definition fill_sides :: "reservation \<Rightarrow> reservation \<Rightarrow> reservation \<Rightarrow> reservation \<Rightarrow> bool" where
  "fill_sides maker taker buyer seller \<longleftrightarrow>
     rsv_side buyer = Buy \<and> rsv_side seller = Sell \<and>
     (buyer = maker \<and> seller = taker \<or> buyer = taker \<and> seller = maker)"

lemma fill_sides_pick:
  "rsv_side maker \<noteq> rsv_side taker \<Longrightarrow>
     fill_sides maker taker (if rsv_side maker = Buy then maker else taker)
       (if rsv_side maker = Buy then taker else maker)"
  by (cases "rsv_side maker"; cases "rsv_side taker") (simp_all add: fill_sides_def)

lemma settle_cases:
  assumes "settle_fill l mo tk p q = Inr l'" and "is_funded l"
  obtains c m maker taker buyer seller staged maker' taker'
  where "map_of (lg_reservations l) mo = Some maker"
    and "map_of (lg_reservations l) tk = Some taker"
    and "lg_config l = Some c" and "config_market c (rsv_symbol maker) = Some m"
    and "tk = Suc (lg_last_sequence l)" and "mo \<noteq> tk" and "0 < p" and "0 < q"
    and "rsv_symbol maker = rsv_symbol taker"
    and "fill_sides maker taker buyer seller"
    and "p \<le> rsv_limit_cents buyer" and "rsv_limit_cents seller \<le> p"
    and "q \<le> rsv_remaining_tenths buyer" and "q \<le> rsv_remaining_tenths seller"
    and "stage_balances (lg_balances l)
           (fill_deltas m buyer seller (q * 100) (p * q) (rsv_limit_cents buyer * q)
             (rsv_limit_cents buyer * q - p * q)) = Inr staged"
    and "after_fill maker q = Inr maker'" and "after_fill taker q = Inr taker'"
    and "l' = l\<lparr>lg_balances := put_balances (lg_balances l) staged,
           lg_reservations := put_reservation (put_reservation (lg_reservations l) maker') taker'\<rparr>"
  using assms
  apply (simp add: settle_fill_def Let_def ledger_market_def bind_eq_Some_conv not_less not_le)
  apply (elim exE conjE)
  apply (drule fill_sides_pick)
  apply (rule that, assumption, assumption)
                 apply (assumption | simp only:)+
  done

end
