(* ===== verification/Ledger_Preserve.thy ===== *)
theory Ledger_Preserve
  imports Ledger_Invariant
begin

section \<open>Ledger: every operation keeps the books\<close>

text \<open>
  Preservation of \<open>ledger_inv\<close> by reserve, settle, release and the cursor; the exact
  balances after a settlement; reserve followed by release as the identity on balances.
\<close>

subsection \<open>Shape\<close>

lemma shape_put_reservation:
  assumes "bmap_ok rs" and "list_all (\<lambda>e. rsv_order_id (snd e) = fst e) rs"
  shows "list_all (\<lambda>e. rsv_order_id (snd e) = fst e) (put_reservation rs r)"
  using assms set_put_reservation [OF assms(1)] by (fastforce simp: list_all_iff)

lemma shape_bput:
  "list_all (\<lambda>e. rsv_order_id (snd e) = fst e) rs \<Longrightarrow> rsv_order_id r = i \<Longrightarrow>
     list_all (\<lambda>e. rsv_order_id (snd e) = fst e) (bput rs i r)"
  using set_bput_subset [of rs i r] by (auto simp: list_all_iff)

lemma list_all_bdel: "list_all P m \<Longrightarrow> list_all P (bdel m k)"
  by (auto simp: bdel_def list_all_iff)

lemma shape_id: "ledger_shape l \<Longrightarrow> map_of (lg_reservations l) i = Some r \<Longrightarrow> rsv_order_id r = i"
  by (auto simp: ledger_shape_def list_all_iff dest!: map_of_SomeD)

lemma funded_inv_good:
  "funded_inv c bal rs \<Longrightarrow> map_of rs i = Some r \<Longrightarrow> rsv_good c r"
  by (auto simp: funded_inv_def dest!: map_of_SomeD)

lemma funded_inv_balance: "funded_inv c bal rs \<Longrightarrow> balance_good (bget_or no_balance bal k)"
  by (auto simp: funded_inv_def bget_or_def split: option.splits dest!: map_of_SomeD)

lemma funded_inv_reserved:
  "funded_inv c bal rs \<Longrightarrow> reserved (bget_or no_balance bal k) = owed rs k"
  unfolding funded_inv_def by blast

lemma funded_inv_put:
  assumes "funded_inv c bal rs" and "bmap_ok bal" and "balance_good b" and "asset_configured c (snd k)"
    and "available b + reserved b =
      available (bget_or no_balance bal k) + reserved (bget_or no_balance bal k)"
    and "\<And>e. e \<in> set rs' \<Longrightarrow> rsv_good c (snd e)"
    and "\<And>k'. owed rs' k' =
      owed rs k' + (if k' = k then reserved b - reserved (bget_or no_balance bal k) else 0)"
  shows "funded_inv c (bput bal k b) rs'"
  using assms set_bput_subset [of bal k b]
  by (auto simp: funded_inv_def bget_or_bput asset_total_put)

subsection \<open>Reserve\<close>

lemma reserve_inv:
  assumes "ledger_inv l" and "reserve l i a s sd p q = Inr l'"
  shows "ledger_inv l'"
proof (cases "is_funded l")
  case False
  then show ?thesis using assms by (simp add: reserve_def)
next
  case True
  obtain c m u where c: "lg_config l = Some c" and m: "config_market c s = Some m"
    and free: "map_of (lg_reservations l) i = None" and u: "reserve_units sd p q = Inr u"
    and good: "balance_good \<lparr>available = available (balance_of l a (reserve_asset sd m)) - u,
           reserved = reserved (balance_of l a (reserve_asset sd m)) + u\<rparr>"
    and l': "l' = l\<lparr>lg_balances := bput (lg_balances l) (a, reserve_asset sd m)
             \<lparr>available = available (balance_of l a (reserve_asset sd m)) - u,
              reserved = reserved (balance_of l a (reserve_asset sd m)) + u\<rparr>,
           lg_reservations := bput (lg_reservations l) i
             \<lparr>rsv_order_id = i, rsv_account = a, rsv_symbol = s, rsv_side = sd,
              rsv_limit_cents = p, rsv_remaining_tenths = q,
              rsv_asset = reserve_asset sd m, rsv_units = u\<rparr>\<rparr>"
    using assms(2) True by (rule reserve_cases)
  let ?b = "\<lparr>available = available (balance_of l a (reserve_asset sd m)) - u,
     reserved = reserved (balance_of l a (reserve_asset sd m)) + u\<rparr>"
  let ?r = "\<lparr>rsv_order_id = i, rsv_account = a, rsv_symbol = s, rsv_side = sd,
     rsv_limit_cents = p, rsv_remaining_tenths = q, rsv_asset = reserve_asset sd m, rsv_units = u\<rparr>"
  have inv: "funded_inv c (lg_balances l) (lg_reservations l)" and shape: "ledger_shape l"
    using assms(1) True c by (simp_all add: ledger_inv_def)
  have "rsv_good c ?r" using m u by (simp add: rsv_good_def)
  then have good': "rsv_good c (snd e)" if "e \<in> set (bput (lg_reservations l) i ?r)" for e
    using that set_bput_subset [of "lg_reservations l" i ?r] inv by (auto simp: funded_inv_def)
  have "funded_inv c (bput (lg_balances l) (a, reserve_asset sd m) ?b) (bput (lg_reservations l) i ?r)"
    by (rule funded_inv_put [OF inv _ good _ _ good'])
      (use shape free reserve_asset_configured [OF m] in
        \<open>auto simp: ledger_shape_def owed_bput balance_of_def\<close>)
  moreover have "ledger_shape l'"
    using shape by (auto simp: l' ledger_shape_def intro: shape_bput)
  ultimately show ?thesis using c by (simp add: ledger_inv_def l')
qed

subsection \<open>Release\<close>

lemma release_inv:
  assumes "ledger_inv l" and "release l i = Inr (b, l')"
  shows "ledger_inv l'"
  using assms(2)
proof (cases rule: release_cases)
  case 1
  then show ?thesis using assms(1) by simp
next
  case (2 r bal)
  note l' = 2(5) and r = 2(2) and bal = 2(3)
  have shape': "ledger_shape l'"
    using assms(1) by (auto simp: l' ledger_inv_def ledger_shape_def intro: list_all_bdel)
  show ?thesis
  proof (cases "is_funded l")
    case False
    then show ?thesis using shape' by (simp add: ledger_inv_def l' is_funded_def)
  next
    case True
    then obtain c where c: "lg_config l = Some c"
      and inv: "funded_inv c (lg_balances l) (lg_reservations l)" and shape: "ledger_shape l"
      using assms(1) by (auto simp: ledger_inv_def split: option.splits)
    have "asset_configured c (rsv_asset r)"
      using inv map_of_SomeD [OF bal] by (auto simp: funded_inv_def)
    moreover have "rsv_good c (snd e)" if "e \<in> set (bdel (lg_reservations l) i)" for e
      using that inv by (auto simp: funded_inv_def bdel_def)
    ultimately have "funded_inv c (lg_balances l') (lg_reservations l')"
      unfolding l' using funded_inv_put [OF inv _ 2(4)] shape r bal
      by (auto simp: ledger_shape_def owed_bdel bget_or_def)
    then show ?thesis using c shape' by (simp add: ledger_inv_def l')
  qed
qed

text \<open>An open reservation can always be released: the reserve behind it is there.\<close>

lemma owed_ge:
  assumes "bmap_ok rs" and "map_of rs i = Some r" and "\<And>e. e \<in> set rs \<Longrightarrow> 0 \<le> rsv_units (snd e)"
  shows "rsv_units r \<le> owed rs (rsv_account r, rsv_asset r)"
proof -
  have "owed (bdel rs i) k \<ge> 0" for k
    unfolding owed_def using assms(3) by (intro sum_list_nonneg) (auto simp: bdel_def)
  then show ?thesis
    using owed_bdel [OF assms(1), of i "(rsv_account r, rsv_asset r)"] assms(2)
    by (metis (mono_tags, lifting) diff_ge_0_iff_ge option.simps(5))
qed

lemma release_succeeds:
  assumes "ledger_inv l" and "is_funded l"
  shows "\<exists>b l'. release l i = Inr (b, l') \<and> (b \<longleftrightarrow> map_of (lg_reservations l) i \<noteq> None)"
proof (cases "map_of (lg_reservations l) i")
  case None
  then have "release l i = Inr (False, l)" by (simp add: release_def)
  with None show ?thesis by blast
next
  case (Some r)
  obtain c where inv: "funded_inv c (lg_balances l) (lg_reservations l)" and shape: "ledger_shape l"
    using assms by (auto simp: ledger_inv_def split: option.splits)
  let ?k = "(rsv_account r, rsv_asset r)"
  have pos: "0 < rsv_units r" if "rsv_good c r" for r
    using that by (auto simp: rsv_good_def reserve_units_iff units_of_pos split: option.splits)
  have units: "0 < rsv_units r" using funded_inv_good [OF inv Some] by (rule pos)
  have "rsv_units r \<le> owed (lg_reservations l) ?k"
    using shape Some inv pos
    by (intro owed_ge) (auto simp: ledger_shape_def funded_inv_def intro: less_imp_le)
  also have "\<dots> = reserved (bget_or no_balance (lg_balances l) ?k)"
    using inv by (simp add: funded_inv_def)
  finally have le: "rsv_units r \<le> reserved (bget_or no_balance (lg_balances l) ?k)" .
  then obtain b where b: "map_of (lg_balances l) ?k = Some b"
    using units by (auto simp: bget_or_def no_balance_def split: option.splits)
  have good: "balance_good b"
    using funded_inv_balance [OF inv, of ?k] b by (simp add: bget_or_def)
  with le units b have "release l i = Inr (True, l\<lparr>lg_balances := bput (lg_balances l) ?k
      \<lparr>available = available b + rsv_units r, reserved = reserved b - rsv_units r\<rparr>,
      lg_reservations := bdel (lg_reservations l) i\<rparr>)"
    by (simp add: release_def Some bget_or_def balance_good_def arith_defs ok_or_def require_def
        check_balance_def)
  then show ?thesis using Some by blast
qed

subsection \<open>Settle\<close>

text \<open>Both reservations of a fill hold the asset their side pays with, in the same market.\<close>

lemma fill_reservations:
  assumes "rsv_good c maker" and "rsv_good c taker" and "rsv_symbol maker = rsv_symbol taker"
    and "config_market c (rsv_symbol maker) = Some m" and "fill_sides maker taker buyer seller"
  shows "rsv_asset buyer = quote_asset m" "rsv_asset seller = base_asset m"
  using assms by (auto simp: rsv_good_def fill_sides_def)

lemma settle_owed:
  assumes inv: "funded_inv c bal rs" and rs: "bmap_ok rs"
    and shape: "list_all (\<lambda>e. rsv_order_id (snd e) = fst e) rs"
    and mk: "map_of rs mo = Some maker" and tk: "map_of rs to = Some taker" and ne: "mo \<noteq> to"
    and sym: "rsv_symbol maker = rsv_symbol taker" and m: "config_market c (rsv_symbol maker) = Some m"
    and sides: "fill_sides maker taker buyer seller"
    and mk': "after_fill maker q = Inr maker'" and tk': "after_fill taker q = Inr taker'"
  shows "owed (put_reservation (put_reservation rs maker') taker') k = owed rs k
    - (if k = (rsv_account buyer, quote_asset m) then rsv_limit_cents buyer * q else 0)
    - (if k = (rsv_account seller, base_asset m) then q * 100 else 0)"
proof -
  have good: "rsv_good c maker" "rsv_good c taker"
    using inv mk tk by (auto intro: funded_inv_good)
  have ids: "rsv_order_id maker = mo" "rsv_order_id taker = to"
    using shape mk tk by (auto simp: list_all_iff dest!: map_of_SomeD)
  have get: "map_of (put_reservation rs maker') to = Some taker"
    using ne ids after_fill_fields(1) [OF mk'] tk by (simp add: map_of_put_reservation)
  have step1: "owed (put_reservation rs maker') k = owed rs k -
      (if k = (rsv_account maker, rsv_asset maker)
       then units_of (rsv_side maker) (rsv_limit_cents maker) q else 0)"
    by (rule owed_after_fill [OF rs mk ids(1) mk' rsv_good_units [OF good(1)]])
  have step2: "owed (put_reservation (put_reservation rs maker') taker') k =
      owed (put_reservation rs maker') k -
      (if k = (rsv_account taker, rsv_asset taker)
       then units_of (rsv_side taker) (rsv_limit_cents taker) q else 0)"
    by (rule owed_after_fill [OF _ get ids(2) tk' rsv_good_units [OF good(2)]]) (simp add: rs)
  note assets = fill_reservations [OF good sym m sides]
  from sides consider (maker_buys) "buyer = maker" "seller = taker" "rsv_side buyer = Buy" "rsv_side seller = Sell"
    | (taker_buys) "buyer = taker" "seller = maker" "rsv_side buyer = Buy" "rsv_side seller = Sell"
    by (auto simp: fill_sides_def)
  then show ?thesis
    using assets by cases (simp_all add: step1 step2 units_of_def)
qed

lemma staged_entries:
  assumes "stage_balances bal ds = Inr st" and "e \<in> set (put_balances m st)"
  shows "e \<in> set m \<or> balance_good (snd e) \<and> fst e \<in> fst ` set ds"
proof -
  have *: "e \<in> set m \<or> e \<in> set st" if "e \<in> set (put_balances m st)" for e m and st
    using that
  proof (induction st arbitrary: m)
    case (Cons x st)
    then show ?case using set_bput_subset [of m "fst x" "snd x"] by fastforce
  qed simp
  have "fst ` set st = fst ` set ds"
    using stage_balances_keys [OF assms(1)] by (metis list.set_map)
  then show ?thesis
    using * [OF assms(2)] stage_balances_good [OF assms(1), of e] by force
qed

lemma fill_deltas_keys:
  "fst ` set (fill_deltas mk b s base cash br im) \<subseteq>
     {rsv_account b, rsv_account s} \<times> {quote_asset mk, base_asset mk}"
  by (simp add: fill_deltas_def add_delta_def Let_def keys_bput)

lemma settle_inv:
  assumes "ledger_inv l" and "settle_fill l mo to p q = Inr l'"
  shows "ledger_inv l'"
proof (cases "is_funded l")
  case False
  then show ?thesis using assms by (simp add: settle_fill_def)
next
  case True
  obtain c m maker taker buyer seller staged maker' taker'
    where mk: "map_of (lg_reservations l) mo = Some maker"
      and tk: "map_of (lg_reservations l) to = Some taker"
      and c: "lg_config l = Some c" and m: "config_market c (rsv_symbol maker) = Some m"
      and ne: "mo \<noteq> to" and sym: "rsv_symbol maker = rsv_symbol taker"
      and sides: "fill_sides maker taker buyer seller"
      and st: "stage_balances (lg_balances l)
           (fill_deltas m buyer seller (q * 100) (p * q) (rsv_limit_cents buyer * q)
             (rsv_limit_cents buyer * q - p * q)) = Inr staged" (is "stage_balances _ ?ds = _")
      and mk': "after_fill maker q = Inr maker'" and tk': "after_fill taker q = Inr taker'"
      and l': "l' = l\<lparr>lg_balances := put_balances (lg_balances l) staged,
           lg_reservations := put_reservation (put_reservation (lg_reservations l) maker') taker'\<rparr>"
    using assms(2) True by (rule settle_cases)
  have inv: "funded_inv c (lg_balances l) (lg_reservations l)" and shape: "ledger_shape l"
    using assms(1) True c by (simp_all add: ledger_inv_def)
  let ?rs = "put_reservation (put_reservation (lg_reservations l) maker') taker'"
  have bal_ok: "bmap_ok (lg_balances l)" and rs_ok: "bmap_ok (lg_reservations l)"
    and ids: "list_all (\<lambda>e. rsv_order_id (snd e) = fst e) (lg_reservations l)"
    using shape by (simp_all add: ledger_shape_def)
  have shape': "ledger_shape l'"
    by (auto simp: l' ledger_shape_def bal_ok rs_ok intro!: shape_put_reservation ids)
  have good: "rsv_good c maker" "rsv_good c taker"
    using inv mk tk by (auto intro: funded_inv_good)
  have asset: "asset_configured c (quote_asset m)" "asset_configured c (base_asset m)"
    using reserve_asset_configured [OF m, of Buy] reserve_asset_configured [OF m, of Sell] by simp_all
  have "balance_good (snd e) \<and> asset_configured c (snd (fst e))"
    if e: "e \<in> set (put_balances (lg_balances l) staged)" for e
    using staged_entries [OF st e]
  proof
    assume "balance_good (snd e) \<and> fst e \<in> fst ` set ?ds"
    then show ?thesis
      using fill_deltas_keys [of m buyer seller "q * 100" "p * q" "rsv_limit_cents buyer * q"
          "rsv_limit_cents buyer * q - p * q"] asset by force
  qed (use inv in \<open>simp add: funded_inv_def\<close>)
  moreover have "\<forall>e \<in> set ?rs. rsv_good c (snd e)"
    using inv rs_ok
    by (intro rsv_good_put_reservation [OF _ _ good(2) tk'] rsv_good_put_reservation [OF _ _ good(1) mk'])
      (auto simp: funded_inv_def)
  moreover have "reserved (bget_or no_balance (put_balances (lg_balances l) staged) k) = owed ?rs k" for k
    using funded_inv_reserved [OF inv, of k]
    by (simp add: staged_balance [OF st] fill_deltas_reserved
        settle_owed [OF inv rs_ok ids mk tk ne sym m sides mk' tk'])
  moreover have "asset_total a (put_balances (lg_balances l) staged) = granted c a" for a
    using staged_total [OF st bmap_ok_distinct [OF fill_deltas_ok] bal_ok refl, of a] inv
    by (simp add: fill_deltas_total funded_inv_def)
  ultimately have "funded_inv c (lg_balances l') (lg_reservations l')"
    using inv by (simp add: funded_inv_def l')
  then show ?thesis using shape' c by (simp add: ledger_inv_def l')
qed

lemma stage_fills_inv:
  "ledger_inv l \<Longrightarrow> stage_reserved_fills l fills = Inr l' \<Longrightarrow> ledger_inv l'"
  by (induction l fills rule: stage_reserved_fills.induct) (auto intro: settle_inv)

lemma finish_inv: "ledger_inv l \<Longrightarrow> finish_sequence l i = Inr l' \<Longrightarrow> ledger_inv l'"
  by (auto simp: finish_sequence_def ledger_inv_def ledger_shape_def is_funded_def split: option.splits)

text \<open>The exact balances after a fill.\<close>

lemma settle_balance:
  assumes "settle_fill l mo to p q = Inr l'" and "is_funded l"
  obtains c m maker taker buyer seller
  where "map_of (lg_reservations l) mo = Some maker" and "map_of (lg_reservations l) to = Some taker"
    and "lg_config l = Some c" and "config_market c (rsv_symbol maker) = Some m"
    and "fill_sides maker taker buyer seller"
    and "\<And>k. bget_or no_balance (lg_balances l') k =
      \<lparr>available = available (bget_or no_balance (lg_balances l) k)
         + (if k = (rsv_account buyer, quote_asset m) then rsv_limit_cents buyer * q - p * q else 0)
         + (if k = (rsv_account seller, quote_asset m) then p * q else 0)
         + (if k = (rsv_account buyer, base_asset m) then q * 100 else 0),
       reserved = reserved (bget_or no_balance (lg_balances l) k)
         - (if k = (rsv_account buyer, quote_asset m) then rsv_limit_cents buyer * q else 0)
         - (if k = (rsv_account seller, base_asset m) then q * 100 else 0)\<rparr>"
proof -
  from assms show thesis
  proof (rule settle_cases)
    fix c m maker taker buyer seller staged maker' taker'
    assume *: "map_of (lg_reservations l) mo = Some maker" "map_of (lg_reservations l) to = Some taker"
      "lg_config l = Some c" "config_market c (rsv_symbol maker) = Some m"
      "fill_sides maker taker buyer seller"
      and st: "stage_balances (lg_balances l)
           (fill_deltas m buyer seller (q * 100) (p * q) (rsv_limit_cents buyer * q)
             (rsv_limit_cents buyer * q - p * q)) = Inr staged"
      and l': "l' = l\<lparr>lg_balances := put_balances (lg_balances l) staged,
           lg_reservations := put_reservation (put_reservation (lg_reservations l) maker') taker'\<rparr>"
    show thesis
      by (rule that [OF *])
        (simp add: l' staged_balance [OF st] fill_deltas_available fill_deltas_reserved)
  qed
qed

subsection \<open>The ledger as a machine\<close>

datatype ledger_op =
  OpReserve order_id account_id string side int int
| OpSettle order_id order_id int int
| OpRelease order_id
| OpFinish order_id

fun ledger_step :: "ledger \<Rightarrow> ledger_op \<Rightarrow> ledger_error + ledger" where
  "ledger_step l (OpReserve i a s sd p q) = reserve l i a s sd p q"
| "ledger_step l (OpSettle mo tk p q) = settle_fill l mo tk p q"
| "ledger_step l (OpRelease i) = res_bind (release l i) (\<lambda>(_, l'). Inr l')"
| "ledger_step l (OpFinish i) = finish_sequence l i"

lemma ledger_step_inv: "ledger_inv l \<Longrightarrow> ledger_step l x = Inr l' \<Longrightarrow> ledger_inv l'"
  by (cases x) (auto intro: reserve_inv settle_inv release_inv finish_inv)

text \<open>No operation changes the mode or the genesis configuration.\<close>

lemma ledger_step_frame:
  "ledger_step l x = Inr l' \<Longrightarrow> lg_mode l' = lg_mode l \<and> lg_config l' = lg_config l"
  by (cases x) (auto simp: reserve_def settle_fill_def release_def finish_sequence_def Let_def
      split: option.splits if_splits)

interpretation books: invariant_machine ledger_step ledger_inv
  by unfold_locales (rule ledger_step_inv)

lemma ledger_run_frame:
  "ledger_inv l \<Longrightarrow> lg_mode (run_ops ledger_step l xs) = lg_mode l"
  "ledger_inv l \<Longrightarrow> lg_config (run_ops ledger_step l xs) = lg_config l"
  by (rule books.run_constant; simp add: ledger_step_frame)+

text \<open>Sequence numbers are positive, and none is past the one being executed.\<close>

definition ids_good :: "ledger \<Rightarrow> bool" where
  "ids_good l \<longleftrightarrow> list_all (\<lambda>e. 0 < fst e \<and> fst e \<le> lg_last_sequence l + 1) (lg_reservations l)"

lemma ids_good_step:
  assumes "ledger_inv l" and "ids_good l" and "ledger_step l x = Inr l'"
  shows "ids_good l'"
proof -
  note sub = set_bput_subset [THEN subsetD]
  have ok: "bmap_ok (lg_reservations l)" using assms(1) by (simp add: ledger_inv_def ledger_shape_def)
  have ids: "0 < fst e \<and> fst e \<le> lg_last_sequence l + 1" if "e \<in> set (lg_reservations l)" for e
    using assms(2) that by (simp add: ids_good_def list_all_iff)
  show ?thesis
  proof (cases x)
    case (OpReserve i a s sd p q)
    show ?thesis
    proof (cases "is_funded l")
      case True
      have r: "reserve l i a s sd p q = Inr l'" using assms(3) OpReserve by simp
      show ?thesis
        by (rule reserve_cases [OF r True])
          (use ids in \<open>force simp: ids_good_def list_all_iff dest!: sub\<close>)
    next
      case False
      then show ?thesis using OpReserve assms by (simp add: reserve_def)
    qed
  next
    case (OpSettle mo tk p q)
    show ?thesis
    proof (cases "is_funded l")
      case True
      obtain maker taker maker' taker' where m: "map_of (lg_reservations l) mo = Some maker"
        "map_of (lg_reservations l) tk = Some taker"
        "after_fill maker q = Inr maker'" "after_fill taker q = Inr taker'"
        and l': "lg_reservations l' =
          put_reservation (put_reservation (lg_reservations l) maker') taker'"
          "lg_last_sequence l' = lg_last_sequence l"
        using assms(3) True OpSettle by (auto elim!: settle_cases)
      have "rsv_order_id maker' = mo" "rsv_order_id taker' = tk"
        using m shape_id [of l] assms(1) after_fill_fields [OF m(3)] after_fill_fields [OF m(4)]
        by (auto simp: ledger_inv_def)
      moreover have "0 < i \<and> i \<le> lg_last_sequence l + 1"
        if "map_of (lg_reservations l) i = Some r" for i r
        using ids [OF map_of_SomeD [OF that]] by simp
      moreover have "e \<in> set (lg_reservations l) \<or> fst e = rsv_order_id maker'
          \<or> fst e = rsv_order_id taker'" if "e \<in> set (lg_reservations l')" for e
        using that l'(1) ok set_put_reservation [of "put_reservation (lg_reservations l) maker'" e taker']
          set_put_reservation [of "lg_reservations l" e maker'] by auto
      ultimately have "0 < fst e \<and> fst e \<le> lg_last_sequence l + 1"
        if "e \<in> set (lg_reservations l')" for e
        using that m ids by metis
      then show ?thesis by (simp add: ids_good_def list_all_iff l'(2))
    qed (use OpSettle assms in \<open>simp add: settle_fill_def\<close>)
  next
    case (OpRelease i)
    then show ?thesis
      using assms(3) ids
      by (auto simp: ids_good_def list_all_iff bdel_def elim!: release_cases)
  next
    case (OpFinish i)
    then show ?thesis
      using assms(3) ids by (fastforce simp: ids_good_def list_all_iff finish_sequence_def)
  qed
qed

interpretation numbered: invariant_machine ledger_step "\<lambda>l. ledger_inv l \<and> ids_good l"
  by unfold_locales (blast intro: ledger_step_inv ids_good_step)

end
