(* ===== verification/Ledger_Recovery.thy ===== *)
theory Ledger_Recovery
  imports Ledger_Preserve
begin

section \<open>Ledger: snapshots and the check of a recovered ledger\<close>

text \<open>
  \<open>snapshot\<close>, \<open>from_snapshot\<close>, \<open>validate\<close> and \<open>validate_obligations\<close> of
  \<open>ledger.rs\<close>. The lemmas show that \<open>validate\<close> decides the accounting invariant, and
  that a snapshot taken between two messages restores the ledger it was taken from.
\<close>

subsection \<open>The operations\<close>

definition snapshot :: "ledger \<Rightarrow> ledger_snapshot" where
  "snapshot l =
     \<lparr>ls_version = LEDGER_VERSION, ls_mode = lg_mode l, ls_asset_scale = ASSET_SCALE,
      ls_config = lg_config l, ls_last_sequence = lg_last_sequence l,
      ls_balances = map (\<lambda>e. \<lparr>br_account = fst (fst e), br_asset = snd (fst e), br_balance = snd e\<rparr>)
        (lg_balances l),
      ls_reservations = map snd (lg_reservations l)\<rparr>"

text \<open>The loops of \<open>validate\<close>: the totals per asset, the obligations per balance, and the
  comparison that removes each obligation it meets.\<close>

definition expected_totals :: "funding list \<Rightarrow> (string, int) bmap" where
  "expected_totals gs =
     foldl (\<lambda>m g. bput m (fu_asset g) (bget_or 0 m (fu_asset g) + fu_units g)) [] gs"

fun actual_totals ::
  "funding_config \<Rightarrow> (string, int) bmap \<Rightarrow> (balance_key, balance) bmap \<Rightarrow>
   ledger_error + (string, int) bmap" where
  "actual_totals config acc [] = Inr acc"
| "actual_totals config acc (((account, asset), b) # rest) =
     res_bind (check_balance b) (\<lambda>_.
     res_bind (require (asset_configured config asset) UnconfiguredAsset) (\<lambda>_.
     actual_totals config
       (bput acc asset (bget_or 0 acc asset + (available b + reserved b))) rest))"

fun sum_obligations ::
  "ledger \<Rightarrow> (balance_key, int) bmap \<Rightarrow> reservation list \<Rightarrow>
   ledger_error + (balance_key, int) bmap" where
  "sum_obligations l acc [] = Inr acc"
| "sum_obligations l acc (r # rest) =
     res_bind (ledger_market l (rsv_symbol r)) (\<lambda>market.
     res_bind
       (if rsv_asset r \<noteq> reserve_asset (rsv_side r) market then Inl TermsDisagree
        else res_bind (reserve_units (rsv_side r) (rsv_limit_cents r) (rsv_remaining_tenths r))
          (\<lambda>u. require (rsv_units r = u) TermsDisagree)) (\<lambda>_.
     let key = (rsv_account r, rsv_asset r) in
     res_bind (ok_or ObligationsOverflow (checked_add (bget_or 0 acc key) (rsv_units r))) (\<lambda>total.
     sum_obligations l (bput acc key total) rest)))"

fun match_obligations ::
  "(balance_key, int) bmap \<Rightarrow> (balance_key, balance) bmap \<Rightarrow>
   ledger_error + (balance_key, int) bmap" where
  "match_obligations obligations [] = Inr obligations"
| "match_obligations obligations ((key, b) # rest) =
     res_bind (require (reserved b = bget_or 0 obligations key) ReservedDiffers) (\<lambda>_.
     match_obligations (bdel obligations key) rest)"

definition nonzero :: "(string, int) bmap \<Rightarrow> (string, int) bmap" where
  "nonzero m = filter (\<lambda>e. snd e \<noteq> 0) m"

definition validate :: "ledger \<Rightarrow> ledger_error + unit" where
  "validate l =
     (if \<not> is_funded l then Inr () else
      res_bind (ok_or FundedConfigMissing (lg_config l)) (\<lambda>config.
      res_bind (actual_totals config [] (lg_balances l)) (\<lambda>actual.
      res_bind (require (nonzero (expected_totals (fc_funding config)) = nonzero actual)
                 AssetTotalDiffers) (\<lambda>_.
      res_bind (sum_obligations l [] (map snd (lg_reservations l))) (\<lambda>obligations.
      res_bind (match_obligations obligations (lg_balances l)) (\<lambda>left.
      require (left = []) ObligationWithoutBalance))))))"

fun load_balances ::
  "(balance_key, balance) bmap \<Rightarrow> balance_row list \<Rightarrow> ledger_error + (balance_key, balance) bmap" where
  "load_balances m [] = Inr m"
| "load_balances m (row # rows) =
     (if map_of m (br_account row, br_asset row) \<noteq> None then Inl DuplicateBalance
      else load_balances (bput m (br_account row, br_asset row) (br_balance row)) rows)"

fun load_reservations ::
  "order_id \<Rightarrow> (order_id, reservation) bmap \<Rightarrow> reservation list \<Rightarrow>
   ledger_error + (order_id, reservation) bmap" where
  "load_reservations last_sequence m [] = Inr m"
| "load_reservations last_sequence m (row # rows) =
     (if rsv_order_id row = 0 \<or> last_sequence < rsv_order_id row then Inl OutsideHistory
      else if map_of m (rsv_order_id row) \<noteq> None then Inl DuplicateReservation
      else load_reservations last_sequence (bput m (rsv_order_id row) row) rows)"

definition from_snapshot :: "ledger_snapshot \<Rightarrow> ledger_error + ledger" where
  "from_snapshot s =
     (if ls_version s \<noteq> LEDGER_VERSION \<or> ls_asset_scale s \<noteq> ASSET_SCALE then Inl UnsupportedSnapshot
      else if ls_mode s = SyntheticLegacy then
        (if ls_config s \<noteq> None \<or> ls_balances s \<noteq> [] \<or> ls_reservations s \<noteq> []
         then Inl SyntheticHasFunds
         else Inr (synthetic_legacy\<lparr>lg_last_sequence := ls_last_sequence s\<rparr>))
      else
        res_bind (ok_or FundedConfigMissing (ls_config s)) (\<lambda>config.
        res_bind (funded config) (\<lambda>l0.
        res_bind (load_balances [] (ls_balances s)) (\<lambda>balances.
        res_bind (load_reservations (ls_last_sequence s) [] (ls_reservations s)) (\<lambda>rs.
        let l = l0\<lparr>lg_last_sequence := ls_last_sequence s, lg_balances := balances,
                  lg_reservations := rs\<rparr> in
        res_bind (validate l) (\<lambda>_. Inr l))))))"

fun match_open_orders ::
  "ledger \<Rightarrow> order_id list \<Rightarrow> order_row list \<Rightarrow> ledger_error + unit" where
  "match_open_orders l seen [] = Inr ()"
| "match_open_orders l seen (row # rows) =
     (if or_order_id row \<in> set seen then Inl DuplicateOpenOrder else
      res_bind (ok_or OpenOrderLacksReservation (map_of (lg_reservations l) (or_order_id row))) (\<lambda>r.
      if or_account row \<noteq> rsv_account r \<or> or_symbol row \<noteq> rsv_symbol r \<or> or_side row \<noteq> rsv_side r
         \<or> or_price_cents row \<noteq> rsv_limit_cents r \<or> or_qty_tenths row \<noteq> rsv_remaining_tenths r
      then Inl OpenOrderDiffers
      else match_open_orders l (or_order_id row # seen) rows))"

definition validate_obligations :: "ledger \<Rightarrow> order_row list \<Rightarrow> ledger_error + unit" where
  "validate_obligations l rows =
     res_bind (validate l) (\<lambda>_.
     if \<not> is_funded l then Inr ()
     else res_bind (require (length rows = length (lg_reservations l)) OpenOrdersDiffer) (\<lambda>_.
       match_open_orders l [] rows))"

subsection \<open>What validate decides\<close>

lemma bmap_ok_fold_put:
  "bmap_ok m \<Longrightarrow> bmap_ok (foldl (\<lambda>m g. bput m (f g) (h m g)) m gs)"
  by (induction gs arbitrary: m) auto

lemma expected_totals_get: "bget_or 0 (expected_totals gs) a = (\<Sum>g\<leftarrow>gs. if fu_asset g = a then fu_units g else 0)"
proof -
  have "bget_or 0 (foldl (\<lambda>m g. bput m (fu_asset g) (bget_or 0 m (fu_asset g) + fu_units g)) m gs) a =
      bget_or 0 m a + (\<Sum>g\<leftarrow>gs. if fu_asset g = a then fu_units g else 0)" for m
    by (induction gs arbitrary: m) (auto simp: bget_or_bput)
  then show ?thesis by (simp add: expected_totals_def) (simp add: bget_or_def)
qed

lemma actual_totals_iff:
  "bmap_ok acc \<Longrightarrow> actual_totals c acc bal = Inr r \<longleftrightarrow>
     (\<forall>e \<in> set bal. balance_good (snd e) \<and> asset_configured c (snd (fst e))) \<and>
     r = foldl (\<lambda>m e. bput m (snd (fst e))
           (bget_or 0 m (snd (fst e)) + (available (snd e) + reserved (snd e)))) acc bal"
  by (induction c acc bal arbitrary: r rule: actual_totals.induct) auto

lemma totals_get:
  "bget_or 0 (foldl (\<lambda>m e. bput m (snd (fst e))
       (bget_or 0 m (snd (fst e)) + (available (snd e) + reserved (snd e)))) m bal) a =
     bget_or 0 m a + asset_total a bal"
proof (induction bal arbitrary: m)
  case (Cons e bal)
  show ?case by (simp add: Cons.IH bget_or_bput) (simp add: asset_total_def)
qed (simp add: asset_total_def)

lemma nonzero_map_of:
  "bmap_ok m \<Longrightarrow> map_of (nonzero m) a = (if bget_or 0 m a = 0 then None else Some (bget_or 0 m a))"
  by (simp add: nonzero_def map_of_filter_distinct bmap_ok_distinct bget_or_def split: option.splits)

lemma nonzero_eq_iff:
  assumes "bmap_ok m" and "bmap_ok m'"
  shows "nonzero m = nonzero m' \<longleftrightarrow> (\<forall>a. bget_or 0 m a = bget_or 0 m' a)"
proof
  assume "nonzero m = nonzero m'"
  then have "map_of (nonzero m) a = map_of (nonzero m') a" for a by simp
  then show "\<forall>a. bget_or 0 m a = bget_or 0 m' a"
    unfolding nonzero_map_of [OF assms(1)] nonzero_map_of [OF assms(2)]
    by (metis option.distinct(1) option.inject)
next
  assume "\<forall>a. bget_or 0 m a = bget_or 0 m' a"
  then have "map_of (nonzero m) = map_of (nonzero m')"
    by (simp add: fun_eq_iff nonzero_map_of assms)
  then show "nonzero m = nonzero m'"
    by (rule bm.entries_ext [rotated 2]) (simp_all add: nonzero_def assms)
qed

lemma match_obligations_iff:
  "bmap_ok ob \<Longrightarrow> distinct (map fst bal) \<Longrightarrow> match_obligations ob bal = Inr r \<longleftrightarrow>
     (\<forall>e \<in> set bal. reserved (snd e) = bget_or 0 ob (fst e)) \<and>
     r = filter (\<lambda>e. fst e \<notin> fst ` set bal) ob"
proof (induction ob bal arbitrary: r rule: match_obligations.induct)
  case (2 ob key b rest)
  have "bget_or 0 (bdel ob key) (fst e) = bget_or 0 ob (fst e)" if "e \<in> set rest" for e
    using that "2.prems"(2) by (force simp: bget_or_def)
  moreover have "filter (\<lambda>e. fst e \<notin> fst ` set rest) (bdel ob key) =
      filter (\<lambda>e. fst e \<notin> fst ` set ((key, b) # rest)) ob"
    by (auto simp: bdel_def intro: filter_cong)
  ultimately show ?case
    using "2.IH" [of r] "2.prems" by auto
qed auto

definition units_sum :: "reservation list \<Rightarrow> balance_key \<Rightarrow> int" where
  "units_sum rs k = (\<Sum>r\<leftarrow>rs. if (rsv_account r, rsv_asset r) = k then rsv_units r else 0)"

lemma units_sum_simps [simp]:
  "units_sum [] k = 0"
  "units_sum (r # rs) k =
     (if k = (rsv_account r, rsv_asset r) then rsv_units r else 0) + units_sum rs k"
  by (auto simp: units_sum_def)

lemma owed_units_sum: "owed rs k = units_sum (map snd rs) k"
  by (simp add: owed_def units_sum_def o_def)

lemma sum_obligations_step:
  assumes "lg_config l = Some c"
  shows "sum_obligations l acc (r # rs) = Inr ob \<longleftrightarrow> rsv_good c r \<and>
     in_i64 (bget_or 0 acc (rsv_account r, rsv_asset r) + rsv_units r) \<and>
     sum_obligations l (bput acc (rsv_account r, rsv_asset r)
       (bget_or 0 acc (rsv_account r, rsv_asset r) + rsv_units r)) rs = Inr ob"
  using assms
  by (auto simp: ledger_market_def rsv_good_def Let_def split: option.splits)

lemma sum_obligations_get:
  assumes "lg_config l = Some c" and "bmap_ok acc" and "sum_obligations l acc rs = Inr ob"
  shows "(\<forall>r \<in> set rs. rsv_good c r) \<and> bmap_ok ob \<and>
     (\<forall>k. bget_or 0 ob k = bget_or 0 acc k + units_sum rs k) \<and>
     fst ` set ob = fst ` set acc \<union> (\<lambda>r. (rsv_account r, rsv_asset r)) ` set rs"
  using assms(2,3)
proof (induction rs arbitrary: acc)
  case (Cons r rs)
  let ?k = "(rsv_account r, rsv_asset r)"
  let ?acc = "bput acc ?k (bget_or 0 acc ?k + rsv_units r)"
  have step: "rsv_good c r" "sum_obligations l ?acc rs = Inr ob"
    using Cons.prems(2) unfolding sum_obligations_step [OF assms(1)] by simp_all
  have "bmap_ok ?acc" using Cons.prems(1) by simp
  from Cons.IH [OF this step(2)] step(1) show ?case
    by (simp add: bget_or_bput keys_bput)
qed simp

lemma sum_obligations_ok:
  assumes "lg_config l = Some c" and "\<forall>r \<in> set rs. rsv_good c r"
    and "\<And>k. 0 \<le> bget_or 0 acc k" and "\<And>k. bget_or 0 acc k + units_sum rs k \<le> i64_max"
  shows "\<exists>ob. sum_obligations l acc rs = Inr ob"
  using assms(2-)
proof (induction rs arbitrary: acc)
  case (Cons r rs)
  let ?k = "(rsv_account r, rsv_asset r)"
  have pos: "0 < rsv_units x" if "rsv_good c x" for x
    using that by (auto simp: rsv_good_def reserve_units_iff units_of_pos split: option.splits)
  have "0 \<le> units_sum rs k" for k
    unfolding units_sum_def using Cons.prems(1) pos by (intro sum_list_nonneg) (auto intro: less_imp_le)
  from this [of ?k] have le: "bget_or 0 acc ?k + rsv_units r \<le> i64_max"
    using Cons.prems(3) [of ?k] by simp
  moreover have "0 \<le> bget_or 0 acc ?k + rsv_units r"
    using Cons.prems(1,2) pos by (simp add: add_nonneg_nonneg less_imp_le)
  ultimately have "in_i64 (bget_or 0 acc ?k + rsv_units r)" by (simp add: arith_defs)
  moreover have "\<exists>ob. sum_obligations l (bput acc ?k (bget_or 0 acc ?k + rsv_units r)) rs = Inr ob"
  proof (rule Cons.IH)
    show "\<forall>r \<in> set rs. rsv_good c r" using Cons.prems(1) by simp
    show "0 \<le> bget_or 0 (bput acc ?k (bget_or 0 acc ?k + rsv_units r)) k" for k
      using Cons.prems(1,2) pos by (simp add: bget_or_bput add_nonneg_nonneg less_imp_le)
    show "bget_or 0 (bput acc ?k (bget_or 0 acc ?k + rsv_units r)) k + units_sum rs k \<le> i64_max" for k
      using Cons.prems(3) [of k] by (auto simp: bget_or_bput algebra_simps)
  qed
  ultimately show ?case
    using Cons.prems(1) by (simp only: sum_obligations_step [OF assms(1)] list.set) auto
qed simp

lemma totals_eq_iff:
  "nonzero (expected_totals gs) = nonzero (foldl (\<lambda>m e. bput m (snd (fst e))
       (bget_or 0 m (snd (fst e)) + (available (snd e) + reserved (snd e)))) [] bal) \<longleftrightarrow>
     (\<forall>a. (\<Sum>g\<leftarrow>gs. if fu_asset g = a then fu_units g else 0) = asset_total a bal)"
proof -
  have ok: "bmap_ok (expected_totals gs)"
    unfolding expected_totals_def by (rule bmap_ok_fold_put) simp
  show ?thesis
    by (subst nonzero_eq_iff [OF ok bmap_ok_fold_put])
      (simp_all add: expected_totals_get totals_get, simp add: bget_or_def)
qed

lemma validate_iff:
  assumes "is_funded l" and c: "lg_config l = Some c" and shape: "ledger_shape l" and wf: "config_wf c"
  shows "validate l = Inr () \<longleftrightarrow> funded_inv c (lg_balances l) (lg_reservations l)"
    (is "?val \<longleftrightarrow> ?inv")
proof -
  let ?bal = "lg_balances l" and ?rs = "lg_reservations l"
  have bal_ok: "bmap_ok ?bal" and rs_ok: "bmap_ok ?rs" using shape by (simp_all add: ledger_shape_def)
  let ?good = "\<forall>e \<in> set ?bal. balance_good (snd e) \<and> asset_configured c (snd (fst e))"
  have val: "?val \<longleftrightarrow> ?good \<and> (\<forall>a. granted c a = asset_total a ?bal) \<and>
      (\<exists>ob. sum_obligations l [] (map snd ?rs) = Inr ob \<and> match_obligations ob ?bal = Inr [])"
    using assms(1) by (auto simp: validate_def c actual_totals_iff totals_eq_iff granted_def)
  show ?thesis
  proof
    assume ?val
    then obtain ob where good: ?good and tot: "\<forall>a. granted c a = asset_total a ?bal"
      and ob: "sum_obligations l [] (map snd ?rs) = Inr ob"
      and match: "match_obligations ob ?bal = Inr []"
      unfolding val by blast
    note get = sum_obligations_get [OF c bmap_ok_Nil ob]
    have eq: "\<forall>e \<in> set ?bal. reserved (snd e) = bget_or 0 ob (fst e)"
      and none: "filter (\<lambda>e. fst e \<notin> fst ` set ?bal) ob = []"
      using match_obligations_iff [OF _ bmap_ok_distinct [OF bal_ok], of ob "[]"] match get by auto
    have cover: "k \<in> fst ` set ob \<Longrightarrow> k \<in> fst ` set ?bal" for k
      using none by (auto simp: filter_empty_conv)
    have ob_get: "owed ?rs k = bget_or 0 ob k" for k
      using get by (cases k) (simp add: owed_units_sum bget_or_def)
    have "reserved (bget_or no_balance ?bal k) = owed ?rs k" for k
    proof (cases "map_of ?bal k")
      case None
      then have "map_of ob k = None" using cover [of k] unfolding map_of_eq_None_iff by blast
      then show ?thesis
        using None unfolding ob_get by (simp add: bget_or_def no_balance_def)
    next
      case (Some b)
      then have "(k, b) \<in> set ?bal" by (rule map_of_SomeD)
      then show ?thesis using eq Some unfolding ob_get by (force simp: bget_or_def)
    qed
    then show ?inv using good tot get wf by (auto simp: funded_inv_def)
  next
    assume inv: ?inv
    have rsv: "\<forall>r \<in> set (map snd ?rs). rsv_good c r" using inv by (auto simp: funded_inv_def)
    have owed_le: "owed ?rs k \<le> i64_max" for k
      using funded_inv_reserved [OF inv, of k] funded_inv_balance [OF inv, of k]
      by (simp add: balance_good_def)
    have "\<exists>ob. sum_obligations l [] (map snd ?rs) = Inr ob"
      by (rule sum_obligations_ok [OF c rsv]) (simp_all add: bget_or_def owed_le flip: owed_units_sum)
    then obtain ob where ob: "sum_obligations l [] (map snd ?rs) = Inr ob" ..
    note get = sum_obligations_get [OF c bmap_ok_Nil ob]
    have ob_get: "bget_or 0 ob k = owed ?rs k" for k
      using get by (cases k) (simp add: owed_units_sum bget_or_def)
    have "fst ` set ob \<subseteq> fst ` set ?bal"
    proof
      fix k assume "k \<in> fst ` set ob"
      then obtain i r where "(i, r) \<in> set ?rs" and k: "k = (rsv_account r, rsv_asset r)"
        using get by auto
      then have r: "map_of ?rs i = Some r" using rs_ok by (simp add: bmap_ok_distinct)
      have pos: "0 < rsv_units x" if "rsv_good c x" for x
        using that by (auto simp: rsv_good_def reserve_units_iff units_of_pos split: option.splits)
      have "0 < rsv_units r" using funded_inv_good [OF inv r] by (rule pos)
      also have "rsv_units r \<le> owed ?rs k"
        unfolding k using rs_ok r inv pos
        by (intro owed_ge) (auto simp: funded_inv_def intro: less_imp_le)
      also have "\<dots> = reserved (bget_or no_balance ?bal k)"
        using funded_inv_reserved [OF inv] by simp
      finally have "map_of ?bal k \<noteq> None"
        by (auto simp: bget_or_def no_balance_def split: option.splits)
      then show "k \<in> fst ` set ?bal" by (auto simp: map_of_eq_None_iff)
    qed
    then have "filter (\<lambda>e. fst e \<notin> fst ` set ?bal) ob = []" by (auto simp: filter_empty_conv)
    moreover have "reserved (snd e) = bget_or 0 ob (fst e)" if "e \<in> set ?bal" for e
      using that funded_inv_reserved [OF inv, of "fst e"]
        bm.entries_iff [OF bal_ok, of "fst e" "snd e"]
      unfolding ob_get by (simp add: bget_or_def)
    ultimately have "match_obligations ob ?bal = Inr []"
      using match_obligations_iff [OF _ bmap_ok_distinct [OF bal_ok], of ob "[]"] get by metis
    then show ?val using inv ob unfolding val by (auto simp: funded_inv_def)
  qed
qed

subsection \<open>Genesis\<close>

lemma check_markets_iff:
  "check_markets syms assets ms = Inr as \<longleftrightarrow>
     (\<forall>m \<in> set ms. valid_symbol (ma_symbol m) = Inr () \<and> valid_asset (base_asset m) \<and>
        valid_asset (quote_asset m) \<and> base_asset m \<noteq> quote_asset m \<and> ma_symbol m \<notin> set syms) \<and>
     distinct (map ma_symbol ms) \<and> as = foldl (\<lambda>a m. base_asset m # quote_asset m # a) assets ms"
proof (induction syms assets ms rule: check_markets.induct)
  case (2 syms assets m ms)
  have "result_ok (valid_symbol (ma_symbol m)) = None \<longleftrightarrow> valid_symbol (ma_symbol m) \<noteq> Inr ()"
    by (cases "valid_symbol (ma_symbol m)") (auto simp: result_ok_def)
  with 2 show ?case by (auto intro: rev_image_eqI [OF _ sym])
qed auto

lemma market_assets_set:
  "set (foldl (\<lambda>a m. base_asset m # quote_asset m # a) as ms) =
     set as \<union> base_asset ` set ms \<union> quote_asset ` set ms"
  by (induction ms arbitrary: as) auto

lemma check_funding_iff:
  "check_funding as done gs = Inr u \<longleftrightarrow>
     (\<forall>g \<in> set gs. 0 < fu_units g \<and> fu_asset g \<in> set as \<and> (fu_account g, fu_asset g) \<notin> set done) \<and>
     distinct (map (\<lambda>g. (fu_account g, fu_asset g)) gs)"
  by (induction as "done" gs rule: check_funding.induct) 
    (auto simp: not_le intro: rev_image_eqI [OF _ sym])

lemma validate_config_iff:
  "validate_config c = Inr u \<longleftrightarrow>
     fee_units c = 0 \<and> fc_markets c \<noteq> [] \<and>
     (\<forall>m \<in> set (fc_markets c). valid_symbol (ma_symbol m) = Inr () \<and> valid_asset (base_asset m) \<and>
        valid_asset (quote_asset m) \<and> base_asset m \<noteq> quote_asset m) \<and>
     distinct (map ma_symbol (fc_markets c)) \<and>
     (\<forall>g \<in> set (fc_funding c). 0 < fu_units g \<and> asset_configured c (fu_asset g)) \<and>
     distinct (map (\<lambda>g. (fu_account g, fu_asset g)) (fc_funding c))"
proof -
  have "a \<in> set (foldl (\<lambda>a m. base_asset m # quote_asset m # a) [] (fc_markets c)) \<longleftrightarrow>
      asset_configured c a" for a
    by (auto simp: market_assets_set asset_configured_def list_ex_iff)
  then show ?thesis
    by (auto simp: validate_config_def check_markets_iff check_funding_iff)
qed

lemma sorted_config_idem [simp]: "sorted_config (sorted_config c) = sorted_config c"
  by (simp add: sorted_config_def sort_key_id_if_sorted)

lemma sorted_config_fields:
  "set (fc_markets (sorted_config c)) = set (fc_markets c)"
  "set (fc_funding (sorted_config c)) = set (fc_funding c)"
  by (simp_all add: sorted_config_def)

text \<open>Between two messages no reservation names a sequence the cursor has not reached.\<close>

definition recoverable :: "ledger \<Rightarrow> bool" where
  "recoverable l \<longleftrightarrow> ledger_inv l \<and>
     (if is_funded l
      then (case lg_config l of None \<Rightarrow> False
            | Some c \<Rightarrow> sorted_config c = c \<and> validate_config c = Inr ()) \<and>
           list_all (\<lambda>e. 0 < fst e \<and> fst e \<le> lg_last_sequence l) (lg_reservations l)
      else lg_config l = None \<and> lg_balances l = [] \<and> lg_reservations l = [])"

lemma genesis_total:
  assumes "distinct (map (\<lambda>g. (fu_account g, fu_asset g)) gs)"
  shows "asset_total a (bcollect (map (\<lambda>g. ((fu_account g, fu_asset g),
     \<lparr>available = fu_units g, reserved = 0\<rparr>)) gs)) = (\<Sum>g\<leftarrow>gs. if fu_asset g = a then fu_units g else 0)"
proof -
  let ?e = "\<lambda>g. ((fu_account g, fu_asset g), \<lparr>available = fu_units g, reserved = 0\<rparr>)"
  have "asset_total a (foldl (\<lambda>m e. bput m (fst e) (snd e)) m (map ?e gs)) =
      asset_total a m + (\<Sum>g\<leftarrow>gs. if fu_asset g = a then fu_units g else 0)"
    if "bmap_ok m" and "\<forall>g \<in> set gs. map_of m (fu_account g, fu_asset g) = None" for m
    using assms that
  proof (induction gs arbitrary: m)
    case (Cons g gs)
    then show ?case
      by (subst list.map, subst foldl_Cons, subst Cons.IH)
        (auto simp: asset_total_put bget_or_def no_balance_def intro: rev_image_eqI [OF _ sym])
  qed simp
  from this [of "[]"] show ?thesis by (simp add: bcollect_def asset_total_def)
qed

lemma funded_recoverable:
  assumes "funded c0 = Inr l" and "\<forall>g \<in> set (fc_funding c0). fu_units g \<le> i64_max"
  shows "recoverable l"
proof -
  let ?c = "sorted_config c0"
  let ?e = "\<lambda>g. ((fu_account g, fu_asset g), \<lparr>available = fu_units g, reserved = 0\<rparr>)"
  let ?bal = "bcollect (map ?e (fc_funding ?c))"
  have l: "l = \<lparr>lg_mode = FundedSimulation, lg_config = Some ?c, lg_last_sequence = 0,
      lg_balances = ?bal, lg_reservations = []\<rparr>"
    and ok: "validate_config ?c = Inr ()"
    using assms(1) by (auto simp: funded_def Let_def)
  note cfg = ok [unfolded validate_config_iff]
  have keys: "distinct (map fst (map ?e (fc_funding ?c)))" using cfg by (simp add: o_def)
  have entry: "e \<in> set (map ?e (fc_funding ?c))" if "e \<in> set ?bal" for e
  proof -
    have "map_of ?bal (fst e) = Some (snd e)"
      using that bm.entries_iff [OF bmap_ok_bcollect, of "fst e" "snd e"] by simp
    then have "(fst e, snd e) \<in> set (map ?e (fc_funding ?c))"
      unfolding map_of_bcollect [OF keys] by (rule map_of_SomeD)
    then show ?thesis by simp
  qed
  have "balance_good (snd e) \<and> asset_configured ?c (snd (fst e))" if mem: "e \<in> set ?bal" for e
  proof -
    obtain g where g: "g \<in> set (fc_funding ?c)" and e: "e = ?e g" using entry [OF mem] by auto
    have "0 < fu_units g" "asset_configured ?c (fu_asset g)" using cfg g by blast+
    moreover have "fu_units g \<le> i64_max" using g assms(2) sorted_config_fields(2) [of c0] by blast
    ultimately show ?thesis by (simp add: e balance_good_def)
  qed
  moreover have "reserved (bget_or no_balance ?bal k) = 0" for k
    by (auto simp: bget_or_def map_of_bcollect [OF keys] no_balance_def
        split: option.splits dest!: map_of_SomeD)
  moreover have "config_wf ?c" using cfg by (simp add: config_wf_def list_all_iff)
  ultimately have "funded_inv ?c ?bal []"
    using cfg by (simp add: funded_inv_def genesis_total granted_def owed_def)
  then show ?thesis
    by (simp add: l recoverable_def ledger_inv_def ledger_shape_def is_funded_def ok)
qed

subsection \<open>A snapshot restores its ledger\<close>

lemma load_balances_collect:
  assumes "distinct (map (\<lambda>r. (br_account r, br_asset r)) rows)"
    and "\<forall>r \<in> set rows. map_of m (br_account r, br_asset r) = None"
  shows "load_balances m rows =
    Inr (foldl (\<lambda>m e. bput m (fst e) (snd e)) m
      (map (\<lambda>r. ((br_account r, br_asset r), br_balance r)) rows))"
  using assms
proof (induction m rows rule: load_balances.induct)
  case (2 m row rows)
  have "map_of (bput m (br_account row, br_asset row) (br_balance row)) (br_account r, br_asset r) = None"
    if "r \<in> set rows" for r
    using "2.prems" that by (auto simp: image_iff)
  with 2 show ?case by (simp del: map_of_bput)
qed simp

lemma load_reservations_collect:
  assumes "distinct (map rsv_order_id rows)"
    and "\<forall>r \<in> set rows. map_of m (rsv_order_id r) = None \<and> 0 < rsv_order_id r \<and> rsv_order_id r \<le> n"
  shows "load_reservations n m rows =
    Inr (foldl (\<lambda>m e. bput m (fst e) (snd e)) m (map (\<lambda>r. (rsv_order_id r, r)) rows))"
  using assms
proof (induction n m rows rule: load_reservations.induct)
  case (2 n m row rows)
  have "map_of (bput m (rsv_order_id row) row) (rsv_order_id r) = None" if "r \<in> set rows" for r
    using "2.prems" that by (auto simp: image_iff)
  with 2 show ?case by (simp del: map_of_bput)
qed simp

lemma snapshot_roundtrip:
  assumes "recoverable l"
  shows "from_snapshot (snapshot l) = Inr l"
proof (cases "is_funded l")
  case False
  then have "lg_mode l = SyntheticLegacy" by (cases "lg_mode l") (simp_all add: is_funded_def)
  then show ?thesis
    using assms False by (simp add: recoverable_def from_snapshot_def snapshot_def synthetic_legacy_def)
next
  case True
  then obtain c where c: "lg_config l = Some c" and sorted: "sorted_config c = c"
    and ok: "validate_config c = Inr ()" and inv: "ledger_inv l"
    and ids: "list_all (\<lambda>e. 0 < fst e \<and> fst e \<le> lg_last_sequence l) (lg_reservations l)"
    using assms by (auto simp: recoverable_def split: option.splits)
  have shape: "bmap_ok (lg_balances l)" "bmap_ok (lg_reservations l)"
    and key: "\<forall>e \<in> set (lg_reservations l). rsv_order_id (snd e) = fst e"
    using inv by (simp_all add: ledger_inv_def ledger_shape_def list_all_iff)
  have rs_rows: "map (\<lambda>r. (rsv_order_id r, r)) (map snd (lg_reservations l)) = lg_reservations l"
    and rs_ids: "map rsv_order_id (map snd (lg_reservations l)) = map fst (lg_reservations l)"
    using key by (auto simp: map_idI)
  have bal: "load_balances [] (ls_balances (snapshot l)) = Inr (lg_balances l)"
    using bcollect_id [OF shape(1)]
    by (subst load_balances_collect)
      (auto simp: snapshot_def o_def bmap_ok_distinct [OF shape(1)] bcollect_def)
  have rs: "load_reservations (lg_last_sequence l) [] (map snd (lg_reservations l)) =
      Inr (lg_reservations l)"
    using bcollect_id [OF shape(2)] key ids
    by (subst load_reservations_collect)
      (auto simp: rs_ids rs_rows bmap_ok_distinct [OF shape(2)] bcollect_def list_all_iff simp del: map_map)
  obtain l0 where l0: "funded c = Inr l0"
    and f0: "lg_mode l0 = FundedSimulation" "lg_config l0 = Some c"
    using ok sorted by (simp add: funded_def Let_def)
  have wf: "config_wf c" using ok by (simp add: validate_config_iff config_wf_def list_all_iff)
  have "funded_inv c (lg_balances l) (lg_reservations l)" using inv True c by (simp add: ledger_inv_def)
  then have val: "validate l = Inr ()"
    using validate_iff [OF True c _ wf] inv by (simp add: ledger_inv_def)
  have "l0\<lparr>lg_last_sequence := lg_last_sequence l, lg_balances := lg_balances l,
      lg_reservations := lg_reservations l\<rparr> = l"
    using f0 c True by (simp add: is_funded_def)
  then show ?thesis
    using True c l0 bal rs val
    by (simp add: from_snapshot_def is_funded_def Let_def) (simp add: snapshot_def)
qed

end
