(* ===== verification/Ledger_Properties.thy ===== *)
theory Ledger_Properties
  imports Ledger_Recovery
begin

section \<open>Ledger: the properties\<close>

text \<open>
  What the funded ledger promises its callers, each with a run of a two-account exchange as
  its witness.
\<close>

subsection \<open>A concrete exchange\<close>

text \<open>One market, a buyer with dollars and a seller with coins.\<close>

definition demo_config :: funding_config where
  "demo_config =
     \<lparr>fc_markets = [\<lparr>ma_symbol = ''BTC-USD'', base_asset = ''BTC'', quote_asset = ''USD''\<rparr>],
      fc_funding = [\<lparr>fu_account = 2, fu_asset = ''BTC'', fu_units = 5000\<rparr>,
                    \<lparr>fu_account = 1, fu_asset = ''USD'', fu_units = 100000\<rparr>],
      fee_units = 0\<rparr>"

definition demo_ledger :: ledger where
  "demo_ledger =
     \<lparr>lg_mode = FundedSimulation, lg_config = Some (sorted_config demo_config),
      lg_last_sequence = 0,
      lg_balances = [((1, ''USD''), \<lparr>available = 100000, reserved = 0\<rparr>),
                     ((2, ''BTC''), \<lparr>available = 5000, reserved = 0\<rparr>)],
      lg_reservations = []\<rparr>"

text \<open>The seller rests an offer of 20 tenths, the buyer takes 15 of them at a better price
  than its limit, and the seller cancels the rest.\<close>

definition demo_run :: "ledger_op list" where
  "demo_run =
     [OpReserve 1 2 ''BTC-USD'' Sell 1000 20, OpFinish 1,
      OpReserve 2 1 ''BTC-USD'' Buy 1100 15, OpSettle 1 2 1000 15, OpFinish 2,
      OpRelease 1, OpFinish 3]"

text \<open>Evaluation of the ledger's operations on concrete books.\<close>

lemmas ledger_eval = reserve_def settle_fill_def release_def finish_sequence_def is_funded_def
  ledger_market_def config_market_def balance_of_def bget_or_def reserve_units_def
  check_balance_def after_fill_def fill_deltas_def add_delta_def put_balances_def
  put_reservation_def no_balance_def sorted_config_def bdel_def require_def ok_or_def Let_def
  arith_defs

lemmas demo_defs = demo_config_def demo_ledger_def demo_run_def

lemma demo_run_result:
  "run_ops ledger_step demo_ledger demo_run = demo_ledger\<lparr>lg_last_sequence := 3,
     lg_balances := [((1, ''BTC''), \<lparr>available = 1500, reserved = 0\<rparr>),
                     ((1, ''USD''), \<lparr>available = 85000, reserved = 0\<rparr>),
                     ((2, ''BTC''), \<lparr>available = 3500, reserved = 0\<rparr>),
                     ((2, ''USD''), \<lparr>available = 15000, reserved = 0\<rparr>)]\<rparr>"
  by (simp add: ledger_eval demo_defs)

lemma demo_funded: "funded demo_config = Inr demo_ledger"
  by code_simp

lemma demo_grants: "\<forall>g \<in> set (fc_funding demo_config). fu_units g \<le> i64_max"
  by code_simp

lemma sum_list_insort_key:
  "(\<Sum>x\<leftarrow>insort_key f y xs. g x) = g y + (\<Sum>x\<leftarrow>xs. (g x :: int))"
  by (induction xs) simp_all

lemma sum_list_sort_key: "(\<Sum>x\<leftarrow>sort_key f xs. g x) = (\<Sum>x\<leftarrow>xs. (g x :: int))"
  by (induction xs) (simp_all add: sort_key_def sum_list_insort_key)

lemma funded_run_recoverable:
  assumes "funded c = Inr l0" and "\<forall>g \<in> set (fc_funding c). fu_units g \<le> i64_max"
  shows "ledger_inv (run_ops ledger_step l0 ops)" and "is_funded (run_ops ledger_step l0 ops)"
    and "lg_config (run_ops ledger_step l0 ops) = Some (sorted_config c)"
    and "validate_config (sorted_config c) = Inr ()"
    and "config_wf (sorted_config c)"
proof -
  have l0: "ledger_inv l0" using funded_recoverable [OF assms] by (simp add: recoverable_def)
  have f: "lg_mode l0 = FundedSimulation" "lg_config l0 = Some (sorted_config c)"
    and v: "validate_config (sorted_config c) = Inr ()"
    using assms(1) by (auto simp: funded_def Let_def)
  show "ledger_inv (run_ops ledger_step l0 ops)" by (rule books.run_keeps [OF l0])
  show "is_funded (run_ops ledger_step l0 ops)"
    and "lg_config (run_ops ledger_step l0 ops) = Some (sorted_config c)"
    by (simp_all add: is_funded_def ledger_run_frame [OF l0] f)
  show "validate_config (sorted_config c) = Inr ()" by (rule v)
  show "config_wf (sorted_config c)" using v by (simp add: validate_config_iff config_wf_def list_all_iff)
qed

lemma funded_run_inv:
  assumes "funded c = Inr l0" and "\<forall>g \<in> set (fc_funding c). fu_units g \<le> i64_max"
  shows "funded_inv (sorted_config c) (lg_balances (run_ops ledger_step l0 ops))
           (lg_reservations (run_ops ledger_step l0 ops))"
  using funded_run_recoverable [OF assms] by (simp add: ledger_inv_def)

subsection \<open>The books always balance\<close>

text \<open>C26: a ledger created from a genesis configuration passes the recovery check
  \<open>Ledger::validate\<close> after every sequence of reservations, settlements, releases and cursor
  moves, whatever their arguments: balances are nonnegative, every reservation holds the units
  its terms need, the reserved side of each balance is the sum of its reservations and the
  totals per asset are those of the genesis.\<close>

theorem ledger_always_validates:
  assumes "funded c = Inr l0" and "\<forall>g \<in> set (fc_funding c). fu_units g \<le> i64_max"
  shows "validate (run_ops ledger_step l0 ops) = Inr ()"
  using validate_iff [OF funded_run_recoverable(2,3) [OF assms] _ funded_run_recoverable(5) [OF assms]]
    funded_run_inv [OF assms] funded_run_recoverable(1) [OF assms]
  by (simp add: ledger_inv_def)

theorem ledger_always_validates_witness:
  "validate (run_ops ledger_step demo_ledger demo_run) = Inr () \<and>
   lg_last_sequence (run_ops ledger_step demo_ledger demo_run) = 3"
  using ledger_always_validates [OF demo_funded demo_grants, of demo_run]
  by (simp add: demo_run_result)

text \<open>C4: nothing is created or destroyed: after every run the units of each asset, spendable
  and reserved over all accounts, add up to what the genesis configuration granted.\<close>

theorem assets_conserved:
  assumes "funded c = Inr l0" and "\<forall>g \<in> set (fc_funding c). fu_units g \<le> i64_max"
  shows "asset_total a (lg_balances (run_ops ledger_step l0 ops)) = granted c a"
proof -
  have "granted (sorted_config c) a = granted c a"
    by (simp add: granted_def sorted_config_def sum_list_sort_key)
  then show ?thesis using funded_run_inv [OF assms] by (simp add: funded_inv_def)
qed

theorem assets_conserved_witness:
  "asset_total ''USD'' (lg_balances (run_ops ledger_step demo_ledger demo_run)) = 100000"
  using assets_conserved [OF demo_funded demo_grants, of "''USD''" demo_run]
  by (simp add: granted_def demo_config_def)

subsection \<open>Recovery\<close>

text \<open>A snapshot taken when a message has been finished restores exactly the ledger it was
  taken from, and the recovery check accepts it.\<close>

theorem snapshot_restores_run:
  assumes "funded c = Inr l0" and "\<forall>g \<in> set (fc_funding c). fu_units g \<le> i64_max"
    and "finish_sequence (run_ops ledger_step l0 ops) i = Inr l"
  shows "from_snapshot (snapshot l) = Inr l"
proof (rule snapshot_roundtrip)
  let ?l = "run_ops ledger_step l0 ops"
  have inv: "ledger_inv ?l" by (rule funded_run_recoverable(1) [OF assms(1,2)])
  have "ledger_inv l0" and "ids_good l0"
    using funded_recoverable [OF assms(1,2)] assms(1)
    by (auto simp: recoverable_def ids_good_def funded_def Let_def)
  then have "ids_good ?l" using numbered.run_keeps by blast
  then show "recoverable l"
    using finish_inv [OF inv assms(3)] assms(3) funded_run_recoverable [OF assms(1,2)]
    by (simp add: recoverable_def finish_sequence_def ids_good_def)
      (auto simp: is_funded_def)
qed

theorem snapshot_restores_run_witness:
  "from_snapshot (snapshot (run_ops ledger_step demo_ledger demo_run\<lparr>lg_last_sequence := 4\<rparr>)) =
     Inr (run_ops ledger_step demo_ledger demo_run\<lparr>lg_last_sequence := 4\<rparr>)"
  by (rule snapshot_restores_run [OF demo_funded demo_grants, of demo_run 4])
    (simp add: demo_run_result ledger_eval demo_defs)

subsection \<open>Settlement\<close>

text \<open>C25: a settled fill of \<open>q\<close> tenths at \<open>p\<close> cents between two reservations moves the base
  from the seller's reserved side to the buyer's spendable side, pays the seller \<open>p * q\<close>, takes
  the buyer's reserve at its own limit and gives back the improvement over the limit, and
  changes no other balance.\<close>

theorem settlement_moves_exactly:
  assumes "settle_fill l mo tk p q = Inr l'" and "is_funded l"
  shows "\<exists>c m maker taker buyer seller.
    map_of (lg_reservations l) mo = Some maker \<and> map_of (lg_reservations l) tk = Some taker \<and>
    lg_config l = Some c \<and> config_market c (rsv_symbol maker) = Some m \<and>
    fill_sides maker taker buyer seller \<and>
    (\<forall>k. bget_or no_balance (lg_balances l') k =
      \<lparr>available = available (bget_or no_balance (lg_balances l) k)
         + (if k = (rsv_account buyer, quote_asset m) then rsv_limit_cents buyer * q - p * q else 0)
         + (if k = (rsv_account seller, quote_asset m) then p * q else 0)
         + (if k = (rsv_account buyer, base_asset m) then q * 100 else 0),
       reserved = reserved (bget_or no_balance (lg_balances l) k)
         - (if k = (rsv_account buyer, quote_asset m) then rsv_limit_cents buyer * q else 0)
         - (if k = (rsv_account seller, base_asset m) then q * 100 else 0)\<rparr>)"
  using assms by (rule settle_balance) metis

definition demo_offer :: reservation where
  "demo_offer = \<lparr>rsv_order_id = 1, rsv_account = 2, rsv_symbol = ''BTC-USD'', rsv_side = Sell,
     rsv_limit_cents = 1000, rsv_remaining_tenths = 20, rsv_asset = ''BTC'', rsv_units = 2000\<rparr>"

definition demo_bid :: reservation where
  "demo_bid = \<lparr>rsv_order_id = 2, rsv_account = 1, rsv_symbol = ''BTC-USD'', rsv_side = Buy,
     rsv_limit_cents = 1100, rsv_remaining_tenths = 15, rsv_asset = ''USD'', rsv_units = 16500\<rparr>"

definition demo_before_fill :: ledger where
  "demo_before_fill = demo_ledger\<lparr>lg_last_sequence := 1,
     lg_balances := [((1, ''USD''), \<lparr>available = 83500, reserved = 16500\<rparr>),
                     ((2, ''BTC''), \<lparr>available = 3000, reserved = 2000\<rparr>)],
     lg_reservations := [(1, demo_offer), (2, demo_bid)]\<rparr>"

lemma demo_before_fill: "run_ops ledger_step demo_ledger (take 3 demo_run) = demo_before_fill"
  by (simp add: demo_before_fill_def demo_offer_def demo_bid_def ledger_eval demo_defs)

lemma demo_before_fill_sides:
  assumes "fill_sides demo_offer demo_bid b s"
  shows "b = demo_bid" and "s = demo_offer"
  using assms by (auto simp: fill_sides_def demo_offer_def demo_bid_def)

theorem settlement_moves_exactly_witness:
  "case settle_fill demo_before_fill 1 2 1000 15 of
     Inl e \<Rightarrow> False
   | Inr l' \<Rightarrow> balance_of l' 1 ''USD'' = \<lparr>available = 85000, reserved = 0\<rparr> \<and>
       balance_of l' 2 ''BTC'' = \<lparr>available = 3000, reserved = 500\<rparr>"
proof -
  have "result_ok (settle_fill demo_before_fill 1 2 1000 15) \<noteq> None"
    and fd: "is_funded demo_before_fill"
    by (simp_all add: demo_before_fill_def demo_offer_def demo_bid_def ledger_eval demo_defs)
  then obtain l' where l': "settle_fill demo_before_fill 1 2 1000 15 = Inr l'" by auto
  have m: "map_of (lg_reservations demo_before_fill) 1 = Some demo_offer"
      "map_of (lg_reservations demo_before_fill) 2 = Some demo_bid"
      "lg_config demo_before_fill = Some (sorted_config demo_config)"
      "config_market (sorted_config demo_config) (rsv_symbol demo_offer) =
        Some \<lparr>ma_symbol = ''BTC-USD'', base_asset = ''BTC'', quote_asset = ''USD''\<rparr>"
    by (simp_all add: demo_before_fill_def demo_offer_def ledger_eval demo_defs)
  obtain c mk maker taker buyer seller where
    *: "map_of (lg_reservations demo_before_fill) 1 = Some maker"
      "map_of (lg_reservations demo_before_fill) 2 = Some taker"
      "lg_config demo_before_fill = Some c" "config_market c (rsv_symbol maker) = Some mk"
      "fill_sides maker taker buyer seller"
    and bal: "\<And>k. bget_or no_balance (lg_balances l') k =
      \<lparr>available = available (bget_or no_balance (lg_balances demo_before_fill) k)
         + (if k = (rsv_account buyer, quote_asset mk) then rsv_limit_cents buyer * 15 - 1000 * 15 else 0)
         + (if k = (rsv_account seller, quote_asset mk) then 1000 * 15 else 0)
         + (if k = (rsv_account buyer, base_asset mk) then 15 * 100 else 0),
       reserved = reserved (bget_or no_balance (lg_balances demo_before_fill) k)
         - (if k = (rsv_account buyer, quote_asset mk) then rsv_limit_cents buyer * 15 else 0)
         - (if k = (rsv_account seller, base_asset mk) then 15 * 100 else 0)\<rparr>"
    using settlement_moves_exactly [OF l' fd] by blast
  have "maker = demo_offer" "taker = demo_bid" "c = sorted_config demo_config"
    using *(1-3) unfolding m by simp_all
  then have mk: "mk = \<lparr>ma_symbol = ''BTC-USD'', base_asset = ''BTC'', quote_asset = ''USD''\<rparr>"
    and "buyer = demo_bid" "seller = demo_offer"
    using *(4,5) m(4) demo_before_fill_sides by auto
  then show ?thesis
    unfolding l' balance_of_def sum.case bal
    by (simp add: demo_before_fill_def demo_offer_def demo_bid_def bget_or_def)
qed

subsection \<open>Release\<close>

text \<open>Releasing a reservation right after it was made gives back the ledger as it was: the
  account's balance, every other balance and every reservation.\<close>

lemma reserve_then_release:
  assumes "ledger_inv l" and "is_funded l" and "reserve l i a s sd p q = Inr l1"
  shows "\<exists>l2. release l1 i = Inr (True, l2) \<and> lg_reservations l2 = lg_reservations l \<and>
    (\<forall>k. bget_or no_balance (lg_balances l2) k = bget_or no_balance (lg_balances l) k)"
proof -
  obtain m u where free: "map_of (lg_reservations l) i = None" and u: "reserve_units sd p q = Inr u"
    and l1: "l1 = l\<lparr>lg_balances := bput (lg_balances l) (a, reserve_asset sd m)
             \<lparr>available = available (balance_of l a (reserve_asset sd m)) - u,
              reserved = reserved (balance_of l a (reserve_asset sd m)) + u\<rparr>,
           lg_reservations := bput (lg_reservations l) i
             \<lparr>rsv_order_id = i, rsv_account = a, rsv_symbol = s, rsv_side = sd,
              rsv_limit_cents = p, rsv_remaining_tenths = q,
              rsv_asset = reserve_asset sd m, rsv_units = u\<rparr>\<rparr>"
    using assms(3,2) by (rule reserve_cases)
  obtain c where "funded_inv c (lg_balances l) (lg_reservations l)" and shape: "ledger_shape l"
    using assms(1,2) by (auto simp: ledger_inv_def split: option.splits)
  then have good: "balance_good (bget_or no_balance (lg_balances l) k)" for k
    by (intro funded_inv_balance)
  have "bdel (bput (lg_reservations l) i r) i = lg_reservations l" for r
    using free shape
    by (intro bm.entries_ext) (auto simp: ledger_shape_def)
  then show ?thesis
    using good [of "(a, reserve_asset sd m)"]
    by (simp add: release_def l1 check_balance_def balance_good_def arith_defs balance_of_def
        bget_or_bput Let_def require_def del: split_paired_All)
qed

text \<open>The genesis books of the example, after the reservation of a resting offer.\<close>

text \<open>A release never fails on a ledger that keeps the accounting invariant: cancelling an
  order cannot be refused for lack of a balance row, and it reports whether a reservation was
  there.\<close>

lemma release_always_succeeds:
  assumes "ledger_inv l" and "is_funded l"
  shows "\<exists>b l'. release l i = Inr (b, l') \<and> (b \<longleftrightarrow> map_of (lg_reservations l) i \<noteq> None)"
  using assms by (rule release_succeeds)

subsection \<open>The recovery check\<close>

text \<open>\<open>Ledger::validate\<close> accepts a recovered ledger exactly when the accounting invariant
  holds of it.\<close>

theorem validate_decides:
  assumes "is_funded l" and "lg_config l = Some c" and "ledger_shape l" and "config_wf c"
  shows "validate l = Inr () \<longleftrightarrow> funded_inv c (lg_balances l) (lg_reservations l)"
  using assms by (rule validate_iff)

theorem validate_decides_witness:
  "\<not> funded_inv (sorted_config demo_config)
      [((1, ''USD''), \<lparr>available = 99999, reserved = 0\<rparr>),
       ((2, ''BTC''), \<lparr>available = 5000, reserved = 0\<rparr>)] []"
proof -
  let ?l = "demo_ledger\<lparr>lg_balances := [((1, ''USD''), \<lparr>available = 99999, reserved = 0\<rparr>),
       ((2, ''BTC''), \<lparr>available = 5000, reserved = 0\<rparr>)]\<rparr>"
  have "validate ?l \<noteq> Inr ()"
    by (simp add: validate_def expected_totals_def nonzero_def asset_configured_def ledger_eval
        demo_defs)
  moreover have "is_funded ?l" "lg_config ?l = Some (sorted_config demo_config)" "ledger_shape ?l"
    "config_wf (sorted_config demo_config)"
    by (simp_all add: ledger_shape_def bmap_ok_def config_wf_def ledger_eval demo_defs)
  ultimately show ?thesis using validate_decides [of ?l] by (simp add: demo_ledger_def)
qed

end
