(* ===== verification/Position.thy ===== *)
theory Position
  imports Ledger "HOL-Library.Signed_Division"
begin

section \<open>Positions (services/src/matcher.rs, \<open>Position\<close>)\<close>

text \<open>
  One account's holding in one symbol: net quantity in tenths, cash and cost basis in mills,
  realised profit in mills. A fill is booked on a copy with checked \<open>i64\<close> arithmetic, so
  the result is an option; the intermediate \<open>i128\<close> products are plain integers.
\<close>

record position =
  net_qty_tenths :: int
  cash_mills :: int
  cost_basis_mills :: int
  realized_mills :: int

definition no_position :: position where
  "no_position = \<lparr>net_qty_tenths = 0, cash_mills = 0, cost_basis_mills = 0, realized_mills = 0\<rparr>"

text \<open>The branch of \<open>after_fill\<close> that closes open quantity, as basis and realised profit of
  the next position.\<close>

definition close_fill :: "position \<Rightarrow> int \<Rightarrow> int \<Rightarrow> (int \<times> int) option" where
  "close_fill p qty price =
     (let open_abs = \<bar>net_qty_tenths p\<bar> in
      do { closed \<leftarrow> try_i64 (min qty open_abs);
           closed_basis \<leftarrow> try_i64 ((cost_basis_mills p * closed) sdiv open_abs);
           closed_proceeds \<leftarrow> checked_mul closed price;
           realized_delta \<leftarrow>
             (if 0 < net_qty_tenths p then checked_sub closed_proceeds closed_basis
              else checked_sub closed_basis closed_proceeds);
           realized \<leftarrow> checked_add (realized_mills p) realized_delta;
           basis \<leftarrow> checked_sub (cost_basis_mills p) closed_basis;
           let flipped = qty - closed;
           basis' \<leftarrow> (if 0 < flipped then checked_mul flipped price else Some basis);
           Some (basis', realized) })"

definition position_after_fill :: "position \<Rightarrow> side \<Rightarrow> int \<Rightarrow> int \<Rightarrow> position option" where
  "position_after_fill p sd qty price =
     do { notional \<leftarrow> checked_mul qty price;
          signed_qty \<leftarrow> (case sd of Buy \<Rightarrow> Some qty | Sell \<Rightarrow> checked_neg qty);
          cash_delta \<leftarrow> (case sd of Buy \<Rightarrow> checked_neg notional | Sell \<Rightarrow> Some notional);
          net \<leftarrow> checked_add (net_qty_tenths p) signed_qty;
          cash \<leftarrow> checked_add (cash_mills p) cash_delta;
          let opening_or_adding =
            (net_qty_tenths p = 0 \<or> (0 < net_qty_tenths p) = (0 < signed_qty));
          (basis, realized) \<leftarrow>
            (if opening_or_adding
             then do { b \<leftarrow> checked_add (cost_basis_mills p) notional; Some (b, realized_mills p) }
             else close_fill p qty price);
          Some \<lparr>net_qty_tenths = net, cash_mills = cash,
                cost_basis_mills = (if net = 0 then 0 else basis),
                realized_mills = realized\<rparr> }"

definition signed_basis :: "position \<Rightarrow> int" where
  "signed_basis p =
     (if 0 \<le> net_qty_tenths p then cost_basis_mills p else - cost_basis_mills p)"

definition unrealized_mills :: "position \<Rightarrow> int \<Rightarrow> int" where
  "unrealized_mills p at_cents = sat_i64 (net_qty_tenths p * at_cents - signed_basis p)"

subsection \<open>The accounting identity\<close>

text \<open>No basis without quantity, and realised profit is the cash that moved plus the cost of
  what is still held.\<close>

definition position_inv :: "position \<Rightarrow> bool" where
  "position_inv p \<longleftrightarrow>
     0 \<le> cost_basis_mills p \<and> (net_qty_tenths p = 0 \<longrightarrow> cost_basis_mills p = 0) \<and>
     realized_mills p = cash_mills p + signed_basis p"

lemma no_position_inv [simp]: "position_inv no_position"
  by (simp add: position_inv_def no_position_def signed_basis_def)

lemma close_fill_cases:
  assumes "close_fill p qty price = Some (basis, realized)" and "0 < qty"
    and "0 \<le> cost_basis_mills p" and "net_qty_tenths p \<noteq> 0"
  obtains closed cb where "closed = min qty \<bar>net_qty_tenths p\<bar>"
    and "0 \<le> cb" and "cb \<le> cost_basis_mills p" and "closed = \<bar>net_qty_tenths p\<bar> \<longrightarrow> cb = cost_basis_mills p"
    and "realized = realized_mills p +
      (if 0 < net_qty_tenths p then closed * price - cb else cb - closed * price)"
    and "basis = (if closed < qty then (qty - closed) * price else cost_basis_mills p - cb)"
proof -
  define o' where "o' = \<bar>net_qty_tenths p\<bar>"
  let ?b = "cost_basis_mills p"
  let ?c = "min qty o'"
  have c: "0 < ?c" "?c \<le> o'" "0 < o'" using assms(2,4) by (auto simp: o'_def)
  have cb: "(?b * x) sdiv o' = (?b * x) div o'" if "0 < x" for x
    using assms(3) that c by (cases "?b = 0") (simp_all add: signed_divide_int_def sgn_mult)
  have "0 \<le> (?b * ?c) div o'" using assms(3) c by (simp add: pos_imp_zdiv_nonneg_iff)
  moreover have "(?b * ?c) div o' \<le> ?b"
    using c zdiv_mono1 [OF mult_left_mono [OF c(2) assms(3)] c(3)] by simp
  moreover have "(?b * ?c) div o' = ?b" if "?c = o'" unfolding that using c(3) by simp
  ultimately show thesis
    using assms(1) unfolding close_fill_def o'_def [symmetric]
    by (intro that [of ?c "(?b * ?c) div o'"])
      (auto simp: o'_def [symmetric] cb [OF c(1)] cb [OF assms(2)] Let_def bind_eq_Some_conv split: if_splits)
qed

text \<open>Every fill keeps the identity: cash, basis and realised profit move by the same amount.\<close>

lemma after_fill_inv:
  assumes "position_after_fill p sd qty price = Some p'" and "0 < qty" and "0 < price"
    and "position_inv p"
  shows "position_inv p'"
proof -
  let ?sq = "case sd of Buy \<Rightarrow> qty | Sell \<Rightarrow> - qty"
  have n: "0 < qty * price" using assms by simp
  obtain basis realized where
    net: "net_qty_tenths p' = net_qty_tenths p + ?sq"
    and cash: "cash_mills p' = cash_mills p - ?sq * price"
    and basis: "cost_basis_mills p' = (if net_qty_tenths p' = 0 then 0 else basis)"
    and real: "realized_mills p' = realized"
    and br: "if net_qty_tenths p = 0 \<or> (0 < net_qty_tenths p) = (0 < ?sq)
      then basis = cost_basis_mills p + qty * price \<and> realized = realized_mills p
      else close_fill p qty price = Some (basis, realized)"
    using assms(1) that
    by (cases sd) (fastforce simp: position_after_fill_def bind_eq_Some_conv Let_def split: if_splits)+
  show ?thesis
  proof (cases "net_qty_tenths p = 0 \<or> (0 < net_qty_tenths p) = (0 < ?sq)")
    case True
    then show ?thesis
      using br net cash basis real n assms(2,4)
      by (cases sd) (auto simp: position_inv_def signed_basis_def)
  next
    case False
    then have "close_fill p qty price = Some (basis, realized)" "net_qty_tenths p \<noteq> 0" using br by auto
    moreover have "0 \<le> cost_basis_mills p" using assms(4) by (simp add: position_inv_def)
    ultimately obtain closed cb where c: "closed = min qty \<bar>net_qty_tenths p\<bar>"
      "0 \<le> cb" "cb \<le> cost_basis_mills p" "closed = \<bar>net_qty_tenths p\<bar> \<longrightarrow> cb = cost_basis_mills p"
      "realized = realized_mills p +
        (if 0 < net_qty_tenths p then closed * price - cb else cb - closed * price)"
      "basis = (if closed < qty then (qty - closed) * price else cost_basis_mills p - cb)"
      using assms(2) by - (rule close_fill_cases)
    have flip: "(qty - closed) * price = qty * price - closed * price" "closed < qty \<Longrightarrow> closed * price < qty * price"
      using assms(3) by (simp_all add: left_diff_distrib)
    have sides: "if closed < qty then closed = \<bar>net_qty_tenths p\<bar> else closed = qty \<and> qty \<le> \<bar>net_qty_tenths p\<bar>"
      unfolding c(1) by (simp add: min_def)
    have sq: "?sq = (if net_qty_tenths p < 0 then qty else - qty)"
      using False assms(2) by (cases sd) auto
    show ?thesis
    proof (cases "closed < qty")
      case True
      then have "closed = \<bar>net_qty_tenths p\<bar>" "cb = cost_basis_mills p" using sides c(4) by auto
      then show ?thesis
        using True False flip c(5,6) net cash basis real assms(2,4)
        by (auto simp: position_inv_def signed_basis_def sq split: if_splits)
    next
      case nf: False
      then have "closed = qty" "qty \<le> \<bar>net_qty_tenths p\<bar>" using sides by auto
      then show ?thesis
        using nf False c(2-6) net cash basis real assms(2,4)
        by (auto simp: position_inv_def signed_basis_def sq split: if_splits)
    qed
  qed
qed

lemma after_fill_net:
  "position_after_fill p sd qty price = Some p' \<Longrightarrow>
     net_qty_tenths p' = net_qty_tenths p + (case sd of Buy \<Rightarrow> qty | Sell \<Rightarrow> - qty)"
  "position_after_fill p sd qty price = Some p' \<Longrightarrow>
     cash_mills p' = cash_mills p - (case sd of Buy \<Rightarrow> qty | Sell \<Rightarrow> - qty) * price"
  by (cases sd; auto simp: position_after_fill_def bind_eq_Some_conv Let_def split: if_splits)+

end
