(* ===== verification/Book.thy ===== *)
theory Book
  imports Position
begin

section \<open>Symbols, order books and trades (services/src/matcher.rs, store.rs)\<close>

text \<open>
  The registry of listed symbols, the two sides of a book as maps from price to a queue of
  resting orders, the index of open orders, trades and the rows that go to the database.
  A \<open>HashMap\<close> is a sorted association list here: nothing in the modelled code depends on
  the order in which a \<open>HashMap\<close> is walked.
\<close>

subsection \<open>The registry\<close>

record listing =
  price_step_cents :: int
  quantity_step_tenths :: int
  is_listed :: bool
  listed_by :: order_id

type_synonym symbol_registry = "(string, listing) bmap"

definition registry_listing :: "symbol_registry \<Rightarrow> string \<Rightarrow> listing option" where
  "registry_listing r symbol =
     (case map_of r symbol of
        None \<Rightarrow> None
      | Some l \<Rightarrow> if is_listed l then Some l else None)"

definition ever_listed :: "symbol_registry \<Rightarrow> string \<Rightarrow> bool" where
  "ever_listed r symbol \<longleftrightarrow> map_of r symbol \<noteq> None"

definition listed_symbols :: "symbol_registry \<Rightarrow> string list" where
  "listed_symbols r = map fst (filter (\<lambda>e. is_listed (snd e)) r)"

definition listed_in_listing_order :: "symbol_registry \<Rightarrow> (string \<times> listing) list" where
  "listed_in_listing_order r =
     sort_key (\<lambda>e. (listed_by (snd e), fst e)) (filter (\<lambda>e. is_listed (snd e)) r)"

definition registry_list :: "symbol_registry \<Rightarrow> string \<Rightarrow> listing \<Rightarrow> bool \<times> symbol_registry" where
  "registry_list r symbol l =
     (if registry_listing r symbol \<noteq> None then (False, r) else (True, bput r symbol l))"

definition registry_delist :: "symbol_registry \<Rightarrow> string \<Rightarrow> bool \<times> symbol_registry" where
  "registry_delist r symbol =
     (case map_of r symbol of
        Some l \<Rightarrow> if is_listed l then (True, bput r symbol (l\<lparr>is_listed := False\<rparr>)) else (False, r)
      | None \<Rightarrow> (False, r))"

record listing_row =
  lr_symbol :: string
  lr_price_step_cents :: int
  lr_quantity_step_tenths :: int
  lr_listed :: bool
  lr_listed_by :: order_id

definition registry_from_rows :: "listing_row list \<Rightarrow> symbol_registry" where
  "registry_from_rows rows =
     bcollect (map (\<lambda>row. (lr_symbol row,
       \<lparr>price_step_cents = lr_price_step_cents row,
        quantity_step_tenths = lr_quantity_step_tenths row,
        is_listed = lr_listed row, listed_by = lr_listed_by row\<rparr>)) rows)"

subsection \<open>Books\<close>

record resting_order =
  ro_id :: order_id
  ro_account :: account_id
  ro_qty_tenths :: int

type_synonym book_side = "(int, resting_order list) bmap"

record book =
  bids :: book_side
  asks :: book_side

definition empty_book :: book where
  "empty_book = \<lparr>bids = [], asks = []\<rparr>"

record order_ref =
  ref_symbol :: string
  ref_side :: side
  ref_price_cents :: int

record planned_fill =
  pf_maker_order :: order_id
  pf_maker_account :: account_id
  pf_price_cents :: int
  pf_qty_tenths :: int

text \<open>\<open>match side { Buy => bids, Sell => asks }\<close>, to read and to write.\<close>

fun own_side :: "side \<Rightarrow> book \<Rightarrow> book_side" where
  "own_side Buy b = bids b"
| "own_side Sell b = asks b"

fun put_side :: "side \<Rightarrow> book \<Rightarrow> book_side \<Rightarrow> book" where
  "put_side Buy b l = b\<lparr>bids := l\<rparr>"
| "put_side Sell b l = b\<lparr>asks := l\<rparr>"

text \<open>The levels an arriving order of this side meets, best first: a buy walks the asks
  upward, a sell the bids downward.\<close>

fun walk_side :: "side \<Rightarrow> book \<Rightarrow> (int \<times> resting_order list) list" where
  "walk_side Buy b = asks b"
| "walk_side Sell b = rev (bids b)"

definition best_bid_cents :: "book option \<Rightarrow> int option" where
  "best_bid_cents b =
     (case b of None \<Rightarrow> None
      | Some k \<Rightarrow> (if bids k = [] then None else Some (fst (last (bids k)))))"

definition best_ask_cents :: "book option \<Rightarrow> int option" where
  "best_ask_cents b =
     (case b of None \<Rightarrow> None
      | Some k \<Rightarrow> (if asks k = [] then None else Some (fst (hd (asks k)))))"

text \<open>\<open>prune_book\<close>: an empty book and no book are the same state.\<close>

definition prune_book :: "(string, book) bmap \<Rightarrow> string \<Rightarrow> (string, book) bmap" where
  "prune_book books symbol =
     (case map_of books symbol of
        Some b \<Rightarrow> if bids b = [] \<and> asks b = [] then bdel books symbol else books
      | None \<Rightarrow> books)"

subsection \<open>Trades and changes\<close>

definition cents_to_f64 :: "int \<Rightarrow> f64" where
  "cents_to_f64 cents = f64_div (f64_of_int cents) 100"

definition tenths_to_f64 :: "int \<Rightarrow> f64" where
  "tenths_to_f64 tenths = f64_div (f64_of_int tenths) 10"

definition mills_to_f64 :: "int \<Rightarrow> f64" where
  "mills_to_f64 mills = f64_div (f64_of_int mills) 1000"

record trade =
  tr_trade_id :: nat
  tr_symbol :: string
  tr_price :: f64
  tr_quantity :: f64
  tr_maker_order :: order_id
  tr_maker_account :: account_id
  tr_taker_order :: order_id
  tr_taker_account :: account_id
  tr_taker_side :: side
  tr_timestamp :: nat

record trade_row =
  tw_trade_id :: nat
  tw_timestamp :: nat
  tw_symbol :: string
  tw_price_cents :: int
  tw_qty_tenths :: int
  tw_maker_order :: order_id
  tw_maker_account :: account_id
  tw_taker_order :: order_id
  tw_taker_account :: account_id
  tw_taker_side :: side

record symbol_agg =
  last_trade_cents :: int
  volume_tenths :: int
  trade_count :: nat

definition no_agg :: symbol_agg where
  "no_agg = \<lparr>last_trade_cents = 0, volume_tenths = 0, trade_count = 0\<rparr>"

record mid_window_row =
  mw_clip_ms :: nat
  mw_samples :: "(nat \<times> int option) list"

record execution_state =
  root_version :: nat
  mid_windows :: "(string, mid_window_row) bmap"
  extensions :: "(string, bytes) bmap"

datatype change =
  ExecutionStateOf execution_state
| OrderRested order_row
| OrderReduced order_id int
| OrderClosed order_id
| Traded trade_row
| Consumed order_message
| SymbolListed listing_row
| SymbolDelisted string

text \<open>\<open>MatcherState::record\<close>: kept only when the engine writes its state to disk.\<close>

definition record_change :: "change list option \<Rightarrow> change \<Rightarrow> change list option" where
  "record_change pending c = (case pending of None \<Rightarrow> None | Some cs \<Rightarrow> Some (cs @ [c]))"

definition TRADE_WINDOW :: nat where "TRADE_WINDOW = 10000"

definition RECENT_MESSAGES_CAP :: nat where "RECENT_MESSAGES_CAP = 200"

text \<open>The open orders in the order \<open>restore_ledger\<close> walks them.\<close>

definition side_rows :: "string \<Rightarrow> side \<Rightarrow> book_side \<Rightarrow> order_row list" where
  "side_rows symbol sd levels =
     concat (map (\<lambda>(price, level).
       map (\<lambda>r. \<lparr>or_order_id = ro_id r, or_account = ro_account r, or_symbol = symbol,
                 or_side = sd, or_price_cents = price, or_qty_tenths = ro_qty_tenths r\<rparr>) level)
       levels)"

definition open_rows :: "(string, book) bmap \<Rightarrow> order_row list" where
  "open_rows books =
     concat (map (\<lambda>(symbol, b). side_rows symbol Buy (bids b) @ side_rows symbol Sell (asks b)) books)"

subsection \<open>The registry's laws\<close>

definition registry_ok :: "symbol_registry \<Rightarrow> bool" where
  "registry_ok r \<longleftrightarrow> bmap_ok r \<and>
     (\<forall>e \<in> set r. 0 < price_step_cents (snd e) \<and> price_step_cents (snd e) \<le> MAX_GRID_UNITS \<and>
        0 < quantity_step_tenths (snd e) \<and> quantity_step_tenths (snd e) \<le> MAX_GRID_UNITS)"

lemma registry_listing_list:
  "registry_list r s l = (True, r') \<Longrightarrow> is_listed l \<Longrightarrow>
     registry_listing r' s' = (if s' = s then Some l else registry_listing r s')"
  by (auto simp: registry_list_def registry_listing_def split: if_splits)

lemma registry_listing_delist:
  "registry_delist r s = (True, r') \<Longrightarrow>
     registry_listing r' s' = (if s' = s then None else registry_listing r s')"
  by (auto simp: registry_delist_def registry_listing_def split: if_splits option.splits)

lemma registry_delist_ok: "registry_ok r \<Longrightarrow> registry_ok (snd (registry_delist r s))"
  using set_bput_subset [of r s]
  by (fastforce simp: registry_ok_def registry_delist_def split: option.splits dest: map_of_SomeD)

lemma registry_list_ok:
  "registry_ok r \<Longrightarrow> 0 < price_step_cents l \<Longrightarrow> price_step_cents l \<le> MAX_GRID_UNITS \<Longrightarrow>
     0 < quantity_step_tenths l \<Longrightarrow> quantity_step_tenths l \<le> MAX_GRID_UNITS \<Longrightarrow>
     registry_ok (snd (registry_list r s l))"
  using set_bput_subset [of r s l] by (fastforce simp: registry_ok_def registry_list_def)

lemma registry_listing_steps:
  "registry_ok r \<Longrightarrow> registry_listing r s = Some l \<Longrightarrow>
     0 < price_step_cents l \<and> 0 < quantity_step_tenths l"
  by (auto simp: registry_ok_def registry_listing_def split: option.splits if_splits
      dest!: map_of_SomeD)

end
