(* ===== verification/Reference_Price.thy ===== *)
theory Reference_Price
  imports Book
begin

section \<open>The reference price (services/src/matcher/reference_price.rs)\<close>

text \<open>
  The time-weighted middle price of each book over the last 30 seconds. A window keeps the
  sums over its closed samples up to date instead of walking the samples; the lemmas show that
  the kept sums are the walk. Milliseconds are \<open>u64\<close>, so truncated subtraction on nat is the
  source's \<open>saturating_sub\<close>; the sums are \<open>i128\<close> and written as integers.
\<close>

definition WINDOW_MS :: nat where "WINDOW_MS = 30000"

type_synonym sample = "nat \<times> int option"

record symbol_window =
  samples :: "sample list"
  closed_weighted :: int
  closed_weight :: int
  clip_ms :: nat

definition empty_window :: symbol_window where
  "empty_window = \<lparr>samples = [], closed_weighted = 0, closed_weight = 0, clip_ms = 0\<rparr>"

text \<open>The loop of \<open>loss_to\<close>: one pair of neighbouring samples per round.\<close>

fun loss_walk :: "nat \<Rightarrow> nat \<Rightarrow> sample list \<Rightarrow> int \<times> int \<Rightarrow> int \<times> int" where
  "loss_walk clip clip0 ((from, mid) # (to, mid') # rest) (weighted, weight) =
     (if clip \<le> from then (weighted, weight)
      else
        let acc = (case mid of
                     None \<Rightarrow> (weighted, weight)
                   | Some m \<Rightarrow>
                       let lost = int (min to clip - max from clip0)
                       in (weighted + m * lost, weight + lost))
        in if clip < to then acc else loss_walk clip clip0 ((to, mid') # rest) acc)"
| "loss_walk clip clip0 _ acc = acc"

definition loss_to :: "symbol_window \<Rightarrow> nat \<Rightarrow> int \<times> int" where
  "loss_to w clip = loss_walk clip (clip_ms w) (samples w) (0, 0)"

text \<open>\<open>while samples.len() >= 2 && samples[1].0 <= clip { pop_front }\<close>.\<close>

fun drop_before :: "nat \<Rightarrow> sample list \<Rightarrow> sample list" where
  "drop_before clip (a # b # rest) =
     (if fst b \<le> clip then drop_before clip (b # rest) else a # b # rest)"
| "drop_before clip xs = xs"

definition clip_to :: "symbol_window \<Rightarrow> nat \<Rightarrow> symbol_window" where
  "clip_to w clip =
     (let kept =
        (if clip_ms w \<le> clip
         then let l = loss_to w clip in (closed_weighted w - fst l, closed_weight w - snd l)
         else case samples w of
                (from, Some mid) # (to, _) # _ \<Rightarrow>
                  let gained = int (max (min to (clip_ms w)) from - max (min to clip) from)
                  in (closed_weighted w + mid * gained, closed_weight w + gained)
              | _ \<Rightarrow> (closed_weighted w, closed_weight w))
      in \<lparr>samples = drop_before clip (samples w), closed_weighted = fst kept,
          closed_weight = snd kept, clip_ms = clip\<rparr>)"

text \<open>The full walk over the samples, used when the question is about the past.\<close>

fun walk_samples :: "nat \<Rightarrow> nat \<Rightarrow> sample list \<Rightarrow> int \<times> int \<Rightarrow> int \<times> int" where
  "walk_samples now opens [] acc = acc"
| "walk_samples now opens ((from, mid) # rest) (weighted, weight) =
     walk_samples now opens rest
       (case mid of
          None \<Rightarrow> (weighted, weight)
        | Some m \<Rightarrow>
            let until = min (case rest of [] \<Rightarrow> now | s # _ \<Rightarrow> fst s) now;
                held_from = max from opens
            in if until \<le> held_from then (weighted, weight)
               else (weighted + m * int (until - held_from), weight + int (until - held_from)))"

definition walked :: "symbol_window \<Rightarrow> nat \<Rightarrow> nat \<Rightarrow> int \<times> int" where
  "walked w now opens = walk_samples now opens (samples w) (0, 0)"

definition sums_at :: "symbol_window \<Rightarrow> nat \<Rightarrow> nat \<Rightarrow> int \<times> int" where
  "sums_at w now opens =
     (if samples w = [] then (0, 0)
      else
        let newest_at = fst (last (samples w)); newest_mid = snd (last (samples w)) in
        if now < newest_at \<or> opens < clip_ms w then walked w now opens
        else
          let lost = loss_to w opens;
              weighted = closed_weighted w - fst lost;
              weight = closed_weight w - snd lost
          in case newest_mid of
               None \<Rightarrow> (weighted, weight)
             | Some mid \<Rightarrow>
                 let held = int (now - max newest_at opens)
                 in (weighted + mid * held, weight + held))"

type_synonym mid_window = "(string, symbol_window) bmap"

definition observe_window :: "symbol_window \<Rightarrow> nat \<Rightarrow> int option \<Rightarrow> symbol_window" where
  "observe_window w at_ms mid_cents =
     (let newest = (if samples w = [] then None else Some (last (samples w)));
          now = (case newest of None \<Rightarrow> at_ms | Some s \<Rightarrow> max at_ms (fst s));
          pushed =
            (case newest of
               None \<Rightarrow> w\<lparr>samples := samples w @ [(now, mid_cents)]\<rparr>
             | Some (lst, mid) \<Rightarrow>
                 if lst = now then w\<lparr>samples := butlast (samples w) @ [(lst, mid_cents)]\<rparr>
                 else if mid = mid_cents then w
                 else
                   let kept = (case mid of
                          None \<Rightarrow> (closed_weighted w, closed_weight w)
                        | Some m \<Rightarrow>
                            let held = int (now - max lst (clip_ms w))
                            in (closed_weighted w + m * held, closed_weight w + held))
                   in w\<lparr>samples := samples w @ [(now, mid_cents)],
                        closed_weighted := fst kept, closed_weight := snd kept\<rparr>)
      in clip_to pushed (now - WINDOW_MS))"

definition observe :: "mid_window \<Rightarrow> string \<Rightarrow> nat \<Rightarrow> int option \<Rightarrow> mid_window" where
  "observe m symbol at_ms mid_cents =
     bput m symbol (observe_window (bget_or empty_window m symbol) at_ms mid_cents)"

definition window_reference :: "symbol_window \<Rightarrow> nat \<Rightarrow> int option" where
  "window_reference w at_ms =
     (let kept = sums_at w at_ms (at_ms - WINDOW_MS)
      in if 0 < snd kept then Some (wrap_i64 (fst kept sdiv snd kept)) else None)"

definition reference_cents :: "mid_window \<Rightarrow> string \<Rightarrow> nat \<Rightarrow> int option" where
  "reference_cents m symbol at_ms =
     (case map_of m symbol of None \<Rightarrow> None | Some w \<Rightarrow> window_reference w at_ms)"

subsection \<open>Snapshot and restore\<close>

definition mids_snapshot :: "mid_window \<Rightarrow> (string, mid_window_row) bmap" where
  "mids_snapshot m = map (\<lambda>(s, w). (s, \<lparr>mw_clip_ms = clip_ms w, mw_samples = samples w\<rparr>)) m"

fun strictly_later :: "sample list \<Rightarrow> bool" where
  "strictly_later (a # b # rest) \<longleftrightarrow> fst a < fst b \<and> strictly_later (b # rest)"
| "strictly_later _ \<longleftrightarrow> True"

definition samples_valid :: "sample list \<Rightarrow> bool" where
  "samples_valid xs \<longleftrightarrow> xs \<noteq> [] \<and> length xs \<le> WINDOW_MS + 1 \<and> strictly_later xs \<and>
     list_all (\<lambda>s. case snd s of None \<Rightarrow> True | Some m \<Rightarrow> 0 < m) xs"

text \<open>The loop that recomputes the two kept sums.\<close>

fun closed_sums :: "nat \<Rightarrow> sample list \<Rightarrow> int \<times> int" where
  "closed_sums clip ((from, mid) # (to, mid') # rest) =
     (let held = int (to - max from clip); s = closed_sums clip ((to, mid') # rest)
      in case mid of None \<Rightarrow> s | Some m \<Rightarrow> (m * held + fst s, held + snd s))"
| "closed_sums clip _ = (0, 0)"

definition restore_window :: "mid_window_row \<Rightarrow> symbol_window option" where
  "restore_window row =
     (if samples_valid (mw_samples row)
      then let s = closed_sums (mw_clip_ms row) (mw_samples row)
           in Some \<lparr>samples = mw_samples row, closed_weighted = fst s, closed_weight = snd s,
                    clip_ms = mw_clip_ms row\<rparr>
      else None)"

fun mids_restore :: "(string, mid_window_row) bmap \<Rightarrow> mid_window option" where
  "mids_restore [] = Some []"
| "mids_restore ((symbol, row) # rows) =
     do { w \<leftarrow> restore_window row; ws \<leftarrow> mids_restore rows; Some ((symbol, w) # ws) }"

subsection \<open>The kept sums are the walk\<close>

fun second_late :: "nat \<Rightarrow> sample list \<Rightarrow> bool" where
  "second_late c (_ # b # _) \<longleftrightarrow> c < fst b"
| "second_late c _ \<longleftrightarrow> True"

lemma second_late_append: "second_late c (xs @ ys) \<Longrightarrow> second_late c xs"
  by (cases "(c, xs)" rule: second_late.cases) auto

definition window_inv :: "symbol_window \<Rightarrow> bool" where
  "window_inv w \<longleftrightarrow> strictly_later (samples w) \<and>
     (closed_weighted w, closed_weight w) = closed_sums (clip_ms w) (samples w) \<and>
     second_late (clip_ms w) (samples w)"

lemma strictly_later_append:
  "strictly_later (xs @ ys) \<longleftrightarrow> strictly_later xs \<and> strictly_later ys \<and>
     (xs = [] \<or> ys = [] \<or> fst (last xs) < fst (hd ys))"
  by (induction xs rule: strictly_later.induct) (auto, (cases ys; auto)+)

lemma strictly_later_hd: "strictly_later (a # xs) \<Longrightarrow> b \<in> set xs \<Longrightarrow> fst a < fst b"
proof (induction xs arbitrary: a)
  case (Cons c xs)
  then show ?case using Cons.IH [of c] by force
qed simp

text \<open>From samples that start at or after both clips the sums do not depend on the clip.\<close>

lemma closed_sums_late:
  assumes "strictly_later (s # xs)" and "c \<le> fst s" and "c' \<le> fst s"
  shows "closed_sums c (s # xs) = closed_sums c' (s # xs)"
  using assms
proof (induction xs arbitrary: s)
  case (Cons t xs)
  have "closed_sums c (t # xs) = closed_sums c' (t # xs)"
    using Cons.prems by (intro Cons.IH) auto
  then show ?case using Cons.prems by (cases s; cases t) (auto simp: max_def Let_def split: option.splits)
qed (cases s; simp)

lemma loss_walk_sums:
  assumes "strictly_later xs" and "clip0 \<le> clip"
  shows "loss_walk clip clip0 xs acc =
    (fst acc + fst (closed_sums clip0 xs) - fst (closed_sums clip xs),
     snd acc + snd (closed_sums clip0 xs) - snd (closed_sums clip xs))"
  using assms
proof (induction clip clip0 xs acc rule: loss_walk.induct)
  case (1 clip clip0 "from" mid to mid' rest weighted weight)
  show ?case
  proof (cases "clip \<le> from")
    case True
    then show ?thesis
      using 1(2,3) closed_sums_late [of "(from, mid)" "(to, mid') # rest" clip0 clip] by simp
  next
    case early: False
    let ?rest = "(to, mid') # rest"
    have sl: "strictly_later ?rest" using 1(2) by simp
    show ?thesis
    proof (cases "clip < to")
      case True
      then have "closed_sums clip0 ?rest = closed_sums clip ?rest"
        using sl 1(3) by (intro closed_sums_late) auto
      then show ?thesis
        using early True 1(3) by (cases mid) (auto simp: Let_def algebra_simps min_def max_def of_nat_diff)
    next
      case False
      then show ?thesis
        using early 1(1) [OF early refl False sl 1(3)] 1(3)
        by (cases mid) (auto simp: Let_def algebra_simps min_def max_def of_nat_diff)
    qed
  qed
qed auto

text \<open>What a sample that closes at \<open>to\<close> adds.\<close>

definition held_part :: "int option \<Rightarrow> nat \<Rightarrow> nat \<Rightarrow> int \<times> int" where
  "held_part mid held_from to =
     (case mid of None \<Rightarrow> (0, 0) | Some m \<Rightarrow> (m * int (to - held_from), int (to - held_from)))"

definition add2 :: "int \<times> int \<Rightarrow> int \<times> int \<Rightarrow> int \<times> int" where
  "add2 a b = (fst a + fst b, snd a + snd b)"

lemma closed_sums_snoc:
  "xs \<noteq> [] \<Longrightarrow> closed_sums clip (xs @ [(t, m)]) =
     add2 (closed_sums clip xs) (held_part (snd (last xs)) (max (fst (last xs)) clip) t)"
proof (induction xs rule: induct_list012)
  case (2 x)
  then show ?case by (cases x) (auto simp: held_part_def add2_def Let_def split: option.splits)
next
  case (3 x y zs)
  then show ?case
    by (cases x; cases y) (auto simp: add2_def Let_def split: option.splits)
qed simp

lemma closed_sums_last_mid: "closed_sums clip (xs @ [(t, m)]) = closed_sums clip (xs @ [(t, m')])"
  by (cases "xs = []") (simp_all add: closed_sums_snoc)

lemma walk_samples_sums:
  assumes "strictly_later xs" and "xs \<noteq> []" and "fst (last xs) \<le> now"
  shows "walk_samples now opens xs acc =
    add2 acc (add2 (closed_sums opens xs) (held_part (snd (last xs)) (max (fst (last xs)) opens) now))"
  using assms
proof (induction xs arbitrary: acc rule: induct_list012)
  case (2 x)
  then show ?case
    by (cases x; cases acc) (auto simp: held_part_def add2_def Let_def min_def split: option.splits)
next
  case (3 x y zs)
  have "fst y \<le> now"
    using strictly_later_hd [of y zs "last (y # zs)"] "3.prems" by (cases "zs = []") auto
  moreover have "walk_samples now opens (y # zs) acc' =
      add2 acc' (add2 (closed_sums opens (y # zs))
        (held_part (snd (last (y # zs))) (max (fst (last (y # zs))) opens) now))" for acc'
    using "3.prems" by (intro "3.IH"(2)) auto
  ultimately show ?case
    by (cases x; cases y; cases acc) (auto simp: add2_def Let_def min_def split: option.splits)
qed simp

lemma sums_at_walked:
  assumes "window_inv w"
  shows "sums_at w now opens = walked w now opens"
proof (cases "samples w = [] \<or> now < fst (last (samples w)) \<or> opens < clip_ms w")
  case True
  then show ?thesis by (auto simp: sums_at_def walked_def)
next
  case False
  have sl: "strictly_later (samples w)"
    and kept: "closed_weighted w = fst (closed_sums (clip_ms w) (samples w))"
      "closed_weight w = snd (closed_sums (clip_ms w) (samples w))"
    using assms by (auto simp: window_inv_def dest: arg_cong [of _ _ fst] arg_cong [of _ _ snd])
  have "loss_to w opens =
    (fst (closed_sums (clip_ms w) (samples w)) - fst (closed_sums opens (samples w)),
     snd (closed_sums (clip_ms w) (samples w)) - snd (closed_sums opens (samples w)))"
    using loss_walk_sums [OF sl] False by (simp add: loss_to_def)
  then show ?thesis
    using False walk_samples_sums [OF sl, of now opens]
    by (auto simp: sums_at_def walked_def kept held_part_def add2_def Let_def split: option.splits)
qed

lemma drop_before_spec:
  assumes "strictly_later xs"
  shows "strictly_later (drop_before clip xs)"
    and "closed_sums clip (drop_before clip xs) = closed_sums clip xs"
    and "second_late clip (drop_before clip xs)"
    and "xs \<noteq> [] \<Longrightarrow> drop_before clip xs \<noteq> [] \<and> last (drop_before clip xs) = last xs"
  using assms
proof (induction clip xs rule: drop_before.induct)
  case (1 clip a b rest)
  {
    case 1
    then show ?case using "1.IH"(1) by simp
  next
    case 2
    then show ?case using "1.IH"(2) by (cases a; cases b) (auto simp: Let_def split: option.splits)
  next
    case 3
    then show ?case using "1.IH"(3) by simp
  next
    case 4
    then show ?case using "1.IH"(4) by simp
  }
qed simp_all

text \<open>Before the clip moves, the second sample may be behind it only when it is the last.\<close>

definition window_pre :: "symbol_window \<Rightarrow> bool" where
  "window_pre w \<longleftrightarrow> strictly_later (samples w) \<and>
     (closed_weighted w, closed_weight w) = closed_sums (clip_ms w) (samples w) \<and>
     second_late (clip_ms w) (butlast (samples w))"

lemma clip_to_fields [simp]:
  "samples (clip_to w clip) = drop_before clip (samples w)" "clip_ms (clip_to w clip) = clip"
  by (simp_all add: clip_to_def Let_def)

lemma clip_to_inv:
  assumes "window_pre w"
  shows "window_inv (clip_to w clip)"
proof -
  let ?xs = "samples w"
  have sl: "strictly_later ?xs"
    and kept: "closed_weighted w = fst (closed_sums (clip_ms w) ?xs)"
      "closed_weight w = snd (closed_sums (clip_ms w) ?xs)"
    using assms by (auto simp: window_pre_def dest: arg_cong [of _ _ fst] arg_cong [of _ _ snd])
  have "(closed_weighted (clip_to w clip), closed_weight (clip_to w clip)) = closed_sums clip ?xs"
  proof (cases "clip_ms w \<le> clip")
    case True
    then show ?thesis
      using loss_walk_sums [OF sl True] by (simp add: clip_to_def loss_to_def kept Let_def)
  next
    case False
    consider (none) "?xs = []" | (one) a where "?xs = [a]" | (more) a b rest where "?xs = a # b # rest"
      by (metis list.exhaust)
    then show ?thesis
    proof cases
      case (more a b rest)
      have late: "closed_sums clip (b # rest) = closed_sums (clip_ms w) (b # rest)"
      proof (cases rest)
        case (Cons c rest')
        then have "clip_ms w < fst b" using assms more by (simp add: window_pre_def)
        then show ?thesis using sl more False by (intro closed_sums_late) auto
      qed (cases b; simp)
      show ?thesis
        using False sl more late
        by (cases a; cases b)
          (auto simp: clip_to_def kept Let_def min_def max_def of_nat_diff algebra_simps split: option.splits)
    qed (use False in \<open>auto simp: clip_to_def kept split: prod.splits option.splits\<close>)
  qed
  then show ?thesis
    using drop_before_spec [OF sl, of clip] by (simp add: window_inv_def)
qed

lemma observe_window_inv:
  assumes "window_inv w"
  shows "window_inv (observe_window w t mid)"
proof (cases "samples w = []")
  case True
  then have "window_pre (w\<lparr>samples := [(t, mid)]\<rparr>)" using assms by (simp add: window_inv_def window_pre_def)
  then show ?thesis using True by (simp add: observe_window_def Let_def clip_to_inv)
next
  case False
  define lst old xs where "lst = fst (last (samples w))" and "old = snd (last (samples w))"
    and "xs = butlast (samples w)"
  have w: "samples w = xs @ [(lst, old)]" using False by (simp add: lst_def old_def xs_def)
  let ?at = "max t lst"
  have inv: "strictly_later (xs @ [(lst, old)])"
    "(closed_weighted w, closed_weight w) = closed_sums (clip_ms w) (xs @ [(lst, old)])"
    "second_late (clip_ms w) (xs @ [(lst, old)])"
    using assms by (simp_all add: window_inv_def w)
  consider (same) "lst = ?at" | (unchanged) "lst \<noteq> ?at" "old = mid" | (new) "lst \<noteq> ?at" "old \<noteq> mid"
    by blast
  then show ?thesis
  proof cases
    case same
    have "window_pre (w\<lparr>samples := xs @ [(lst, mid)]\<rparr>)"
      using inv closed_sums_last_mid [of "clip_ms w" xs lst mid old]
        second_late_append [of "clip_ms w" xs]
      by (auto simp: window_pre_def strictly_later_append)
    then show ?thesis using same by (simp add: observe_window_def Let_def w clip_to_inv)
  next
    case unchanged
    have "window_pre w" using inv second_late_append [of "clip_ms w" xs] by (auto simp: window_pre_def w)
    then show ?thesis using unchanged by (simp add: observe_window_def Let_def w clip_to_inv)
  next
    case new
    let ?h = "held_part old (max lst (clip_ms w)) ?at"
    let ?w = "w\<lparr>samples := xs @ [(lst, old), (?at, mid)],
      closed_weighted := closed_weighted w + fst ?h, closed_weight := closed_weight w + snd ?h\<rparr>"
    have "closed_sums (clip_ms w) (xs @ [(lst, old), (?at, mid)]) =
        (closed_weighted w + fst ?h, closed_weight w + snd ?h)"
      using closed_sums_snoc [of "xs @ [(lst, old)]" "clip_ms w" ?at mid] inv(2) [symmetric]
      by (simp add: add2_def)
    moreover have "strictly_later (xs @ [(lst, old), (?at, mid)])"
      using inv(1) new strictly_later_append [of "xs @ [(lst, old)]" "[(?at, mid)]"] by simp
    ultimately have "window_pre ?w"
      using inv(3) by (auto simp: window_pre_def butlast_append)
    moreover have "observe_window w t mid = clip_to ?w (?at - WINDOW_MS)"
      using new by (auto simp: observe_window_def Let_def w held_part_def split: option.splits)
    ultimately show ?thesis by (simp add: clip_to_inv)
  qed
qed

lemma empty_window_inv [simp]: "window_inv empty_window"
  by (simp add: window_inv_def empty_window_def)

subsection \<open>Windows the engine makes\<close>

definition mid_between :: "int \<Rightarrow> int \<Rightarrow> int option \<Rightarrow> bool" where
  "mid_between lo hi mid \<longleftrightarrow> (case mid of None \<Rightarrow> True | Some m \<Rightarrow> lo \<le> m \<and> m \<le> hi)"

text \<open>The samples fit between the clip and the clip plus one window, and every middle price is
  in the given range.\<close>

definition window_live :: "int \<Rightarrow> int \<Rightarrow> symbol_window \<Rightarrow> bool" where
  "window_live lo hi w \<longleftrightarrow> window_inv w \<and> samples w \<noteq> [] \<and>
     fst (last (samples w)) \<le> clip_ms w + WINDOW_MS \<and>
     (\<forall>s \<in> set (samples w). mid_between lo hi (snd s))"

lemma set_drop_before: "set (drop_before clip xs) \<subseteq> set xs"
  by (induction clip xs rule: drop_before.induct) auto

lemma pushed_samples:
  assumes "samples w \<noteq> []"
  obtains xs where "samples (observe_window w t mid) = drop_before (max t (fst (last (samples w))) - WINDOW_MS) xs"
    and "clip_ms (observe_window w t mid) = max t (fst (last (samples w))) - WINDOW_MS"
    and "xs \<noteq> []" and "fst (last xs) \<le> max t (fst (last (samples w)))"
    and "set xs \<subseteq> set (samples w) \<union> UNIV \<times> {mid}"
  using assms
  by (intro that [of "if fst (last (samples w)) = max t (fst (last (samples w)))
        then butlast (samples w) @ [(fst (last (samples w)), mid)]
        else if snd (last (samples w)) = mid then samples w
        else samples w @ [(max t (fst (last (samples w))), mid)]"])
    (auto simp: observe_window_def Let_def split: prod.splits dest: in_set_butlastD)

lemma observe_window_live:
  assumes "window_live lo hi w \<or> w = empty_window" and "mid_between lo hi mid"
  shows "window_live lo hi (observe_window w t mid)"
proof (cases "samples w = []")
  case True
  then have "w = empty_window" using assms by (auto simp: window_live_def)
  then show ?thesis
    using assms(2) observe_window_inv [OF empty_window_inv, of t mid]
    by (auto simp: window_live_def observe_window_def empty_window_def Let_def)
next
  case False
  then have live: "window_live lo hi w" using assms(1) by (auto simp: empty_window_def)
  obtain xs where xs: "samples (observe_window w t mid) = drop_before (max t (fst (last (samples w))) - WINDOW_MS) xs"
    "clip_ms (observe_window w t mid) = max t (fst (last (samples w))) - WINDOW_MS"
    "xs \<noteq> []" "fst (last xs) \<le> max t (fst (last (samples w)))"
    "set xs \<subseteq> set (samples w) \<union> UNIV \<times> {mid}"
    by (rule pushed_samples [OF False, of t mid])
  have "drop_before c ys \<noteq> [] \<and> last (drop_before c ys) = last ys" if "ys \<noteq> []" for c ys
    using that by (induction c ys rule: drop_before.induct) auto
  note dl = this [OF xs(3)]
  have "mid_between lo hi (snd s)" if "s \<in> set (samples (observe_window w t mid))" for s
    using that xs(5) set_drop_before live assms(2) by (fastforce simp: xs(1) window_live_def)
  then show ?thesis
    using live xs(2,4) dl by (auto simp: window_live_def xs(1) observe_window_inv)
qed

text \<open>A weighted mean lies between the smallest and the largest of what it weighs.\<close>

lemma walk_samples_between:
  assumes "\<forall>s \<in> set xs. mid_between lo hi (snd s)"
    and "0 \<le> snd acc" and "lo * snd acc \<le> fst acc" and "fst acc \<le> hi * snd acc"
  shows "0 \<le> snd (walk_samples now opens xs acc) \<and>
    lo * snd (walk_samples now opens xs acc) \<le> fst (walk_samples now opens xs acc) \<and>
    fst (walk_samples now opens xs acc) \<le> hi * snd (walk_samples now opens xs acc)"
  using assms
proof (induction now opens xs acc rule: walk_samples.induct)
  case (2 now opens "from" mid rest weighted weight)
  let ?acc = "case mid of None \<Rightarrow> (weighted, weight)
      | Some m \<Rightarrow> let until = min (case rest of [] \<Rightarrow> now | s # _ \<Rightarrow> fst s) now; held_from = max from opens
          in if until \<le> held_from then (weighted, weight)
             else (weighted + m * int (until - held_from), weight + int (until - held_from))"
  have "lo * int n \<le> m * int n \<and> m * int n \<le> hi * int n" if "mid = Some m" for m n
    using "2.prems"(1) that by (auto simp: mid_between_def intro: mult_right_mono)
  then have "0 \<le> snd ?acc \<and> lo * snd ?acc \<le> fst ?acc \<and> fst ?acc \<le> hi * snd ?acc"
    using "2.prems" by (auto simp: Let_def distrib_left add_mono split: option.splits)
  moreover have "walk_samples now opens ((from, mid) # rest) (weighted, weight) = walk_samples now opens rest ?acc"
    by simp
  ultimately show ?case using "2.IH" [of ] "2.prems"(1) by (metis list.set_intros(2))
qed auto

lemma window_reference_between:
  assumes "window_live lo hi w" and "window_reference w t = Some r" and "0 \<le> lo" and "hi \<le> i64_max"
  shows "lo \<le> r \<and> r \<le> hi"
proof -
  let ?k = "sums_at w t (t - WINDOW_MS)"
  have "0 \<le> snd ?k \<and> lo * snd ?k \<le> fst ?k \<and> fst ?k \<le> hi * snd ?k"
    using assms(1) walk_samples_between [of "samples w" lo hi "(0, 0)" t "t - WINDOW_MS"]
    by (simp add: window_live_def sums_at_walked walked_def)
  moreover have pos: "0 < snd ?k" and r: "r = wrap_i64 (fst ?k sdiv snd ?k)"
    using assms(2) by (auto simp: window_reference_def Let_def split: if_splits)
  ultimately have b: "lo * snd ?k \<le> fst ?k" "fst ?k \<le> hi * snd ?k" by simp_all
  have "0 \<le> fst ?k" using b(1) pos assms(3) by (meson mult_nonneg_nonneg order_trans less_imp_le)
  then have q: "fst ?k sdiv snd ?k = fst ?k div snd ?k"
    using pos by (cases "fst ?k = 0") (simp_all add: signed_divide_int_def)
  have "lo \<le> fst ?k div snd ?k" using zdiv_mono1 [OF b(1) pos] pos by simp
  moreover have "fst ?k div snd ?k \<le> hi" using zdiv_mono1 [OF b(2) pos] pos by simp
  ultimately show ?thesis
    using assms(3,4) by (simp add: r q arith_defs(1,2) in_i64_def)
qed

subsection \<open>A restored window is the live one\<close>

lemma strictly_later_length: "strictly_later (a # xs) \<Longrightarrow> length xs + fst a \<le> fst (last (a # xs))"
proof (induction xs arbitrary: a)
  case (Cons b xs)
  have "length xs + fst b \<le> fst (last (b # xs))" using Cons.prems by (intro Cons.IH) simp
  then show ?case using Cons.prems by simp
qed simp

lemma window_live_valid:
  assumes "window_live lo hi w" and "0 < lo"
  shows "samples_valid (samples w)"
proof -
  have "length (samples w) \<le> WINDOW_MS + 1"
  proof (cases "(clip_ms w, samples w)" rule: second_late.cases)
    case (1 c a b rest)
    then show ?thesis
      using assms(1) strictly_later_length [of b rest]
      by (auto simp: window_live_def window_inv_def split: if_splits)
  qed auto
  moreover have "case snd s of None \<Rightarrow> True | Some m \<Rightarrow> 0 < m" if "s \<in> set (samples w)" for s
    using assms that by (fastforce simp: window_live_def mid_between_def split: option.splits)
  ultimately show ?thesis
    using assms(1) by (simp add: samples_valid_def window_live_def window_inv_def list_all_iff)
qed

lemma restore_window_live:
  assumes "window_live lo hi w" and "0 < lo"
  shows "restore_window \<lparr>mw_clip_ms = clip_ms w, mw_samples = samples w\<rparr> = Some w"
proof -
  have "closed_sums (clip_ms w) (samples w) = (closed_weighted w, closed_weight w)"
    using assms(1) by (simp add: window_live_def window_inv_def)
  then show ?thesis using window_live_valid [OF assms] by (simp add: restore_window_def)
qed

definition mids_live :: "int \<Rightarrow> int \<Rightarrow> mid_window \<Rightarrow> bool" where
  "mids_live lo hi m \<longleftrightarrow> bmap_ok m \<and> list_all (\<lambda>e. window_live lo hi (snd e)) m"

lemma observe_live:
  assumes "mids_live lo hi m" and "mid_between lo hi mid"
  shows "mids_live lo hi (observe m s t mid)"
proof -
  have "window_live lo hi (bget_or empty_window m s) \<or> bget_or empty_window m s = empty_window"
    using assms(1) map_of_list_all [of _ m s]
    by (fastforce simp: mids_live_def bget_or_def split: option.splits)
  then show ?thesis
    using assms set_bput_subset [of m s] observe_window_live
    by (fastforce simp: mids_live_def observe_def list_all_iff)
qed

lemma mids_restore_live:
  assumes "list_all (\<lambda>e. window_live lo hi (snd e)) m" and "0 < lo"
  shows "mids_restore (mids_snapshot m) = Some m"
  using assms by (induction m) (auto simp: mids_snapshot_def restore_window_live)

lemma reference_cents_between:
  assumes "mids_live lo hi m" and "reference_cents m s t = Some r" and "0 \<le> lo" and "hi \<le> i64_max"
  shows "lo \<le> r \<and> r \<le> hi"
  using assms window_reference_between map_of_list_all [of _ m s]
  by (fastforce simp: mids_live_def reference_cents_def split: option.splits)

end

