(* ===== verification/Pipeline.thy ===== *)
theory Pipeline
  imports Reference_Price
begin

section \<open>The matching steps that only read (services/src/matcher/)\<close>

text \<open>
  What the steps pass along (\<open>pipeline.rs\<close>) and steps 1 to 4 and 6: resolve the symbol,
  validate the order type, bound the price, refuse self-trades, decide what happens to the
  remainder; and the capacity limits (\<open>resource_limits.rs\<close>). A refusal is a \<open>reject\<close>; its
  text for the terminal is not modelled, its kind is. The result of \<open>resolve\<close> is wrapped
  in an option because the remainder \<open>%\<close> panics on a step of zero. The build is the one
  without the \<open>dishonest\<close> feature.
\<close>

subsection \<open>What travels between the steps\<close>

record terms =
  te_order_type :: order_type
  te_time_in_force :: time_in_force
  te_post_only :: bool

definition default_terms :: terms where
  "default_terms = \<lparr>te_order_type = Limit, te_time_in_force = GoodTillCancel, te_post_only = False\<rparr>"

record incoming_order =
  io_id :: order_id
  io_timestamp :: nat
  io_account :: account_id
  io_symbol :: string
  io_side :: side
  io_limit_cents :: int
  io_qty_tenths :: int
  io_order_type :: order_type
  io_time_in_force :: time_in_force
  io_post_only :: bool

definition is_market :: "incoming_order \<Rightarrow> bool" where
  "is_market order \<longleftrightarrow> io_order_type order = Market"

datatype reject =
  UnlistedSymbol | OffGrid | OffPriceStep | OffQuantityStep
| PostOnlyMarket | PostOnlyNotResting | PostOnlyWouldTake | FillOrKillUnavailable
| NoReferencePrice | FillOrKillCollared | SelfTrade | PositionOverflow
| InsufficientFunds | FundsOverflow | FokUnfilled | ActiveOrderCapacity | PositionCapacity

fun reject_kind :: "reject \<Rightarrow> string" where
  "reject_kind UnlistedSymbol = ''unlisted_symbol''"
| "reject_kind OffGrid = ''off_grid''"
| "reject_kind OffPriceStep = ''off_price_step''"
| "reject_kind OffQuantityStep = ''off_quantity_step''"
| "reject_kind PostOnlyMarket = ''post_only_market''"
| "reject_kind PostOnlyNotResting = ''post_only_not_resting''"
| "reject_kind PostOnlyWouldTake = ''post_only_would_take''"
| "reject_kind FillOrKillUnavailable = ''fill_or_kill_unavailable''"
| "reject_kind NoReferencePrice = ''no_reference_price''"
| "reject_kind FillOrKillCollared = ''fill_or_kill_collared''"
| "reject_kind SelfTrade = ''self_trade''"
| "reject_kind PositionOverflow = ''position_overflow''"
| "reject_kind InsufficientFunds = ''insufficient_funds''"
| "reject_kind FundsOverflow = ''funds_overflow''"
| "reject_kind FokUnfilled = ''fok_unfilled''"
| "reject_kind ActiveOrderCapacity = ''active_order_capacity''"
| "reject_kind PositionCapacity = ''position_capacity''"

type_synonym rule_set = nat

definition RULES_GENESIS :: rule_set where "RULES_GENESIS = 1"

definition RULES_NEWEST :: rule_set where "RULES_NEWEST = 2"

definition rules_known :: "nat \<Rightarrow> rule_set option" where
  "rules_known version =
     (if RULES_GENESIS \<le> version \<and> version \<le> RULES_NEWEST then Some version else None)"

definition rules_at_least :: "rule_set \<Rightarrow> nat \<Rightarrow> bool" where
  "rules_at_least rules version \<longleftrightarrow> version \<le> rules"

subsection \<open>Step 1: resolve the symbol\<close>

text \<open>The \<open>i64\<close> remainder: a panic on zero, the sign of the dividend.\<close>

definition checked_rem :: "int \<Rightarrow> int \<Rightarrow> int option" where
  "checked_rem a b = (if b = 0 then None else Some (a smod b))"

definition on_steps :: "listing \<Rightarrow> int \<Rightarrow> int \<Rightarrow> (reject + unit) option" where
  "on_steps l limit_cents qty_tenths =
     do { p \<leftarrow> checked_rem limit_cents (price_step_cents l);
          if p \<noteq> 0 then Some (Inl OffPriceStep)
          else do {
            q \<leftarrow> checked_rem qty_tenths (quantity_step_tenths l);
            Some (if q \<noteq> 0 then Inl OffQuantityStep else Inr ()) } }"

definition resolve :: "symbol_registry \<Rightarrow> string \<Rightarrow> f64 \<Rightarrow> f64 \<Rightarrow> (reject + int \<times> int) option" where
  "resolve registry symbol price quantity =
     (case registry_listing registry symbol of
        None \<Rightarrow> Some (Inl UnlistedSymbol)
      | Some l \<Rightarrow>
          (case (to_grid price 100, to_grid quantity 10) of
             (Some limit_cents, Some qty_tenths) \<Rightarrow>
               do { r \<leftarrow> on_steps l limit_cents qty_tenths;
                    Some (case r of Inl e \<Rightarrow> Inl e | Inr _ \<Rightarrow> Inr (limit_cents, qty_tenths)) }
           | _ \<Rightarrow> Some (Inl OffGrid)))"

subsection \<open>Step 2: validate the order type\<close>

fun crosses :: "side \<Rightarrow> int \<Rightarrow> int \<Rightarrow> bool" where
  "crosses Buy price limit \<longleftrightarrow> price \<le> limit"
| "crosses Sell price limit \<longleftrightarrow> limit \<le> price"

text \<open>The levels of the other side an order could trade with: \<open>asks.range(..=limit)\<close> or
  \<open>bids.range(limit..)\<close>.\<close>

definition crossing :: "side \<Rightarrow> int \<Rightarrow> (int \<times> resting_order list) list \<Rightarrow> (int \<times> resting_order list) list" where
  "crossing sd limit levels = filter (\<lambda>e. crosses sd (fst e) limit) levels"

definition crossing_tenths :: "book option \<Rightarrow> side \<Rightarrow> int \<Rightarrow> int" where
  "crossing_tenths b sd limit =
     (case b of
        None \<Rightarrow> 0
      | Some k \<Rightarrow>
          foldl (\<lambda>sum r. sat_add sum (ro_qty_tenths r)) 0
            (concat (map snd (crossing sd limit (own_side (opposite sd) k)))))"

definition validate_order :: "incoming_order \<Rightarrow> book option \<Rightarrow> reject + unit" where
  "validate_order order b =
     (if io_post_only order \<and> is_market order then Inl PostOnlyMarket
      else if io_post_only order \<and> io_time_in_force order \<noteq> GoodTillCancel
      then Inl PostOnlyNotResting
      else
        let avail = crossing_tenths b (io_side order) (io_limit_cents order) in
        if io_post_only order \<and> 0 < avail then Inl PostOnlyWouldTake
        else if io_time_in_force order = FillOrKill \<and> avail < io_qty_tenths order
        then Inl FillOrKillUnavailable
        else Inr ())"

subsection \<open>Step 3: bound the price\<close>

definition COLLAR_BASIS_POINTS :: int where "COLLAR_BASIS_POINTS = 200"

fun collar :: "side \<Rightarrow> int \<Rightarrow> int \<Rightarrow> int" where
  "collar Buy limit reference =
     min limit (reference + max ((reference * COLLAR_BASIS_POINTS) sdiv 10000) 1)"
| "collar Sell limit reference =
     max limit (max (reference - max ((reference * COLLAR_BASIS_POINTS) sdiv 10000) 1) 1)"

definition bound :: "incoming_order \<Rightarrow> int option \<Rightarrow> reject + int" where
  "bound order reference =
     (if \<not> is_market order then Inr (io_limit_cents order)
      else case reference of
             None \<Rightarrow> Inl NoReferencePrice
           | Some r \<Rightarrow>
               let bounded = collar (io_side order) (io_limit_cents order) r in
               if io_time_in_force order = FillOrKill \<and> bounded \<noteq> io_limit_cents order
               then Inl FillOrKillCollared
               else Inr bounded)"

subsection \<open>Step 4: self-trade check\<close>

definition own_order_in_the_way :: "incoming_order \<Rightarrow> book \<Rightarrow> order_id option" where
  "own_order_in_the_way order b =
     map_option ro_id
       (find (\<lambda>r. ro_account r = io_account order)
         (concat (map snd (crossing (io_side order) (io_limit_cents order)
                             (walk_side (io_side order) b)))))"

definition check_self_trade :: "incoming_order \<Rightarrow> book \<Rightarrow> rule_set \<Rightarrow> reject + unit" where
  "check_self_trade order b rules =
     (if \<not> rules_at_least rules 2 then Inr ()
      else case own_order_in_the_way order b of
             None \<Rightarrow> Inr ()
           | Some _ \<Rightarrow> Inl SelfTrade)"

subsection \<open>Step 6: remainder policy\<close>

datatype remainder = Rest | CancelRest

definition decide :: "incoming_order \<Rightarrow> int \<Rightarrow> remainder" where
  "decide order remaining =
     (if is_market order then CancelRest
      else case io_time_in_force order of
             GoodTillCancel \<Rightarrow> Rest
           | ImmediateOrCancel \<Rightarrow> CancelRest
           | FillOrKill \<Rightarrow> CancelRest)"

subsection \<open>Capacity limits\<close>

record resource_limits =
  max_active_orders :: nat
  max_positions :: nat
  max_symbols :: nat

definition default_limits :: resource_limits where
  "default_limits = \<lparr>max_active_orders = 100000, max_positions = 100000, max_symbols = 4096\<rparr>"

definition limits_validate :: "resource_limits \<Rightarrow> string + unit" where
  "limits_validate l =
     require (\<not> (max_active_orders l = 0 \<or> max_positions l = 0 \<or> max_symbols l = 0))
       ''resource limits must be positive''"

text \<open>\<open>u32::to_le_bytes\<close>, \<open>u64::to_le_bytes\<close> and back.\<close>

fun to_le :: "nat \<Rightarrow> nat \<Rightarrow> bytes" where
  "to_le 0 n = []"
| "to_le (Suc k) n = char_of n # to_le k (n div 256)"

fun from_le :: "bytes \<Rightarrow> nat" where
  "from_le [] = 0"
| "from_le (b # bs) = of_char b + 256 * from_le bs"

definition limits_bytes :: "resource_limits \<Rightarrow> bytes" where
  "limits_bytes l = to_le 8 (max_active_orders l) @ to_le 8 (max_positions l) @ to_le 8 (max_symbols l)"

definition limits_snapshot_bytes :: "resource_limits \<Rightarrow> bytes" where
  "limits_snapshot_bytes l = to_le 4 1 @ limits_bytes l"

definition limits_from_snapshot :: "bytes \<Rightarrow> string + resource_limits" where
  "limits_from_snapshot bs =
     (if length bs \<noteq> 28 then Inl ''resource limits snapshot must contain exactly 28 bytes''
      else if from_le (take 4 bs) \<noteq> 1
      then Inl ''unsupported resource limits snapshot version''
      else
        let l = \<lparr>max_active_orders = from_le (take 8 (drop 4 bs)),
                 max_positions = from_le (take 8 (drop 12 bs)),
                 max_symbols = from_le (drop 20 bs)\<rparr>
        in res_bind (limits_validate l) (\<lambda>_. Inr l))"

text \<open>\<open>check_positions\<close>: the accounts that would need a new position row, each once.\<close>

fun new_slots ::
  "nat \<Rightarrow> (account_id \<times> string, position) bmap \<Rightarrow> string \<Rightarrow> account_id list \<Rightarrow> account_id list \<Rightarrow>
   reject + account_id list" where
  "new_slots cap positions symbol added [] = Inr added"
| "new_slots cap positions symbol added (a # as) =
     (if map_of positions (a, symbol) \<noteq> None then new_slots cap positions symbol added as
      else
        let added' = List.insert a added in
        if cap < length positions + length added' then Inl PositionCapacity
        else new_slots cap positions symbol added' as)"

fun check_level ::
  "nat \<Rightarrow> (account_id \<times> string, position) bmap \<Rightarrow> incoming_order \<Rightarrow> int \<Rightarrow> account_id list \<Rightarrow>
   resting_order list \<Rightarrow> reject + int \<times> account_id list" where
  "check_level cap positions order remaining added [] = Inr (remaining, added)"
| "check_level cap positions order remaining added (m # ms) =
     (if remaining = 0 then Inr (remaining, added)
      else res_bind
        (new_slots cap positions (io_symbol order) added [io_account order, ro_account m])
        (\<lambda>added'. check_level cap positions order
           (remaining - min remaining (ro_qty_tenths m)) added' ms))"

fun check_levels ::
  "nat \<Rightarrow> (account_id \<times> string, position) bmap \<Rightarrow> incoming_order \<Rightarrow> int \<Rightarrow> account_id list \<Rightarrow>
   (int \<times> resting_order list) list \<Rightarrow> reject + unit" where
  "check_levels cap positions order remaining added [] = Inr ()"
| "check_levels cap positions order remaining added ((_, level) # levels) =
     res_bind (check_level cap positions order remaining added level) (\<lambda>(remaining', added').
     check_levels cap positions order remaining' added' levels)"

definition check_positions ::
  "resource_limits \<Rightarrow> incoming_order \<Rightarrow> book \<Rightarrow> (account_id \<times> string, position) bmap \<Rightarrow>
   reject + unit" where
  "check_positions l order b positions =
     check_levels (max_positions l) positions order (io_qty_tenths order) []
       (crossing (io_side order) (io_limit_cents order) (walk_side (io_side order) b))"

end
