(* ===== verification/Candles.thy ===== *)
theory Candles
  imports Ordered_Map
begin

section \<open>The candle projection (services/src/matcher.rs, \<open>CandleCache\<close>)\<close>

text \<open>
  Five chart intervals per symbol, each a run of at most 1000 buckets without a hole. A
  trade either lands in the newest bucket, opens a later one (filling the gap with flat
  buckets), or goes back in time, which invalidates the projection.
\<close>

definition MAX_CANDLES :: nat where "MAX_CANDLES = 1000"

definition CANDLE_INTERVALS :: "nat list" where
  "CANDLE_INTERVALS = [15, 300, 900, 3600, 14400]"

record candle_bucket =
  cb_start :: nat
  open_cents :: int
  high_cents :: int
  low_cents :: int
  close_cents :: int
  cb_volume :: int
  cb_trades :: nat

type_synonym candle_window = "candle_bucket list"

definition flat :: "nat \<Rightarrow> int \<Rightarrow> candle_bucket" where
  "flat start price =
     \<lparr>cb_start = start, open_cents = price, high_cents = price, low_cents = price,
      close_cents = price, cb_volume = 0, cb_trades = 0\<rparr>"

text \<open>\<open>while start < bucket { push(flat(start)); start += interval }\<close>.\<close>

function flats :: "nat \<Rightarrow> nat \<Rightarrow> nat \<Rightarrow> int \<Rightarrow> candle_bucket list" where
  "flats start bucket interval price =
     (if start < bucket \<and> 0 < interval
      then flat start price # flats (start + interval) bucket interval price else [])"
  by pat_completeness auto
termination
  by (relation "measure (\<lambda>(start, bucket, interval, price). bucket - start)") auto

declare flats.simps [simp del]

definition record_trade :: "candle_bucket \<Rightarrow> int \<Rightarrow> int \<Rightarrow> candle_bucket" where
  "record_trade b price qty =
     b\<lparr>high_cents := max (high_cents b) price, low_cents := min (low_cents b) price,
       close_cents := price, cb_volume := sat_add (cb_volume b) qty,
       cb_trades := sat_add_u64 (cb_trades b) 1\<rparr>"

text \<open>\<open>while rows.len() > MAX { rows.pop_front() }\<close>.\<close>

definition keep_newest :: "candle_bucket list \<Rightarrow> candle_bucket list" where
  "keep_newest rows = drop (length rows - MAX_CANDLES) rows"

definition window_record ::
  "candle_window \<Rightarrow> nat \<Rightarrow> int \<Rightarrow> int \<Rightarrow> nat \<Rightarrow> candle_window option" where
  "window_record rows timestamp price qty interval_secs =
     (let interval = interval_secs * 1000;
          bucket = timestamp - timestamp mod interval;
          opened = \<lparr>cb_start = bucket, open_cents = price, high_cents = price,
                    low_cents = price, close_cents = price, cb_volume = qty, cb_trades = 1\<rparr>
      in if rows = [] then Some (keep_newest [opened])
         else
           let prior = last rows in
           if bucket < cb_start prior then None
           else if bucket = cb_start prior
           then Some (butlast rows @ [record_trade prior price qty])
           else
             let close = close_cents prior;
                 widths = (bucket - cb_start prior) div interval;
                 filled =
                   (if MAX_CANDLES \<le> widths
                    then flats (bucket - (MAX_CANDLES - 1) * interval) bucket interval close
                    else rows @ flats (cb_start prior + interval) bucket interval close)
             in Some (keep_newest (filled @ [opened])))"

definition window_newest :: "candle_window \<Rightarrow> nat \<Rightarrow> candle_bucket list" where
  "window_newest rows n = drop (length rows - n) rows"

record symbol_candles =
  last_timestamp :: "nat option"
  windows :: "candle_window list"

definition no_candles :: symbol_candles where
  "no_candles = \<lparr>last_timestamp = None, windows = map (\<lambda>_. []) CANDLE_INTERVALS\<rparr>"

record candle_cache =
  cc_valid :: bool
  cc_symbols :: "(string, symbol_candles) bmap"

definition empty_cache :: candle_cache where
  "empty_cache = \<lparr>cc_valid = True, cc_symbols = []\<rparr>"

definition invalidate :: "candle_cache \<Rightarrow> candle_cache" where
  "invalidate c = c\<lparr>cc_valid := False, cc_symbols := []\<rparr>"

text \<open>The five windows in order; the first refusal stops the walk.\<close>

fun windows_record ::
  "candle_window list \<Rightarrow> nat list \<Rightarrow> nat \<Rightarrow> int \<Rightarrow> int \<Rightarrow> candle_window list option" where
  "windows_record (w # ws) (i # is) t p q =
     do { w' \<leftarrow> window_record w t p q i;
          ws' \<leftarrow> windows_record ws is t p q;
          Some (w' # ws') }"
| "windows_record ws _ t p q = Some ws"

definition cache_record :: "candle_cache \<Rightarrow> string \<Rightarrow> nat \<Rightarrow> int \<Rightarrow> int \<Rightarrow> candle_cache" where
  "cache_record c symbol timestamp price qty =
     (if \<not> cc_valid c then c
      else
        let s = bget_or no_candles (cc_symbols c) symbol in
        if (case last_timestamp s of None \<Rightarrow> False | Some lt \<Rightarrow> timestamp < lt) then invalidate c
        else case windows_record (windows s) CANDLE_INTERVALS timestamp price qty of
               None \<Rightarrow> invalidate c
             | Some ws \<Rightarrow>
                 c\<lparr>cc_symbols := bput (cc_symbols c) symbol
                    \<lparr>last_timestamp = Some timestamp, windows = ws\<rparr>\<rparr>)"

text \<open>The position of the interval, then the newest buckets of that window.\<close>

fun interval_window :: "candle_window list \<Rightarrow> nat list \<Rightarrow> nat \<Rightarrow> candle_window option" where
  "interval_window (w # ws) (i # is) interval =
     (if i = interval then Some w else interval_window ws is interval)"
| "interval_window _ _ _ = None"

definition cache_newest :: "candle_cache \<Rightarrow> string \<Rightarrow> nat \<Rightarrow> nat \<Rightarrow> candle_bucket list option" where
  "cache_newest c symbol interval n =
     (if \<not> cc_valid c \<or> interval \<notin> set CANDLE_INTERVALS then None
      else Some (case map_of (cc_symbols c) symbol of
                   None \<Rightarrow> []
                 | Some s \<Rightarrow>
                     (case interval_window (windows s) CANDLE_INTERVALS interval of
                        None \<Rightarrow> [] | Some w \<Rightarrow> window_newest w n)))"

subsection \<open>A window is a bounded run of buckets without a hole\<close>

definition bucket_ok :: "nat \<Rightarrow> candle_bucket \<Rightarrow> bool" where
  "bucket_ok interval b \<longleftrightarrow> interval dvd cb_start b \<and>
     low_cents b \<le> open_cents b \<and> open_cents b \<le> high_cents b \<and>
     low_cents b \<le> close_cents b \<and> close_cents b \<le> high_cents b"

text \<open>Consecutive buckets are one interval apart.\<close>

fun contiguous :: "nat \<Rightarrow> candle_bucket list \<Rightarrow> bool" where
  "contiguous i (a # b # rows) \<longleftrightarrow> cb_start b = cb_start a + i \<and> contiguous i (b # rows)"
| "contiguous i _ \<longleftrightarrow> True"

definition window_ok :: "nat \<Rightarrow> candle_window \<Rightarrow> bool" where
  "window_ok interval rows \<longleftrightarrow> length rows \<le> MAX_CANDLES \<and> contiguous interval rows \<and>
     list_all (bucket_ok interval) rows"

lemma contiguous_append:
  "contiguous i (xs @ ys) \<longleftrightarrow> contiguous i xs \<and> contiguous i ys \<and>
     (xs = [] \<or> ys = [] \<or> cb_start (hd ys) = cb_start (last xs) + i)"
  by (induction i xs rule: contiguous.induct) (auto, (cases ys; auto)+)

lemma contiguous_drop: "contiguous i xs \<Longrightarrow> contiguous i (drop n xs)"
  by (metis append_take_drop_id contiguous_append)

lemma flats_run:
  assumes "0 < interval"
  shows "contiguous interval (flats start (start + n * interval) interval price) \<and>
    length (flats start (start + n * interval) interval price) = n \<and>
    (0 < n \<longrightarrow> cb_start (hd (flats start (start + n * interval) interval price)) = start \<and>
       cb_start (last (flats start (start + n * interval) interval price)) + interval = start + n * interval)"
proof (induction n arbitrary: start)
  case 0
  then show ?case by (simp add: flats.simps)
next
  case (Suc n)
  have "flats start (start + Suc n * interval) interval price =
      flat start price # flats (start + interval) (start + interval + n * interval) interval price"
    using assms by (subst flats.simps) (simp add: algebra_simps)
  then show ?case
    using Suc.IH [of "start + interval"] contiguous_append [of interval "[flat start price]"
        "flats (start + interval) (start + interval + n * interval) interval price"]
    by (cases "n = 0") (auto simp: flat_def flats.simps algebra_simps)
qed

lemma flats_ok:
  assumes "interval dvd start"
  shows "list_all (bucket_ok interval) (flats start bucket interval price)"
  using assms
proof (induction start bucket interval price rule: flats.induct)
  case (1 start bucket interval price)
  then have "bucket_ok interval (flat start price)" by (simp add: bucket_ok_def flat_def)
  with 1 show ?case by (subst flats.simps) auto
qed

lemma window_ok_keep: 
  assumes "contiguous i rows" and "list_all (bucket_ok i) rows"
  shows "window_ok i (keep_newest rows)"
  using assms contiguous_drop [OF assms(1)] set_drop_subset [of _ rows]
  by (fastforce simp: window_ok_def keep_newest_def list_all_iff)

lemma keep_newest_last: "rows \<noteq> [] \<Longrightarrow> last (keep_newest rows) = last rows"
  by (simp add: keep_newest_def MAX_CANDLES_def last_drop)

lemma window_record_ok:
  assumes "window_ok (s * 1000) rows" and "window_record rows t price qty s = Some rows'"
    and "0 < s"
  shows "window_ok (s * 1000) rows' \<and> rows' \<noteq> [] \<and>
    cb_start (last rows') = t - t mod (s * 1000) \<and> close_cents (last rows') = price"
proof -
  define i bucket opened where "i = s * 1000" and "bucket = t - t mod i"
    and "opened = \<lparr>cb_start = bucket, open_cents = price, high_cents = price, low_cents = price,
      close_cents = price, cb_volume = qty, cb_trades = Suc 0\<rparr>"
  have i: "0 < i" "i dvd bucket" using assms(3) by (simp_all add: i_def bucket_def)
  have opened: "bucket_ok i opened" "cb_start opened = bucket" "close_cents opened = price"
    using i by (simp_all add: bucket_ok_def opened_def)
  have ok: "contiguous i rows" "list_all (bucket_ok i) rows" "length rows \<le> MAX_CANDLES"
    using assms(1) by (simp_all add: window_ok_def i_def)
  have rec: "window_record rows t price qty s = Some rows'" by (rule assms(2))
  have result: "window_ok i (keep_newest (xs @ [opened])) \<and> keep_newest (xs @ [opened]) \<noteq> [] \<and>
      cb_start (last (keep_newest (xs @ [opened]))) = bucket \<and>
      close_cents (last (keep_newest (xs @ [opened]))) = price"
    if "contiguous i (xs @ [opened])" and "list_all (bucket_ok i) xs" for xs
    using window_ok_keep [OF that(1)] that(2) opened keep_newest_last [of "xs @ [opened]"]
    by (auto simp: keep_newest_def MAX_CANDLES_def)
  show ?thesis
  proof (cases "rows = []")
    case True
    then show ?thesis
      using rec result [of "[]"]
      by (simp add: window_record_def Let_def i_def [symmetric] bucket_def [symmetric] opened_def [symmetric])
  next
    case False
    let ?prior = "last rows"
    have prior: "bucket_ok i ?prior" using ok(2) False by (simp add: list_all_iff)
    then have pd: "i dvd cb_start ?prior" by (simp add: bucket_ok_def)
    consider "bucket = cb_start ?prior" | "cb_start ?prior < bucket"
      using rec False by (auto simp: window_record_def Let_def i_def bucket_def split: if_splits)
    then show ?thesis
    proof cases
      case 1
      let ?b = "record_trade ?prior price qty"
      have r: "rows' = butlast rows @ [?b]"
        using rec 1 False by (simp add: window_record_def Let_def i_def bucket_def)
      have "contiguous i (butlast rows)" "list_all (bucket_ok i) (butlast rows)"
        "butlast rows = [] \<or> cb_start ?prior = cb_start (last (butlast rows)) + i"
        using ok False contiguous_append [of i "butlast rows" "[?prior]"]
        by (auto simp: list_all_iff dest: in_set_butlastD)
      moreover have "bucket_ok i ?b" "cb_start ?b = cb_start ?prior" "close_cents ?b = price"
        using prior by (auto simp: bucket_ok_def record_trade_def)
      ultimately show ?thesis
        using 1 ok(3) False
        by (auto simp: r window_ok_def contiguous_append i_def [symmetric] bucket_def [symmetric])
    next
      case 2
      obtain k where k: "bucket = cb_start ?prior + Suc k * i"
        using 2 i pd by (metis dvd_diff_nat dvdE le_add_diff_inverse less_imp_le mult.commute
            not0_implies_Suc diff_is_0_eq mult_0_right not_less)
      have w: "(bucket - cb_start ?prior) div i = Suc k" using i by (simp add: k)
      let ?close = "close_cents ?prior"
      show ?thesis
      proof (cases "MAX_CANDLES \<le> Suc k")
        case True
        let ?n = "MAX_CANDLES - 1" and ?from = "bucket - (MAX_CANDLES - 1) * i"
        have "?n * i \<le> Suc k * i" using True by (intro mult_le_mono1) simp
        then have n: "?n * i \<le> bucket" unfolding k by (rule trans_le_add2)
        then have b: "?from + ?n * i = bucket" by simp
        have "i dvd ?from" using i by (simp add: dvd_diff_nat)
        then have fl: "contiguous i (flats ?from bucket i ?close @ [opened])"
          "list_all (bucket_ok i) (flats ?from bucket i ?close)"
          using flats_run [OF i(1), of ?from ?n ?close] flats_ok b opened(2)
          by (auto simp: contiguous_append MAX_CANDLES_def)
        have "rows' = keep_newest (flats ?from bucket i ?close @ [opened])"
          using rec 2 False True w
          by (simp add: window_record_def Let_def i_def [symmetric] bucket_def [symmetric] opened_def [symmetric])
        then show ?thesis using result [OF fl] by (simp add: i_def [symmetric] bucket_def [symmetric])
      next
        case F: False
        let ?from = "cb_start ?prior + i"
        have b: "?from + k * i = bucket" by (simp add: k)
        have run: "contiguous i (flats ?from bucket i ?close)" "length (flats ?from bucket i ?close) = k"
          "0 < k \<Longrightarrow> cb_start (hd (flats ?from bucket i ?close)) = ?from"
          "0 < k \<Longrightarrow> cb_start (last (flats ?from bucket i ?close)) + i = bucket"
          using flats_run [OF i(1), of ?from k ?close] b by simp_all
        have "contiguous i (rows @ flats ?from bucket i ?close @ [opened])"
          using ok(1) run opened(2) b False
          by (cases "k = 0") (auto simp: contiguous_append hd_append)
        moreover have "list_all (bucket_ok i) (rows @ flats ?from bucket i ?close)"
          using flats_ok [of i ?from] pd ok(2) by simp
        moreover have "rows' = keep_newest ((rows @ flats ?from bucket i ?close) @ [opened])"
          using rec 2 False F w
          by (simp add: window_record_def Let_def i_def [symmetric] bucket_def [symmetric] opened_def [symmetric])
        ultimately show ?thesis
          using result [of "rows @ flats ?from bucket i ?close"]
          by (simp add: i_def [symmetric] bucket_def [symmetric])
      qed
    qed
  qed
qed

subsection \<open>The cache\<close>

definition cache_ok :: "candle_cache \<Rightarrow> bool" where
  "cache_ok c \<longleftrightarrow> bmap_ok (cc_symbols c) \<and>
     (\<forall>e \<in> set (cc_symbols c).
        list_all2 (\<lambda>i w. window_ok (i * 1000) w) CANDLE_INTERVALS (windows (snd e)))"

lemma windows_record_ok:
  assumes "list_all2 (\<lambda>i w. window_ok (i * 1000) w) is ws"
    and "windows_record ws is t p q = Some ws'" and "list_all (\<lambda>i. 0 < i) is"
  shows "list_all2 (\<lambda>i w. window_ok (i * 1000) w) is ws'"
  using assms
proof (induction ws "is" t p q arbitrary: ws' rule: windows_record.induct)
  case (1 w ws i "is" t p q)
  then show ?case using window_record_ok [of i w t p q] by (auto simp: bind_eq_Some_conv)
qed auto

lemma cache_record_ok: "cache_ok c \<Longrightarrow> cache_ok (cache_record c symbol t p q)"
proof -
  assume ok: "cache_ok c"
  let ?s = "bget_or no_candles (cc_symbols c) symbol"
  have "list_all2 (\<lambda>i w. window_ok (i * 1000) w) CANDLE_INTERVALS (windows ?s)"
    using ok
    by (auto simp: cache_ok_def bget_or_def no_candles_def CANDLE_INTERVALS_def window_ok_def
        split: option.splits dest!: map_of_SomeD)
  then have "list_all2 (\<lambda>i w. window_ok (i * 1000) w) CANDLE_INTERVALS ws"
    if "windows_record (windows ?s) CANDLE_INTERVALS t p q = Some ws" for ws
    using windows_record_ok [OF _ that] by (simp add: CANDLE_INTERVALS_def)
  then show ?thesis
    using ok set_bput_subset [of "cc_symbols c" symbol]
    by (fastforce simp: cache_record_def Let_def invalidate_def cache_ok_def split: option.splits)
qed

subsection \<open>Reading a chart\<close>

lemma contiguous_nth:
  "contiguous i rows \<longleftrightarrow> (\<forall>k. Suc k < length rows \<longrightarrow> cb_start (rows ! Suc k) = cb_start (rows ! k) + i)"
  by (induction i rows rule: contiguous.induct) (auto simp: nth_Cons All_less_Suc2 split: nat.splits)

lemma interval_window_ok:
  "list_all2 (\<lambda>i w. P i w) is ws \<Longrightarrow> interval_window ws is i = Some w \<Longrightarrow> P i w"
  by (induction ws "is" i rule: interval_window.induct) (auto split: if_splits)

lemma window_ok_newest: "window_ok i rows \<Longrightarrow> window_ok i (window_newest rows n)"
  using contiguous_drop [of i rows] set_drop_subset [of _ rows]
  by (fastforce simp: window_ok_def window_newest_def list_all_iff)

lemma cache_newest_ok:
  assumes "cache_ok c" and "cache_newest c symbol interval n = Some rows"
  shows "window_ok (interval * 1000) rows \<and> length rows \<le> n"
proof (cases "rows = []")
  case True
  then show ?thesis by (simp add: window_ok_def)
next
  case False
  then obtain s w where s: "map_of (cc_symbols c) symbol = Some s"
    and w: "interval_window (windows s) CANDLE_INTERVALS interval = Some w" and rows: "rows = window_newest w n"
    using assms(2) by (auto simp: cache_newest_def split: if_splits option.splits)
  have "list_all2 (\<lambda>i w. window_ok (i * 1000) w) CANDLE_INTERVALS (windows s)"
    using assms(1) map_of_SomeD [OF s] by (force simp: cache_ok_def)
  then have "window_ok (interval * 1000) w" by (rule interval_window_ok) (rule w)
  then show ?thesis using window_ok_newest by (simp add: rows window_newest_def)
qed

end
