(* ===== verification/Execute.thy ===== *)
theory Execute
  imports Pipeline Candles
begin

section \<open>Step 5: match against the book (step5_match_against_book.rs, funded.rs)\<close>

text \<open>
  The fill plan, its staging for fill-or-kill, the execution loop for every other order, the
  booking of one fill, and the funded-mode checks that run before any effect. \<open>expect\<close>,
  \<open>assert_eq\<close> and \<open>debug_assert\<close> are the value \<open>None\<close>: a panic. The execution loop is a
  partial function of the option monad, so \<open>None\<close> also stands for a loop that never ends;
  the engine's theorems show that neither happens.
\<close>

type_synonym position_map = "(account_id \<times> string, position) bmap"

record book_and_trades =
  bt_book :: book
  bt_ledger :: ledger
  bt_plan_committed :: bool
  bt_open_orders :: "(order_id, order_ref) bmap"
  bt_positions :: position_map
  bt_aggregates :: "(string, symbol_agg) bmap"
  bt_trades :: "trade list"
  bt_trades_total :: nat
  bt_candles :: candle_cache
  bt_pending :: "change list option"

datatype matched = Crossed int | Overflowed int

subsection \<open>The plan\<close>

text \<open>The makers of one level in time order, and what is left after them.\<close>

fun plan_makers :: "int \<Rightarrow> int \<Rightarrow> resting_order list \<Rightarrow> planned_fill list \<times> int" where
  "plan_makers price remaining [] = ([], remaining)"
| "plan_makers price remaining (m # ms) =
     (if remaining = 0 then ([], remaining)
      else
        let qty = min remaining (ro_qty_tenths m);
            fill = \<lparr>pf_maker_order = ro_id m, pf_maker_account = ro_account m,
                    pf_price_cents = price, pf_qty_tenths = qty\<rparr>;
            left = remaining - qty
        in if 0 < left
           then let rest = plan_makers price left ms in (fill # fst rest, snd rest)
           else ([fill], left))"

fun plan_levels :: "side \<Rightarrow> int \<Rightarrow> int \<Rightarrow> (int \<times> resting_order list) list \<Rightarrow> planned_fill list" where
  "plan_levels sd limit remaining [] = []"
| "plan_levels sd limit remaining ((price, level) # levels) =
     (if \<not> crosses sd price limit \<or> remaining = 0 then []
      else
        let part = plan_makers price remaining level
        in fst part @ (if 0 < snd part then plan_levels sd limit (snd part) levels else []))"

definition plan_fills :: "incoming_order \<Rightarrow> book \<Rightarrow> planned_fill list" where
  "plan_fills order b =
     plan_levels (io_side order) (io_limit_cents order) (io_qty_tenths order)
       (walk_side (io_side order) b)"

subsection \<open>Staging a fill-or-kill order\<close>

record fok_plan =
  fp_fills :: "planned_fill list"
  fp_positions_after :: "(position \<times> position) list"

definition staged_before ::
  "(account_id, position) bmap \<Rightarrow> position_map \<Rightarrow> string \<Rightarrow> account_id \<Rightarrow> position" where
  "staged_before staged positions symbol account =
     (case map_of staged account of
        Some p \<Rightarrow> p
      | None \<Rightarrow> bget_or no_position positions (account, symbol))"

fun stage_positions ::
  "incoming_order \<Rightarrow> position_map \<Rightarrow> (account_id, position) bmap \<Rightarrow> planned_fill list \<Rightarrow>
   reject + (position \<times> position) list" where
  "stage_positions order positions staged [] = Inr []"
| "stage_positions order positions staged (fill # fills) =
     (let before = staged_before staged positions (io_symbol order) in
      res_bind (ok_or PositionOverflow
        (position_after_fill (before (pf_maker_account fill)) (opposite (io_side order))
          (pf_qty_tenths fill) (pf_price_cents fill))) (\<lambda>maker_next.
      let taker_before =
        (if pf_maker_account fill = io_account order then maker_next
         else before (io_account order)) in
      res_bind (ok_or PositionOverflow
        (position_after_fill taker_before (io_side order)
          (pf_qty_tenths fill) (pf_price_cents fill))) (\<lambda>taker_next.
      let staged' = bput (bput staged (pf_maker_account fill) maker_next)
                      (io_account order) taker_next in
      res_bind (stage_positions order positions staged' fills) (\<lambda>rest.
      Inr ((maker_next, taker_next) # rest)))))"

definition stage_fok ::
  "incoming_order \<Rightarrow> book \<Rightarrow> position_map \<Rightarrow> nat \<Rightarrow> reject + fok_plan" where
  "stage_fok order b positions trades_total =
     (let fills = plan_fills order b in
      res_bind (require (sum_list (map pf_qty_tenths fills) = io_qty_tenths order)
                 FillOrKillUnavailable) (\<lambda>_.
      res_bind (ok_or PositionOverflow (checked_add_u64 trades_total (length fills))) (\<lambda>_.
      res_bind (stage_positions order positions [] fills) (\<lambda>after.
      Inr \<lparr>fp_fills = fills, fp_positions_after = after\<rparr>))))"

subsection \<open>Booking one fill\<close>

definition push_trade ::
  "book_and_trades \<Rightarrow> trade \<Rightarrow> int \<Rightarrow> int \<Rightarrow> book_and_trades" where
  "push_trade into trade price qty =
     into\<lparr>bt_candles := cache_record (bt_candles into) (tr_symbol trade) (tr_timestamp trade) price qty,
          bt_trades_total := sat_add_u64 (bt_trades_total into) 1,
          bt_trades := (if length (bt_trades into) = TRADE_WINDOW then tl (bt_trades into)
                        else bt_trades into) @ [trade]\<rparr>"

text \<open>The maker leaves its level or stays with less; an empty level leaves the side.\<close>

definition reduce_maker :: "book_side \<Rightarrow> planned_fill \<Rightarrow> (book_side \<times> int) option" where
  "reduce_maker levels fill =
     do { level \<leftarrow> map_of levels (pf_price_cents fill);
          maker \<leftarrow> (case level of [] \<Rightarrow> None | m # _ \<Rightarrow> Some m);
          if (ro_id maker, ro_account maker) \<noteq> (pf_maker_order fill, pf_maker_account fill)
          then None else
          do { left \<leftarrow> checked_sub (ro_qty_tenths maker) (pf_qty_tenths fill);
               if left < 0 then None else
               let level' = (if left = 0 then tl level
                             else maker\<lparr>ro_qty_tenths := left\<rparr> # tl level)
               in Some (if level' = [] then bdel levels (pf_price_cents fill)
                        else bput levels (pf_price_cents fill) level', left) } }"

definition the_trade :: "incoming_order \<Rightarrow> planned_fill \<Rightarrow> nat \<Rightarrow> trade" where
  "the_trade order fill trade_id =
     \<lparr>tr_trade_id = trade_id, tr_symbol = io_symbol order,
      tr_price = cents_to_f64 (pf_price_cents fill),
      tr_quantity = tenths_to_f64 (pf_qty_tenths fill),
      tr_maker_order = pf_maker_order fill, tr_maker_account = pf_maker_account fill,
      tr_taker_order = io_id order, tr_taker_account = io_account order,
      tr_taker_side = io_side order, tr_timestamp = io_timestamp order\<rparr>"

definition the_trade_row :: "incoming_order \<Rightarrow> planned_fill \<Rightarrow> nat \<Rightarrow> trade_row" where
  "the_trade_row order fill trade_id =
     \<lparr>tw_trade_id = trade_id, tw_timestamp = io_timestamp order, tw_symbol = io_symbol order,
      tw_price_cents = pf_price_cents fill, tw_qty_tenths = pf_qty_tenths fill,
      tw_maker_order = pf_maker_order fill, tw_maker_account = pf_maker_account fill,
      tw_taker_order = io_id order, tw_taker_account = io_account order,
      tw_taker_side = io_side order\<rparr>"

definition book_positions ::
  "incoming_order \<Rightarrow> planned_fill \<Rightarrow> position \<Rightarrow> position \<Rightarrow> position_map \<Rightarrow> position_map" where
  "book_positions order fill maker_next taker_next positions =
     bput
       (if pf_maker_account fill \<noteq> io_account order
        then bput positions (pf_maker_account fill, io_symbol order) maker_next else positions)
       (io_account order, io_symbol order) taker_next"

definition book_agg :: "symbol_agg \<Rightarrow> planned_fill \<Rightarrow> symbol_agg" where
  "book_agg agg fill =
     \<lparr>last_trade_cents = pf_price_cents fill,
      volume_tenths = sat_add (volume_tenths agg) (pf_qty_tenths fill),
      trade_count = sat_add_u64 (trade_count agg) 1\<rparr>"

definition commit_fill ::
  "incoming_order \<Rightarrow> planned_fill \<Rightarrow> position \<Rightarrow> position \<Rightarrow> nat \<Rightarrow> book_and_trades \<Rightarrow>
   book_and_trades option" where
  "commit_fill order fill maker_next taker_next trade_id into =
     (if io_time_in_force order = FillOrKill \<and> \<not> bt_plan_committed into then None
      else
        let sd = opposite (io_side order) in
        do { (levels, left) \<leftarrow> reduce_maker (own_side sd (bt_book into)) fill;
             let pending1 = record_change (bt_pending into)
                   (Traded (the_trade_row order fill trade_id));
             let pending2 = record_change pending1
                   (if left = 0 then OrderClosed (pf_maker_order fill)
                    else OrderReduced (pf_maker_order fill) left);
             let booked = into\<lparr>
                   bt_book := put_side sd (bt_book into) levels,
                   bt_open_orders := (if left = 0 then bdel (bt_open_orders into) (pf_maker_order fill)
                                      else bt_open_orders into),
                   bt_pending := pending2,
                   bt_positions := book_positions order fill maker_next taker_next (bt_positions into),
                   bt_aggregates := bput (bt_aggregates into) (io_symbol order)
                     (book_agg (bget_or no_agg (bt_aggregates into) (io_symbol order)) fill)\<rparr>;
             Some (push_trade booked (the_trade order fill trade_id)
                    (pf_price_cents fill) (pf_qty_tenths fill)) })"

subsection \<open>Executing\<close>

fun commit_fok ::
  "incoming_order \<Rightarrow> planned_fill list \<Rightarrow> (position \<times> position) list \<Rightarrow> book_and_trades \<Rightarrow>
   book_and_trades option" where
  "commit_fok order (fill # fills) ((maker_next, taker_next) # positions) into =
     do { trade_id \<leftarrow> checked_add_u64 (bt_trades_total into) 1;
          into' \<leftarrow> commit_fill order fill maker_next taker_next trade_id into;
          commit_fok order fills positions into' }"
| "commit_fok order _ _ into = Some into"

definition execute_fok ::
  "incoming_order \<Rightarrow> fok_plan \<Rightarrow> book_and_trades \<Rightarrow> (matched \<times> book_and_trades) option" where
  "execute_fok order plan into =
     do { into' \<leftarrow> commit_fok order (fp_fills plan) (fp_positions_after plan) into;
          Some (Crossed 0, into') }"

definition next_fill :: "incoming_order \<Rightarrow> book \<Rightarrow> int \<Rightarrow> planned_fill option" where
  "next_fill order b remaining =
     (case walk_side (io_side order) b of
        [] \<Rightarrow> None
      | (price, level) # _ \<Rightarrow>
          if \<not> crosses (io_side order) price (io_limit_cents order) then None
          else case level of
                 [] \<Rightarrow> None
               | m # _ \<Rightarrow>
                   Some \<lparr>pf_maker_order = ro_id m, pf_maker_account = ro_account m,
                         pf_price_cents = price,
                         pf_qty_tenths = min remaining (ro_qty_tenths m)\<rparr>)"

text \<open>The positions of both sides after a fill, maker first.\<close>

definition fill_positions ::
  "incoming_order \<Rightarrow> planned_fill \<Rightarrow> position_map \<Rightarrow> (position \<times> position) option" where
  "fill_positions order fill positions =
     do { maker_next \<leftarrow>
            position_after_fill
              (bget_or no_position positions (pf_maker_account fill, io_symbol order))
              (opposite (io_side order)) (pf_qty_tenths fill) (pf_price_cents fill);
          let taker_before =
            (if pf_maker_account fill = io_account order then maker_next
             else bget_or no_position positions (io_account order, io_symbol order));
          taker_next \<leftarrow>
            position_after_fill taker_before (io_side order)
              (pf_qty_tenths fill) (pf_price_cents fill);
          Some (maker_next, taker_next) }"

partial_function (option) execute ::
  "incoming_order \<Rightarrow> int \<Rightarrow> book_and_trades \<Rightarrow> (matched \<times> book_and_trades) option" where
  "execute order remaining into =
     (if \<not> 0 < remaining then Some (Crossed remaining, into)
      else case next_fill order (bt_book into) remaining of
             None \<Rightarrow> Some (Crossed remaining, into)
           | Some fill \<Rightarrow>
               (case (fill_positions order fill (bt_positions into),
                      checked_add_u64 (bt_trades_total into) 1) of
                  (Some (maker_next, taker_next), Some trade_id) \<Rightarrow>
                    do { ledger \<leftarrow> result_ok (settle_fill (bt_ledger into) (pf_maker_order fill)
                           (io_id order) (pf_price_cents fill) (pf_qty_tenths fill));
                         into' \<leftarrow> commit_fill order fill maker_next taker_next trade_id
                           (into\<lparr>bt_ledger := ledger\<rparr>);
                         execute order (remaining - pf_qty_tenths fill) into' }
                | _ \<Rightarrow> Some (Overflowed remaining, into)))"

declare execute.simps [code]

subsection \<open>Funded mode: check the whole command first\<close>

definition reserve_order :: "ledger \<Rightarrow> incoming_order \<Rightarrow> reject + ledger" where
  "reserve_order l order =
     (case reserve l (io_id order) (io_account order) (io_symbol order) (io_side order)
             (io_limit_cents order) (io_qty_tenths order) of
        Inl _ \<Rightarrow> Inl InsufficientFunds
      | Inr l' \<Rightarrow> Inr l')"

fun stage_settlements :: "incoming_order \<Rightarrow> planned_fill list \<Rightarrow> ledger \<Rightarrow> reject + ledger" where
  "stage_settlements order [] l = Inr l"
| "stage_settlements order (fill # fills) l =
     (case settle_fill l (pf_maker_order fill) (io_id order) (pf_price_cents fill)
             (pf_qty_tenths fill) of
        Inl _ \<Rightarrow> Inl FundsOverflow
      | Inr l' \<Rightarrow> stage_settlements order fills l')"

definition stage_fok_ledger :: "incoming_order \<Rightarrow> fok_plan \<Rightarrow> ledger \<Rightarrow> reject + ledger" where
  "stage_fok_ledger order plan l =
     res_bind (reserve_order l order) (\<lambda>staged. stage_settlements order (fp_fills plan) staged)"

record preflight_state =
  pr_remaining :: int
  pr_next_trade :: nat
  pr_projected :: position_map
  pr_staged :: ledger

definition project ::
  "position_map \<Rightarrow> position_map \<Rightarrow> string \<Rightarrow> account_id \<times> side \<Rightarrow> int \<Rightarrow> int \<Rightarrow>
   reject + position_map" where
  "project projected positions symbol who qty price =
     (let key = (fst who, symbol);
          before = (case map_of projected key of
                      Some p \<Rightarrow> p | None \<Rightarrow> bget_or no_position positions key)
      in res_bind (ok_or PositionOverflow (position_after_fill before (snd who) qty price)) (\<lambda>after.
         Inr (bput projected key after)))"

definition preflight_maker ::
  "incoming_order \<Rightarrow> position_map \<Rightarrow> int \<Rightarrow> resting_order \<Rightarrow> preflight_state \<Rightarrow>
   reject + preflight_state" where
  "preflight_maker order positions price m st =
     res_bind (ok_or PositionOverflow (checked_add_u64 (pr_next_trade st) 1)) (\<lambda>next_trade.
     let fill = min (pr_remaining st) (ro_qty_tenths m) in
     res_bind (project (pr_projected st) positions (io_symbol order)
                (ro_account m, opposite (io_side order)) fill price) (\<lambda>projected1.
     res_bind (project projected1 positions (io_symbol order)
                (io_account order, io_side order) fill price) (\<lambda>projected2.
     case settle_fill (pr_staged st) (ro_id m) (io_id order) price fill of
       Inl _ \<Rightarrow> Inl FundsOverflow
     | Inr staged \<Rightarrow>
         Inr \<lparr>pr_remaining = pr_remaining st - fill, pr_next_trade = next_trade,
              pr_projected = projected2, pr_staged = staged\<rparr>)))"

fun preflight_level ::
  "incoming_order \<Rightarrow> position_map \<Rightarrow> int \<Rightarrow> resting_order list \<Rightarrow> preflight_state \<Rightarrow>
   reject + preflight_state" where
  "preflight_level order positions price [] st = Inr st"
| "preflight_level order positions price (m # ms) st =
     res_bind (preflight_maker order positions price m st) (\<lambda>st'.
     if pr_remaining st' = 0 then Inr st'
     else preflight_level order positions price ms st')"

fun preflight_levels ::
  "incoming_order \<Rightarrow> position_map \<Rightarrow> (int \<times> resting_order list) list \<Rightarrow> preflight_state \<Rightarrow>
   reject + preflight_state" where
  "preflight_levels order positions [] st = Inr st"
| "preflight_levels order positions ((price, level) # levels) st =
     (if pr_remaining st = 0 \<or> \<not> crosses (io_side order) price (io_limit_cents order) then Inr st
      else res_bind (preflight_level order positions price level st) (\<lambda>st'.
        preflight_levels order positions levels st'))"

definition preflight ::
  "incoming_order \<Rightarrow> book \<Rightarrow> position_map \<Rightarrow> ledger \<Rightarrow> nat \<Rightarrow> reject + unit" where
  "preflight order b positions l trades_total =
     (if \<not> is_funded l then Inr () else
      res_bind (reserve_order l order) (\<lambda>staged.
      res_bind (preflight_levels order positions (walk_side (io_side order) b)
                 \<lparr>pr_remaining = io_qty_tenths order, pr_next_trade = trades_total,
                  pr_projected = [], pr_staged = staged\<rparr>) (\<lambda>st.
      require (\<not> (io_time_in_force order = FillOrKill \<and> pr_remaining st \<noteq> 0)) FokUnfilled)))"

end
