(* ===== verification/Book_Invariant.thy ===== *)
theory Book_Invariant
  imports Execute
begin

section \<open>Well-formed books and the next fill\<close>

text \<open>
  A book is well formed when its sides are maps of nonempty queues in arrival order, of
  positive quantities at grid prices, and no bid reaches an ask. The central lemma unfolds
  the plan of an order by its next fill: booking that fill leaves a book whose plan, for what
  remains, is the rest of the plan.
\<close>

definition level_ok :: "resting_order list \<Rightarrow> bool" where
  "level_ok lv \<longleftrightarrow> lv \<noteq> [] \<and> sorted_wrt (<) (map ro_id lv) \<and>
     list_all (\<lambda>r. 0 < ro_qty_tenths r \<and> ro_qty_tenths r \<le> MAX_GRID_UNITS) lv"

definition side_ok :: "book_side \<Rightarrow> bool" where
  "side_ok levels \<longleftrightarrow> bmap_ok levels \<and>
     list_all (\<lambda>e. 0 < fst e \<and> fst e \<le> MAX_GRID_UNITS \<and> level_ok (snd e)) levels"

definition uncrossed :: "book \<Rightarrow> bool" where
  "uncrossed b \<longleftrightarrow> (\<forall>x \<in> set (bids b). \<forall>y \<in> set (asks b). fst x < fst y)"

definition book_ok :: "book \<Rightarrow> bool" where
  "book_ok b \<longleftrightarrow> side_ok (bids b) \<and> side_ok (asks b) \<and> uncrossed b"

lemma side_ok_own: "book_ok b \<Longrightarrow> side_ok (own_side sd b)"
  by (cases sd) (simp_all add: book_ok_def)

lemma side_ok_bmap: "side_ok l \<Longrightarrow> bmap_ok l"
  by (simp add: side_ok_def)

lemma own_put [simp]:
  "own_side sd (put_side sd b l) = l" "own_side (opposite sd) (put_side sd b l) = own_side (opposite sd) b"
  "own_side sd (put_side (opposite sd) b l) = own_side sd b"
  by (cases sd; simp)+

lemma own_side_put: "own_side sd (put_side sd' b l) = (if sd' = sd then l else own_side sd b)"
  by (cases sd; cases sd') simp_all

text \<open>The direction of the walk.\<close>

fun dir :: "side \<Rightarrow> 'a list \<Rightarrow> 'a list" where
  "dir Buy xs = xs"
| "dir Sell xs = rev xs"

lemma set_dir [simp]: "set (dir sd xs) = set xs"
  by (cases sd) simp_all

lemma dir_Nil [simp]: "dir sd xs = [] \<longleftrightarrow> xs = []"
  by (cases sd) simp_all

lemma walk_side_dir: "walk_side sd b = dir sd (own_side (opposite sd) b)"
  by (cases sd) simp_all

subsection \<open>The ends of a sorted map\<close>

lemma bput_last: "(\<forall>e \<in> set xs. fst e < k) \<Longrightarrow> bput (xs @ [(k, v)]) k w = xs @ [(k, w)]"
  by (induction xs) auto

lemma bdel_absent: "(\<forall>e \<in> set xs. fst e \<noteq> k) \<Longrightarrow> bdel xs k = xs"
  by (simp add: bdel_def)

lemma bdel_append [simp]: "bdel (xs @ ys) k = bdel xs k @ bdel ys k"
  by (simp add: bdel_def)

lemma bmap_ok_append: "bmap_ok (xs @ ys) \<longleftrightarrow> bmap_ok xs \<and> bmap_ok ys \<and> (\<forall>x \<in> set xs. \<forall>y \<in> set ys. fst x < fst y)"
  by (auto simp: bmap_ok_def sorted_wrt_append)

lemma dir_head:
  assumes "bmap_ok levels" and "dir sd levels = (p, lv) # rest"
  shows "map_of levels p = Some lv"
    and "dir sd (bput levels p lv') = (p, lv') # rest"
    and "dir sd (bdel levels p) = rest"
    and "\<forall>e \<in> set rest. if sd = Buy then p < fst e else fst e < p"
proof -
  have "map_of levels p = Some lv \<and> dir sd (bput levels p lv') = (p, lv') # rest \<and>
    dir sd (bdel levels p) = rest \<and> (\<forall>e \<in> set rest. if sd = Buy then p < fst e else fst e < p)"
  proof (cases sd)
    case Buy
    then have "levels = (p, lv) # rest" using assms(2) by simp
    then show ?thesis using assms(1) Buy by (force simp: bmap_ok_Cons bdel_def filter_id_conv)
  next
    case Sell
    then have l: "levels = rev rest @ [(p, lv)]" using assms(2) by (metis dir.simps(2) rev.simps(2) rev_rev_ident)
    then have late: "\<forall>e \<in> set (rev rest). fst e < p" using assms(1) by (simp add: bmap_ok_append)
    then have "bdel (rev rest) p = rev rest" by (intro bdel_absent) auto
    moreover have "map_of (rev rest) p = None" using late by (auto simp: map_of_eq_None_iff)
    ultimately show ?thesis
      using late Sell by (simp add: l bput_last map_add_def) (simp add: bdel_def)
  qed
  then show "map_of levels p = Some lv" "dir sd (bput levels p lv') = (p, lv') # rest"
    "dir sd (bdel levels p) = rest" "\<forall>e \<in> set rest. if sd = Buy then p < fst e else fst e < p"
    by simp_all
qed

subsection \<open>Booking the next fill\<close>

text \<open>What one fill leaves of the level it met.\<close>

definition level_after :: "resting_order list \<Rightarrow> int \<Rightarrow> resting_order list" where
  "level_after lv left = (if left = 0 then tl lv else (hd lv)\<lparr>ro_qty_tenths := left\<rparr> # tl lv)"

lemma level_after_ok:
  assumes "level_ok lv" and "0 \<le> left" and "left \<le> ro_qty_tenths (hd lv)" and "level_after lv left \<noteq> []"
  shows "level_ok (level_after lv left)"
  using assms by (cases lv) (auto simp: level_ok_def level_after_def split: if_splits)

lemma side_ok_put:
  assumes "side_ok levels" and "0 < p" and "p \<le> MAX_GRID_UNITS" and "level_ok lv"
  shows "side_ok (bput levels p lv)"
  using assms set_bput_subset [of levels p lv] by (auto simp: side_ok_def list_all_iff)

lemma side_ok_del: "side_ok levels \<Longrightarrow> side_ok (bdel levels p)"
  by (auto simp: side_ok_def list_all_iff bdel_def)

lemma uncrossed_keys:
  "uncrossed b \<longleftrightarrow> (\<forall>x \<in> fst ` set (bids b). \<forall>y \<in> fst ` set (asks b). x < y)"
  by (auto simp: uncrossed_def)

lemma uncrossed_mono:
  "uncrossed b \<Longrightarrow> fst ` set (bids b') \<subseteq> fst ` set (bids b) \<Longrightarrow>
     fst ` set (asks b') \<subseteq> fst ` set (asks b) \<Longrightarrow> uncrossed b'"
  unfolding uncrossed_keys by blast

lemma book_ok_shrink:
  assumes "book_ok b" and "side_ok l" and "fst ` set l \<subseteq> fst ` set (own_side sd b)"
  shows "book_ok (put_side sd b l)"
  using assms uncrossed_mono [of b "put_side sd b l"] by (cases sd) (simp_all add: book_ok_def)

lemma next_fill_SomeE:
  assumes "next_fill order b remaining = Some fill"
  obtains p m ms rest where "walk_side (io_side order) b = (p, m # ms) # rest"
    and "crosses (io_side order) p (io_limit_cents order)"
    and "fill = \<lparr>pf_maker_order = ro_id m, pf_maker_account = ro_account m,
      pf_price_cents = p, pf_qty_tenths = min remaining (ro_qty_tenths m)\<rparr>"
  using assms by (auto simp: next_fill_def split: list.splits if_splits)

lemma reduce_next_fill:
  assumes ok: "book_ok b" and nf: "next_fill order b remaining = Some fill" and pos: "0 < remaining"
  obtains m ms rest levels where
    "walk_side (io_side order) b = (pf_price_cents fill, m # ms) # rest"
    and "crosses (io_side order) (pf_price_cents fill) (io_limit_cents order)"
    and "ro_id m = pf_maker_order fill" and "ro_account m = pf_maker_account fill"
    and "pf_qty_tenths fill = min remaining (ro_qty_tenths m)"
    and "map_of (own_side (opposite (io_side order)) b) (pf_price_cents fill) = Some (m # ms)"
    and "reduce_maker (own_side (opposite (io_side order)) b) fill =
      Some (levels, ro_qty_tenths m - pf_qty_tenths fill)"
    and "levels = (let lv = level_after (m # ms) (ro_qty_tenths m - pf_qty_tenths fill) in
       if lv = [] then bdel (own_side (opposite (io_side order)) b) (pf_price_cents fill)
       else bput (own_side (opposite (io_side order)) b) (pf_price_cents fill) lv)"
    and "walk_side (io_side order) (put_side (opposite (io_side order)) b levels) =
      (let lv = level_after (m # ms) (ro_qty_tenths m - pf_qty_tenths fill) in
       if lv = [] then rest else (pf_price_cents fill, lv) # rest)"
    and "book_ok (put_side (opposite (io_side order)) b levels)"
    and "0 < pf_price_cents fill" and "pf_price_cents fill \<le> MAX_GRID_UNITS"
    and "0 < pf_qty_tenths fill" and "pf_qty_tenths fill \<le> ro_qty_tenths m"
    and "ro_qty_tenths m \<le> MAX_GRID_UNITS"
proof -
  let ?sd = "io_side order"
  let ?levels = "own_side (opposite ?sd) b"
  obtain p m ms rest where w: "walk_side ?sd b = (p, m # ms) # rest"
    and c: "crosses ?sd p (io_limit_cents order)"
    and fill: "fill = \<lparr>pf_maker_order = ro_id m, pf_maker_account = ro_account m,
      pf_price_cents = p, pf_qty_tenths = min remaining (ro_qty_tenths m)\<rparr>"
    using nf by (rule next_fill_SomeE)
  let ?left = "ro_qty_tenths m - pf_qty_tenths fill"
  let ?lv = "level_after (m # ms) ?left"
  let ?new = "if ?lv = [] then bdel ?levels p else bput ?levels p ?lv"
  have sok: "side_ok ?levels" using ok by (rule side_ok_own)
  have d: "dir ?sd ?levels = (p, m # ms) # rest" using w by (simp add: walk_side_dir)
  note head = dir_head [OF side_ok_bmap [OF sok] d]
  have "(p, m # ms) \<in> set (dir ?sd ?levels)" by (simp add: d)
  then have "(p, m # ms) \<in> set ?levels" by simp
  then have m: "0 < p" "p \<le> MAX_GRID_UNITS" "level_ok (m # ms)"
    using sok by (auto simp: side_ok_def list_all_iff)
  then have q: "0 < ro_qty_tenths m" "ro_qty_tenths m \<le> MAX_GRID_UNITS" by (simp_all add: level_ok_def)
  have fq: "0 < pf_qty_tenths fill" "pf_qty_tenths fill \<le> ro_qty_tenths m"
    using pos q by (simp_all add: fill)
  have sub: "checked_sub (ro_qty_tenths m) (pf_qty_tenths fill) = Some ?left"
    using fq q by (simp add: in_i64_def i64_min_def i64_max_def MAX_GRID_UNITS_def)
  have fields: "pf_price_cents fill = p" "pf_maker_order fill = ro_id m" "pf_maker_account fill = ro_account m"
    by (simp_all add: fill)
  have red: "reduce_maker ?levels fill = Some (?new, ?left)"
    using head(1) fq by (simp add: reduce_maker_def fields sub level_after_def Let_def)
  have "walk_side ?sd (put_side (opposite ?sd) b ?new) = (if ?lv = [] then rest else (p, ?lv) # rest)"
    using head(2) head(3) by (simp add: walk_side_dir)
  moreover have "book_ok (put_side (opposite ?sd) b ?new)"
  proof (rule book_ok_shrink [OF ok])
    show "side_ok ?new"
      using sok m level_after_ok [OF m(3), of ?left] fq by (auto intro: side_ok_put side_ok_del)
    show "fst ` set ?new \<subseteq> fst ` set ?levels"
      using map_of_SomeD [OF head(1)] by (auto simp: keys_bput bdel_def rev_image_eqI)
  qed
  ultimately show thesis
    by (intro that [of m ms rest ?new])
      (simp_all only: fields Let_def w c head(1) red m q fq split: if_split, simp add: fill)
qed

text \<open>The plan, unfolded by the next fill.\<close>

lemma plan_levels_zero [simp]: "plan_levels sd limit 0 levels = []"
  by (cases levels) auto

lemma level_ok_Cons: "level_ok (m # ms) \<Longrightarrow> ms \<noteq> [] \<Longrightarrow> level_ok ms"
  by (auto simp: level_ok_def)

lemma plan_levels_unfold:
  assumes "0 < remaining" and "crosses sd p limit" and "0 < ro_qty_tenths m"
  shows "plan_levels sd limit remaining ((p, m # ms) # rest) =
    \<lparr>pf_maker_order = ro_id m, pf_maker_account = ro_account m, pf_price_cents = p,
      pf_qty_tenths = min remaining (ro_qty_tenths m)\<rparr> #
    plan_levels sd limit (remaining - min remaining (ro_qty_tenths m))
      (let lv = level_after (m # ms) (ro_qty_tenths m - min remaining (ro_qty_tenths m))
       in if lv = [] then rest else (p, lv) # rest)"
proof (cases "remaining < ro_qty_tenths m")
  case True
  then show ?thesis using assms by (auto simp: level_after_def Let_def)
next
  case False
  then have q: "min remaining (ro_qty_tenths m) = ro_qty_tenths m" by simp
  show ?thesis
    using assms False by (cases "remaining = ro_qty_tenths m"; cases ms) (auto simp: level_after_def Let_def q)
qed

lemma plan_next_fill_None:
  assumes "book_ok b" and "next_fill order b remaining = None"
  shows "plan_levels (io_side order) (io_limit_cents order) remaining (walk_side (io_side order) b) = []"
proof (cases "walk_side (io_side order) b")
  case (Cons e rest)
  have "e \<in> set (walk_side (io_side order) b)" using Cons by simp
  then have "e \<in> set (own_side (opposite (io_side order)) b)" by (simp add: walk_side_dir)
  then have "level_ok (snd e)"
    using side_ok_own [OF assms(1)] by (auto simp: side_ok_def list_all_iff)
  then show ?thesis
    using assms(2) Cons by (cases e) (auto simp: next_fill_def level_ok_def split: list.splits if_splits)
qed simp

lemma plan_next_fill_Some:
  assumes "book_ok b" and "next_fill order b remaining = Some fill" and "0 < remaining"
    and "reduce_maker (own_side (opposite (io_side order)) b) fill = Some (levels, left)"
  shows "plan_levels (io_side order) (io_limit_cents order) remaining (walk_side (io_side order) b) =
    fill # plan_levels (io_side order) (io_limit_cents order) (remaining - pf_qty_tenths fill)
      (walk_side (io_side order) (put_side (opposite (io_side order)) b levels))"
  using assms(1,2,3)
proof (rule reduce_next_fill)
  fix m ms rest levels'
  assume w: "walk_side (io_side order) b = (pf_price_cents fill, m # ms) # rest"
    and c: "crosses (io_side order) (pf_price_cents fill) (io_limit_cents order)"
    and f: "ro_id m = pf_maker_order fill" "ro_account m = pf_maker_account fill"
      "pf_qty_tenths fill = min remaining (ro_qty_tenths m)"
    and r: "reduce_maker (own_side (opposite (io_side order)) b) fill =
      Some (levels', ro_qty_tenths m - pf_qty_tenths fill)"
    and w': "walk_side (io_side order) (put_side (opposite (io_side order)) b levels') =
      (let lv = level_after (m # ms) (ro_qty_tenths m - pf_qty_tenths fill) in
       if lv = [] then rest else (pf_price_cents fill, lv) # rest)"
    and q: "0 < pf_qty_tenths fill" "pf_qty_tenths fill \<le> ro_qty_tenths m"
  have "levels' = levels" using r assms(4) by simp
  moreover have "fill = \<lparr>pf_maker_order = ro_id m, pf_maker_account = ro_account m,
      pf_price_cents = pf_price_cents fill, pf_qty_tenths = min remaining (ro_qty_tenths m)\<rparr>"
    using f by (cases fill) simp
  ultimately show ?thesis
    using plan_levels_unfold [OF assms(3) c, of m ms rest] q f w w' by (simp add: w)
qed

end
