(* ===== verification/Execute_Plan.thy ===== *)
theory Execute_Plan
  imports Book_Invariant
begin

section \<open>Execution follows the plan\<close>

text \<open>
  The execution loop asks the book for its next fill each time; the plan walks the book once.
  On a well-formed book they are the same fills in the same order, so the loop ends and every
  fact about an execution is an induction over its plan.
\<close>

subsection \<open>One fill\<close>

lemma commit_fill_SomeE:
  assumes "commit_fill order fill mn tn trade_id into = Some into'"
  obtains levels left where
    "reduce_maker (own_side (opposite (io_side order)) (bt_book into)) fill = Some (levels, left)"
    and "bt_book into' = put_side (opposite (io_side order)) (bt_book into) levels"
    and "bt_ledger into' = bt_ledger into"
    and "bt_plan_committed into' = bt_plan_committed into"
    and "bt_open_orders into' = (if left = 0 then bdel (bt_open_orders into) (pf_maker_order fill)
           else bt_open_orders into)"
    and "bt_positions into' = book_positions order fill mn tn (bt_positions into)"
    and "bt_trades_total into' = sat_add_u64 (bt_trades_total into) 1"
    and "bt_candles into' = cache_record (bt_candles into) (io_symbol order) (io_timestamp order)
           (pf_price_cents fill) (pf_qty_tenths fill)"
    and "bt_trades into' = (if length (bt_trades into) = TRADE_WINDOW then tl (bt_trades into)
           else bt_trades into) @ [the_trade order fill trade_id]"
    and "bt_aggregates into' = bput (bt_aggregates into) (io_symbol order)
           (book_agg (bget_or no_agg (bt_aggregates into) (io_symbol order)) fill)"
    and "bt_pending into' = map_option (\<lambda>cs. cs @ [Traded (the_trade_row order fill trade_id),
           if left = 0 then OrderClosed (pf_maker_order fill)
           else OrderReduced (pf_maker_order fill) left]) (bt_pending into)"
proof -
  obtain levels left where
    r: "reduce_maker (own_side (opposite (io_side order)) (bt_book into)) fill = Some (levels, left)"
    using assms by (auto simp: commit_fill_def Let_def bind_eq_Some_conv split: if_splits)
  show thesis
    using assms
    by (intro that [OF r])
      (auto simp: commit_fill_def Let_def r push_trade_def the_trade_def record_change_def
        split: if_splits option.splits)
qed

lemma commit_fill_next:
  assumes "book_ok (bt_book into)" and "next_fill order (bt_book into) remaining = Some fill"
    and "0 < remaining" and "io_time_in_force order = FillOrKill \<Longrightarrow> bt_plan_committed into"
  shows "\<exists>into'. commit_fill order fill mn tn trade_id into = Some into'"
  using assms(1,2,3)
  by (rule reduce_next_fill) (use assms(4) in \<open>auto simp: commit_fill_def Let_def\<close>)

text \<open>One round of the loop: \<open>None\<close> is an overflow, \<open>Some None\<close> a panic.\<close>

definition fill_step :: "incoming_order \<Rightarrow> planned_fill \<Rightarrow> book_and_trades \<Rightarrow> book_and_trades option option" where
  "fill_step order fill into =
     (case (fill_positions order fill (bt_positions into), checked_add_u64 (bt_trades_total into) 1) of
        (Some (maker_next, taker_next), Some trade_id) \<Rightarrow>
          Some (do { ledger \<leftarrow> result_ok (settle_fill (bt_ledger into) (pf_maker_order fill)
                       (io_id order) (pf_price_cents fill) (pf_qty_tenths fill));
                     commit_fill order fill maker_next taker_next trade_id
                       (into\<lparr>bt_ledger := ledger\<rparr>) })
      | _ \<Rightarrow> None)"

fun run_plan ::
  "incoming_order \<Rightarrow> int \<Rightarrow> planned_fill list \<Rightarrow> book_and_trades \<Rightarrow> (matched \<times> book_and_trades) option" where
  "run_plan order remaining [] into = Some (Crossed remaining, into)"
| "run_plan order remaining (fill # fills) into =
     (case fill_step order fill into of
        None \<Rightarrow> Some (Overflowed remaining, into)
      | Some None \<Rightarrow> None
      | Some (Some into') \<Rightarrow> run_plan order (remaining - pf_qty_tenths fill) fills into')"

definition rest_of_plan :: "incoming_order \<Rightarrow> int \<Rightarrow> book_and_trades \<Rightarrow> planned_fill list" where
  "rest_of_plan order remaining into =
     plan_levels (io_side order) (io_limit_cents order) remaining
       (walk_side (io_side order) (bt_book into))"

lemma fill_step_SomeE:
  assumes "fill_step order fill into = Some (Some into')"
  obtains mn tn l trade_id where
    "fill_positions order fill (bt_positions into) = Some (mn, tn)"
    and "trade_id = Suc (bt_trades_total into)" and "Suc (bt_trades_total into) \<le> u64_max"
    and "settle_fill (bt_ledger into) (pf_maker_order fill) (io_id order)
           (pf_price_cents fill) (pf_qty_tenths fill) = Inr l"
    and "commit_fill order fill mn tn trade_id (into\<lparr>bt_ledger := l\<rparr>) = Some into'"
  using assms by (auto simp: fill_step_def bind_eq_Some_conv split: option.splits prod.splits)

lemma fill_step_plan:
  assumes "book_ok (bt_book into)" and "next_fill order (bt_book into) remaining = Some fill"
    and "0 < remaining" and "fill_step order fill into = Some (Some into')"
  shows "rest_of_plan order remaining into =
      fill # rest_of_plan order (remaining - pf_qty_tenths fill) into'"
    and "book_ok (bt_book into')" and "0 \<le> remaining - pf_qty_tenths fill"
proof -
  obtain mn tn l trade_id where
    c: "commit_fill order fill mn tn trade_id (into\<lparr>bt_ledger := l\<rparr>) = Some into'"
    using assms(4) by (rule fill_step_SomeE)
  obtain levels left where
    r: "reduce_maker (own_side (opposite (io_side order)) (bt_book into)) fill = Some (levels, left)"
    and b: "bt_book into' = put_side (opposite (io_side order)) (bt_book into) levels"
    using c by (rule commit_fill_SomeE) simp
  show "rest_of_plan order remaining into =
      fill # rest_of_plan order (remaining - pf_qty_tenths fill) into'"
    using plan_next_fill_Some [OF assms(1-3) r] by (simp add: rest_of_plan_def b)
  show "book_ok (bt_book into')"
    using assms(1-3) by (rule reduce_next_fill) (use r b in simp)
  show "0 \<le> remaining - pf_qty_tenths fill"
    using assms(1-3) by (rule reduce_next_fill) simp
qed

subsection \<open>The loop is the plan\<close>

lemma execute_unfold:
  "execute order remaining into =
     (if \<not> 0 < remaining then Some (Crossed remaining, into)
      else case next_fill order (bt_book into) remaining of
             None \<Rightarrow> Some (Crossed remaining, into)
           | Some fill \<Rightarrow>
               (case fill_step order fill into of
                  None \<Rightarrow> Some (Overflowed remaining, into)
                | Some None \<Rightarrow> None
                | Some (Some into') \<Rightarrow> execute order (remaining - pf_qty_tenths fill) into'))"
  by (subst execute.simps)
    (auto simp: fill_step_def Let_def split: option.splits prod.splits bind_splits)

lemma rest_of_plan_hd:
  assumes "book_ok (bt_book into)" and "0 \<le> remaining"
  shows "rest_of_plan order remaining into =
     (if remaining = 0 then [] else
      case next_fill order (bt_book into) remaining of None \<Rightarrow> [] | Some fill \<Rightarrow> fill # tl (rest_of_plan order remaining into))"
proof (cases "remaining = 0")
  case False
  show ?thesis
  proof (cases "next_fill order (bt_book into) remaining")
    case None
    then show ?thesis using plan_next_fill_None [OF assms(1) None] by (simp add: rest_of_plan_def)
  next
    case (Some fill)
    have pos: "0 < remaining" using False assms(2) by simp
    obtain levels left where
      "reduce_maker (own_side (opposite (io_side order)) (bt_book into)) fill = Some (levels, left)"
      using assms(1) Some pos by (rule reduce_next_fill)
    then show ?thesis
      using plan_next_fill_Some [OF assms(1) Some pos] False Some by (simp add: rest_of_plan_def)
  qed
qed (simp add: rest_of_plan_def)

lemma rest_of_plan_ConsD:
  assumes "fill # fills = rest_of_plan order remaining into"
    and "book_ok (bt_book into)" and "0 \<le> remaining"
  shows "0 < remaining \<and> next_fill order (bt_book into) remaining = Some fill"
  using rest_of_plan_hd [OF assms(2,3), of order] assms(3) unfolding assms(1) [symmetric]
  by (auto split: if_splits option.splits)

lemma execute_run_plan:
  assumes "book_ok (bt_book into)" and "0 \<le> remaining"
  shows "execute order remaining into = run_plan order remaining (rest_of_plan order remaining into) into"
  using assms
proof (induction "rest_of_plan order remaining into" arbitrary: remaining into)
  case Nil
  then show ?case
    using rest_of_plan_hd [OF Nil.prems, of order]
    by (subst execute_unfold) (auto split: if_splits option.splits)
next
  case (Cons fill fills)
  have pos: "0 < remaining" and nf: "next_fill order (bt_book into) remaining = Some fill"
    using rest_of_plan_ConsD [OF Cons.hyps(2) Cons.prems] by simp_all
  show ?case
  proof (cases "\<exists>into'. fill_step order fill into = Some (Some into')")
    case True
    then obtain into' where st: "fill_step order fill into = Some (Some into')" by blast
    note step = fill_step_plan [OF Cons.prems(1) nf pos st]
    have "fills = rest_of_plan order (remaining - pf_qty_tenths fill) into'"
      using step(1) Cons.hyps(2) by simp
    from Cons.hyps(1) [OF this step(2,3)] this show ?thesis
      using pos nf st Cons.hyps(2) [symmetric] by (subst execute_unfold) simp
  next
    case False
    then show ?thesis
      using pos nf Cons.hyps(2) [symmetric]
      by (subst execute_unfold) (auto split: option.splits)
  qed
qed

text \<open>Induction over a run: an invariant of the fill step holds when the loop stops.\<close>

lemma run_plan_induct:
  assumes "run_plan order remaining (rest_of_plan order remaining into) into = Some (m, into')"
    and "book_ok (bt_book into)" and "0 \<le> remaining" and "Q remaining into"
    and step: "\<And>remaining into fill into'. book_ok (bt_book into) \<Longrightarrow> 0 < remaining \<Longrightarrow> Q remaining into \<Longrightarrow>
      next_fill order (bt_book into) remaining = Some fill \<Longrightarrow>
      fill_step order fill into = Some (Some into') \<Longrightarrow> Q (remaining - pf_qty_tenths fill) into'"
  shows "\<exists>left. 0 \<le> left \<and> left \<le> remaining \<and> Q left into' \<and> book_ok (bt_book into') \<and>
    (m = Crossed left \<and> (left = 0 \<or> next_fill order (bt_book into') left = None) \<or>
     m = Overflowed left)"
  using assms(1-4)
proof (induction "rest_of_plan order remaining into" arbitrary: remaining into)
  case Nil
  then show ?case
    using rest_of_plan_hd [OF Nil.prems(2,3), of order]
    by (auto split: if_splits option.splits)
next
  case (Cons fill fills)
  have pos: "0 < remaining" and nf: "next_fill order (bt_book into) remaining = Some fill"
    using rest_of_plan_ConsD [OF Cons.hyps(2) Cons.prems(2,3)] by simp_all
  have q: "0 < pf_qty_tenths fill" using Cons.prems(2) nf pos by (rule reduce_next_fill)
  show ?case
  proof (cases "fill_step order fill into")
    case None
    then show ?thesis
      using Cons.prems Cons.hyps(2) [symmetric] by auto
  next
    case (Some o')
    then obtain into1 where st: "fill_step order fill into = Some (Some into1)"
      using Cons.prems(1) Cons.hyps(2) [symmetric] by (cases o') auto
    note s = fill_step_plan [OF Cons.prems(2) nf pos st]
    have f: "fills = rest_of_plan order (remaining - pf_qty_tenths fill) into1"
      using s(1) Cons.hyps(2) by simp
    have "run_plan order (remaining - pf_qty_tenths fill)
        (rest_of_plan order (remaining - pf_qty_tenths fill) into1) into1 = Some (m, into')"
      using Cons.prems(1) Cons.hyps(2) [symmetric] st f by simp
    from Cons.hyps(1) [OF f this s(2,3) step [OF Cons.prems(2) pos Cons.prems(4) nf st]]
    show ?thesis using q by auto
  qed
qed

end
