(* ===== verification/Live_Orders.thy ===== *)
theory Live_Orders
  imports Execute_Plan Ledger_Preserve
begin

section \<open>The orders that rest, the index and the reservations\<close>

text \<open>
  The set of live orders of all books, each with its symbol, side and price. The index of
  open orders and the reservations of the funded ledger are views of this set; the lemmas
  say how a fill, a rest and a removal change the set and keep both views in step.
\<close>

type_synonym live_order = "string \<times> side \<times> int \<times> resting_order"

fun live_id :: "live_order \<Rightarrow> order_id" where
  "live_id (sy, sd, p, r) = ro_id r"

definition resting :: "book \<Rightarrow> side \<Rightarrow> int \<Rightarrow> resting_order \<Rightarrow> bool" where
  "resting b sd p r \<longleftrightarrow> (\<exists>lv. map_of (own_side sd b) p = Some lv \<and> r \<in> set lv)"

definition live :: "(string, book) bmap \<Rightarrow> live_order set" where
  "live books = {(sy, sd, p, r). \<exists>b. map_of books sy = Some b \<and> resting b sd p r}"

definition without :: "live_order set \<Rightarrow> order_id \<Rightarrow> live_order set" where
  "without L i = {t \<in> L. live_id t \<noteq> i}"

definition books_ok :: "(string, book) bmap \<Rightarrow> bool" where
  "books_ok books \<longleftrightarrow> bmap_ok books \<and> list_all (\<lambda>e. book_ok (snd e)) books"

lemma live_iff:
  "(sy, sd, p, r) \<in> live books \<longleftrightarrow> (\<exists>b. map_of books sy = Some b \<and> resting b sd p r)"
  by (simp add: live_def)

lemma without_iff: "t \<in> without L i \<longleftrightarrow> t \<in> L \<and> live_id t \<noteq> i"
  by (simp add: without_def)

lemma books_ok_put: "books_ok books \<Longrightarrow> book_ok b \<Longrightarrow> books_ok (bput books s b)"
  using set_bput_subset [of books s b] by (auto simp: books_ok_def list_all_iff)

lemma books_ok_del: "books_ok books \<Longrightarrow> books_ok (bdel books s)"
  by (auto simp: books_ok_def list_all_iff bdel_def)

lemma books_ok_get: "books_ok books \<Longrightarrow> map_of books s = Some b \<Longrightarrow> book_ok b"
  using map_of_list_all [of "\<lambda>e. book_ok (snd e)" books s b] by (simp add: books_ok_def)

lemma empty_book_ok [simp]: "book_ok empty_book"
  by (simp add: book_ok_def side_ok_def empty_book_def uncrossed_def)

lemma books_ok_get_or: "books_ok books \<Longrightarrow> book_ok (bget_or empty_book books s)"
  using books_ok_get [of books s] by (cases "map_of books s") (simp_all add: bget_or_def)

text \<open>No two orders of a level share an id.\<close>

lemma level_unique:
  "level_ok lv \<Longrightarrow> r \<in> set lv \<Longrightarrow> r' \<in> set lv \<Longrightarrow> ro_id r = ro_id r' \<Longrightarrow> r = r'"
  using strict_sorted_imp_sorted distinct_map [of ro_id lv]
  by (metis inj_onD level_ok_def strict_sorted_iff)

lemma resting_unique:
  assumes "book_ok b" and "resting b sd p r" and "resting b sd p r'" and "ro_id r = ro_id r'"
  shows "r = r'"
  using assms side_ok_own [OF assms(1), of sd] map_of_list_all [of _ "own_side sd b" p] level_unique
  by (fastforce simp: resting_def side_ok_def)

subsection \<open>The index\<close>

definition index_for :: "live_order set \<Rightarrow> (order_id \<Rightarrow> order_ref option) \<Rightarrow> bool" where
  "index_for L m \<longleftrightarrow>
     (\<forall>i ref. m i = Some ref \<longleftrightarrow>
        (\<exists>r. ro_id r = i \<and> (ref_symbol ref, ref_side ref, ref_price_cents ref, r) \<in> L))"

definition unique_ids :: "live_order set \<Rightarrow> bool" where
  "unique_ids L \<longleftrightarrow> (\<forall>t \<in> L. \<forall>t' \<in> L. live_id t = live_id t' \<longrightarrow> t = t')"

lemma index_get:
  "index_for L m \<Longrightarrow> (sy, sd, p, r) \<in> L \<Longrightarrow>
     m (ro_id r) = Some \<lparr>ref_symbol = sy, ref_side = sd, ref_price_cents = p\<rparr>"
  by (force simp: index_for_def)

lemma index_None:
  assumes "index_for L m"
  shows "m i = None \<longleftrightarrow> (\<forall>t \<in> L. live_id t \<noteq> i)"
proof
  assume "m i = None"
  then have "live_id t \<noteq> i" if "t \<in> L" for t
    using index_get [OF assms] that by (cases t) auto
  then show "\<forall>t \<in> L. live_id t \<noteq> i" by blast
next
  assume none: "\<forall>t \<in> L. live_id t \<noteq> i"
  show "m i = None"
  proof (cases "m i")
    case (Some ref)
    then obtain r where "ro_id r = i" "(ref_symbol ref, ref_side ref, ref_price_cents ref, r) \<in> L"
      using assms by (auto simp: index_for_def)
    then show ?thesis using none by fastforce
  qed
qed

lemma live_unique:
  assumes "books_ok books" and "index_for (live books) m"
  shows "unique_ids (live books)"
  unfolding unique_ids_def
proof (intro ballI impI)
  fix t t' assume t: "t \<in> live books" "t' \<in> live books" "live_id t = live_id t'"
  obtain s sd p r s' sd' p' r' where tt: "t = (s, sd, p, r)" "t' = (s', sd', p', r')"
    by (metis prod_cases4)
  then have "s = s' \<and> sd = sd' \<and> p = p'" and id: "ro_id r = ro_id r'"
    using t index_get [OF assms(2)] by (auto dest!: index_get [OF assms(2)])
  moreover obtain b where "map_of books s = Some b" "resting b sd p r" "resting b sd p r'"
    using t tt calculation by (auto simp: live_iff)
  ultimately show "t = t'" using resting_unique [OF books_ok_get [OF assms(1)]] tt by blast
qed

lemma index_without: "index_for L m \<Longrightarrow> index_for (without L i) (m(i := None))"
  unfolding index_for_def without_def by auto

lemma index_replace:
  assumes "index_for L m" and "unique_ids L" and "(s, sd, p, r) \<in> L" and "ro_id r' = ro_id r"
  shows "index_for (insert (s, sd, p, r') (without L (ro_id r))) m"
  unfolding index_for_def
proof (intro allI)
  fix i and ref :: order_ref
  let ?loc = "\<lambda>x. (ref_symbol ref, ref_side ref, ref_price_cents ref, x)"
  have "?loc x = (s, sd, p, r)" if "ro_id x = ro_id r" "?loc x \<in> L" for x
    using assms(2,3) that unfolding unique_ids_def by fastforce
  moreover have "m i = Some ref \<longleftrightarrow> (\<exists>x. ro_id x = i \<and> ?loc x \<in> L)"
    using assms(1) unfolding index_for_def by blast
  ultimately show "m i = Some ref \<longleftrightarrow>
      (\<exists>x. ro_id x = i \<and> ?loc x \<in> insert (s, sd, p, r') (without L (ro_id r)))"
    using assms(3,4) unfolding without_def by (cases "i = ro_id r") auto
qed

lemma index_insert:
  assumes "index_for L m" and "m (ro_id r) = None"
  shows "index_for (insert (s, sd, p, r) L)
    (m(ro_id r \<mapsto> \<lparr>ref_symbol = s, ref_side = sd, ref_price_cents = p\<rparr>))"
proof -
  have none: "(a, b, c, x) \<notin> L" if "ro_id x = ro_id r" for a b c x
    using index_None [OF assms(1), of "ro_id r"] assms(2) that by fastforce
  have ref: "ref = \<lparr>ref_symbol = s, ref_side = sd, ref_price_cents = p\<rparr> \<longleftrightarrow>
      ref_symbol ref = s \<and> ref_side ref = sd \<and> ref_price_cents ref = p" for ref :: order_ref
    by (cases ref) simp
  show ?thesis
    unfolding index_for_def
  proof (intro allI)
    fix i and ref :: order_ref
    show "(m(ro_id r \<mapsto> \<lparr>ref_symbol = s, ref_side = sd, ref_price_cents = p\<rparr>)) i = Some ref \<longleftrightarrow>
      (\<exists>x. ro_id x = i \<and> (ref_symbol ref, ref_side ref, ref_price_cents ref, x) \<in> insert (s, sd, p, r) L)"
      using assms(1) none ref [of ref] unfolding index_for_def by (cases "i = ro_id r") auto
  qed
qed

subsection \<open>The reservations\<close>

fun rsv_matches :: "live_order \<Rightarrow> reservation \<Rightarrow> bool" where
  "rsv_matches (sy, sd, p, o') r \<longleftrightarrow>
     rsv_order_id r = ro_id o' \<and> rsv_account r = ro_account o' \<and> rsv_symbol r = sy \<and>
     rsv_side r = sd \<and> rsv_limit_cents r = p \<and> rsv_remaining_tenths r = ro_qty_tenths o'"

definition covers :: "live_order set \<Rightarrow> (order_id \<Rightarrow> reservation option) \<Rightarrow> bool" where
  "covers L m \<longleftrightarrow>
     (\<forall>i r. m i = Some r \<longrightarrow> (\<exists>t \<in> L. live_id t = i \<and> rsv_matches t r)) \<and>
     (\<forall>t \<in> L. \<exists>r. m (live_id t) = Some r \<and> rsv_matches t r)"

lemma covers_without: "covers L m \<Longrightarrow> covers (without L i) (m(i := None))"
  unfolding covers_def without_def
  by (auto simp del: split_paired_Ex split_paired_All)

lemma covers_put:
  "covers L m \<Longrightarrow> rsv_matches t r \<Longrightarrow> live_id t = i \<Longrightarrow> covers (insert t (without L i)) (m(i \<mapsto> r))"
  unfolding covers_def without_def
  by (auto simp del: split_paired_Ex split_paired_All)

lemma covers_get: "covers L m \<Longrightarrow> t \<in> L \<Longrightarrow> \<exists>r. m (live_id t) = Some r \<and> rsv_matches t r"
  by (simp add: covers_def)

lemma without_absent: "(\<forall>t \<in> L. live_id t \<noteq> i) \<Longrightarrow> without L i = L"
  by (auto simp: without_def)

subsection \<open>How the operations on books change the set\<close>

lemma live_put:
  "live (bput books s b) = {t \<in> live books. fst t \<noteq> s} \<union> {(s, sd, p, r) | sd p r. resting b sd p r}"
  by (auto simp: live_def split: if_splits)

lemma resting_empty [simp]: "\<not> resting empty_book sd p r"
  by (cases sd) (simp_all add: resting_def empty_book_def)

lemma live_entry: "live (bput books s (bget_or empty_book books s)) = live books"
  by (auto simp: live_put live_iff bget_or_def split: option.splits)

lemma live_prune: "live (prune_book books s) = live books"
proof (cases "prune_book books s = books")
  case False
  then obtain b where b: "map_of books s = Some b" "bids b = [] \<and> asks b = []"
    and p: "prune_book books s = bdel books s"
    by (auto simp: prune_book_def split: option.splits if_splits)
  then have "\<not> resting b sd q r" for sd q r by (cases sd) (simp_all add: resting_def)
  with b p show ?thesis by (auto simp: live_def split: if_splits)
qed simp

lemma resting_put_side:
  "resting (put_side sd b l) sd' p r \<longleftrightarrow>
     (if sd' = sd then (\<exists>lv. map_of l p = Some lv \<and> r \<in> set lv) else resting b sd' p r)"
  by (simp add: resting_def own_side_put)

lemma resting_after_fill:
  assumes ok: "book_ok b" and nf: "next_fill order b remaining = Some fill" and pos: "0 < remaining"
    and r: "reduce_maker (own_side (opposite (io_side order)) b) fill = Some (levels, left)"
  obtains m where "resting b (opposite (io_side order)) (pf_price_cents fill) m"
    and "ro_id m = pf_maker_order fill" and "ro_account m = pf_maker_account fill"
    and "left = ro_qty_tenths m - pf_qty_tenths fill" and "0 \<le> left"
    and "0 < pf_qty_tenths fill" and "pf_qty_tenths fill \<le> remaining"
    and "crosses (io_side order) (pf_price_cents fill) (io_limit_cents order)"
    and "0 < pf_price_cents fill" and "pf_price_cents fill \<le> MAX_GRID_UNITS"
    and "\<And>sd p x. resting (put_side (opposite (io_side order)) b levels) sd p x \<longleftrightarrow>
      (if sd = opposite (io_side order) \<and> p = pf_price_cents fill
       then resting b sd p x \<and> ro_id x \<noteq> ro_id m \<or> left \<noteq> 0 \<and> x = m\<lparr>ro_qty_tenths := left\<rparr>
       else resting b sd p x)"
  using ok nf pos
proof (rule reduce_next_fill)
  fix m ms rest levels'
  let ?sd = "opposite (io_side order)"
  assume m: "map_of (own_side ?sd b) (pf_price_cents fill) = Some (m # ms)"
    and f: "ro_id m = pf_maker_order fill" "ro_account m = pf_maker_account fill"
      "pf_qty_tenths fill = min remaining (ro_qty_tenths m)"
      "crosses (io_side order) (pf_price_cents fill) (io_limit_cents order)"
      "0 < pf_price_cents fill" "pf_price_cents fill \<le> MAX_GRID_UNITS"
      "0 < pf_qty_tenths fill" "pf_qty_tenths fill \<le> ro_qty_tenths m"
    and r': "reduce_maker (own_side ?sd b) fill = Some (levels', ro_qty_tenths m - pf_qty_tenths fill)"
    and l: "levels' = (let lv = level_after (m # ms) (ro_qty_tenths m - pf_qty_tenths fill) in
       if lv = [] then bdel (own_side ?sd b) (pf_price_cents fill)
       else bput (own_side ?sd b) (pf_price_cents fill) lv)"
  have left: "left = ro_qty_tenths m - pf_qty_tenths fill" and lv: "levels = levels'" using r r' by simp_all
  have "level_ok (m # ms)"
    using side_ok_own [OF ok, of ?sd] map_of_list_all [OF _ m] by (fastforce simp: side_ok_def)
  then have late: "\<forall>x \<in> set ms. ro_id x \<noteq> ro_id m" by (auto simp: level_ok_def)
  have x: "x \<in> set (level_after (m # ms) left) \<longleftrightarrow>
      x \<in> set (m # ms) \<and> ro_id x \<noteq> ro_id m \<or> left \<noteq> 0 \<and> x = m\<lparr>ro_qty_tenths := left\<rparr>" for x
    using late by (auto simp: level_after_def)
  have "resting (put_side ?sd b levels) sd p x \<longleftrightarrow>
      (if sd = ?sd \<and> p = pf_price_cents fill
       then resting b sd p x \<and> ro_id x \<noteq> ro_id m \<or> left \<noteq> 0 \<and> x = m\<lparr>ro_qty_tenths := left\<rparr>
       else resting b sd p x)" for sd p x
  proof (cases "level_after (m # ms) left = []")
    case True
    then have none: "\<not> (x \<in> set (m # ms) \<and> ro_id x \<noteq> ro_id m \<or> left \<noteq> 0 \<and> x = m\<lparr>ro_qty_tenths := left\<rparr>)" for x
      using x by force
    show ?thesis
      using none m True unfolding resting_put_side lv l left [symmetric]
      by (auto simp: resting_def)
  next
    case False
    then show ?thesis
      using x m unfolding resting_put_side lv l left [symmetric] by (auto simp: resting_def)
  qed
  moreover have "resting b ?sd (pf_price_cents fill) m" using m by (simp add: resting_def)
  ultimately show thesis using that [of m] f left by simp
qed

end
