(* ===== verification/Staging.thy ===== *)
theory Staging
  imports Execute_Plan
begin

section \<open>What staging promises about execution\<close>

text \<open>
  Before the engine touches its state it stages: the funded ledger checks the whole command
  (\<open>preflight\<close>), a fill-or-kill order computes every position and settlement it will book.
  Here: a command that passed staging cannot panic while it executes, and booking a
  fill-or-kill plan in one sweep is the same as executing the order fill by fill.
\<close>

subsection \<open>Preflight predicts the settlements\<close>

lemma min_stop: "0 \<le> r \<Longrightarrow> (if 0 < r - min r q then a else b) = (if r - min r (q::int) = 0 then b else a)"
  by auto

lemma preflight_makerD:
  assumes "preflight_maker order positions price m st = Inr st'"
  shows "pr_remaining st' = pr_remaining st - min (pr_remaining st) (ro_qty_tenths m)"
    and "settle_fill (pr_staged st) (ro_id m) (io_id order) price
      (min (pr_remaining st) (ro_qty_tenths m)) = Inr (pr_staged st')"
  using assms
  by (cases "settle_fill (pr_staged st) (ro_id m) (io_id order) price (min (pr_remaining st) (ro_qty_tenths m))";
      fastforce simp: preflight_maker_def Let_def)+

lemma stage_settlements_append:
  "stage_settlements order (xs @ ys) l =
     res_bind (stage_settlements order xs l) (\<lambda>l'. stage_settlements order ys l')"
  by (induction order xs l rule: stage_settlements.induct) (auto split: sum.splits)

lemma preflight_level_settles:
  assumes "preflight_level order positions price ms st = Inr st'" and "0 < pr_remaining st"
  shows "stage_settlements order (fst (plan_makers price (pr_remaining st) ms)) (pr_staged st) =
      Inr (pr_staged st') \<and>
    snd (plan_makers price (pr_remaining st) ms) = pr_remaining st' \<and> 0 \<le> pr_remaining st'"
  using assms
proof (induction order positions price ms st rule: preflight_level.induct)
  case (2 order positions price m ms st)
  obtain st1 where st1: "preflight_maker order positions price m st = Inr st1"
    and rest: "(if pr_remaining st1 = 0 then Inr st1 else preflight_level order positions price ms st1) = Inr st'"
    using "2.prems"(1) by auto
  note m = preflight_makerD [OF st1]
  show ?case
  proof (cases "pr_remaining st1 = 0")
    case True
    then show ?thesis using rest m "2.prems"(2) by (auto simp: Let_def)
  next
    case False
    then have pos: "0 < pr_remaining st1" using m(1) "2.prems"(2) by auto
    with "2.IH" [OF False] rest m show ?thesis
      using "2.prems"(2) by (auto simp: Let_def)
  qed
qed auto

lemma preflight_levels_settles:
  assumes "preflight_levels order positions levels st = Inr st'" and "0 \<le> pr_remaining st"
  shows "stage_settlements order
      (plan_levels (io_side order) (io_limit_cents order) (pr_remaining st) levels) (pr_staged st) =
    Inr (pr_staged st')"
  using assms
proof (induction order positions levels st rule: preflight_levels.induct)
  case (2 order positions price level levels st)
  show ?case
  proof (cases "pr_remaining st = 0 \<or> \<not> crosses (io_side order) price (io_limit_cents order)")
    case True
    then show ?thesis using "2.prems" by auto
  next
    case False
    then obtain st1 where st1: "preflight_level order positions price level st = Inr st1"
      and rest: "preflight_levels order positions levels st1 = Inr st'"
      using "2.prems"(1) by auto
    have l: "stage_settlements order (fst (plan_makers price (pr_remaining st) level)) (pr_staged st) =
        Inr (pr_staged st1)" "snd (plan_makers price (pr_remaining st) level) = pr_remaining st1"
      "0 \<le> pr_remaining st1"
      using preflight_level_settles [OF st1] False "2.prems"(2) by auto
    note ih = "2.IH" [OF False rest l(3)]
    show ?thesis
      using ih l False by (cases "pr_remaining st1 = 0") (auto simp: Let_def stage_settlements_append)
  qed
qed simp

text \<open>What passes the preflight reserves, and settles its whole plan.\<close>

lemma preflight_settles:
  assumes "preflight order b positions l count = Inr ()" and "is_funded l" and "0 \<le> io_qty_tenths order"
  shows "\<exists>l0 l'. reserve_order l order = Inr l0 \<and>
    stage_settlements order (plan_fills order b) l0 = Inr l'"
proof -
  obtain l0 st where l0: "reserve_order l order = Inr l0"
    and st: "preflight_levels order positions (walk_side (io_side order) b)
      \<lparr>pr_remaining = io_qty_tenths order, pr_next_trade = count, pr_projected = [], pr_staged = l0\<rparr> = Inr st"
    using assms(1,2) by (auto simp: preflight_def)
  from preflight_levels_settles [OF st] l0 assms(3) show ?thesis by (auto simp: plan_fills_def)
qed

lemma unfunded_settles:
  "\<not> is_funded l \<Longrightarrow> reserve_order l order = Inr l \<and> stage_settlements order fills l = Inr l"
  by (induction fills) (simp_all add: reserve_order_def reserve_def settle_fill_def)

subsection \<open>No panic on a staged plan\<close>

lemma run_plan_returns:
  assumes "book_ok (bt_book into)" and "0 \<le> remaining"
    and "stage_settlements order (rest_of_plan order remaining into) (bt_ledger into) = Inr l'"
    and "io_time_in_force order = FillOrKill \<Longrightarrow> bt_plan_committed into"
  shows "\<exists>m into'. run_plan order remaining (rest_of_plan order remaining into) into = Some (m, into') \<and>
    bt_plan_committed into' = bt_plan_committed into \<and>
    (\<forall>left. m = Crossed left \<longrightarrow> bt_ledger into' = l')"
  using assms
proof (induction "rest_of_plan order remaining into" arbitrary: remaining into)
  case Nil
  then show ?case by simp
next
  case (Cons fill fills)
  have pos: "0 < remaining" and nf: "next_fill order (bt_book into) remaining = Some fill"
    using rest_of_plan_ConsD [OF Cons.hyps(2) Cons.prems(1,2)] by simp_all
  obtain l1 where l1: "settle_fill (bt_ledger into) (pf_maker_order fill) (io_id order)
      (pf_price_cents fill) (pf_qty_tenths fill) = Inr l1"
    and rest: "stage_settlements order fills l1 = Inr l'"
    using Cons.prems(3) Cons.hyps(2) [symmetric] by (auto split: sum.splits)
  show ?case
  proof (cases "fill_step order fill into")
    case None
    then show ?thesis using Cons.hyps(2) [symmetric] by auto
  next
    case (Some o')
    then obtain mn tn where fp: "fill_positions order fill (bt_positions into) = Some (mn, tn)"
      and tot: "checked_add_u64 (bt_trades_total into) 1 = Some (Suc (bt_trades_total into))"
      by (auto simp: fill_step_def split: option.splits)
    obtain into1 where c: "commit_fill order fill mn tn (Suc (bt_trades_total into))
        (into\<lparr>bt_ledger := l1\<rparr>) = Some into1"
      using commit_fill_next [of "into\<lparr>bt_ledger := l1\<rparr>" order remaining fill mn tn] Cons.prems(1,4) nf pos
      by fastforce
    have st: "fill_step order fill into = Some (Some into1)"
      using fp tot l1 c by (simp add: fill_step_def del: checked_add_u64_Some)
    have led: "bt_ledger into1 = l1" "bt_plan_committed into1 = bt_plan_committed into"
      using c by (auto elim!: commit_fill_SomeE)
    note s = fill_step_plan [OF Cons.prems(1) nf pos st]
    have f: "fills = rest_of_plan order (remaining - pf_qty_tenths fill) into1"
      using s(1) Cons.hyps(2) by simp
    have "\<exists>m into'. run_plan order (remaining - pf_qty_tenths fill) fills into1 = Some (m, into') \<and>
        bt_plan_committed into' = bt_plan_committed into1 \<and> (\<forall>left. m = Crossed left \<longrightarrow> bt_ledger into' = l')"
      using Cons.hyps(1) [OF f s(2,3)] rest Cons.prems(4) led f by simp
    then show ?thesis using Cons.hyps(2) [symmetric] st led by auto
  qed
qed

subsection \<open>Fill-or-kill in one sweep\<close>

lemma commit_fill_ledger:
  "commit_fill order fill mn tn i (into\<lparr>bt_ledger := l\<rparr>) =
     map_option (\<lambda>x. x\<lparr>bt_ledger := l\<rparr>) (commit_fill order fill mn tn i into)"
  by (cases "reduce_maker (own_side (opposite (io_side order)) (bt_book into)) fill")
    (auto simp: commit_fill_def Let_def push_trade_def)

text \<open>The positions staged beside the plan are the ones the loop would read back.\<close>

definition staged_view ::
  "(account_id, position) bmap \<Rightarrow> position_map \<Rightarrow> string \<Rightarrow> position_map \<Rightarrow> bool" where
  "staged_view staged positions s now \<longleftrightarrow>
     (\<forall>a. staged_before staged positions s a = bget_or no_position now (a, s))"

lemma staged_view_start: "staged_view [] positions s positions"
  by (simp add: staged_view_def staged_before_def)

lemma staged_view_step:
  assumes "staged_view staged positions (io_symbol order) now"
  shows "staged_view (bput (bput staged (pf_maker_account fill) mn) (io_account order) tn) positions
    (io_symbol order) (book_positions order fill mn tn now)"
  using assms
  by (auto simp: staged_view_def staged_before_def book_positions_def bget_or_def)

lemma stage_positions_ConsE:
  assumes "stage_positions order positions staged (fill # fills) = Inr after"
    and "staged_view staged positions (io_symbol order) now"
  obtains mn tn rest where "after = (mn, tn) # rest"
    and "fill_positions order fill now = Some (mn, tn)"
    and "stage_positions order positions
      (bput (bput staged (pf_maker_account fill) mn) (io_account order) tn) fills = Inr rest"
proof -
  have v: "staged_before staged positions (io_symbol order) a = bget_or no_position now (a, io_symbol order)" for a
    using assms(2) by (simp add: staged_view_def)
  show thesis
    using assms(1) that
    by (auto simp: fill_positions_def Let_def v bind_eq_Some_conv split: if_splits)
qed

theorem commit_fok_run_plan:
  assumes "book_ok (bt_book into)" and "0 \<le> remaining"
    and "stage_positions order positions staged (rest_of_plan order remaining into) = Inr after"
    and "staged_view staged positions (io_symbol order) (bt_positions into)"
    and "bt_trades_total into + length (rest_of_plan order remaining into) \<le> u64_max"
    and "stage_settlements order (rest_of_plan order remaining into) (bt_ledger into) = Inr l'"
    and "bt_plan_committed into"
  shows "\<exists>into'. run_plan order remaining (rest_of_plan order remaining into) into =
      Some (Crossed (remaining - sum_list (map pf_qty_tenths (rest_of_plan order remaining into))), into') \<and>
    commit_fok order (rest_of_plan order remaining into) after (into\<lparr>bt_ledger := l'\<rparr>) = Some into'"
  using assms
proof (induction "rest_of_plan order remaining into" arbitrary: remaining into staged after)
  case Nil
  then show ?case by auto
next
  case (Cons fill fills)
  note plan = Cons.hyps(2) [symmetric]
  have pos: "0 < remaining" and nf: "next_fill order (bt_book into) remaining = Some fill"
    using rest_of_plan_ConsD [OF Cons.hyps(2) Cons.prems(1,2)] by simp_all
  obtain mn tn rest where after: "after = (mn, tn) # rest"
    and fp: "fill_positions order fill (bt_positions into) = Some (mn, tn)"
    and sp: "stage_positions order positions
      (bput (bput staged (pf_maker_account fill) mn) (io_account order) tn) fills = Inr rest"
    using Cons.prems(3) unfolding plan by (rule stage_positions_ConsE [OF _ Cons.prems(4)])
  obtain l1 where l1: "settle_fill (bt_ledger into) (pf_maker_order fill) (io_id order)
      (pf_price_cents fill) (pf_qty_tenths fill) = Inr l1"
    and ls: "stage_settlements order fills l1 = Inr l'"
    using Cons.prems(6) by (auto simp: plan split: sum.splits)
  have tot: "checked_add_u64 (bt_trades_total into) 1 = Some (Suc (bt_trades_total into))"
    using Cons.prems(5) by (simp add: plan)
  obtain into0 where c: "commit_fill order fill mn tn (Suc (bt_trades_total into)) into = Some into0"
    using commit_fill_next [OF Cons.prems(1) nf pos, of mn tn] Cons.prems(7) by blast
  let ?into1 = "into0\<lparr>bt_ledger := l1\<rparr>"
  have st: "fill_step order fill into = Some (Some ?into1)"
    using fp tot l1 c by (simp add: fill_step_def commit_fill_ledger del: checked_add_u64_Some)
  have fields: "bt_positions into0 = book_positions order fill mn tn (bt_positions into)"
    "bt_trades_total into0 = sat_add_u64 (bt_trades_total into) 1" "bt_plan_committed into0"
    using c Cons.prems(7) by (auto elim!: commit_fill_SomeE)
  note s = fill_step_plan [OF Cons.prems(1) nf pos st]
  have f: "fills = rest_of_plan order (remaining - pf_qty_tenths fill) ?into1"
    using s(1) plan by simp
  have "\<exists>into'. run_plan order (remaining - pf_qty_tenths fill) fills ?into1 =
      Some (Crossed (remaining - pf_qty_tenths fill - sum_list (map pf_qty_tenths fills)), into') \<and>
    commit_fok order fills rest (?into1\<lparr>bt_ledger := l'\<rparr>) = Some into'"
    using Cons.hyps(1) [OF f s(2,3), of "bput (bput staged (pf_maker_account fill) mn) (io_account order) tn" rest]
      sp ls fields Cons.prems(5) staged_view_step [OF Cons.prems(4)]
    by (simp add: f [symmetric] plan sat_add_u64_def)
  then show ?case
    using st c tot by (auto simp: plan after commit_fill_ledger algebra_simps simp del: checked_add_u64_Some)
qed

end
