(* ===== verification/Engine.thy ===== *)
theory Engine
  imports Execute Ledger_Recovery
begin

section \<open>The matching engine (services/src/matcher.rs)\<close>

text \<open>
  The state of \<open>MatcherState\<close> that messages read and write, and the handlers of the five
  kinds of message. A handler returns the next state, or \<open>None\<close> where the source panics
  (\<open>expect\<close>). Hashing, signature checks and the canonical bytes of a message are code
  outside the repository and arrive as the record \<open>crypto\<close>. Log lines are not modelled; the
  fields only the poller and the quorum write are left to those components.
\<close>

record crypto =
  cr_sha :: "bytes \<Rightarrow> bytes"
  cr_canonical :: "order_message \<Rightarrow> bytes"
  cr_strict :: "bytes \<Rightarrow> bytes \<Rightarrow> bytes \<Rightarrow> bool"
  cr_point :: "bytes \<Rightarrow> bool"

record matcher_state =
  en_limits :: "resource_limits option"
  en_symbols :: symbol_registry
  en_books :: "(string, book) bmap"
  en_open_orders :: "(order_id, order_ref) bmap"
  en_trades :: "trade list"
  en_candles :: candle_cache
  en_trades_total :: nat
  en_aggregates :: "(string, symbol_agg) bmap"
  en_positions :: position_map
  en_ledger :: ledger
  en_recent_messages :: "order_message list"
  en_last_seen :: order_id
  en_messages_processed :: nat
  en_cancels_applied :: nat
  en_cancels_ignored :: nat
  en_cancels_rejected :: nat
  en_orders_ignored :: nat
  en_kinds_not_acted_on :: nat
  en_ignored_by_kind :: "(string, nat) bmap"
  en_rules :: rule_set
  en_operator_key :: "bytes option"
  en_listings_ignored :: nat
  en_orders_delisted :: nat
  en_pending :: "change list option"
  en_feed_session :: "string option"
  en_feed_chain :: "bytes option"
  en_recent_chains :: "(order_id \<times> bytes) list"
  en_mids :: mid_window

datatype apply_error = OutOfOrder order_id order_id

subsection \<open>New engines\<close>

definition new_engine :: matcher_state where
  "new_engine =
     \<lparr>en_limits = None, en_symbols = [], en_books = [], en_open_orders = [], en_trades = [],
      en_candles = empty_cache, en_trades_total = 0, en_aggregates = [], en_positions = [],
      en_ledger = synthetic_legacy, en_recent_messages = [], en_last_seen = 0,
      en_messages_processed = 0, en_cancels_applied = 0, en_cancels_ignored = 0,
      en_cancels_rejected = 0, en_orders_ignored = 0, en_kinds_not_acted_on = 0,
      en_ignored_by_kind = [], en_rules = RULES_GENESIS, en_operator_key = None,
      en_listings_ignored = 0, en_orders_delisted = 0, en_pending = None,
      en_feed_session = None, en_feed_chain = Some EMPTY_CHAIN, en_recent_chains = [],
      en_mids = []\<rparr>"

definition funded_simulation :: "funding_config \<Rightarrow> ledger_error + matcher_state" where
  "funded_simulation config =
     res_bind (funded config) (\<lambda>l. Inr (new_engine\<lparr>en_ledger := l\<rparr>))"

definition announced :: "string \<Rightarrow> string option" where
  "announced session = (if session = [] then None else Some session)"

definition replaying :: "string \<Rightarrow> matcher_state" where
  "replaying session = new_engine\<lparr>en_feed_session := announced session\<rparr>"

definition replaying_funded_simulation ::
  "string \<Rightarrow> funding_config \<Rightarrow> ledger_error + matcher_state" where
  "replaying_funded_simulation session config =
     res_bind (funded_simulation config) (\<lambda>s.
     Inr (s\<lparr>en_feed_session := announced session\<rparr>))"

definition with_resource_limits :: "matcher_state \<Rightarrow> resource_limits \<Rightarrow> string + matcher_state" where
  "with_resource_limits s l =
     res_bind (limits_validate l) (\<lambda>_.
     if en_last_seen s \<noteq> 0
     then Inl ''resource limits require genesis; recovery uses the committed policy''
     else Inr (s\<lparr>en_limits := Some l\<rparr>))"

definition restore_ledger :: "matcher_state \<Rightarrow> ledger_snapshot \<Rightarrow> ledger_error + matcher_state" where
  "restore_ledger s snap =
     res_bind (require (ls_last_sequence snap = en_last_seen s) CursorDiffers) (\<lambda>_.
     res_bind (from_snapshot snap) (\<lambda>restored.
     res_bind (validate_obligations restored (open_rows (en_books s))) (\<lambda>_.
     Inr (s\<lparr>en_ledger := restored\<rparr>))))"

definition restore_resource_limits ::
  "matcher_state \<Rightarrow> bytes option \<Rightarrow> string + matcher_state" where
  "restore_resource_limits s bs =
     (if en_last_seen s \<noteq> 0 \<or> en_messages_processed s \<noteq> 0 \<or> en_limits s \<noteq> None
      then Inl ''resource limits must be restored before execution or state loading''
      else case bs of
             None \<Rightarrow> Inr (s\<lparr>en_limits := None\<rparr>)
           | Some b \<Rightarrow> res_bind (limits_from_snapshot b) (\<lambda>l. Inr (s\<lparr>en_limits := Some l\<rparr>)))"

definition validate_resource_capacity :: "matcher_state \<Rightarrow> bool" where
  "validate_resource_capacity s \<longleftrightarrow>
     (case en_limits s of
        None \<Rightarrow> True
      | Some l \<Rightarrow> \<not> (max_active_orders l < length (en_open_orders s) \<or>
                     max_positions l < length (en_positions s) \<or>
                     max_symbols l < length (en_symbols s)))"

subsection \<open>Bookkeeping\<close>

definition next_expected_id :: "matcher_state \<Rightarrow> order_id" where
  "next_expected_id s = sat_add_u64 (en_last_seen s) 1"

definition count_ignored :: "matcher_state \<Rightarrow> reject \<Rightarrow> matcher_state" where
  "count_ignored s why =
     s\<lparr>en_orders_ignored := sat_add_u64 (en_orders_ignored s) 1,
       en_ignored_by_kind := bput (en_ignored_by_kind s) (reject_kind why)
         (case map_of (en_ignored_by_kind s) (reject_kind why) of
            Some n \<Rightarrow> sat_add_u64 n 1 | None \<Rightarrow> 1)\<rparr>"

definition prune :: "matcher_state \<Rightarrow> string \<Rightarrow> matcher_state" where
  "prune s symbol = s\<lparr>en_books := prune_book (en_books s) symbol\<rparr>"

definition observe_mid :: "matcher_state \<Rightarrow> string \<Rightarrow> nat \<Rightarrow> matcher_state" where
  "observe_mid s symbol at_ms =
     (let b = map_of (en_books s) symbol;
          mid = do { bid \<leftarrow> best_bid_cents b; ask \<leftarrow> best_ask_cents b; Some ((bid + ask) sdiv 2) }
      in s\<lparr>en_mids := observe (en_mids s) symbol at_ms mid\<rparr>)"

definition record_in :: "matcher_state \<Rightarrow> change \<Rightarrow> matcher_state" where
  "record_in s c = s\<lparr>en_pending := record_change (en_pending s) c\<rparr>"

definition ignore_listing :: "matcher_state \<Rightarrow> matcher_state" where
  "ignore_listing s = s\<lparr>en_listings_ignored := sat_add_u64 (en_listings_ignored s) 1\<rparr>"

subsection \<open>A new order\<close>

definition refuse :: "matcher_state \<Rightarrow> string \<Rightarrow> reject \<Rightarrow> matcher_state" where
  "refuse s symbol why = count_ignored (prune s symbol) why"

text \<open>Steps 3 and 4 and the position limit, on the book the order meets. The bounded price is
  the only change to the order.\<close>

definition admit_order :: "matcher_state \<Rightarrow> incoming_order \<Rightarrow> book \<Rightarrow> reject + incoming_order" where
  "admit_order s order b =
     res_bind (bound order (reference_cents (en_mids s) (io_symbol order) (io_timestamp order)))
       (\<lambda>limit_cents.
     let order' = order\<lparr>io_limit_cents := limit_cents\<rparr> in
     res_bind (check_self_trade order' b (en_rules s)) (\<lambda>_.
     res_bind (case en_limits s of
                 None \<Rightarrow> Inr ()
               | Some l \<Rightarrow> check_positions l order' b (en_positions s)) (\<lambda>_.
     Inr order')))"

text \<open>Staging: the complete fill-or-kill plan and its ledger, or the funded check and the
  reservation, whose \<open>expect\<close> is the outer option.\<close>

definition stage_order ::
  "matcher_state \<Rightarrow> incoming_order \<Rightarrow> book \<Rightarrow> (reject + fok_plan option \<times> ledger) option" where
  "stage_order s order b =
     (if io_time_in_force order = FillOrKill
      then Some (res_bind (stage_fok order b (en_positions s) (en_trades_total s)) (\<lambda>plan.
                 res_bind (stage_fok_ledger order plan (en_ledger s)) (\<lambda>staged.
                 Inr (Some plan, staged))))
      else case preflight order b (en_positions s) (en_ledger s) (en_trades_total s) of
             Inl why \<Rightarrow> Some (Inl why)
           | Inr _ \<Rightarrow>
               do { l \<leftarrow> result_ok (reserve_order (en_ledger s) order);
                    Some (Inr (None, l)) })"

definition borrow :: "matcher_state \<Rightarrow> book \<Rightarrow> ledger \<Rightarrow> bool \<Rightarrow> book_and_trades" where
  "borrow s b l committed =
     \<lparr>bt_book = b, bt_ledger = l, bt_plan_committed = committed,
      bt_open_orders = en_open_orders s, bt_positions = en_positions s,
      bt_aggregates = en_aggregates s, bt_trades = en_trades s,
      bt_trades_total = en_trades_total s, bt_candles = en_candles s,
      bt_pending = en_pending s\<rparr>"

definition give_back :: "matcher_state \<Rightarrow> string \<Rightarrow> book_and_trades \<Rightarrow> matcher_state" where
  "give_back s symbol into =
     s\<lparr>en_books := bput (en_books s) symbol (bt_book into),
       en_ledger := bt_ledger into, en_open_orders := bt_open_orders into,
       en_positions := bt_positions into, en_aggregates := bt_aggregates into,
       en_trades := bt_trades into, en_trades_total := bt_trades_total into,
       en_candles := bt_candles into, en_pending := bt_pending into\<rparr>"

definition rest_order :: "incoming_order \<Rightarrow> int \<Rightarrow> book_and_trades \<Rightarrow> book_and_trades" where
  "rest_order order remaining into =
     (let levels = own_side (io_side order) (bt_book into);
          level = bget_or [] levels (io_limit_cents order);
          resting = \<lparr>ro_id = io_id order, ro_account = io_account order, ro_qty_tenths = remaining\<rparr>
      in into\<lparr>bt_book := put_side (io_side order) (bt_book into)
                (bput levels (io_limit_cents order) (level @ [resting])),
              bt_open_orders := bput (bt_open_orders into) (io_id order)
                \<lparr>ref_symbol = io_symbol order, ref_side = io_side order,
                 ref_price_cents = io_limit_cents order\<rparr>,
              bt_pending := record_change (bt_pending into)
                (OrderRested \<lparr>or_order_id = io_id order, or_account = io_account order,
                   or_symbol = io_symbol order, or_side = io_side order,
                   or_price_cents = io_limit_cents order, or_qty_tenths = remaining\<rparr>)\<rparr>)"

definition release_order :: "order_id \<Rightarrow> book_and_trades \<Rightarrow> book_and_trades option" where
  "release_order i into =
     do { r \<leftarrow> result_ok (release (bt_ledger into) i);
          Some (into\<lparr>bt_ledger := snd r\<rparr>) }"

definition remainder_policy :: "incoming_order \<Rightarrow> int \<Rightarrow> book_and_trades \<Rightarrow> book_and_trades option" where
  "remainder_policy order remaining into =
     (if 0 < remaining
      then case decide order remaining of
             Rest \<Rightarrow> Some (rest_order order remaining into)
           | CancelRest \<Rightarrow> release_order (io_id order) into
      else Some into)"

text \<open>Steps 5 and 6 on the staged order.\<close>

definition run_order ::
  "matcher_state \<Rightarrow> incoming_order \<Rightarrow> book \<Rightarrow> fok_plan option \<Rightarrow> ledger \<Rightarrow> matcher_state option" where
  "run_order s order b staged_fok l =
     (let symbol = io_symbol order; into = borrow s b l (staged_fok \<noteq> None) in
      do { (matched, into1) \<leftarrow>
             (case staged_fok of
                Some plan \<Rightarrow> execute_fok order plan into
              | None \<Rightarrow> execute order (io_qty_tenths order) into);
           (case matched of
              Overflowed _ \<Rightarrow>
                do { into2 \<leftarrow> release_order (io_id order) into1;
                     Some (observe_mid (prune (count_ignored (give_back s symbol into2) PositionOverflow)
                             symbol) symbol (io_timestamp order)) }
            | Crossed remaining \<Rightarrow>
                do { into2 \<leftarrow> remainder_policy order remaining into1;
                     Some (observe_mid (prune (give_back s symbol into2) symbol) symbol
                             (io_timestamp order)) }) })"

definition apply_resolved :: "matcher_state \<Rightarrow> incoming_order \<Rightarrow> matcher_state option" where
  "apply_resolved s order =
     (if (case en_limits s of
            None \<Rightarrow> False | Some l \<Rightarrow> max_active_orders l \<le> length (en_open_orders s))
      then Some (count_ignored s ActiveOrderCapacity)
      else case validate_order order (map_of (en_books s) (io_symbol order)) of
             Inl why \<Rightarrow> Some (count_ignored s why)
           | Inr _ \<Rightarrow>
               let b = bget_or empty_book (en_books s) (io_symbol order);
                   s1 = s\<lparr>en_books := bput (en_books s) (io_symbol order) b\<rparr>
               in case admit_order s1 order b of
                    Inl why \<Rightarrow> Some (refuse s1 (io_symbol order) why)
                  | Inr order' \<Rightarrow>
                      do { staged \<leftarrow> stage_order s1 order' b;
                           case staged of
                             Inl why \<Rightarrow> Some (refuse s1 (io_symbol order) why)
                           | Inr (plan, l) \<Rightarrow> run_order s1 order' b plan l })"

definition apply_new ::
  "matcher_state \<Rightarrow> order_id \<Rightarrow> nat \<Rightarrow> account_id \<Rightarrow> string \<Rightarrow> side \<Rightarrow> f64 \<Rightarrow> f64 \<Rightarrow> terms \<Rightarrow>
   matcher_state option" where
  "apply_new s i timestamp account symbol sd price quantity t =
     do { resolved \<leftarrow> resolve (en_symbols s) symbol price quantity;
          case resolved of
            Inl why \<Rightarrow> Some (count_ignored s why)
          | Inr (limit_cents, qty_tenths) \<Rightarrow>
              apply_resolved s
                \<lparr>io_id = i, io_timestamp = timestamp, io_account = account, io_symbol = symbol,
                 io_side = sd, io_limit_cents = limit_cents, io_qty_tenths = qty_tenths,
                 io_order_type = te_order_type t, io_time_in_force = te_time_in_force t,
                 io_post_only = te_post_only t\<rparr> }"

subsection \<open>A cancel\<close>

definition resting_owner :: "matcher_state \<Rightarrow> order_id \<Rightarrow> account_id option" where
  "resting_owner s target =
     do { ref \<leftarrow> map_of (en_open_orders s) target;
          b \<leftarrow> map_of (en_books s) (ref_symbol ref);
          level \<leftarrow> map_of (own_side (ref_side ref) b) (ref_price_cents ref);
          map_option ro_account (find (\<lambda>r. ro_id r = target) level) }"

definition remove_resting :: "book_side \<Rightarrow> int \<Rightarrow> order_id \<Rightarrow> book_side" where
  "remove_resting levels price target =
     (case map_of levels price of
        None \<Rightarrow> levels
      | Some level \<Rightarrow>
          let level' = filter (\<lambda>r. ro_id r \<noteq> target) level
          in if level' = [] then bdel levels price else bput levels price level')"

definition apply_cancel :: "matcher_state \<Rightarrow> account_id \<Rightarrow> order_id \<Rightarrow> nat \<Rightarrow> matcher_state option" where
  "apply_cancel s account target timestamp =
     (case resting_owner s target of
        None \<Rightarrow>
          Some (s\<lparr>en_open_orders := bdel (en_open_orders s) target,
                  en_cancels_ignored := sat_add_u64 (en_cancels_ignored s) 1\<rparr>)
      | Some owner \<Rightarrow>
          if owner \<noteq> account
          then Some (s\<lparr>en_cancels_rejected := sat_add_u64 (en_cancels_rejected s) 1\<rparr>)
          else
            do { (_, l) \<leftarrow> result_ok (release (en_ledger s) target);
                 ref \<leftarrow> map_of (en_open_orders s) target;
                 b \<leftarrow> map_of (en_books s) (ref_symbol ref);
                 let levels = remove_resting (own_side (ref_side ref) b) (ref_price_cents ref) target;
                 let s1 = s\<lparr>en_ledger := l,
                            en_open_orders := bdel (en_open_orders s) target,
                            en_books := bput (en_books s) (ref_symbol ref)
                              (put_side (ref_side ref) b levels)\<rparr>;
                 let s2 = observe_mid (prune s1 (ref_symbol ref)) (ref_symbol ref) timestamp;
                 Some (record_in (s2\<lparr>en_cancels_applied := sat_add_u64 (en_cancels_applied s2) 1\<rparr>)
                         (OrderClosed target)) })"

subsection \<open>Operator messages\<close>

definition apply_list_symbol ::
  "matcher_state \<Rightarrow> order_id \<Rightarrow> string \<Rightarrow> f64 \<Rightarrow> f64 \<Rightarrow> matcher_state" where
  "apply_list_symbol s i symbol price_step quantity_step =
     (if result_ok (valid_symbol symbol) = None then ignore_listing s
      else if (case en_limits s of
                 None \<Rightarrow> False
               | Some l \<Rightarrow> map_of (en_symbols s) symbol = None \<and>
                   max_symbols l \<le> length (en_symbols s))
      then ignore_listing s
      else case (to_grid price_step 100, to_grid quantity_step 10) of
             (Some p, Some q) \<Rightarrow>
               let r = registry_list (en_symbols s) symbol
                     \<lparr>price_step_cents = p, quantity_step_tenths = q, is_listed = True,
                      listed_by = i\<rparr>
               in if \<not> fst r then ignore_listing s
                  else record_in (s\<lparr>en_symbols := snd r\<rparr>)
                    (SymbolListed \<lparr>lr_symbol = symbol, lr_price_step_cents = p,
                       lr_quantity_step_tenths = q, lr_listed = True, lr_listed_by = i\<rparr>)
           | _ \<Rightarrow> ignore_listing s)"

text \<open>One resting order of the closed book: its obligation, its index entry, its row.\<close>

fun delist_orders :: "resting_order list \<Rightarrow> matcher_state \<Rightarrow> matcher_state option" where
  "delist_orders [] s = Some s"
| "delist_orders (r # rs) s =
     do { (_, l) \<leftarrow> result_ok (release (en_ledger s) (ro_id r));
          delist_orders rs
            (record_in (s\<lparr>en_ledger := l, en_open_orders := bdel (en_open_orders s) (ro_id r)\<rparr>)
              (OrderClosed (ro_id r))) }"

definition book_orders :: "book \<Rightarrow> resting_order list" where
  "book_orders b = concat (map snd (bids b) @ map snd (asks b))"

definition apply_delist_symbol :: "matcher_state \<Rightarrow> nat \<Rightarrow> string \<Rightarrow> matcher_state option" where
  "apply_delist_symbol s timestamp symbol =
     (let r = registry_delist (en_symbols s) symbol in
      if \<not> fst r then Some (ignore_listing s)
      else
        let orders = (case map_of (en_books s) symbol of None \<Rightarrow> [] | Some b \<Rightarrow> book_orders b);
            s1 = s\<lparr>en_symbols := snd r, en_books := bdel (en_books s) symbol\<rparr>
        in do { s2 \<leftarrow> delist_orders orders s1;
                let s3 = s2\<lparr>en_orders_delisted := sat_add_u64 (en_orders_delisted s2) (length orders)\<rparr>;
                Some (record_in (observe_mid s3 symbol timestamp) (SymbolDelisted symbol)) })"

definition operator_signed :: "crypto \<Rightarrow> matcher_state \<Rightarrow> order_message \<Rightarrow> bool \<times> matcher_state" where
  "operator_signed cr s msg =
     (let session = (case en_feed_session s of None \<Rightarrow> [] | Some x \<Rightarrow> x);
          key = (case en_operator_key s of
                   Some k \<Rightarrow> Some k
                 | None \<Rightarrow> result_ok (named_key (cr_point cr) msg))
      in case key of
           None \<Rightarrow> (False, ignore_listing s)
         | Some k \<Rightarrow>
             (case operator_verify (cr_strict cr) msg session k of
                Inr _ \<Rightarrow> (True, if en_operator_key s = None then s\<lparr>en_operator_key := Some k\<rparr> else s)
              | Inl _ \<Rightarrow> (False, ignore_listing s)))"

definition apply_rule :: "matcher_state \<Rightarrow> nat \<Rightarrow> matcher_state" where
  "apply_rule s version =
     (case rules_known version of
        Some rules \<Rightarrow> s\<lparr>en_rules := rules\<rparr>
      | None \<Rightarrow> s\<lparr>en_kinds_not_acted_on := sat_add_u64 (en_kinds_not_acted_on s) 1\<rparr>)"

subsection \<open>One message\<close>

definition dispatch :: "crypto \<Rightarrow> matcher_state \<Rightarrow> order_message \<Rightarrow> matcher_state option" where
  "dispatch cr s msg =
     (case msg of
        New i timestamp account symbol sd price quantity nonce ot tif post \<Rightarrow>
          apply_new s i timestamp account symbol sd price quantity
            \<lparr>te_order_type = ot, te_time_in_force = tif, te_post_only = post\<rparr>
      | Cancel i timestamp account target nonce \<Rightarrow> apply_cancel s account target timestamp
      | ListSymbol i timestamp account symbol price_step quantity_step nonce key sig \<Rightarrow>
          (case operator_signed cr s msg of (stands, s1) \<Rightarrow>
             Some (if stands then apply_list_symbol s1 i symbol price_step quantity_step else s1))
      | DelistSymbol i timestamp account symbol nonce key sig \<Rightarrow>
          (case operator_signed cr s msg of (stands, s1) \<Rightarrow>
             if stands then apply_delist_symbol s1 timestamp symbol else Some s1)
      | EngineRule i timestamp account version nonce key sig \<Rightarrow>
          (case operator_signed cr s msg of (stands, s1) \<Rightarrow>
             Some (if stands then apply_rule s1 version else s1)))"

definition RECENT_CHAINS_CAP :: nat where "RECENT_CHAINS_CAP = 4096"

definition push_bounded :: "nat \<Rightarrow> 'a list \<Rightarrow> 'a \<Rightarrow> 'a list" where
  "push_bounded cap xs x = (if cap \<le> length xs then tl xs else xs) @ [x]"

definition consume :: "crypto \<Rightarrow> matcher_state \<Rightarrow> order_message \<Rightarrow> bytes option \<Rightarrow> matcher_state" where
  "consume cr s msg received =
     (let s1 = s\<lparr>en_last_seen := msg_id msg,
                 en_messages_processed := sat_add_u64 (en_messages_processed s) 1\<rparr>;
          s2 = (case en_feed_chain s1 of
                  None \<Rightarrow> s1
                | Some chain \<Rightarrow>
                    let chain' = extend_bytes (cr_sha cr) chain
                          (case received of Some bs \<Rightarrow> bs | None \<Rightarrow> cr_canonical cr msg)
                    in s1\<lparr>en_feed_chain := Some chain',
                          en_recent_chains := push_bounded RECENT_CHAINS_CAP (en_recent_chains s1)
                            (en_last_seen s1, chain')\<rparr>);
          s3 = s2\<lparr>en_recent_messages := push_bounded RECENT_MESSAGES_CAP (en_recent_messages s2) msg\<rparr>
      in record_in s3 (Consumed msg))"

definition apply_inner ::
  "crypto \<Rightarrow> matcher_state \<Rightarrow> order_message \<Rightarrow> bytes option \<Rightarrow> (apply_error + matcher_state) option" where
  "apply_inner cr s msg received =
     (if msg_id msg \<noteq> next_expected_id s
      then Some (Inl (OutOfOrder (next_expected_id s) (msg_id msg)))
      else do { s1 \<leftarrow> dispatch cr s msg;
                l \<leftarrow> result_ok (finish_sequence (en_ledger s1) (msg_id msg));
                Some (Inr (consume cr (s1\<lparr>en_ledger := l\<rparr>) msg received)) })"

definition apply_message :: "crypto \<Rightarrow> matcher_state \<Rightarrow> order_message \<Rightarrow> (apply_error + matcher_state) option" where
  "apply_message cr s msg = apply_inner cr s msg None"

definition apply_received ::
  "crypto \<Rightarrow> matcher_state \<Rightarrow> bytes \<Rightarrow> order_message \<Rightarrow> (apply_error + matcher_state) option" where
  "apply_received cr s raw msg = apply_inner cr s msg (Some raw)"

definition traded_rows :: "change list \<Rightarrow> trade_row list" where
  "traded_rows cs = concat (map (\<lambda>c. case c of Traded t \<Rightarrow> [t] | _ \<Rightarrow> []) cs)"

text \<open>The trades of one message; a volatile engine collects changes for this call only. The
  state after the call comes back beside the result.\<close>

definition apply_message_with_trades ::
  "crypto \<Rightarrow> matcher_state \<Rightarrow> order_message \<Rightarrow> ((apply_error + trade_row list) \<times> matcher_state) option" where
  "apply_message_with_trades cr s msg =
     (let recording = en_pending s \<noteq> None;
          start = (case en_pending s of None \<Rightarrow> 0 | Some cs \<Rightarrow> length cs);
          s0 = (if recording then s else s\<lparr>en_pending := Some []\<rparr>)
      in do { result \<leftarrow> apply_message cr s0 msg;
              let s1 = (case result of Inl _ \<Rightarrow> s0 | Inr t \<Rightarrow> t);
              changes \<leftarrow> en_pending s1;
              let rows = traded_rows (if recording then drop start changes else changes);
              Some (case result of Inl e \<Rightarrow> Inl e | Inr _ \<Rightarrow> Inr rows,
                    if recording then s1 else s1\<lparr>en_pending := None\<rparr>) })"

definition requeue :: "matcher_state \<Rightarrow> change list \<Rightarrow> nat \<times> matcher_state" where
  "requeue s changes =
     (case en_pending s of
        None \<Rightarrow> (0, s)
      | Some cs \<Rightarrow> (length (changes @ cs), s\<lparr>en_pending := Some (changes @ cs)\<rparr>))"

end
