(* ===== verification/Desk.thy ===== *)
theory Desk
  imports Live_Orders Staging Engine
begin

section \<open>The desk: books, index, ledger and positions together\<close>

text \<open>
  The invariant that ties the books to the index of open orders and to the ledger, stated on
  the pieces an execution borrows, and its preservation by one fill, by a rest, by a release
  and by whole executions.
\<close>

subsection \<open>The ledger behind a set of live orders\<close>

definition ledger_wf :: "ledger \<Rightarrow> bool" where
  "ledger_wf l \<longleftrightarrow> ledger_inv l \<and>
     (if is_funded l
      then (case lg_config l of None \<Rightarrow> False
            | Some c \<Rightarrow> sorted_config c = c \<and> validate_config c = Inr ())
      else lg_config l = None \<and> lg_balances l = [] \<and> lg_reservations l = [])"

definition backs :: "ledger \<Rightarrow> live_order set \<Rightarrow> bool" where
  "backs l L \<longleftrightarrow> ledger_wf l \<and> (is_funded l \<longrightarrow> covers L (map_of (lg_reservations l)))"

text \<open>While an order executes, its own reservation is in the ledger and it does not rest.\<close>

definition backs_taker :: "ledger \<Rightarrow> live_order set \<Rightarrow> incoming_order \<Rightarrow> int \<Rightarrow> bool" where
  "backs_taker l L order remaining \<longleftrightarrow> ledger_wf l \<and>
     (is_funded l \<longrightarrow>
        covers L ((map_of (lg_reservations l))(io_id order := None)) \<and>
        (if remaining = 0 then map_of (lg_reservations l) (io_id order) = None
         else \<exists>r. map_of (lg_reservations l) (io_id order) = Some r \<and>
           rsv_matches (io_symbol order, io_side order, io_limit_cents order,
             \<lparr>ro_id = io_id order, ro_account = io_account order, ro_qty_tenths = remaining\<rparr>) r))"

lemma ledger_wf_step:
  assumes "ledger_wf l" and "ledger_step l x = Inr l'" and "is_funded l"
  shows "ledger_wf l' \<and> is_funded l'"
  using assms ledger_step_inv [of l x l'] ledger_step_frame [OF assms(2)]
  by (auto simp: ledger_wf_def is_funded_def)

lemma settle_unfunded: "\<not> is_funded l \<Longrightarrow> settle_fill l mo tk p q = Inr l' \<Longrightarrow> l' = l"
  by (simp add: settle_fill_def)


text \<open>A release takes the reservation out, whether or not there was one, and cannot fail.\<close>

lemma release_backs:
  assumes "ledger_wf l"
  shows "\<exists>b l'. release l i = Inr (b, l') \<and> ledger_wf l' \<and> is_funded l' = is_funded l \<and>
    lg_last_sequence l' = lg_last_sequence l \<and>
    map_of (lg_reservations l') = (map_of (lg_reservations l))(i := None)"
proof (cases "is_funded l")
  case False
  then have "lg_reservations l = []" using assms by (simp add: ledger_wf_def)
  then show ?thesis using assms by (intro exI [of _ False] exI [of _ l]) (simp add: release_def fun_upd_def)
next
  case True
  obtain b l' where r: "release l i = Inr (b, l')"
    using release_succeeds [OF _ True, of i] assms by (auto simp: ledger_wf_def)
  have "ledger_step l (OpRelease i) = Inr l'" using r by simp
  note w = ledger_wf_step [OF assms this True]
  have "lg_last_sequence l' = lg_last_sequence l \<and>
      map_of (lg_reservations l') = (map_of (lg_reservations l))(i := None)"
    using r by (cases rule: release_cases) auto
  then show ?thesis using r w True by auto
qed

lemma backs_release:
  assumes "backs l L"
  shows "\<exists>b l'. release l i = Inr (b, l') \<and> backs l' (without L i) \<and>
    is_funded l' = is_funded l \<and> lg_last_sequence l' = lg_last_sequence l"
  using release_backs [of l i] assms covers_without [of L _ i] by (fastforce simp: backs_def)

lemma backs_taker_release:
  assumes "backs_taker l L order remaining"
  shows "\<exists>b l'. release l (io_id order) = Inr (b, l') \<and> backs l' L \<and>
    is_funded l' = is_funded l \<and> lg_last_sequence l' = lg_last_sequence l"
  using release_backs [of l "io_id order"] assms by (fastforce simp: backs_def backs_taker_def)

lemma backs_taker_done: "backs_taker l L order 0 \<Longrightarrow> backs l L"
  by (auto simp: backs_def backs_taker_def fun_upd_triv dest: fun_upd_idem)

lemma backs_rest:
  assumes "backs_taker l L order remaining" and "remaining \<noteq> 0"
    and "\<forall>t \<in> L. live_id t \<noteq> io_id order"
  shows "backs l (insert (io_symbol order, io_side order, io_limit_cents order,
    \<lparr>ro_id = io_id order, ro_account = io_account order, ro_qty_tenths = remaining\<rparr>) L)"
proof (cases "is_funded l")
  case True
  let ?t = "(io_symbol order, io_side order, io_limit_cents order,
    \<lparr>ro_id = io_id order, ro_account = io_account order, ro_qty_tenths = remaining\<rparr>)"
  obtain r where r: "map_of (lg_reservations l) (io_id order) = Some r" "rsv_matches ?t r"
    and c: "covers L ((map_of (lg_reservations l))(io_id order := None))"
    using assms(1,2) True by (auto simp: backs_taker_def)
  have "covers (insert ?t (without L (io_id order)))
      (((map_of (lg_reservations l))(io_id order := None))(io_id order \<mapsto> r))"
    by (rule covers_put [OF c r(2)]) simp
  then show ?thesis
    using assms(1) without_absent [OF assms(3)] r(1)
    by (simp add: backs_def backs_taker_def fun_upd_idem)
qed (use assms in \<open>simp add: backs_def backs_taker_def\<close>)

lemma backs_reserve:
  assumes "backs l L" and "reserve_order l order = Inr l'" and "\<forall>t \<in> L. live_id t \<noteq> io_id order"
    and "io_qty_tenths order \<noteq> 0"
  shows "backs_taker l' L order (io_qty_tenths order) \<and> is_funded l' = is_funded l \<and>
    lg_last_sequence l' = lg_last_sequence l"
proof (cases "is_funded l")
  case False
  then show ?thesis using assms by (simp add: backs_def backs_taker_def reserve_order_def reserve_def)
next
  case True
  have r: "reserve l (io_id order) (io_account order) (io_symbol order) (io_side order)
      (io_limit_cents order) (io_qty_tenths order) = Inr l'"
    using assms(2) by (simp add: reserve_order_def split: sum.splits)
  then have "ledger_step l (OpReserve (io_id order) (io_account order) (io_symbol order)
      (io_side order) (io_limit_cents order) (io_qty_tenths order)) = Inr l'" by simp
  note w = ledger_wf_step [OF _ this True]
  have "covers L (map_of (lg_reservations l))" using assms(1) True by (simp add: backs_def)
  note c = this
  from r True show ?thesis
  proof (cases rule: reserve_cases)
    case (1 cfg m u)
    with c show ?thesis
      using w assms(1,4) True fun_upd_idem [of "map_of (lg_reservations l)" "io_id order" None]
      by (auto simp: backs_taker_def backs_def)
  qed
qed

text \<open>A settlement reduces both reservations by the fill.\<close>

lemma backs_settle:
  assumes "backs_taker l L order remaining" and "settle_fill l (ro_id m) (io_id order) p q = Inr l'"
    and "(s, sd, p', m) \<in> L" and "0 \<le> ro_qty_tenths m - q" and "remaining \<noteq> 0"
    and "ro_id m \<noteq> io_id order"
  shows "backs_taker l' (if ro_qty_tenths m - q = 0 then without L (ro_id m)
      else insert (s, sd, p', m\<lparr>ro_qty_tenths := ro_qty_tenths m - q\<rparr>) (without L (ro_id m)))
    order (remaining - q) \<and> is_funded l' = is_funded l \<and> lg_last_sequence l' = lg_last_sequence l"
proof (cases "is_funded l")
  case False
  then show ?thesis using assms by (simp add: backs_taker_def settle_fill_def)
next
  case True
  have "ledger_step l (OpSettle (ro_id m) (io_id order) p q) = Inr l'" using assms(2) by simp
  note w = ledger_wf_step [OF _ this True]
  let ?rs = "map_of (lg_reservations l)"
  have c: "covers L (?rs(io_id order := None))" and wf: "ledger_wf l"
    using assms(1) True by (simp_all add: backs_taker_def)
  have shape: "ledger_shape l" using wf by (simp add: ledger_wf_def ledger_inv_def)
  from assms(2) True show ?thesis
  proof (cases rule: settle_cases)
    case (1 cfg mk maker taker buyer seller staged maker' taker')
    have ids: "rsv_order_id maker' = ro_id m" "rsv_order_id taker' = io_id order"
      using 1 shape_id [OF shape] after_fill_fields(1) by (metis, metis)
    have rs': "map_of (lg_reservations l') =
        ?rs(ro_id m := (if rsv_remaining_tenths maker' = 0 then None else Some maker'),
          io_id order := (if rsv_remaining_tenths taker' = 0 then None else Some taker'))"
      using 1 by (simp add: map_of_put_reservation ids)
    have mm: "rsv_matches (s, sd, p', m) maker"
      using covers_get [OF c assms(3)] assms(6) 1(1) by simp
    have tt: "rsv_matches (io_symbol order, io_side order, io_limit_cents order,
        \<lparr>ro_id = io_id order, ro_account = io_account order, ro_qty_tenths = remaining\<rparr>) taker"
      using assms(1,5) True 1(2) by (auto simp: backs_taker_def)
    note mf = after_fill_fields [OF 1(16)] and tf = after_fill_fields [OF 1(17)]
    have left: "rsv_remaining_tenths maker' = ro_qty_tenths m - q"
      "rsv_remaining_tenths taker' = remaining - q"
      using mm tt mf(7) tf(7) by simp_all
    have rest: "(map_of (lg_reservations l'))(io_id order := None) =
        (?rs(io_id order := None))(ro_id m := (if ro_qty_tenths m - q = 0 then None else Some maker'))"
      using assms(6) by (auto simp: rs' left)
    have "covers (if ro_qty_tenths m - q = 0 then without L (ro_id m)
        else insert (s, sd, p', m\<lparr>ro_qty_tenths := ro_qty_tenths m - q\<rparr>) (without L (ro_id m)))
      ((map_of (lg_reservations l'))(io_id order := None))"
      using covers_without [OF c, of "ro_id m"]
        covers_put [OF c, of "(s, sd, p', m\<lparr>ro_qty_tenths := ro_qty_tenths m - q\<rparr>)" maker' "ro_id m"]
        mm mf left unfolding rest by simp
    moreover have "if remaining - q = 0 then map_of (lg_reservations l') (io_id order) = None
       else \<exists>r. map_of (lg_reservations l') (io_id order) = Some r \<and>
         rsv_matches (io_symbol order, io_side order, io_limit_cents order,
           \<lparr>ro_id = io_id order, ro_account = io_account order, ro_qty_tenths = remaining - q\<rparr>) r"
      using tt tf left by (simp add: rs')
    moreover have "lg_last_sequence l' = lg_last_sequence l" using 1(18) by simp
    ultimately show ?thesis using w wf True unfolding backs_taker_def by simp
  qed
qed

subsection \<open>One fill\<close>

definition exec_live :: "(string, book) bmap \<Rightarrow> incoming_order \<Rightarrow> book_and_trades \<Rightarrow> live_order set" where
  "exec_live books order into = live (bput books (io_symbol order) (bt_book into))"

definition exec_ok ::
  "(string, book) bmap \<Rightarrow> incoming_order \<Rightarrow> int \<Rightarrow> book_and_trades \<Rightarrow> bool" where
  "exec_ok books order remaining into \<longleftrightarrow>
     books_ok books \<and> book_ok (bt_book into) \<and> bmap_ok (bt_open_orders into) \<and>
     index_for (exec_live books order into) (map_of (bt_open_orders into)) \<and>
     (\<forall>t \<in> exec_live books order into. 0 < live_id t \<and> live_id t < io_id order) \<and>
     backs_taker (bt_ledger into) (exec_live books order into) order remaining"

lemma exec_unique: "exec_ok books order remaining into \<Longrightarrow> unique_ids (exec_live books order into)"
  unfolding exec_ok_def exec_live_def by (blast intro: live_unique books_ok_put)

text \<open>How the set of live orders changes when the maker of a fill leaves or shrinks.\<close>

lemma live_after_fill:
  assumes u: "unique_ids (live (bput books s b))" and m: "resting b sd0 p m"
    and r: "\<And>sd p' x. resting b' sd p' x \<longleftrightarrow>
      (if sd = sd0 \<and> p' = p
       then resting b sd p' x \<and> ro_id x \<noteq> ro_id m \<or> left \<noteq> 0 \<and> x = m\<lparr>ro_qty_tenths := left\<rparr>
       else resting b sd p' x)"
  shows "live (bput books s b') =
    (if left = 0 then without (live (bput books s b)) (ro_id m)
     else insert (s, sd0, p, m\<lparr>ro_qty_tenths := left\<rparr>) (without (live (bput books s b)) (ro_id m)))"
proof -
  let ?L = "live (bput books s b)"
  have mL: "(s, sd0, p, m) \<in> ?L" using m by (simp add: live_put)
  have only: "t = (s, sd0, p, m)" if "t \<in> ?L" "live_id t = ro_id m" for t
    using u that mL unfolding unique_ids_def by fastforce
  have "(s', sd, p', x) \<in> live (bput books s b') \<longleftrightarrow>
      (s', sd, p', x) \<in> ?L \<and> ro_id x \<noteq> ro_id m \<or>
      left \<noteq> 0 \<and> (s', sd, p', x) = (s, sd0, p, m\<lparr>ro_qty_tenths := left\<rparr>)" for s' sd p' x
  proof (cases "s' = s")
    case False
    then show ?thesis using only [of "(s', sd, p', x)"] by (auto simp: live_iff)
  next
    case True
    have in': "(s, sd, p', x) \<in> live (bput books s b') \<longleftrightarrow> resting b' sd p' x"
      and in0: "(s, sd, p', x) \<in> ?L \<longleftrightarrow> resting b sd p' x" by (simp_all add: live_iff)
    show ?thesis
    proof (cases "sd = sd0 \<and> p' = p")
      case at: True
      then show ?thesis using r [of sd p' x] True unfolding True in' in0 by simp
    next
      case False
      then have "resting b sd p' x \<Longrightarrow> ro_id x \<noteq> ro_id m" using only [of "(s, sd, p', x)"] in0 by auto
      then show ?thesis using False r [of sd p' x] unfolding True in' in0 by auto
    qed
  qed
  then have "t \<in> live (bput books s b') \<longleftrightarrow> t \<in> ?L \<and> live_id t \<noteq> ro_id m \<or>
      left \<noteq> 0 \<and> t = (s, sd0, p, m\<lparr>ro_qty_tenths := left\<rparr>)" for t
    by (cases t) simp
  then show ?thesis by (simp add: set_eq_iff without_iff del: split_paired_All) blast
qed

lemma exec_step:
  assumes ok: "exec_ok books order remaining into" and nf: "next_fill order (bt_book into) remaining = Some fill"
    and pos: "0 < remaining" and st: "fill_step order fill into = Some (Some into')"
  shows "exec_ok books order (remaining - pf_qty_tenths fill) into'"
proof -
  let ?L = "exec_live books order into" and ?L' = "exec_live books order into'"
  let ?sd = "opposite (io_side order)"
  obtain mn tn l trade_id where
    l: "settle_fill (bt_ledger into) (pf_maker_order fill) (io_id order) (pf_price_cents fill)
      (pf_qty_tenths fill) = Inr l"
    and c: "commit_fill order fill mn tn trade_id (into\<lparr>bt_ledger := l\<rparr>) = Some into'"
    using st by (rule fill_step_SomeE)
  obtain levels left where
    r: "reduce_maker (own_side ?sd (bt_book into)) fill = Some (levels, left)"
    and f: "bt_book into' = put_side ?sd (bt_book into) levels" "bt_ledger into' = l"
      "bt_open_orders into' = (if left = 0 then bdel (bt_open_orders into) (pf_maker_order fill)
        else bt_open_orders into)"
    using c by (rule commit_fill_SomeE) simp
  have bok: "book_ok (bt_book into)" using ok by (simp add: exec_ok_def)
  obtain m where m: "resting (bt_book into) ?sd (pf_price_cents fill) m"
    and mid: "ro_id m = pf_maker_order fill"
    and left: "left = ro_qty_tenths m - pf_qty_tenths fill" "0 \<le> left"
    and res: "\<And>sd p x. resting (put_side ?sd (bt_book into) levels) sd p x \<longleftrightarrow>
      (if sd = ?sd \<and> p = pf_price_cents fill
       then resting (bt_book into) sd p x \<and> ro_id x \<noteq> ro_id m \<or> left \<noteq> 0 \<and> x = m\<lparr>ro_qty_tenths := left\<rparr>
       else resting (bt_book into) sd p x)"
    by (rule resting_after_fill [OF bok nf pos r]) (rule that)
  have mL: "(io_symbol order, ?sd, pf_price_cents fill, m) \<in> ?L" using m by (simp add: exec_live_def live_put)
  have u: "unique_ids ?L" using ok by (rule exec_unique)
  have L': "?L' = (if left = 0 then without ?L (ro_id m)
     else insert (io_symbol order, ?sd, pf_price_cents fill, m\<lparr>ro_qty_tenths := left\<rparr>) (without ?L (ro_id m)))"
    using live_after_fill [OF u [unfolded exec_live_def] m res] by (simp add: exec_live_def f(1))
  have ids: "0 < live_id t \<and> live_id t < io_id order" if "t \<in> ?L" for t
    using ok that by (simp add: exec_ok_def)
  have idm: "ro_id m < io_id order" "0 < ro_id m" using ids [OF mL] by simp_all
  have ids': "0 < live_id t \<and> live_id t < io_id order" if "t \<in> ?L'" for t
    using that ids [of t] idm by (auto simp: L' without_def split: if_splits)
  have idx: "index_for ?L (map_of (bt_open_orders into))" using ok by (simp add: exec_ok_def)
  have "index_for ?L' (map_of (bt_open_orders into'))"
    using index_without [OF idx, of "ro_id m"]
      index_replace [OF idx u mL, of "m\<lparr>ro_qty_tenths := left\<rparr>"]
    by (simp add: L' f(3) mid)
  moreover have "backs_taker (bt_ledger into') ?L' order (remaining - pf_qty_tenths fill)"
    using backs_settle [of "bt_ledger into" ?L order remaining m "pf_price_cents fill" "pf_qty_tenths fill" l,
        OF _ _ mL _ _ less_imp_neq [OF idm(1)]] ok l left(2) pos
    unfolding L' f(2) exec_ok_def mid [symmetric] left(1) by simp
  moreover have "book_ok (bt_book into')" using fill_step_plan(2) [OF bok nf pos st] .
  ultimately show ?thesis
    using ok ids' by (simp add: exec_ok_def f(3))
qed

lemma exec_frame:
  assumes "fill_step order fill into = Some (Some into')"
  shows "is_funded (bt_ledger into') = is_funded (bt_ledger into)"
    and "lg_last_sequence (bt_ledger into') = lg_last_sequence (bt_ledger into)"
proof -
  obtain mn tn l trade_id where
    l: "settle_fill (bt_ledger into) (pf_maker_order fill) (io_id order) (pf_price_cents fill)
      (pf_qty_tenths fill) = Inr l"
    and c: "commit_fill order fill mn tn trade_id (into\<lparr>bt_ledger := l\<rparr>) = Some into'"
    using assms by (rule fill_step_SomeE)
  have "bt_ledger into' = l" using c by (rule commit_fill_SomeE) simp
  moreover have "is_funded l = is_funded (bt_ledger into) \<and>
      lg_last_sequence l = lg_last_sequence (bt_ledger into)"
  proof (cases "is_funded (bt_ledger into)")
    case True
    from l this show ?thesis by (rule settle_cases) (simp add: is_funded_def)
  qed (use settle_unfunded [OF _ l] in simp)
  ultimately show "is_funded (bt_ledger into') = is_funded (bt_ledger into)"
    "lg_last_sequence (bt_ledger into') = lg_last_sequence (bt_ledger into)" by simp_all
qed

subsection \<open>A rest\<close>

text \<open>When no order of the other side can be met any more, resting does not cross the book.\<close>

lemma next_fill_None_uncrossed:
  assumes "book_ok b" and "next_fill order b remaining = None"
    and "e \<in> set (own_side (opposite (io_side order)) b)"
  shows "\<not> crosses (io_side order) (fst e) (io_limit_cents order)"
proof -
  let ?w = "walk_side (io_side order) b"
  have w: "?w = dir (io_side order) (own_side (opposite (io_side order)) b)" by (rule walk_side_dir)
  then have mem: "e \<in> set ?w" using assms(3) by simp
  then obtain p lv rest where c: "?w = (p, lv) # rest" by (cases ?w) auto
  have sok: "side_ok (own_side (opposite (io_side order)) b)" using assms(1) by (rule side_ok_own)
  have "(p, lv) \<in> set (dir (io_side order) (own_side (opposite (io_side order)) b))"
    unfolding w [symmetric] c by simp
  then have "level_ok lv" using sok by (auto simp: side_ok_def list_all_iff)
  then have "\<not> crosses (io_side order) p (io_limit_cents order)"
    using assms(2) c by (auto simp: next_fill_def level_ok_def split: list.splits if_splits)
  moreover have "e = (p, lv) \<or> (if io_side order = Buy then p < fst e else fst e < p)"
    using dir_head(4) [OF side_ok_bmap [OF sok], of "io_side order" p lv rest] mem c w by auto
  ultimately show ?thesis by (cases "io_side order") auto
qed

lemma book_ok_add:
  assumes "book_ok b" and "side_ok l" and "fst ` set l \<subseteq> insert p (fst ` set (own_side sd b))"
    and "\<And>e. e \<in> set (own_side (opposite sd) b) \<Longrightarrow> \<not> crosses sd (fst e) p"
  shows "book_ok (put_side sd b l)"
  using assms by (cases sd) (fastforce simp: book_ok_def uncrossed_keys not_le)+

lemma level_ok_snoc:
  assumes "lv = [] \<or> level_ok lv" and "\<forall>r \<in> set lv. ro_id r < ro_id x"
    and "0 < ro_qty_tenths x" and "ro_qty_tenths x \<le> MAX_GRID_UNITS"
  shows "level_ok (lv @ [x])"
  using assms by (auto simp: level_ok_def sorted_wrt_append)

lemma exec_rest:
  assumes ok: "exec_ok books order remaining into" and pos: "0 < remaining" "remaining \<le> MAX_GRID_UNITS"
    and none: "next_fill order (bt_book into) remaining = None"
    and lim: "0 < io_limit_cents order" "io_limit_cents order \<le> MAX_GRID_UNITS"
  defines "x \<equiv> \<lparr>ro_id = io_id order, ro_account = io_account order, ro_qty_tenths = remaining\<rparr>"
    and "into' \<equiv> rest_order order remaining into"
  shows "book_ok (bt_book into')"
    and "exec_live books order into' =
      insert (io_symbol order, io_side order, io_limit_cents order, x) (exec_live books order into)"
    and "bmap_ok (bt_open_orders into')"
    and "index_for (exec_live books order into') (map_of (bt_open_orders into'))"
    and "backs (bt_ledger into') (exec_live books order into')"
proof -
  let ?b = "bt_book into" and ?sd = "io_side order" and ?p = "io_limit_cents order"
  let ?L = "exec_live books order into"
  let ?lv = "bget_or [] (own_side ?sd ?b) ?p"
  have bok: "book_ok ?b" and opn: "bmap_ok (bt_open_orders into)"
    and idx: "index_for ?L (map_of (bt_open_orders into))"
    and ids: "\<And>t. t \<in> ?L \<Longrightarrow> live_id t < io_id order"
    using ok by (auto simp: exec_ok_def)
  have into': "bt_book into' = put_side ?sd ?b (bput (own_side ?sd ?b) ?p (?lv @ [x]))"
    "bt_open_orders into' = bput (bt_open_orders into) (io_id order)
      \<lparr>ref_symbol = io_symbol order, ref_side = ?sd, ref_price_cents = ?p\<rparr>"
    "bt_ledger into' = bt_ledger into"
    by (simp_all add: into'_def rest_order_def Let_def x_def)
  have old: "resting ?b ?sd ?p r \<longleftrightarrow> r \<in> set ?lv" for r
    by (cases "map_of (own_side ?sd ?b) ?p") (simp_all add: resting_def bget_or_def)
  have late: "ro_id r < io_id order" if "r \<in> set ?lv" for r
  proof -
    have "(io_symbol order, ?sd, ?p, r) \<in> ?L" using old that by (simp add: exec_live_def live_put)
    from ids [OF this] show ?thesis by simp
  qed
  have sok: "side_ok (own_side ?sd ?b)" using bok by (rule side_ok_own)
  have "?lv = [] \<or> level_ok ?lv"
    using sok map_of_list_all [of _ "own_side ?sd ?b" ?p]
    by (fastforce simp: side_ok_def bget_or_def split: option.splits)
  then have "level_ok (?lv @ [x])" using late pos by (intro level_ok_snoc) (simp_all add: x_def)
  then show "book_ok (bt_book into')"
    unfolding into' using bok sok lim next_fill_None_uncrossed [OF bok none]
    by (intro book_ok_add) (auto simp: side_ok_put keys_bput)
  have res: "resting (bt_book into') sd p r \<longleftrightarrow>
      resting ?b sd p r \<or> sd = ?sd \<and> p = ?p \<and> r = x" for sd p r
  proof (cases "sd = ?sd \<and> p = ?p")
    case True
    then show ?thesis using old [of r] by (auto simp: into'(1) resting_put_side)
  next
    case False
    then show ?thesis by (auto simp: into'(1) resting_put_side) (simp_all add: resting_def)
  qed
  show L': "exec_live books order into' = insert (io_symbol order, ?sd, ?p, x) ?L"
    by (auto simp: exec_live_def live_put res)
  show "bmap_ok (bt_open_orders into')" using opn by (simp add: into')
  have fresh: "\<forall>t \<in> ?L. live_id t \<noteq> io_id order" using ids by (blast dest: less_imp_neq)
  then have "map_of (bt_open_orders into) (io_id order) = None" using index_None [OF idx] by blast
  with index_insert [OF idx, of x] show "index_for (exec_live books order into') (map_of (bt_open_orders into'))"
    by (simp add: L' into'(2) x_def)
  show "backs (bt_ledger into') (exec_live books order into')"
    using backs_rest [OF _ _ fresh] ok pos by (auto simp: L' into'(3) x_def exec_ok_def)
qed

end
