(* ===== verification/Tape.thy ===== *)
theory Tape
  imports Staging
begin

section \<open>The tape: positions, trades and candles under a fill\<close>

text \<open>
  What every fill does to the state that no later decision of the book depends on. Positions
  stay consistent and are zero-sum per symbol, in quantity and in cash; the trade window is a
  bounded run of consecutive trade ids that ends at the total; the candle projection stays
  well formed.
\<close>

subsection \<open>Positions\<close>

definition position_total :: "(position \<Rightarrow> int) \<Rightarrow> string \<Rightarrow> position_map \<Rightarrow> int" where
  "position_total f s m = (\<Sum>e\<leftarrow>m. if snd (fst e) = s then f (snd e) else 0)"

lemma position_total_put:
  "bmap_ok m \<Longrightarrow> f no_position = 0 \<Longrightarrow> position_total f s (bput m k p) = position_total f s m +
     (if snd k = s then f p - f (bget_or no_position m k) else 0)"
  by (auto simp: position_total_def bsum_simps bget_or_def split: option.splits)

definition positions_ok :: "position_map \<Rightarrow> bool" where
  "positions_ok m \<longleftrightarrow> bmap_ok m \<and> list_all (\<lambda>e. position_inv (snd e)) m \<and>
     (\<forall>s. position_total net_qty_tenths s m = 0 \<and> position_total cash_mills s m = 0)"

lemma positions_get: "positions_ok m \<Longrightarrow> position_inv (bget_or no_position m k)"
  using map_of_list_all [of "\<lambda>e. position_inv (snd e)" m k]
  by (auto simp: positions_ok_def bget_or_def split: option.splits)

lemma fill_positionsE:
  assumes "fill_positions order fill positions = Some (mn, tn)"
  obtains before where
    "position_after_fill (bget_or no_position positions (pf_maker_account fill, io_symbol order))
      (opposite (io_side order)) (pf_qty_tenths fill) (pf_price_cents fill) = Some mn"
    and "before = (if pf_maker_account fill = io_account order then mn
      else bget_or no_position positions (io_account order, io_symbol order))"
    and "position_after_fill before (io_side order) (pf_qty_tenths fill) (pf_price_cents fill) = Some tn"
  using assms by (auto simp: fill_positions_def bind_eq_Some_conv Let_def split: if_splits)

lemma book_positions_ok:
  assumes ok: "positions_ok m" and fp: "fill_positions order fill m = Some (mn, tn)"
    and q: "0 < pf_qty_tenths fill" and p: "0 < pf_price_cents fill"
  shows "positions_ok (book_positions order fill mn tn m)"
proof -
  let ?mk = "(pf_maker_account fill, io_symbol order)" and ?tk = "(io_account order, io_symbol order)"
  obtain before where
    mn: "position_after_fill (bget_or no_position m ?mk) (opposite (io_side order))
      (pf_qty_tenths fill) (pf_price_cents fill) = Some mn"
    and before: "before = (if pf_maker_account fill = io_account order then mn else bget_or no_position m ?tk)"
    and tn: "position_after_fill before (io_side order) (pf_qty_tenths fill) (pf_price_cents fill) = Some tn"
    using fp by (rule fill_positionsE)
  have bok: "bmap_ok m" using ok by (simp add: positions_ok_def)
  have mi: "position_inv mn" using after_fill_inv [OF mn q p positions_get [OF ok]] .
  then have "position_inv before" using positions_get [OF ok] by (simp add: before)
  then have ti: "position_inv tn" by (rule after_fill_inv [OF tn q p])
  have "list_all (\<lambda>e. position_inv (snd e)) (book_positions order fill mn tn m)"
    using ok mi ti by (simp add: positions_ok_def book_positions_def list_all_bput)
  moreover have "bmap_ok (book_positions order fill mn tn m)"
    using bok by (simp add: book_positions_def)
  moreover have "position_total f s (book_positions order fill mn tn m) = position_total f s m"
    if "f no_position = 0" and "f mn + f tn = f (bget_or no_position m ?mk) + f before" for f s
    using that bok by (auto simp: book_positions_def position_total_put bget_or_bput before)
  moreover have "net_qty_tenths mn + net_qty_tenths tn =
      net_qty_tenths (bget_or no_position m ?mk) + net_qty_tenths before"
    using after_fill_net(1) [OF mn] after_fill_net(1) [OF tn] by (cases "io_side order") simp_all
  moreover have "cash_mills mn + cash_mills tn = cash_mills (bget_or no_position m ?mk) + cash_mills before"
    using after_fill_net(2) [OF mn] after_fill_net(2) [OF tn] by (cases "io_side order") simp_all
  ultimately show ?thesis using ok by (simp add: positions_ok_def no_position_def)
qed

subsection \<open>The trade window\<close>

definition tape_ok :: "nat \<Rightarrow> trade list \<Rightarrow> bool" where
  "tape_ok count trades \<longleftrightarrow> length trades \<le> TRADE_WINDOW \<and> length trades \<le> count \<and>
     map tr_trade_id trades = [Suc (count - length trades) ..< Suc count]"

lemma tape_push:
  assumes "tape_ok count trades" and "tr_trade_id t = Suc count"
  shows "tape_ok (Suc count) ((if length trades = TRADE_WINDOW then tl trades else trades) @ [t])"
proof (cases "length trades = TRADE_WINDOW")
  case True
  then obtain a rest where trades: "trades = a # rest"
    by (cases trades) (auto simp: TRADE_WINDOW_def)
  have "map tr_trade_id trades = [Suc (count - length trades) ..< Suc count]" and le: "length trades \<le> count"
    using assms(1) by (simp_all add: tape_ok_def)
  then have "map tr_trade_id rest = [Suc (Suc (count - length trades)) ..< Suc count]"
    using trades by (simp add: upt_rec)
  moreover have "Suc (count - length trades) = count - length rest"
    using le trades by simp
  ultimately show ?thesis
    using True assms trades le by (simp add: tape_ok_def Suc_diff_le)
next
  case False
  then show ?thesis using assms by (simp add: tape_ok_def Suc_diff_le)
qed

definition tape_inv :: "book_and_trades \<Rightarrow> bool" where
  "tape_inv into \<longleftrightarrow> positions_ok (bt_positions into) \<and>
     tape_ok (bt_trades_total into) (bt_trades into) \<and> bt_trades_total into \<le> u64_max \<and>
     cache_ok (bt_candles into)"

lemma tape_step:
  assumes ok: "tape_inv into" and "book_ok (bt_book into)"
    and "next_fill order (bt_book into) remaining = Some fill" and "0 < remaining"
    and st: "fill_step order fill into = Some (Some into')"
  shows "tape_inv into'"
proof -
  obtain mn tn l trade_id where fp: "fill_positions order fill (bt_positions into) = Some (mn, tn)"
    and i: "trade_id = Suc (bt_trades_total into)" "Suc (bt_trades_total into) \<le> u64_max"
    and c: "commit_fill order fill mn tn trade_id (into\<lparr>bt_ledger := l\<rparr>) = Some into'"
    using st by (rule fill_step_SomeE)
  have q: "0 < pf_qty_tenths fill" "0 < pf_price_cents fill"
    using assms(2-4) by (rule reduce_next_fill, simp)+
  show ?thesis
    using c
  proof (rule commit_fill_SomeE)
    assume f: "bt_positions into' = book_positions order fill mn tn (bt_positions (into\<lparr>bt_ledger := l\<rparr>))"
      "bt_trades_total into' = sat_add_u64 (bt_trades_total (into\<lparr>bt_ledger := l\<rparr>)) 1"
      "bt_candles into' = cache_record (bt_candles (into\<lparr>bt_ledger := l\<rparr>)) (io_symbol order)
        (io_timestamp order) (pf_price_cents fill) (pf_qty_tenths fill)"
      "bt_trades into' = (if length (bt_trades (into\<lparr>bt_ledger := l\<rparr>)) = TRADE_WINDOW
        then tl (bt_trades (into\<lparr>bt_ledger := l\<rparr>)) else bt_trades (into\<lparr>bt_ledger := l\<rparr>))
        @ [the_trade order fill trade_id]"
    have "bt_trades_total into' = Suc (bt_trades_total into)" using f(2) i by (simp add: sat_add_u64_def)
    moreover have trades: "bt_trades into' = (if length (bt_trades into) = TRADE_WINDOW
        then tl (bt_trades into) else bt_trades into) @ [the_trade order fill trade_id]"
      using f(4) by simp
    moreover have "tape_ok (Suc (bt_trades_total into)) (bt_trades into')"
      using ok tape_push [of "bt_trades_total into" "bt_trades into" "the_trade order fill trade_id"]
        i(1) unfolding trades by (simp add: tape_inv_def the_trade_def split del: if_split)
    ultimately show ?thesis
      using ok i(2) book_positions_ok [OF _ fp q] cache_record_ok
      by (simp add: tape_inv_def f(1,3))
  qed
qed

end
