(* ===== verification/Capacity.thy ===== *)
theory Capacity
  imports Staging
begin

section \<open>The position limit covers every row an execution can add\<close>

text \<open>
  \<open>ResourceLimits::check_positions\<close> walks the crossing levels before anything executes and
  counts the accounts that would need a new position row. Whatever the execution then does, the
  rows it adds are among the counted ones.
\<close>

definition counted :: "nat \<Rightarrow> position_map \<Rightarrow> string \<Rightarrow> account_id list \<Rightarrow> bool" where
  "counted cap positions s added \<longleftrightarrow> distinct added \<and>
     (added = [] \<or> length positions + length added \<le> cap)"

definition has_row :: "position_map \<Rightarrow> string \<Rightarrow> account_id list \<Rightarrow> account_id \<Rightarrow> bool" where
  "has_row positions s added a \<longleftrightarrow> a \<in> set added \<or> map_of positions (a, s) \<noteq> None"

lemma new_slots_counted:
  assumes "new_slots cap positions s added accounts = Inr added'" and "counted cap positions s added"
  shows "counted cap positions s added' \<and> set added \<subseteq> set added' \<and>
    (\<forall>a \<in> set accounts. has_row positions s added' a)"
  using assms
proof (induction cap positions s added accounts rule: new_slots.induct)
  case (2 cap positions s added a as)
  show ?case
  proof (cases "map_of positions (a, s)")
    case None
    let ?more = "List.insert a added"
    have c: "\<not> cap < length positions + length ?more" and r: "new_slots cap positions s ?more as = Inr added'"
      using "2.prems"(1) None by (simp_all add: Let_def split: if_splits)
    have "counted cap positions s ?more" using c "2.prems"(2) by (simp add: counted_def)
    from "2.IH"(2) [OF _ refl c r this] None show ?thesis by (auto simp: has_row_def)
  next
    case (Some p)
    then show ?thesis using 2 by (auto simp: has_row_def)
  qed
qed auto

lemma has_row_mono: "has_row positions s added a \<Longrightarrow> set added \<subseteq> set added' \<Longrightarrow> has_row positions s added' a"
  by (auto simp: has_row_def)

definition rows_for :: "incoming_order \<Rightarrow> position_map \<Rightarrow> account_id list \<Rightarrow> planned_fill list \<Rightarrow> bool" where
  "rows_for order positions added fills \<longleftrightarrow>
     (fills \<noteq> [] \<longrightarrow> has_row positions (io_symbol order) added (io_account order)) \<and>
     (\<forall>f \<in> set fills. has_row positions (io_symbol order) added (pf_maker_account f))"

lemma rows_for_mono: "rows_for order positions added fills \<Longrightarrow> set added \<subseteq> set added' \<Longrightarrow> rows_for order positions added' fills"
  by (auto simp: rows_for_def intro: has_row_mono)

lemma rows_for_append:
  "rows_for order positions added (xs @ ys) \<longleftrightarrow> rows_for order positions added xs \<and> rows_for order positions added ys"
  by (auto simp: rows_for_def)

lemma check_level_counted:
  assumes "check_level cap positions order remaining added ms = Inr (remaining', added')"
    and "counted cap positions (io_symbol order) added" and "0 \<le> remaining"
  shows "counted cap positions (io_symbol order) added' \<and> set added \<subseteq> set added' \<and>
    rows_for order positions added' (fst (plan_makers price remaining ms)) \<and>
    remaining' = snd (plan_makers price remaining ms) \<and> 0 \<le> remaining'"
  using assms
proof (induction cap positions order remaining added ms rule: check_level.induct)
  case (2 cap positions order remaining added m ms)
  show ?case
  proof (cases "remaining = 0")
    case True
    then show ?thesis using "2.prems" by (simp add: rows_for_def)
  next
    case False
    obtain added1 where n: "new_slots cap positions (io_symbol order) added [io_account order, ro_account m] = Inr added1"
      and r: "check_level cap positions order (remaining - min remaining (ro_qty_tenths m)) added1 ms =
        Inr (remaining', added')"
      using "2.prems"(1) False by auto
    note c = new_slots_counted [OF n "2.prems"(2)]
    have "0 \<le> remaining - min remaining (ro_qty_tenths m)" by simp
    with "2.IH" [OF False r] c have ih: "counted cap positions (io_symbol order) added'" "set added1 \<subseteq> set added'"
      "rows_for order positions added' (fst (plan_makers price (remaining - min remaining (ro_qty_tenths m)) ms))"
      "remaining' = snd (plan_makers price (remaining - min remaining (ro_qty_tenths m)) ms)" "0 \<le> remaining'"
      by blast+
    have own: "has_row positions (io_symbol order) added' (io_account order)"
      "has_row positions (io_symbol order) added' (ro_account m)"
      using c ih(2) by (auto intro: has_row_mono)
    have stop: "plan_makers price 0 ms = ([], 0)" by (cases ms) simp_all
    show ?thesis
      using ih own c False stop "2.prems"(3)
      by (cases "0 < remaining - min remaining (ro_qty_tenths m)") (auto simp: rows_for_def Let_def)
  qed
qed (simp add: rows_for_def)

lemma check_levels_counted:
  assumes "check_levels cap positions order remaining added
      (crossing (io_side order) (io_limit_cents order) levels) = Inr ()"
    and "counted cap positions (io_symbol order) added" and "0 \<le> remaining"
  shows "\<exists>added'. counted cap positions (io_symbol order) added' \<and> set added \<subseteq> set added' \<and>
    rows_for order positions added' (plan_levels (io_side order) (io_limit_cents order) remaining levels)"
  using assms
proof (induction levels arbitrary: remaining added)
  case Nil
  then show ?case by (auto simp: rows_for_def)
next
  case (Cons e levels)
  obtain price level where e: "e = (price, level)" by (cases e)
  show ?case
  proof (cases "\<not> crosses (io_side order) price (io_limit_cents order) \<or> remaining = 0")
    case True
    then show ?thesis using Cons.prems(2) by (auto simp: e rows_for_def)
  next
    case False
    obtain remaining1 added1 where
      l: "check_level cap positions order remaining added level = Inr (remaining1, added1)"
      and r: "check_levels cap positions order remaining1 added1
        (crossing (io_side order) (io_limit_cents order) levels) = Inr ()"
      using Cons.prems(1) False by (auto simp: e crossing_def)
    note c = check_level_counted [OF l Cons.prems(2,3), of price]
    obtain added2 where a2: "counted cap positions (io_symbol order) added2" "set added1 \<subseteq> set added2"
      "rows_for order positions added2 (plan_levels (io_side order) (io_limit_cents order) remaining1 levels)"
      using Cons.IH [OF r] c by blast
    have "rows_for order positions added2 (fst (plan_makers price remaining level))"
      using c a2(2) rows_for_mono by blast
    then show ?thesis
      using a2 c False
      by (intro exI [of _ added2]) (auto simp: e Let_def rows_for_append)
  qed
qed

lemma check_positions_room:
  fixes positions positions' :: position_map
  assumes "check_positions l order b positions = Inr ()" and "0 \<le> io_qty_tenths order"
    and "bmap_ok positions" and "bmap_ok positions'" and "length positions \<le> max_positions l"
    and keys: "fst ` set positions' \<subseteq> fst ` set positions \<union> (\<lambda>a. (a, io_symbol order)) `
      (if plan_fills order b = [] then {} else insert (io_account order) (pf_maker_account ` set (plan_fills order b)))"
  shows "length positions' \<le> max_positions l"
proof -
  obtain added where c: "counted (max_positions l) positions (io_symbol order) added"
    and rows: "rows_for order positions added (plan_fills order b)"
    using check_levels_counted [OF assms(1) [unfolded check_positions_def] _ assms(2)]
    by (auto simp: counted_def plan_fills_def)
  have row: "(a, io_symbol order) \<in> fst ` set positions \<union> (\<lambda>a. (a, io_symbol order)) ` set added"
    if "has_row positions (io_symbol order) added a" for a
    using that by (auto simp: has_row_def map_of_eq_None_iff)
  have "fst ` set positions' \<subseteq> fst ` set positions \<union> (\<lambda>a. (a, io_symbol order)) ` set added"
  proof (rule order_trans [OF keys], rule Un_least)
    show "(\<lambda>a. (a, io_symbol order)) ` (if plan_fills order b = [] then {}
        else insert (io_account order) (pf_maker_account ` set (plan_fills order b)))
      \<subseteq> fst ` set positions \<union> (\<lambda>a. (a, io_symbol order)) ` set added"
    proof (rule image_subsetI)
      fix a assume "a \<in> (if plan_fills order b = [] then {}
        else insert (io_account order) (pf_maker_account ` set (plan_fills order b)))"
      then have "has_row positions (io_symbol order) added a"
        using rows by (auto simp: rows_for_def split: if_splits)
      then show "(a, io_symbol order) \<in> fst ` set positions \<union> (\<lambda>a. (a, io_symbol order)) ` set added"
        by (rule row)
    qed
  qed simp
  then have "card (fst ` set positions') \<le> card (fst ` set positions) + card ((\<lambda>a. (a, io_symbol order)) ` set added)"
    by (meson card_Un_le card_mono finite_UnI finite_imageI finite_set le_trans)
  moreover have size: "card (fst ` set m) = length m" if "bmap_ok m" for m :: position_map
    using bmap_ok_distinct [OF that] distinct_card [of "map fst m"] by simp
  note size [OF assms(3)] size [OF assms(4)]
  moreover have "card ((\<lambda>a. (a, io_symbol order)) ` set added) \<le> length added"
    by (meson card_image_le card_length finite_set le_trans)
  ultimately have "length positions' \<le> length positions + length added" by linarith
  then show ?thesis using c assms(5) by (auto simp: counted_def)
qed

end
