(* ===== verification/Engine_Order.thy ===== *)
theory Engine_Order
  imports Desk Tape Capacity
begin

section \<open>A new order keeps the engine's invariant\<close>

text \<open>
  The invariant of \<open>MatcherState\<close> between messages, and the first half of its proof: whatever
  a new order meets, its handler returns (no \<open>expect\<close> fires, the fill loop ends) and leaves
  books, index, ledger, positions, trades and reference prices consistent.
\<close>

subsection \<open>The invariant\<close>

definition no_empty_book :: "(string, book) bmap \<Rightarrow> bool" where
  "no_empty_book books \<longleftrightarrow> list_all (\<lambda>e. bids (snd e) \<noteq> [] \<or> asks (snd e) \<noteq> []) books"

text \<open>\<open>n\<close> bounds the ids of the live orders: the last message that was seen.\<close>

definition desk_ok :: "nat \<Rightarrow> matcher_state \<Rightarrow> bool" where
  "desk_ok n s \<longleftrightarrow> books_ok (en_books s) \<and> no_empty_book (en_books s) \<and>
     bmap_ok (en_open_orders s) \<and>
     index_for (live (en_books s)) (map_of (en_open_orders s)) \<and>
     (\<forall>t \<in> live (en_books s). 0 < live_id t \<and> live_id t \<le> n) \<and>
     backs (en_ledger s) (live (en_books s))"

definition record_ok :: "matcher_state \<Rightarrow> bool" where
  "record_ok s \<longleftrightarrow> positions_ok (en_positions s) \<and>
     tape_ok (en_trades_total s) (en_trades s) \<and> en_trades_total s \<le> u64_max \<and>
     cache_ok (en_candles s)"

definition market_ok :: "matcher_state \<Rightarrow> bool" where
  "market_ok s \<longleftrightarrow> registry_ok (en_symbols s) \<and> mids_live 1 MAX_GRID_UNITS (en_mids s)"

definition engine_inv :: "matcher_state \<Rightarrow> bool" where
  "engine_inv s \<longleftrightarrow> desk_ok (en_last_seen s) s \<and> record_ok s \<and> market_ok s \<and>
     lg_last_sequence (en_ledger s) = en_last_seen s \<and> en_last_seen s \<le> u64_max"

subsection \<open>Pruning and observing\<close>

lemma books_ok_prune: "books_ok books \<Longrightarrow> books_ok (prune_book books s)"
  by (auto simp: prune_book_def books_ok_del split: option.splits)

lemma prune_no_empty:
  assumes "bmap_ok books" and "no_empty_book books"
  shows "no_empty_book (prune_book (bput books s b) s)"
proof (cases "bids b = [] \<and> asks b = []")
  case True
  then have "prune_book (bput books s b) s = bdel (bput books s b) s" by (simp add: prune_book_def)
  moreover have "set (bdel (bput books s b) s) \<subseteq> set books"
    using set_bput_subset [of books s b] by (auto simp: bdel_def)
  ultimately show ?thesis using assms(2) by (auto simp: no_empty_book_def list_all_iff)
next
  case False
  then have "prune_book (bput books s b) s = bput books s b" by (auto simp: prune_book_def)
  then show ?thesis using False assms(2) by (auto simp: no_empty_book_def intro!: list_all_bput)
qed

lemma live_prune_entry: "live (prune_book (bput books s (bget_or empty_book books s)) s) = live books"
  by (simp add: live_prune live_entry)

lemma side_prices:
  assumes "side_ok l" and "e \<in> set l"
  shows "1 \<le> fst e \<and> fst e \<le> MAX_GRID_UNITS"
  using assms by (auto simp: side_ok_def list_all_iff)

lemma mid_in_range:
  assumes "1 \<le> a" and "a \<le> MAX_GRID_UNITS" and "1 \<le> c" and "c \<le> MAX_GRID_UNITS"
  shows "1 \<le> (a + c) sdiv 2 \<and> (a + c) sdiv 2 \<le> MAX_GRID_UNITS"
proof -
  have "(a + c) sdiv 2 = (a + c) div 2" using assms by (simp add: signed_divide_int_def)
  then show ?thesis using assms unfolding MAX_GRID_UNITS_def by presburger
qed

lemma observe_mid_live:
  assumes "mids_live 1 MAX_GRID_UNITS (en_mids s)" and "books_ok (en_books s)"
  shows "mids_live 1 MAX_GRID_UNITS (en_mids (observe_mid s symbol t))"
proof -
  let ?mid = "do { bid \<leftarrow> best_bid_cents (map_of (en_books s) symbol);
    ask \<leftarrow> best_ask_cents (map_of (en_books s) symbol); Some ((bid + ask) sdiv 2) }"
  have "mid_between 1 MAX_GRID_UNITS ?mid"
  proof (cases "map_of (en_books s) symbol")
    case (Some b)
    then have "side_ok (bids b)" "side_ok (asks b)"
      using books_ok_get [OF assms(2)] by (simp_all add: book_ok_def)
    then show ?thesis
      using Some mid_in_range side_prices [of "bids b" "last (bids b)"] side_prices [of "asks b" "hd (asks b)"]
      by (auto simp: best_bid_cents_def best_ask_cents_def mid_between_def)
  qed (simp add: best_bid_cents_def mid_between_def)
  then show ?thesis using observe_live [OF assms(1)] by (simp add: observe_mid_def Let_def)
qed

lemma observe_mid_fields [simp]:
  "en_books (observe_mid s x t) = en_books s" "en_open_orders (observe_mid s x t) = en_open_orders s"
  "en_ledger (observe_mid s x t) = en_ledger s" "en_positions (observe_mid s x t) = en_positions s"
  "en_trades (observe_mid s x t) = en_trades s" "en_trades_total (observe_mid s x t) = en_trades_total s"
  "en_candles (observe_mid s x t) = en_candles s" "en_symbols (observe_mid s x t) = en_symbols s"
  "en_limits (observe_mid s x t) = en_limits s"
  by (simp_all add: observe_mid_def Let_def)

lemma count_ignored_fields [simp]:
  "en_books (count_ignored s x) = en_books s" "en_open_orders (count_ignored s x) = en_open_orders s"
  "en_ledger (count_ignored s x) = en_ledger s" "en_positions (count_ignored s x) = en_positions s"
  "en_trades (count_ignored s x) = en_trades s" "en_trades_total (count_ignored s x) = en_trades_total s"
  "en_candles (count_ignored s x) = en_candles s" "en_symbols (count_ignored s x) = en_symbols s"
  "en_mids (count_ignored s x) = en_mids s" "en_limits (count_ignored s x) = en_limits s"
  by (simp_all add: count_ignored_def)

lemma desk_ok_mono: "desk_ok n s \<Longrightarrow> n \<le> n' \<Longrightarrow> desk_ok n' s"
  unfolding desk_ok_def by fastforce

subsection \<open>A whole execution\<close>

lemma length_bdel: "length (bdel m k) \<le> length m"
  by (simp add: bdel_def)

lemma length_bput_le: "length (bput m k v) \<le> Suc (length m)"
  by (induction m k v rule: bput.induct) auto

text \<open>The position rows a run can touch: the taker's and its makers'.\<close>

definition fill_keys :: "incoming_order \<Rightarrow> planned_fill list \<Rightarrow> (account_id \<times> string) set" where
  "fill_keys order fills = (\<lambda>a. (a, io_symbol order)) `
     (if fills = [] then {} else insert (io_account order) (pf_maker_account ` set fills))"

lemma run_plan_keys:
  "run_plan order remaining fills into = Some (m, into') \<Longrightarrow>
     fst ` set (bt_positions into') \<subseteq> fst ` set (bt_positions into) \<union> fill_keys order fills"
proof (induction order remaining fills into rule: run_plan.induct)
  case (2 order remaining fill fills into)
  show ?case
  proof (cases "\<exists>x. fill_step order fill into = Some (Some x)")
    case True
    then obtain x where x: "fill_step order fill into = Some (Some x)" by blast
    obtain mn tn l i where "commit_fill order fill mn tn i (into\<lparr>bt_ledger := l\<rparr>) = Some x"
      using x by (rule fill_step_SomeE)
    then have "bt_positions x = book_positions order fill mn tn (bt_positions into)"
      by (rule commit_fill_SomeE) simp
    then have "fst ` set (bt_positions x) \<subseteq> fst ` set (bt_positions into) \<union> fill_keys order (fill # fills)"
      by (auto simp: book_positions_def keys_bput fill_keys_def)
    moreover have "fill_keys order fills \<subseteq> fill_keys order (fill # fills)" by (auto simp: fill_keys_def)
    ultimately show ?thesis using 2 x by simp blast
  next
    case False
    then show ?thesis using 2 by (auto split: option.splits)
  qed
qed auto

lemma execute_exec:
  assumes ok: "exec_ok books order remaining into" and tape: "tape_inv into" and "0 \<le> remaining"
    and st: "stage_settlements order (rest_of_plan order remaining into) (bt_ledger into) = Inr l'"
    and fok: "io_time_in_force order = FillOrKill \<Longrightarrow> bt_plan_committed into"
  obtains m into' left where "execute order remaining into = Some (m, into')"
    and "exec_ok books order left into'" and "tape_inv into'" and "0 \<le> left" and "left \<le> remaining"
    and "m = Crossed left \<and> (left = 0 \<or> next_fill order (bt_book into') left = None) \<or> m = Overflowed left"
    and "is_funded (bt_ledger into') = is_funded (bt_ledger into)"
    and "lg_last_sequence (bt_ledger into') = lg_last_sequence (bt_ledger into)"
    and "length (bt_open_orders into') \<le> length (bt_open_orders into)"
    and "fst ` set (bt_positions into') \<subseteq>
      fst ` set (bt_positions into) \<union> fill_keys order (rest_of_plan order remaining into)"
proof -
  have bok: "book_ok (bt_book into)" using ok by (simp add: exec_ok_def)
  obtain m into' where r: "run_plan order remaining (rest_of_plan order remaining into) into = Some (m, into')"
    using run_plan_returns [OF bok assms(3) st fok] by blast
  define Q where "Q left x \<longleftrightarrow> exec_ok books order left x \<and> tape_inv x \<and>
    is_funded (bt_ledger x) = is_funded (bt_ledger into) \<and>
    lg_last_sequence (bt_ledger x) = lg_last_sequence (bt_ledger into) \<and>
    length (bt_open_orders x) \<le> length (bt_open_orders into)" for left x
  have "\<exists>left. 0 \<le> left \<and> left \<le> remaining \<and> Q left into' \<and> book_ok (bt_book into') \<and>
    (m = Crossed left \<and> (left = 0 \<or> next_fill order (bt_book into') left = None) \<or> m = Overflowed left)"
  proof (rule run_plan_induct [OF r bok assms(3), of Q])
    show "Q remaining into" using ok tape by (simp add: Q_def)
  next
    fix rem x fill x'
    assume b: "book_ok (bt_book x)" and pos: "0 < rem" and q: "Q rem x"
      and nf: "next_fill order (bt_book x) rem = Some fill" and fs: "fill_step order fill x = Some (Some x')"
    obtain mn tn l i where "commit_fill order fill mn tn i (x\<lparr>bt_ledger := l\<rparr>) = Some x'"
      using fs by (rule fill_step_SomeE)
    then have "length (bt_open_orders x') \<le> length (bt_open_orders x)"
      by (rule commit_fill_SomeE) (simp add: length_bdel)
    then show "Q (rem - pf_qty_tenths fill) x'"
      using q exec_step [OF _ nf pos fs, of books] tape_step [OF _ b nf pos fs] exec_frame [OF fs]
      by (simp add: Q_def)
  qed
  then show thesis
    using r that [of m into'] execute_run_plan [OF bok assms(3)] run_plan_keys [OF r]
    by (auto simp: Q_def)
qed

subsection \<open>Staging gives an executable order\<close>

text \<open>Bounding moves the price of a market order only, and never out of the grid downwards.\<close>

lemma admit_order_fields:
  assumes "admit_order s order b = Inr order'"
  obtains limit where "order' = order\<lparr>io_limit_cents := limit\<rparr>"
    and "\<not> is_market order \<longrightarrow> limit = io_limit_cents order"
  using assms by (auto simp: admit_order_def Let_def bound_def split: if_splits option.splits)

lemma admit_order_positions:
  assumes "admit_order s order b = Inr order'" and "en_limits s = Some l"
  shows "check_positions l order' b (en_positions s) = Inr ()"
  using assms by (auto simp: admit_order_def Let_def)

lemma stage_fokE:
  assumes "stage_fok order b positions count = Inr plan"
  obtains after where "fp_fills plan = plan_fills order b" and "fp_positions_after plan = after"
    and "sum_list (map pf_qty_tenths (plan_fills order b)) = io_qty_tenths order"
    and "count + length (plan_fills order b) \<le> u64_max"
    and "stage_positions order positions [] (plan_fills order b) = Inr after"
  using assms by (auto simp: stage_fok_def Let_def)

lemma stage_order_cases:
  assumes "stage_order s order b = Some (Inr (plan, l))"
  obtains (fok) p l0 where "io_time_in_force order = FillOrKill" and "plan = Some p"
      and "stage_fok order b (en_positions s) (en_trades_total s) = Inr p"
      and "reserve_order (en_ledger s) order = Inr l0"
      and "stage_settlements order (fp_fills p) l0 = Inr l"
  | (other) "io_time_in_force order \<noteq> FillOrKill" and "plan = None"
      and "preflight order b (en_positions s) (en_ledger s) (en_trades_total s) = Inr ()"
      and "reserve_order (en_ledger s) order = Inr l"
  using assms
  by (auto simp: stage_order_def stage_fok_ledger_def bind_eq_Some_conv split: if_splits sum.splits)

text \<open>Staging never panics: the preflight has tried the reservation.\<close>

lemma stage_order_returns: "\<exists>r. stage_order s order b = Some r"
proof (cases "io_time_in_force order = FillOrKill \<or> \<not> is_funded (en_ledger s)")
  case True
  then show ?thesis
    by (auto simp: stage_order_def preflight_def reserve_order_def reserve_def)
next
  case False
  then show ?thesis
    by (cases "reserve_order (en_ledger s) order") (auto simp: stage_order_def preflight_def split: sum.splits)
qed

text \<open>Steps 5 and 6 start from the reserved ledger; a fill-or-kill order ends where the plain
  loop would.\<close>

lemma staged_execution:
  assumes st: "stage_order s order b = Some (Inr (plan, l))" and bok: "book_ok b"
    and q: "0 < io_qty_tenths order"
  obtains l0 l' where "reserve_order (en_ledger s) order = Inr l0"
    and "stage_settlements order (plan_fills order b) l0 = Inr l'"
    and "(case plan of Some p \<Rightarrow> execute_fok order p (borrow s b l (plan \<noteq> None))
        | None \<Rightarrow> execute order (io_qty_tenths order) (borrow s b l (plan \<noteq> None))) =
      execute order (io_qty_tenths order) (borrow s b l0 (plan \<noteq> None))"
    and "io_time_in_force order = FillOrKill \<longrightarrow> plan \<noteq> None \<and>
      (\<exists>x. execute order (io_qty_tenths order) (borrow s b l0 (plan \<noteq> None)) = Some (Crossed 0, x))"
  using st
proof (cases rule: stage_order_cases)
  case (fok p l0)
  from fok(3) obtain after where p: "fp_fills p = plan_fills order b" "fp_positions_after p = after"
    "sum_list (map pf_qty_tenths (plan_fills order b)) = io_qty_tenths order"
    "en_trades_total s + length (plan_fills order b) \<le> u64_max"
    "stage_positions order (en_positions s) [] (plan_fills order b) = Inr after"
    by (rule stage_fokE)
  let ?into = "borrow s b l0 True"
  have f: "rest_of_plan order (io_qty_tenths order) ?into = plan_fills order b"
    by (simp add: rest_of_plan_def plan_fills_def borrow_def)
  have "\<exists>into'. run_plan order (io_qty_tenths order) (plan_fills order b) ?into = Some (Crossed 0, into') \<and>
      commit_fok order (plan_fills order b) after (?into\<lparr>bt_ledger := l\<rparr>) = Some into'"
    using commit_fok_run_plan [of ?into "io_qty_tenths order" order "en_positions s" "[]" after l]
      bok q p fok(5) staged_view_start by (simp add: f) (simp add: borrow_def)
  moreover have "?into\<lparr>bt_ledger := l\<rparr> = borrow s b l True" by (simp add: borrow_def)
  moreover have "execute order (io_qty_tenths order) ?into =
      run_plan order (io_qty_tenths order) (plan_fills order b) ?into"
    using execute_run_plan [of ?into "io_qty_tenths order" order] bok q by (simp add: f) (simp add: borrow_def)
  ultimately have "execute_fok order p (borrow s b l True) = execute order (io_qty_tenths order) ?into"
    and "\<exists>x. execute order (io_qty_tenths order) ?into = Some (Crossed 0, x)"
    by (auto simp: execute_fok_def p)
  then show ?thesis using that [of l0 l] fok p(1) by simp
next
  case other
  show ?thesis
  proof (cases "is_funded (en_ledger s)")
    case True
    obtain l' where "stage_settlements order (plan_fills order b) l = Inr l'"
      using preflight_settles [OF other(3) True] q other(4) by auto
    then show ?thesis using that [of l l'] other by simp
  next
    case False
    then show ?thesis
      using that [of l l] other unfunded_settles [OF False, of order] by auto
  qed
qed

subsection \<open>Steps 5 and 6\<close>

definition settled :: "(string, book) bmap \<Rightarrow> incoming_order \<Rightarrow> book_and_trades \<Rightarrow> bool" where
  "settled books order into \<longleftrightarrow> book_ok (bt_book into) \<and> bmap_ok (bt_open_orders into) \<and>
     index_for (exec_live books order into) (map_of (bt_open_orders into)) \<and>
     (\<forall>t \<in> exec_live books order into. 0 < live_id t \<and> live_id t \<le> io_id order) \<and>
     backs (bt_ledger into) (exec_live books order into) \<and> tape_inv into"

lemma settled_exec:
  assumes "exec_ok books order left into" and "tape_inv into" and "backs l (exec_live books order into)"
  shows "settled books order (into\<lparr>bt_ledger := l\<rparr>)"
  using assms by (auto simp: exec_ok_def settled_def exec_live_def tape_inv_def dest: less_imp_le)

lemma release_order_ok:
  assumes "exec_ok books order left into" and "tape_inv into"
  shows "\<exists>into'. release_order (io_id order) into = Some into' \<and> settled books order into' \<and>
    lg_last_sequence (bt_ledger into') = lg_last_sequence (bt_ledger into) \<and>
    bt_open_orders into' = bt_open_orders into \<and> bt_positions into' = bt_positions into"
proof -
  obtain b l' where "release (bt_ledger into) (io_id order) = Inr (b, l')"
    "backs l' (exec_live books order into)" "lg_last_sequence l' = lg_last_sequence (bt_ledger into)"
    using backs_taker_release [of "bt_ledger into" "exec_live books order into" order left] assms(1)
    by (auto simp: exec_ok_def)
  then show ?thesis using settled_exec [OF assms] by (auto simp: release_order_def)
qed

lemma rest_order_tape: "tape_inv (rest_order order left into) = tape_inv into"
  by (simp add: tape_inv_def rest_order_def Let_def)

lemma remainder_policy_ok:
  assumes ok: "exec_ok books order left into" and tape: "tape_inv into"
    and left: "0 \<le> left" "left \<le> MAX_GRID_UNITS" "0 < io_id order"
    and none: "left = 0 \<or> next_fill order (bt_book into) left = None"
    and lim: "\<not> is_market order \<Longrightarrow> 0 < io_limit_cents order \<and> io_limit_cents order \<le> MAX_GRID_UNITS"
  shows "\<exists>into'. remainder_policy order left into = Some into' \<and> settled books order into' \<and>
    lg_last_sequence (bt_ledger into') = lg_last_sequence (bt_ledger into) \<and>
    length (bt_open_orders into') \<le> Suc (length (bt_open_orders into)) \<and>
    bt_positions into' = bt_positions into"
proof (cases "0 < left")
  case False
  then have "left = 0" using left by simp
  then have "backs (bt_ledger into) (exec_live books order into)"
    using ok backs_taker_done by (auto simp: exec_ok_def)
  then have "settled books order into" using settled_exec [OF ok tape, of "bt_ledger into"] by simp
  then show ?thesis using False by (simp add: remainder_policy_def)
next
  case True
  show ?thesis
  proof (cases "decide order left")
    case CancelRest
    then show ?thesis
      using True release_order_ok [OF ok tape] by (fastforce simp: remainder_policy_def)
  next
    case Rest
    then have "\<not> is_market order" by (auto simp: decide_def split: if_splits)
    with lim have p: "0 < io_limit_cents order" "io_limit_cents order \<le> MAX_GRID_UNITS" by auto
    have nf: "next_fill order (bt_book into) left = None" using none True by simp
    let ?into = "rest_order order left into"
    note r = exec_rest [OF ok True left(2) nf p]
    have "0 < live_id t \<and> live_id t \<le> io_id order" if "t \<in> exec_live books order ?into" for t
      using that ok left(3) unfolding r(2) by (auto simp: exec_ok_def dest: less_imp_le)
    then have "settled books order ?into"
      using r(1,3,4,5) tape by (simp add: settled_def rest_order_tape)
    moreover have "lg_last_sequence (bt_ledger ?into) = lg_last_sequence (bt_ledger into)"
      by (simp add: rest_order_def Let_def)
    moreover have "length (bt_open_orders ?into) \<le> Suc (length (bt_open_orders into))"
      by (simp add: rest_order_def Let_def length_bput_le)
    moreover have "bt_positions ?into = bt_positions into" by (simp add: rest_order_def Let_def)
    ultimately show ?thesis using True Rest by (simp add: remainder_policy_def)
  qed
qed

lemma give_back_fields [simp]:
  "en_open_orders (give_back s x into) = bt_open_orders into" "en_ledger (give_back s x into) = bt_ledger into"
  "en_positions (give_back s x into) = bt_positions into" "en_trades (give_back s x into) = bt_trades into"
  "en_trades_total (give_back s x into) = bt_trades_total into" "en_candles (give_back s x into) = bt_candles into"
  "en_symbols (give_back s x into) = en_symbols s" "en_mids (give_back s x into) = en_mids s"
  "en_books (give_back s x into) = bput (en_books s) x (bt_book into)" "en_limits (give_back s x into) = en_limits s"
  by (simp_all add: give_back_def)

lemma prune_fields [simp]:
  "en_open_orders (prune s x) = en_open_orders s" "en_ledger (prune s x) = en_ledger s"
  "en_positions (prune s x) = en_positions s" "en_trades (prune s x) = en_trades s"
  "en_trades_total (prune s x) = en_trades_total s" "en_candles (prune s x) = en_candles s"
  "en_symbols (prune s x) = en_symbols s" "en_mids (prune s x) = en_mids s"
  "en_books (prune s x) = prune_book (en_books s) x" "en_limits (prune s x) = en_limits s"
  by (simp_all add: prune_def)

text \<open>Whatever the outcome, the borrowed state goes back, the book is pruned and the mid observed.\<close>

lemma close_desk:
  assumes books: "books_ok books" "no_empty_book books" and b: "book_ok b"
    and f: "en_books s = bput books x b" and opn: "bmap_ok (en_open_orders s)"
    and idx: "index_for (live (bput books x b)) (map_of (en_open_orders s))"
    and ids: "\<forall>t \<in> live (bput books x b). 0 < live_id t \<and> live_id t \<le> n"
    and bk: "backs (en_ledger s) (live (bput books x b))"
    and rc: "record_ok s" and mk: "market_ok s"
  shows "desk_ok n (observe_mid (prune s x) x t) \<and> record_ok (observe_mid (prune s x) x t) \<and>
    market_ok (observe_mid (prune s x) x t)"
proof -
  let ?s = "observe_mid (prune s x) x t"
  have e: "en_books ?s = prune_book (bput books x b) x" by (simp add: f)
  have bok: "books_ok (en_books ?s)" unfolding e by (intro books_ok_prune books_ok_put books b)
  have "no_empty_book (en_books ?s)" unfolding e using books by (intro prune_no_empty) (simp_all add: books_ok_def)
  then have "desk_ok n ?s"
    using bok opn idx ids bk by (simp add: desk_ok_def f live_prune)
  moreover have "record_ok ?s" using rc by (simp add: record_ok_def)
  moreover have "mids_live 1 MAX_GRID_UNITS (en_mids ?s)"
    using observe_mid_live [of "prune s x" x t] mk bok by (simp add: market_ok_def)
  ultimately show ?thesis using mk by (simp add: market_ok_def)
qed

definition close_order :: "matcher_state \<Rightarrow> incoming_order \<Rightarrow> matcher_state" where
  "close_order s order = observe_mid (prune s (io_symbol order)) (io_symbol order) (io_timestamp order)"

lemma close_order_ok:
  assumes "settled books order into" and "books_ok books" "no_empty_book books" and "market_ok s"
    and "en_books s = bput books (io_symbol order) (bt_book into)"
      "en_open_orders s = bt_open_orders into" "en_ledger s = bt_ledger into"
      "en_positions s = bt_positions into" "en_trades s = bt_trades into"
      "en_trades_total s = bt_trades_total into" "en_candles s = bt_candles into"
  shows "desk_ok (io_id order) (close_order s order) \<and> record_ok (close_order s order) \<and>
    market_ok (close_order s order)"
  unfolding close_order_def
  by (rule close_desk [of books "bt_book into"])
    (use assms in \<open>simp_all add: settled_def exec_live_def record_ok_def tape_inv_def\<close>)

text \<open>What an admitted, staged order does: it runs its plan on the borrowed state.\<close>

lemma order_executed:
  assumes d: "desk_ok n s" and rc: "record_ok s"
    and b: "b = bget_or empty_book (en_books s) (io_symbol order)"
    and s1: "s1 = s\<lparr>en_books := bput (en_books s) (io_symbol order) b\<rparr>"
    and st: "stage_order s1 order b = Some (Inr (plan, l))"
    and o': "io_id order = Suc n" "0 < io_qty_tenths order"
  obtains m into l0 left where "run_order s1 order b plan l =
      (case m of
         Overflowed _ \<Rightarrow>
           do { x \<leftarrow> release_order (io_id order) into;
                Some (close_order (count_ignored (give_back s1 (io_symbol order) x) PositionOverflow) order) }
       | Crossed r \<Rightarrow>
           do { x \<leftarrow> remainder_policy order r into;
                Some (close_order (give_back s1 (io_symbol order) x) order) })"
    and "run_plan order (io_qty_tenths order) (plan_fills order b) (borrow s1 b l0 (plan \<noteq> None)) = Some (m, into)"
    and "exec_ok (en_books s) order left into" and "tape_inv into"
    and "0 \<le> left" and "left \<le> io_qty_tenths order"
    and "m = Crossed left \<and> (left = 0 \<or> next_fill order (bt_book into) left = None) \<or> m = Overflowed left"
    and "io_time_in_force order = FillOrKill \<longrightarrow> m = Crossed 0"
    and "lg_last_sequence (bt_ledger into) = lg_last_sequence (en_ledger s)"
    and "length (bt_open_orders into) \<le> length (en_open_orders s)"
    and "fst ` set (bt_positions into) \<subseteq> fst ` set (en_positions s) \<union> fill_keys order (plan_fills order b)"
proof -
  let ?books = "en_books s"
  have books: "books_ok ?books" using d by (simp add: desk_ok_def)
  have bok: "book_ok b" using books_ok_get_or [OF books] by (simp add: b)
  obtain l0 l' where l0: "reserve_order (en_ledger s1) order = Inr l0"
    and set: "stage_settlements order (plan_fills order b) l0 = Inr l'"
    and ex: "(case plan of Some p \<Rightarrow> execute_fok order p (borrow s1 b l (plan \<noteq> None))
        | None \<Rightarrow> execute order (io_qty_tenths order) (borrow s1 b l (plan \<noteq> None))) =
      execute order (io_qty_tenths order) (borrow s1 b l0 (plan \<noteq> None))"
    and fok: "io_time_in_force order = FillOrKill \<longrightarrow> plan \<noteq> None \<and>
      (\<exists>x. execute order (io_qty_tenths order) (borrow s1 b l0 (plan \<noteq> None)) = Some (Crossed 0, x))"
    using staged_execution [OF st bok o'(2)] by blast
  let ?into = "borrow s1 b l0 (plan \<noteq> None)"
  have into: "bt_book ?into = b" "bt_ledger ?into = l0" "bt_open_orders ?into = en_open_orders s"
    "bt_positions ?into = en_positions s" "bt_trades ?into = en_trades s"
    "bt_trades_total ?into = en_trades_total s" "bt_candles ?into = en_candles s"
    "bt_plan_committed ?into = (plan \<noteq> None)"
    by (simp_all add: borrow_def s1)
  have L: "exec_live ?books order ?into = live ?books"
    by (simp only: exec_live_def into(1)) (simp add: b live_entry)
  have fresh: "\<forall>t \<in> live ?books. live_id t \<noteq> io_id order"
    using d o'(1) by (fastforce simp: desk_ok_def)
  have bk: "backs_taker l0 (live ?books) order (io_qty_tenths order)"
    "lg_last_sequence l0 = lg_last_sequence (en_ledger s)"
    using backs_reserve [OF _ l0 fresh] d o'(2) by (simp_all add: desk_ok_def s1)
  have ok0: "exec_ok ?books order (io_qty_tenths order) ?into"
    using d bok bk(1) o'(1) unfolding exec_ok_def L into by (simp add: desk_ok_def less_Suc_eq_le)
  have tape0: "tape_inv ?into" using rc unfolding tape_inv_def into by (simp add: record_ok_def)
  have rp: "rest_of_plan order (io_qty_tenths order) ?into = plan_fills order b"
    unfolding rest_of_plan_def plan_fills_def into ..
  have st0: "stage_settlements order (rest_of_plan order (io_qty_tenths order) ?into) (bt_ledger ?into) = Inr l'"
    unfolding rp into by (rule set)
  have fok0: "io_time_in_force order = FillOrKill \<Longrightarrow> bt_plan_committed ?into"
    unfolding into using fok by blast
  obtain m into1 left where e: "execute order (io_qty_tenths order) ?into = Some (m, into1)"
    and ok1: "exec_ok ?books order left into1" and tape1: "tape_inv into1"
    and left: "0 \<le> left" "left \<le> io_qty_tenths order"
    and m: "m = Crossed left \<and> (left = 0 \<or> next_fill order (bt_book into1) left = None) \<or> m = Overflowed left"
    and seq: "lg_last_sequence (bt_ledger into1) = lg_last_sequence (bt_ledger ?into)"
    and len: "length (bt_open_orders into1) \<le> length (bt_open_orders ?into)"
    and keys: "fst ` set (bt_positions into1) \<subseteq> fst ` set (bt_positions ?into) \<union>
      fill_keys order (rest_of_plan order (io_qty_tenths order) ?into)"
    by (rule execute_exec [OF ok0 tape0 less_imp_le [OF o'(2)] st0 fok0]) (assumption, rule that)
  have "run_plan order (io_qty_tenths order) (plan_fills order b) ?into = Some (m, into1)"
    using execute_run_plan [of ?into "io_qty_tenths order" order] e bok o'(2) unfolding rp into by simp
  moreover have "run_order s1 order b plan l =
      (case m of
         Overflowed _ \<Rightarrow>
           do { x \<leftarrow> release_order (io_id order) into1;
                Some (close_order (count_ignored (give_back s1 (io_symbol order) x) PositionOverflow) order) }
       | Crossed r \<Rightarrow>
           do { x \<leftarrow> remainder_policy order r into1;
                Some (close_order (give_back s1 (io_symbol order) x) order) })"
    unfolding run_order_def Let_def ex e by (cases m) (simp_all add: close_order_def)
  moreover have "io_time_in_force order = FillOrKill \<longrightarrow> m = Crossed 0" using fok e by auto
  ultimately show thesis
    using that ok1 tape1 left m seq [unfolded into(2) bk(2)] len [unfolded into(3)] keys [unfolded rp into(4)]
    by metis
qed

lemma run_order_ok:
  assumes d: "desk_ok n s" and rc: "record_ok s" and mk: "market_ok s"
    and b: "b = bget_or empty_book (en_books s) (io_symbol order)"
    and s1: "s1 = s\<lparr>en_books := bput (en_books s) (io_symbol order) b\<rparr>"
    and st: "stage_order s1 order b = Some (Inr (plan, l))"
    and o': "io_id order = Suc n" "0 < io_qty_tenths order" "io_qty_tenths order \<le> MAX_GRID_UNITS"
    and lim: "\<not> is_market order \<Longrightarrow> 0 < io_limit_cents order \<and> io_limit_cents order \<le> MAX_GRID_UNITS"
  shows "\<exists>s'. run_order s1 order b plan l = Some s' \<and>
    desk_ok (Suc n) s' \<and> record_ok s' \<and> market_ok s' \<and>
    lg_last_sequence (en_ledger s') = lg_last_sequence (en_ledger s) \<and>
    length (en_open_orders s') \<le> Suc (length (en_open_orders s)) \<and>
    en_symbols s' = en_symbols s \<and> en_limits s' = en_limits s \<and>
    fst ` set (en_positions s') \<subseteq> fst ` set (en_positions s) \<union> fill_keys order (plan_fills order b)"
proof -
  let ?books = "en_books s"
  have books: "books_ok ?books" "no_empty_book ?books" using d by (simp_all add: desk_ok_def)
  obtain m into1 l0 left where run: "run_order s1 order b plan l =
      (case m of
         Overflowed _ \<Rightarrow>
           do { x \<leftarrow> release_order (io_id order) into1;
                Some (close_order (count_ignored (give_back s1 (io_symbol order) x) PositionOverflow) order) }
       | Crossed r \<Rightarrow>
           do { x \<leftarrow> remainder_policy order r into1;
                Some (close_order (give_back s1 (io_symbol order) x) order) })"
    and ok1: "exec_ok ?books order left into1" and tape1: "tape_inv into1"
    and left: "0 \<le> left" "left \<le> io_qty_tenths order"
    and m: "m = Crossed left \<and> (left = 0 \<or> next_fill order (bt_book into1) left = None) \<or> m = Overflowed left"
    and seq: "lg_last_sequence (bt_ledger into1) = lg_last_sequence (en_ledger s)"
    and len: "length (bt_open_orders into1) \<le> length (en_open_orders s)"
    and keys: "fst ` set (bt_positions into1) \<subseteq> fst ` set (en_positions s) \<union> fill_keys order (plan_fills order b)"
    by (rule order_executed [OF d rc b s1 st o'(1,2)]) (rule that)
  have mk1: "market_ok s1" using mk by (simp add: s1 market_ok_def)
  have idp: "0 < io_id order" using o'(1) by simp
  have gb: "en_books (give_back s1 (io_symbol order) x) = bput ?books (io_symbol order) (bt_book x)" for x
    using bm.put_put [of ?books "io_symbol order" b] books(1) by (simp add: s1 books_ok_def)
  have closed: "desk_ok (Suc n) (close_order t order) \<and> record_ok (close_order t order) \<and> market_ok (close_order t order) \<and>
      lg_last_sequence (en_ledger (close_order t order)) = lg_last_sequence (en_ledger s) \<and>
      length (en_open_orders (close_order t order)) \<le> Suc (length (en_open_orders s)) \<and>
      en_symbols (close_order t order) = en_symbols s \<and> en_limits (close_order t order) = en_limits s \<and>
      fst ` set (en_positions (close_order t order)) \<subseteq> fst ` set (en_positions s) \<union> fill_keys order (plan_fills order b)"
    if t: "t = give_back s1 (io_symbol order) x \<or> t = count_ignored (give_back s1 (io_symbol order) x) w"
      and x: "settled ?books order x" "lg_last_sequence (bt_ledger x) = lg_last_sequence (bt_ledger into1)"
        "length (bt_open_orders x) \<le> Suc (length (bt_open_orders into1))"
        "bt_positions x = bt_positions into1" for t x w
  proof -
    have "desk_ok (io_id order) (close_order t order) \<and> record_ok (close_order t order) \<and> market_ok (close_order t order)"
      using t mk1 by (intro close_order_ok [OF x(1) books]) (auto simp: market_ok_def gb simp del: give_back_fields(9))
    moreover have "lg_last_sequence (en_ledger (close_order t order)) = lg_last_sequence (en_ledger s)"
      using t x(2) seq by (auto simp: close_order_def)
    moreover have "length (en_open_orders (close_order t order)) \<le> Suc (length (en_open_orders s))"
      using t x(3) len by (auto simp: close_order_def)
    moreover have "en_symbols (close_order t order) = en_symbols s \<and> en_limits (close_order t order) = en_limits s"
      using t by (auto simp: close_order_def s1)
    moreover have "en_positions (close_order t order) = bt_positions into1"
      using t x(4) by (auto simp: close_order_def)
    ultimately show ?thesis using o'(1) keys by simp
  qed
  show ?thesis
  proof (cases m)
    case (Overflowed r)
    obtain x where "release_order (io_id order) into1 = Some x" "settled ?books order x"
      "lg_last_sequence (bt_ledger x) = lg_last_sequence (bt_ledger into1)"
      "bt_open_orders x = bt_open_orders into1" "bt_positions x = bt_positions into1"
      using release_order_ok [OF ok1 tape1] by blast
    moreover from this(1) have "run_order s1 order b plan l =
        Some (close_order (count_ignored (give_back s1 (io_symbol order) x) PositionOverflow) order)"
      unfolding run Overflowed by simp
    ultimately show ?thesis
      using closed [of "count_ignored (give_back s1 (io_symbol order) x) PositionOverflow" x PositionOverflow] by simp
  next
    case (Crossed r)
    with m have r: "r = left" "left = 0 \<or> next_fill order (bt_book into1) left = None" by auto
    obtain x where "remainder_policy order left into1 = Some x" "settled ?books order x"
      "lg_last_sequence (bt_ledger x) = lg_last_sequence (bt_ledger into1)"
      "length (bt_open_orders x) \<le> Suc (length (bt_open_orders into1))"
      "bt_positions x = bt_positions into1"
      using remainder_policy_ok [OF ok1 tape1 left(1) _ idp r(2) lim] left(2) o'(3) by auto
    moreover from this(1) have "run_order s1 order b plan l =
        Some (close_order (give_back s1 (io_symbol order) x) order)"
      unfolding run Crossed r(1) by simp
    ultimately show ?thesis
      using closed [of "give_back s1 (io_symbol order) x" x] by simp
  qed
qed

subsection \<open>The whole handler\<close>

text \<open>What a handler leaves: the invariant with one more sequence number, and the ledger's cursor
  where it was.\<close>

definition kept :: "nat \<Rightarrow> matcher_state \<Rightarrow> matcher_state \<Rightarrow> bool" where
  "kept n s s' \<longleftrightarrow> desk_ok (Suc n) s' \<and> record_ok s' \<and> market_ok s' \<and>
     lg_last_sequence (en_ledger s') = lg_last_sequence (en_ledger s) \<and>
     en_limits s' = en_limits s \<and> (validate_resource_capacity s \<longrightarrow> validate_resource_capacity s')"

lemma kept_same:
  assumes "desk_ok n s" and "record_ok s" and "market_ok s"
    and "en_books s' = en_books s" "en_open_orders s' = en_open_orders s" "en_ledger s' = en_ledger s"
    and "en_positions s' = en_positions s" "en_trades s' = en_trades s"
    and "en_trades_total s' = en_trades_total s" "en_candles s' = en_candles s"
    and "en_symbols s' = en_symbols s" "en_mids s' = en_mids s" "en_limits s' = en_limits s"
  shows "kept n s s'"
  using desk_ok_mono [OF assms(1), of "Suc n"] assms
  by (cases "en_limits s") (simp_all add: kept_def desk_ok_def record_ok_def market_ok_def validate_resource_capacity_def)

lemma prune_back:
  assumes "bmap_ok books" and "no_empty_book books"
  shows "prune_book (bput books x (bget_or empty_book books x)) x = books"
proof (cases "map_of books x")
  case None
  then show ?thesis
    using bm.del_put [OF assms(1) None] by (simp add: prune_book_def bget_or_def empty_book_def)
next
  case (Some b)
  have "bids b \<noteq> [] \<or> asks b \<noteq> []"
    using assms(2) map_of_list_all [OF _ Some] by (fastforce simp: no_empty_book_def)
  then show ?thesis
    using bm.put_same [OF assms(1) Some] Some by (auto simp: prune_book_def bget_or_def)
qed

lemma apply_resolved_ok:
  assumes d: "desk_ok n s" and rc: "record_ok s" and mk: "market_ok s"
    and o': "io_id order = Suc n" "0 < io_qty_tenths order" "io_qty_tenths order \<le> MAX_GRID_UNITS"
    and lim: "0 < io_limit_cents order" "io_limit_cents order \<le> MAX_GRID_UNITS"
  shows "\<exists>s'. apply_resolved s order = Some s' \<and> kept n s s'"
proof (cases "(case en_limits s of None \<Rightarrow> False | Some l \<Rightarrow> max_active_orders l \<le> length (en_open_orders s)) \<or>
    (\<exists>why. validate_order order (map_of (en_books s) (io_symbol order)) = Inl why)")
  case True
  then have "\<exists>why. apply_resolved s order = Some (count_ignored s why)"
    unfolding apply_resolved_def by (elim disjE exE) (simp, blast)+
  then obtain why where "apply_resolved s order = Some (count_ignored s why)" by blast
  moreover have "kept n s (count_ignored s why)" by (rule kept_same [OF d rc mk]) simp_all
  ultimately show ?thesis by blast
next
  case False
  let ?b = "bget_or empty_book (en_books s) (io_symbol order)"
  let ?s1 = "s\<lparr>en_books := bput (en_books s) (io_symbol order) ?b\<rparr>"
  have cap: "\<not> (case en_limits s of None \<Rightarrow> False | Some l \<Rightarrow> max_active_orders l \<le> length (en_open_orders s))"
    and v: "validate_order order (map_of (en_books s) (io_symbol order)) = Inr ()"
    using False by (auto, cases "validate_order order (map_of (en_books s) (io_symbol order))") auto
  have ref: "kept n s (refuse ?s1 (io_symbol order) why)" for why
    using d prune_back by (intro kept_same [OF d rc mk]) (simp_all add: refuse_def desk_ok_def books_ok_def)
  show ?thesis
  proof (cases "admit_order ?s1 order ?b")
    case (Inl why)
    then show ?thesis using ref [of why] cap v by (simp add: apply_resolved_def Let_def)
  next
    case (Inr order')
    obtain limit where order': "order' = order\<lparr>io_limit_cents := limit\<rparr>"
      "\<not> is_market order \<longrightarrow> limit = io_limit_cents order"
      using Inr by (rule admit_order_fields)
    have fields: "io_symbol order' = io_symbol order" "io_id order' = Suc n"
      "0 < io_qty_tenths order'" "io_qty_tenths order' \<le> MAX_GRID_UNITS"
      "\<not> is_market order' \<Longrightarrow> 0 < io_limit_cents order' \<and> io_limit_cents order' \<le> MAX_GRID_UNITS"
      using o' lim order' by (auto simp: is_market_def)
    obtain r where r: "stage_order ?s1 order' ?b = Some r" using stage_order_returns by blast
    show ?thesis
    proof (cases r)
      case (Inl why)
      then show ?thesis using ref [of why] cap v r Inr by (simp add: apply_resolved_def Let_def)
    next
      case (Inr pl)
      then obtain plan l where st: "stage_order ?s1 order' ?b = Some (Inr (plan, l))" using r by (cases pl) auto
      from run_order_ok [OF d rc mk _ _ st fields(2-5)] obtain s' where
        s': "run_order ?s1 order' ?b plan l = Some s'" "desk_ok (Suc n) s'" "record_ok s'" "market_ok s'"
        "lg_last_sequence (en_ledger s') = lg_last_sequence (en_ledger s)"
        "length (en_open_orders s') \<le> Suc (length (en_open_orders s))"
        "en_limits s' = en_limits s" "en_symbols s' = en_symbols s"
        "fst ` set (en_positions s') \<subseteq> fst ` set (en_positions s) \<union> fill_keys order' (plan_fills order' ?b)"
        unfolding fields(1) by blast
      have room: "length (en_positions s') \<le> max_positions lm"
        if "en_limits s = Some lm" "length (en_positions s) \<le> max_positions lm" for lm
        using check_positions_room [of lm order' ?b "en_positions s" "en_positions s'"] that s'(3,9) rc fields(3)
          admit_order_positions [OF \<open>admit_order ?s1 order ?b = Inr order'\<close>, of lm]
        by (simp add: record_ok_def positions_ok_def fill_keys_def)
      have "kept n s s'"
        using s' cap room by (auto simp: kept_def validate_resource_capacity_def not_less split: option.splits)
      then show ?thesis
        using s'(1) st cap v \<open>admit_order ?s1 order ?b = Inr order'\<close> by (simp add: apply_resolved_def Let_def)
    qed
  qed
qed

lemma resolve_returns:
  assumes "registry_ok r"
  shows "\<exists>x. resolve r symbol price quantity = Some x \<and>
    (\<forall>p q. x = Inr (p, q) \<longrightarrow> 0 < p \<and> p \<le> MAX_GRID_UNITS \<and> 0 < q \<and> q \<le> MAX_GRID_UNITS)"
proof (cases "registry_listing r symbol")
  case (Some l)
  then have "price_step_cents l \<noteq> 0" "quantity_step_tenths l \<noteq> 0"
    using registry_listing_steps [OF assms Some] by auto
  then show ?thesis
    using Some to_grid_range
    by (fastforce simp: resolve_def on_steps_def checked_rem_def split: option.splits)
qed (simp add: resolve_def)

lemma apply_new_ok:
  assumes "desk_ok n s" and "record_ok s" and "market_ok s"
  shows "\<exists>s'. apply_new s (Suc n) t a symbol sd price quantity terms = Some s' \<and> kept n s s'"
proof -
  have "registry_ok (en_symbols s)" using assms(3) by (simp add: market_ok_def)
  from resolve_returns [OF this] obtain x where x: "resolve (en_symbols s) symbol price quantity = Some x"
    and pq: "\<And>p q. x = Inr (p, q) \<Longrightarrow> 0 < p \<and> p \<le> MAX_GRID_UNITS \<and> 0 < q \<and> q \<le> MAX_GRID_UNITS"
    by blast
  show ?thesis
  proof (cases x)
    case (Inl why)
    have "kept n s (count_ignored s why)" by (rule kept_same [OF assms]) simp_all
    then show ?thesis using x Inl by (simp add: apply_new_def)
  next
    case (Inr p)
    then obtain p q where x': "x = Inr (p, q)" by (cases p) simp
    show ?thesis
      using pq [OF x'] x x' apply_resolved_ok [OF assms] by (simp add: apply_new_def)
  qed
qed

end
