(* ===== verification/Engine_Preserve.thy ===== *)
theory Engine_Preserve
  imports Engine_Order
begin

section \<open>Every message keeps the engine's invariant\<close>

text \<open>
  Cancels, listings, delistings and rule changes, then the dispatch and the bookkeeping around
  it: applying the next message of the log never panics and keeps the invariant; applying any
  other message changes nothing.
\<close>

subsection \<open>Cancel\<close>

lemma resting_owner_Some:
  assumes "resting_owner s target = Some owner"
  obtains ref b level r where "map_of (en_open_orders s) target = Some ref"
    and "map_of (en_books s) (ref_symbol ref) = Some b"
    and "map_of (own_side (ref_side ref) b) (ref_price_cents ref) = Some level"
    and "r \<in> set level" and "ro_id r = target" and "ro_account r = owner"
  using assms that by (auto simp: resting_owner_def bind_eq_Some_conv find_Some_iff) (metis nth_mem)

lemma resting_owner_None:
  assumes "index_for (live (en_books s)) (map_of (en_open_orders s))" and "resting_owner s target = None"
  shows "map_of (en_open_orders s) target = None"
proof (rule ccontr)
  assume "map_of (en_open_orders s) target \<noteq> None"
  then obtain ref where ref: "map_of (en_open_orders s) target = Some ref" by auto
  then obtain r b where r: "ro_id r = target" "map_of (en_books s) (ref_symbol ref) = Some b"
    "resting b (ref_side ref) (ref_price_cents ref) r"
    using assms(1) unfolding index_for_def live_iff by blast
  then obtain lv where lv: "map_of (own_side (ref_side ref) b) (ref_price_cents ref) = Some lv" "r \<in> set lv"
    by (auto simp: resting_def)
  then have "find (\<lambda>x. ro_id x = target) lv \<noteq> None" using r(1) by (auto simp: find_None_iff)
  then show False using assms(2) ref r(2) lv(1) by (auto simp: resting_owner_def)
qed

lemma level_ok_filter: "level_ok lv \<Longrightarrow> filter P lv \<noteq> [] \<Longrightarrow> level_ok (filter P lv)"
  by (auto simp: level_ok_def list_all_iff sorted_wrt_map sorted_wrt_filter)

lemma remove_resting_ok:
  assumes "book_ok b" and lv: "map_of (own_side sd b) p = Some level"
  shows "book_ok (put_side sd b (remove_resting (own_side sd b) p target))"
    and "resting (put_side sd b (remove_resting (own_side sd b) p target)) sd' p' x \<longleftrightarrow>
      (if sd' = sd \<and> p' = p then resting b sd' p' x \<and> ro_id x \<noteq> target else resting b sd' p' x)"
proof -
  let ?l = "own_side sd b" and ?new = "remove_resting (own_side sd b) p target"
  have sok: "side_ok ?l" using assms(1) by (rule side_ok_own)
  have mem: "(p, level) \<in> set ?l" using lv by (rule map_of_SomeD)
  have l: "0 < p" "p \<le> MAX_GRID_UNITS" "level_ok level"
    using sok mem by (auto simp: side_ok_def list_all_iff)
  have "side_ok ?new"
    using sok l level_ok_filter [OF l(3)] by (auto simp: remove_resting_def lv Let_def side_ok_del side_ok_put)
  moreover have "fst ` set ?new \<subseteq> fst ` set ?l"
    using mem by (auto simp: remove_resting_def lv Let_def bdel_def keys_bput rev_image_eqI)
  ultimately show "book_ok (put_side sd b ?new)" using book_ok_shrink [OF assms(1)] by blast
  show "resting (put_side sd b ?new) sd' p' x \<longleftrightarrow>
      (if sd' = sd \<and> p' = p then resting b sd' p' x \<and> ro_id x \<noteq> target else resting b sd' p' x)"
  proof (cases "filter (\<lambda>r. ro_id r \<noteq> target) level = []")
    case True
    then have "\<forall>r \<in> set level. ro_id r = target" by (simp add: filter_empty_conv)
    then show ?thesis
      using lv True by (auto simp: resting_put_side remove_resting_def Let_def) (auto simp: resting_def)
  next
    case False
    then show ?thesis
      using lv by (auto simp: resting_put_side remove_resting_def Let_def) (auto simp: resting_def)
  qed
qed

lemma record_in_fields [simp]:
  "en_books (record_in s c) = en_books s" "en_open_orders (record_in s c) = en_open_orders s"
  "en_ledger (record_in s c) = en_ledger s" "en_positions (record_in s c) = en_positions s"
  "en_trades (record_in s c) = en_trades s" "en_trades_total (record_in s c) = en_trades_total s"
  "en_candles (record_in s c) = en_candles s" "en_symbols (record_in s c) = en_symbols s"
  "en_mids (record_in s c) = en_mids s" "en_limits (record_in s c) = en_limits s"
  by (simp_all add: record_in_def)

lemma ignore_listing_fields [simp]:
  "en_books (ignore_listing s) = en_books s" "en_open_orders (ignore_listing s) = en_open_orders s"
  "en_ledger (ignore_listing s) = en_ledger s" "en_positions (ignore_listing s) = en_positions s"
  "en_trades (ignore_listing s) = en_trades s" "en_trades_total (ignore_listing s) = en_trades_total s"
  "en_candles (ignore_listing s) = en_candles s" "en_symbols (ignore_listing s) = en_symbols s"
  "en_mids (ignore_listing s) = en_mids s" "en_limits (ignore_listing s) = en_limits s"
  by (simp_all add: ignore_listing_def)

text \<open>The engine's parts depend on these fields only.\<close>

lemma desk_ok_cong:
  "en_books s' = en_books s \<Longrightarrow> en_open_orders s' = en_open_orders s \<Longrightarrow> en_ledger s' = en_ledger s \<Longrightarrow>
     desk_ok n s' = desk_ok n s"
  by (simp add: desk_ok_def)

lemma record_ok_cong:
  "en_positions s' = en_positions s \<Longrightarrow> en_trades s' = en_trades s \<Longrightarrow>
     en_trades_total s' = en_trades_total s \<Longrightarrow> en_candles s' = en_candles s \<Longrightarrow> record_ok s' = record_ok s"
  by (simp add: record_ok_def)

lemma market_ok_cong:
  "en_symbols s' = en_symbols s \<Longrightarrow> en_mids s' = en_mids s \<Longrightarrow> market_ok s' = market_ok s"
  by (simp add: market_ok_def)

lemma cancel_live:
  assumes books: "books_ok books" and u: "unique_ids (live books)"
    and b: "map_of books x = Some b" and lv: "map_of (own_side sd b) p = Some level"
    and r: "r \<in> set level" "ro_id r = target"
  shows "live (bput books x (put_side sd b (remove_resting (own_side sd b) p target))) =
    without (live books) target"
proof -
  have bok: "book_ok b" using books_ok_get [OF books b] .
  have same: "bput books x b = books"
    using bm.put_same [OF _ b] books by (simp add: books_ok_def)
  show ?thesis
    using live_after_fill [of books x b sd p r "put_side sd b (remove_resting (own_side sd b) p target)" 0]
      u remove_resting_ok(2) [OF bok lv, of target] lv r
    by (simp add: same resting_def)
qed

lemma apply_cancel_ok:
  assumes d: "desk_ok n s" and rc: "record_ok s" and mk: "market_ok s"
  shows "\<exists>s'. apply_cancel s account target t = Some s' \<and> kept n s s'"
proof (cases "resting_owner s target")
  case None
  have "map_of (en_open_orders s) target = None"
    using d None by (intro resting_owner_None) (simp_all add: desk_ok_def)
  then have "bdel (en_open_orders s) target = en_open_orders s"
    by (intro bdel_absent) (force simp: map_of_eq_None_iff)
  then have "kept n s (s\<lparr>en_open_orders := bdel (en_open_orders s) target,
      en_cancels_ignored := sat_add_u64 (en_cancels_ignored s) 1\<rparr>)"
    by (intro kept_same [OF assms]) simp_all
  then show ?thesis using None by (simp add: apply_cancel_def)
next
  case (Some owner)
  show ?thesis
  proof (cases "owner = account")
    case False
    then show ?thesis using Some kept_same [OF assms] by (simp add: apply_cancel_def)
  next
    case True
    obtain ref b level r where ref: "map_of (en_open_orders s) target = Some ref"
      and b: "map_of (en_books s) (ref_symbol ref) = Some b"
      and lv: "map_of (own_side (ref_side ref) b) (ref_price_cents ref) = Some level" "r \<in> set level"
      and r: "ro_id r = target"
      using Some by (rule resting_owner_Some)
    let ?L = "live (en_books s)" and ?x = "ref_symbol ref" and ?sd = "ref_side ref" and ?p = "ref_price_cents ref"
    have books: "books_ok (en_books s)" "no_empty_book (en_books s)"
      and idx: "index_for ?L (map_of (en_open_orders s))" and bk: "backs (en_ledger s) ?L"
      using d by (simp_all add: desk_ok_def)
    have bok: "book_ok b" using books_ok_get [OF books(1) b] .
    let ?b' = "put_side ?sd b (remove_resting (own_side ?sd b) ?p target)"
    note rm = remove_resting_ok [OF bok lv(1), of target]
    have L': "live (bput (en_books s) ?x ?b') = without ?L target"
      by (rule cancel_live [OF books(1) live_unique [OF books(1) idx] b lv r])
    obtain ok l where rel: "release (en_ledger s) target = Inr (ok, l)" and l: "backs l (without ?L target)"
      "lg_last_sequence l = lg_last_sequence (en_ledger s)"
      using backs_release [OF bk, of target] by blast
    let ?s1 = "s\<lparr>en_ledger := l, en_open_orders := bdel (en_open_orders s) target,
      en_books := bput (en_books s) ?x ?b'\<rparr>"
    let ?s2 = "observe_mid (prune ?s1 ?x) ?x t"
    have "desk_ok n ?s2 \<and> record_ok ?s2 \<and> market_ok ?s2"
    proof (rule close_desk [OF books rm(1)])
      show "index_for (live (bput (en_books s) ?x ?b')) (map_of (en_open_orders ?s1))"
        using index_without [OF idx, of target] by (simp add: L')
      show "\<forall>t \<in> live (bput (en_books s) ?x ?b'). 0 < live_id t \<and> live_id t \<le> n"
        using d unfolding L' by (simp add: desk_ok_def without_def)
      show "backs (en_ledger ?s1) (live (bput (en_books s) ?x ?b'))" using l by (simp add: L')
      show "record_ok ?s1" using rc by (simp add: record_ok_def)
      show "market_ok ?s1" using mk by (simp add: market_ok_def)
      show "bmap_ok (en_open_orders ?s1)" using d by (simp add: desk_ok_def)
    qed simp
    moreover let ?s3 = "record_in (?s2\<lparr>en_cancels_applied := sat_add_u64 (en_cancels_applied ?s2) 1\<rparr>) (OrderClosed target)"
    have "desk_ok n ?s3 = desk_ok n ?s2" "record_ok ?s3 = record_ok ?s2" "market_ok ?s3 = market_ok ?s2"
      by (simp_all add: desk_ok_def record_ok_def market_ok_def)
    moreover have "length (bdel (en_open_orders s) target) \<le> length (en_open_orders s)" by (rule length_bdel)
    ultimately have "kept n s ?s3"
      using l(2) desk_ok_mono [of n _ "Suc n"]
      by (auto simp: kept_def validate_resource_capacity_def split: option.splits)
    then show ?thesis using Some True rel ref b by (simp add: apply_cancel_def Let_def)
  qed
qed

subsection \<open>Operator messages\<close>

lemma apply_list_symbol_ok:
  assumes d: "desk_ok n s" and rc: "record_ok s" and mk: "market_ok s"
  shows "kept n s (apply_list_symbol s i symbol price_step quantity_step)"
proof -
  let ?s' = "apply_list_symbol s i symbol price_step quantity_step"
  have same: "kept n s (ignore_listing s)" by (rule kept_same [OF assms]) simp_all
  have "?s' = ignore_listing s \<or> (\<exists>p q. to_grid price_step 100 = Some p \<and> to_grid quantity_step 10 = Some q \<and>
      \<not> (case en_limits s of None \<Rightarrow> False | Some l \<Rightarrow> map_of (en_symbols s) symbol = None \<and>
           max_symbols l \<le> length (en_symbols s)) \<and>
      ?s' = record_in (s\<lparr>en_symbols := snd (registry_list (en_symbols s) symbol
          \<lparr>price_step_cents = p, quantity_step_tenths = q, is_listed = True, listed_by = i\<rparr>)\<rparr>)
        (SymbolListed \<lparr>lr_symbol = symbol, lr_price_step_cents = p, lr_quantity_step_tenths = q,
          lr_listed = True, lr_listed_by = i\<rparr>))"
    by (auto simp: apply_list_symbol_def Let_def split: option.splits)
  then show ?thesis
  proof (elim disjE exE conjE)
    fix p q
    assume g: "to_grid price_step 100 = Some p" "to_grid quantity_step 10 = Some q"
      and cap: "\<not> (case en_limits s of None \<Rightarrow> False | Some l \<Rightarrow> map_of (en_symbols s) symbol = None \<and>
           max_symbols l \<le> length (en_symbols s))"
      and s': "?s' = record_in (s\<lparr>en_symbols := snd (registry_list (en_symbols s) symbol
          \<lparr>price_step_cents = p, quantity_step_tenths = q, is_listed = True, listed_by = i\<rparr>)\<rparr>)
        (SymbolListed \<lparr>lr_symbol = symbol, lr_price_step_cents = p, lr_quantity_step_tenths = q,
          lr_listed = True, lr_listed_by = i\<rparr>)"
    let ?l = "\<lparr>price_step_cents = p, quantity_step_tenths = q, is_listed = True, listed_by = i\<rparr>"
    have reg: "registry_ok (en_symbols s)" using mk by (simp add: market_ok_def)
    have "registry_ok (snd (registry_list (en_symbols s) symbol ?l))"
      using registry_list_ok [OF reg, of ?l] to_grid_range [OF g(1)] to_grid_range [OF g(2)] by simp
    then have "market_ok ?s'" using mk by (simp add: s' market_ok_def)
    moreover have "desk_ok (Suc n) ?s'" "record_ok ?s'"
      using desk_ok_mono [OF d, of "Suc n"] rc by (simp_all add: s' desk_ok_def record_ok_def)
    moreover have "length (snd (registry_list (en_symbols s) symbol ?l)) \<le>
        (if map_of (en_symbols s) symbol = None then Suc (length (en_symbols s)) else length (en_symbols s))"
      using length_bput [of "en_symbols s" symbol ?l] reg by (simp add: registry_list_def registry_ok_def)
    then have "validate_resource_capacity s \<Longrightarrow> validate_resource_capacity ?s'"
      using cap by (auto simp: s' validate_resource_capacity_def split: option.splits if_splits)
    ultimately show ?thesis by (simp add: kept_def s')
  qed (simp add: same)
qed

text \<open>Closing the orders of a delisted book, one after the other.\<close>

definition closing :: "matcher_state \<Rightarrow> live_order set \<Rightarrow> bool" where
  "closing s L \<longleftrightarrow> bmap_ok (en_open_orders s) \<and> index_for L (map_of (en_open_orders s)) \<and> backs (en_ledger s) L"

lemma delist_orders_ok:
  assumes "closing s L"
  shows "\<exists>s'. delist_orders rs s = Some s' \<and> closing s' {t \<in> L. live_id t \<notin> ro_id ` set rs} \<and>
    lg_last_sequence (en_ledger s') = lg_last_sequence (en_ledger s) \<and>
    length (en_open_orders s') \<le> length (en_open_orders s) \<and>
    en_books s' = en_books s \<and> en_symbols s' = en_symbols s \<and> en_mids s' = en_mids s \<and>
    en_limits s' = en_limits s \<and> en_positions s' = en_positions s \<and> en_trades s' = en_trades s \<and>
    en_trades_total s' = en_trades_total s \<and> en_candles s' = en_candles s"
  using assms
proof (induction rs arbitrary: s L)
  case (Cons r rs)
  obtain ok l where rel: "release (en_ledger s) (ro_id r) = Inr (ok, l)" "backs l (without L (ro_id r))"
    "lg_last_sequence l = lg_last_sequence (en_ledger s)"
    using backs_release [of "en_ledger s" L "ro_id r"] Cons.prems by (auto simp: closing_def)
  let ?s1 = "record_in (s\<lparr>en_ledger := l, en_open_orders := bdel (en_open_orders s) (ro_id r)\<rparr>) (OrderClosed (ro_id r))"
  have "closing ?s1 (without L (ro_id r))"
    using Cons.prems rel(2) index_without [of L "map_of (en_open_orders s)" "ro_id r"]
    by (simp add: closing_def)
  from Cons.IH [OF this] obtain s' where s': "delist_orders rs ?s1 = Some s'"
    "closing s' {t \<in> without L (ro_id r). live_id t \<notin> ro_id ` set rs}"
    "lg_last_sequence (en_ledger s') = lg_last_sequence (en_ledger ?s1)"
    "length (en_open_orders s') \<le> length (en_open_orders ?s1)"
    "en_books s' = en_books ?s1 \<and> en_symbols s' = en_symbols ?s1 \<and> en_mids s' = en_mids ?s1 \<and>
    en_limits s' = en_limits ?s1 \<and> en_positions s' = en_positions ?s1 \<and> en_trades s' = en_trades ?s1 \<and>
    en_trades_total s' = en_trades_total ?s1 \<and> en_candles s' = en_candles ?s1" by blast
  moreover have "{t \<in> without L (ro_id r). live_id t \<notin> ro_id ` set rs} = {t \<in> L. live_id t \<notin> ro_id ` set (r # rs)}"
    by (auto simp: without_def)
  moreover have "length (en_open_orders ?s1) \<le> length (en_open_orders s)" by (simp add: length_bdel)
  ultimately show ?case using rel(1,3) le_trans [OF s'(4)] by simp
qed simp

lemma book_orders_resting: "side_ok (bids b) \<Longrightarrow> side_ok (asks b) \<Longrightarrow>
    r \<in> set (book_orders b) \<longleftrightarrow> (\<exists>sd p. resting b sd p r)"
proof -
  assume ok: "side_ok (bids b)" "side_ok (asks b)"
  have "r \<in> set (concat (map snd l)) \<longleftrightarrow> (\<exists>p lv. map_of l p = Some lv \<and> r \<in> set lv)" if "side_ok l" for l
    unfolding set_concat set_map UN_iff bm.entries_iff [OF side_ok_bmap [OF that], symmetric] by force
  moreover have "r \<in> set (book_orders b) \<longleftrightarrow>
      r \<in> set (concat (map snd (bids b))) \<or> r \<in> set (concat (map snd (asks b)))"
    by (simp add: book_orders_def)
  moreover have "(\<exists>sd p. resting b sd p r) \<longleftrightarrow> (\<exists>p. resting b Buy p r) \<or> (\<exists>p. resting b Sell p r)"
    by (metis side.exhaust)
  ultimately show ?thesis by (simp only: ok resting_def own_side.simps)
qed

lemma live_delist:
  assumes "books_ok books" and "unique_ids (live books)"
  shows "{t \<in> live books. live_id t \<notin> ro_id ` set (case map_of books x of None \<Rightarrow> [] | Some b \<Rightarrow> book_orders b)} =
    live (bdel books x)"
proof -
  have "(s, sd, p, r) \<in> live (bdel books x) \<longleftrightarrow> (s, sd, p, r) \<in> live books \<and> s \<noteq> x" for s sd p r
    by (auto simp: live_iff)
  moreover have "ro_id r \<in> ro_id ` set (case map_of books x of None \<Rightarrow> [] | Some b \<Rightarrow> book_orders b) \<longleftrightarrow> s = x"
    if t: "(s, sd, p, r) \<in> live books" for s sd p r
  proof
    assume s: "s = x"
    then obtain b where b: "map_of books x = Some b" "resting b sd p r" using t by (auto simp: live_iff)
    then have "r \<in> set (book_orders b)"
      using book_orders_resting [of b r] books_ok_get [OF assms(1) b(1)] by (auto simp: book_ok_def)
    then show "ro_id r \<in> ro_id ` set (case map_of books x of None \<Rightarrow> [] | Some b \<Rightarrow> book_orders b)"
      using b(1) by simp
  next
    assume "ro_id r \<in> ro_id ` set (case map_of books x of None \<Rightarrow> [] | Some b \<Rightarrow> book_orders b)"
    then obtain b r' where b: "map_of books x = Some b" "r' \<in> set (book_orders b)" "ro_id r' = ro_id r"
      by (cases "map_of books x") auto
    then obtain sd' p' where "resting b sd' p' r'"
      using book_orders_resting [of b r'] books_ok_get [OF assms(1) b(1)] by (auto simp: book_ok_def)
    then have "(x, sd', p', r') \<in> live books" using b(1) by (auto simp: live_iff)
    then show "s = x" using assms(2) t b(3) unfolding unique_ids_def by fastforce
  qed
  ultimately show ?thesis by fastforce
qed

lemma no_empty_del: "no_empty_book books \<Longrightarrow> no_empty_book (bdel books x)"
  by (auto simp: no_empty_book_def list_all_iff bdel_def)

lemma apply_delist_symbol_ok:
  assumes d: "desk_ok n s" and rc: "record_ok s" and mk: "market_ok s"
  shows "\<exists>s'. apply_delist_symbol s t symbol = Some s' \<and> kept n s s'"
proof (cases "fst (registry_delist (en_symbols s) symbol)")
  case False
  then show ?thesis using kept_same [OF assms, of "ignore_listing s"] by (simp add: apply_delist_symbol_def Let_def)
next
  case True
  let ?orders = "case map_of (en_books s) symbol of None \<Rightarrow> [] | Some b \<Rightarrow> book_orders b"
  let ?reg = "snd (registry_delist (en_symbols s) symbol)"
  let ?s1 = "s\<lparr>en_symbols := ?reg, en_books := bdel (en_books s) symbol\<rparr>"
  have books: "books_ok (en_books s)" and idx: "index_for (live (en_books s)) (map_of (en_open_orders s))"
    using d by (simp_all add: desk_ok_def)
  have "closing ?s1 (live (en_books s))" using d by (simp add: closing_def desk_ok_def)
  from delist_orders_ok [OF this, of ?orders] obtain s2 where s2: "delist_orders ?orders ?s1 = Some s2"
    "closing s2 (live (bdel (en_books s) symbol))"
    and f: "lg_last_sequence (en_ledger s2) = lg_last_sequence (en_ledger s)"
    "length (en_open_orders s2) \<le> length (en_open_orders s)"
    "en_books s2 = bdel (en_books s) symbol" "en_symbols s2 = ?reg" "en_mids s2 = en_mids s"
    "en_limits s2 = en_limits s" "en_positions s2 = en_positions s" "en_trades s2 = en_trades s"
    "en_trades_total s2 = en_trades_total s" "en_candles s2 = en_candles s"
    unfolding live_delist [OF books live_unique [OF books idx]] by auto
  let ?s3 = "s2\<lparr>en_orders_delisted := sat_add_u64 (en_orders_delisted s2) (length ?orders)\<rparr>"
  let ?s4 = "record_in (observe_mid ?s3 symbol t) (SymbolDelisted symbol)"
  have bok: "books_ok (bdel (en_books s) symbol)" using books by (rule books_ok_del)
  have "live (bdel (en_books s) symbol) \<subseteq> live (en_books s)" by (auto simp: live_iff split: if_splits)
  then have "desk_ok (Suc n) ?s4"
    using d bok s2(2) no_empty_del [of "en_books s" symbol]
    by (fastforce simp: desk_ok_def f closing_def)
  moreover have "record_ok ?s4" using rc by (simp add: record_ok_def f)
  moreover have "mids_live 1 MAX_GRID_UNITS (en_mids ?s4)"
    using observe_mid_live [of ?s3 symbol t] mk bok by (simp add: f market_ok_def)
  moreover have "registry_ok ?reg" using mk by (simp add: market_ok_def registry_delist_ok)
  moreover have "length ?reg = length (en_symbols s)"
    using True length_bput [of "en_symbols s" symbol] mk
    by (auto simp: registry_delist_def market_ok_def registry_ok_def split: option.splits if_splits)
  then have "validate_resource_capacity s \<Longrightarrow> validate_resource_capacity ?s4"
    using f(2) by (cases "en_limits s") (simp_all add: validate_resource_capacity_def f(4,6,7))
  ultimately have "kept n s ?s4" by (simp add: kept_def market_ok_def f)
  then show ?thesis using True s2(1) by (simp add: apply_delist_symbol_def Let_def)
qed

text \<open>The signature check only counts or remembers the key.\<close>

lemma operator_signed_kept:
  assumes "desk_ok n s" and "record_ok s" and "market_ok s" and "operator_signed cr s msg = (stands, s1)"
  shows "kept n s s1" "desk_ok n s1" "record_ok s1" "market_ok s1"
proof -
  have f: "en_books s1 = en_books s" "en_open_orders s1 = en_open_orders s" "en_ledger s1 = en_ledger s"
    "en_positions s1 = en_positions s" "en_trades s1 = en_trades s" "en_trades_total s1 = en_trades_total s"
    "en_candles s1 = en_candles s" "en_symbols s1 = en_symbols s" "en_mids s1 = en_mids s"
    "en_limits s1 = en_limits s"
    using assms(4) by (auto simp: operator_signed_def Let_def split: option.splits sum.splits if_splits)
  show "kept n s s1" using f by (intro kept_same [OF assms(1-3)]) simp_all
  show "desk_ok n s1" "record_ok s1" "market_ok s1"
    using assms(1-3) f by (simp_all add: desk_ok_def record_ok_def market_ok_def)
qed

lemma kept_trans:
  assumes "kept n s s1" and "kept n s1 s2"
  shows "kept n s s2"
  using assms by (simp add: kept_def)

lemma apply_rule_kept:
  assumes "desk_ok n s" and "record_ok s" and "market_ok s"
  shows "kept n s (apply_rule s version)"
  by (rule kept_same [OF assms]) (simp_all add: apply_rule_def split: option.splits)

subsection \<open>Dispatch\<close>

lemma dispatch_ok:
  assumes d: "desk_ok n s" and rc: "record_ok s" and mk: "market_ok s" and id: "msg_id msg = Suc n"
  shows "\<exists>s'. dispatch cr s msg = Some s' \<and> kept n s s'"
proof (cases msg)
  case (New i t a sym sd p q nonce ot tif post)
  then show ?thesis using apply_new_ok [OF d rc mk] id by (simp add: dispatch_def)
next
  case (Cancel i t a target nonce)
  then show ?thesis using apply_cancel_ok [OF d rc mk] by (simp add: dispatch_def)
next
  case (ListSymbol i t a sym p q nonce key sig)
  obtain st s1 where o': "operator_signed cr s msg = (st, s1)" by (cases "operator_signed cr s msg")
  note k = operator_signed_kept [OF d rc mk o']
  show ?thesis
    using ListSymbol o' k(1) kept_trans [OF k(1) apply_list_symbol_ok [OF k(2-4)]] by (simp add: dispatch_def)
next
  case (DelistSymbol i t a sym nonce key sig)
  obtain st s1 where o': "operator_signed cr s msg = (st, s1)" by (cases "operator_signed cr s msg")
  note k = operator_signed_kept [OF d rc mk o']
  show ?thesis
    using DelistSymbol o' k(1) apply_delist_symbol_ok [OF k(2-4), of t sym] kept_trans [OF k(1)]
    by (auto simp: dispatch_def)
next
  case (EngineRule i t a v nonce key sig)
  obtain st s1 where o': "operator_signed cr s msg = (st, s1)" by (cases "operator_signed cr s msg")
  note k = operator_signed_kept [OF d rc mk o']
  show ?thesis
    using EngineRule o' k(1) kept_trans [OF k(1) apply_rule_kept [OF k(2-4)]] by (simp add: dispatch_def)
qed

end
