(* ===== verification/Engine_Run.thy ===== *)
theory Engine_Run
  imports Engine_Preserve
begin

section \<open>The engine as a processor of the message log\<close>

text \<open>
  One message, then the log. \<open>log_processor\<close> is the contract between the engine and whoever
  feeds it: a message with the expected id is consumed and never fails, any other changes
  nothing. Its lemmas say that a feed with repeated or early messages leads to the state of
  its accepted subsequence. \<open>engine_reaches\<close> are the states an engine can be in.
\<close>

subsection \<open>One message\<close>

lemma consume_fields [simp]:
  "en_books (consume cr s msg raw) = en_books s" "en_open_orders (consume cr s msg raw) = en_open_orders s"
  "en_ledger (consume cr s msg raw) = en_ledger s" "en_positions (consume cr s msg raw) = en_positions s"
  "en_trades (consume cr s msg raw) = en_trades s" "en_trades_total (consume cr s msg raw) = en_trades_total s"
  "en_candles (consume cr s msg raw) = en_candles s" "en_symbols (consume cr s msg raw) = en_symbols s"
  "en_mids (consume cr s msg raw) = en_mids s" "en_limits (consume cr s msg raw) = en_limits s"
  "en_last_seen (consume cr s msg raw) = msg_id msg"
  by (simp_all add: consume_def record_in_def Let_def split: option.splits)

lemma finish_sequence_wf:
  assumes "ledger_wf l" and "Suc (lg_last_sequence l) \<le> u64_max"
  shows "finish_sequence l (Suc (lg_last_sequence l)) = Inr (l\<lparr>lg_last_sequence := Suc (lg_last_sequence l)\<rparr>)"
    and "ledger_wf (l\<lparr>lg_last_sequence := Suc (lg_last_sequence l)\<rparr>)"
proof -
  show f: "finish_sequence l (Suc (lg_last_sequence l)) = Inr (l\<lparr>lg_last_sequence := Suc (lg_last_sequence l)\<rparr>)"
    using assms(2) by (simp add: finish_sequence_def checked_add_u64_def require_def)
  show "ledger_wf (l\<lparr>lg_last_sequence := Suc (lg_last_sequence l)\<rparr>)"
    using assms(1) finish_inv [OF _ f] by (auto simp: ledger_wf_def is_funded_def)
qed

lemma apply_inner_next:
  assumes inv: "engine_inv s" and id: "msg_id msg = Suc (en_last_seen s)" and room: "en_last_seen s < u64_max"
  shows "\<exists>s'. apply_inner cr s msg raw = Some (Inr s') \<and> engine_inv s' \<and>
    en_last_seen s' = msg_id msg \<and> en_limits s' = en_limits s \<and>
    (validate_resource_capacity s \<longrightarrow> validate_resource_capacity s')"
proof -
  have parts: "desk_ok (en_last_seen s) s" "record_ok s" "market_ok s"
    and seq: "lg_last_sequence (en_ledger s) = en_last_seen s"
    using inv by (simp_all add: engine_inv_def)
  obtain s1 where s1: "dispatch cr s msg = Some s1" and k: "kept (en_last_seen s) s s1"
    using dispatch_ok [OF parts id] by blast
  have wf: "ledger_wf (en_ledger s1)" using k by (simp add: kept_def desk_ok_def backs_def)
  have seq1: "lg_last_sequence (en_ledger s1) = en_last_seen s" using k seq by (simp add: kept_def)
  let ?l = "(en_ledger s1)\<lparr>lg_last_sequence := msg_id msg\<rparr>"
  have fin: "finish_sequence (en_ledger s1) (msg_id msg) = Inr ?l" "ledger_wf ?l"
    using finish_sequence_wf [OF wf] room by (simp_all add: seq1 id)
  let ?s = "consume cr (s1\<lparr>en_ledger := ?l\<rparr>) msg raw"
  have "desk_ok (msg_id msg) ?s"
    using k fin(2) by (simp add: kept_def desk_ok_def id backs_def is_funded_def)
  moreover have "record_ok ?s" "market_ok ?s" using k by (simp_all add: kept_def record_ok_def market_ok_def)
  ultimately have "engine_inv ?s" using room by (simp add: engine_inv_def id)
  moreover have "validate_resource_capacity s \<longrightarrow> validate_resource_capacity ?s"
    using k by (cases "en_limits s") (auto simp: kept_def validate_resource_capacity_def)
  moreover have "apply_inner cr s msg raw = Some (Inr ?s)"
    using s1 fin(1) id room by (simp add: apply_inner_def next_expected_id_def sat_add_u64_def)
  ultimately show ?thesis using k by (intro exI [of _ ?s]) (simp add: kept_def)
qed

lemma apply_inner_other:
  "msg_id msg \<noteq> next_expected_id s \<Longrightarrow>
     apply_inner cr s msg raw = Some (Inl (OutOfOrder (next_expected_id s) (msg_id msg)))"
  by (simp add: apply_inner_def)

lemma next_expected: "en_last_seen s < u64_max \<Longrightarrow> next_expected_id s = Suc (en_last_seen s)"
  by (simp add: next_expected_id_def sat_add_u64_def)

lemma apply_inner_SomeD:
  assumes "en_last_seen s < u64_max" and "apply_inner cr s msg raw = Some (Inr s')"
  shows "msg_id msg = Suc (en_last_seen s)"
  using assms next_expected [of s] by (auto simp: apply_inner_def split: if_splits)

subsection \<open>Feeding a log\<close>

text \<open>\<open>None\<close> is a panic; a refused message leaves the state.\<close>

fun drive :: "('s \<Rightarrow> 'm \<Rightarrow> ('e + 's) option) \<Rightarrow> 's \<Rightarrow> 'm list \<Rightarrow> 's option" where
  "drive step s [] = Some s"
| "drive step s (m # ms) =
     (case step s m of
        None \<Rightarrow> None
      | Some (Inl e) \<Rightarrow> drive step s ms
      | Some (Inr t) \<Rightarrow> drive step t ms)"

text \<open>The messages a processor that expects \<open>n\<close> will consume.\<close>

fun accepted :: "('m \<Rightarrow> nat) \<Rightarrow> nat \<Rightarrow> 'm list \<Rightarrow> 'm list" where
  "accepted f n [] = []"
| "accepted f n (m # ms) = (if f m = n then m # accepted f (Suc n) ms else accepted f n ms)"

lemma accepted_ids: "map f (accepted f n ms) = [n ..< n + length (accepted f n ms)]"
  by (induction ms arbitrary: n) (auto simp: upt_rec)

lemma accepted_length: "length (accepted f n ms) \<le> length ms"
  by (induction ms arbitrary: n) (auto simp: le_SucI)

locale log_processor =
  fixes step :: "'s \<Rightarrow> 'm \<Rightarrow> ('e + 's) option"
    and id_of :: "'m \<Rightarrow> nat"
    and seen :: "'s \<Rightarrow> nat"
    and inv :: "'s \<Rightarrow> bool"
    and full :: nat
  assumes next_msg: "inv s \<Longrightarrow> seen s < full \<Longrightarrow> id_of m = Suc (seen s) \<Longrightarrow>
      \<exists>t. step s m = Some (Inr t) \<and> inv t \<and> seen t = Suc (seen s)"
    and other_msg: "inv s \<Longrightarrow> seen s < full \<Longrightarrow> id_of m \<noteq> Suc (seen s) \<Longrightarrow> \<exists>e. step s m = Some (Inl e)"
begin

lemma drive_returns:
  assumes "inv s" and "seen s + length (accepted id_of (Suc (seen s)) ms) < full"
  shows "\<exists>t. drive step s ms = Some t \<and> inv t \<and>
    seen t = seen s + length (accepted id_of (Suc (seen s)) ms) \<and>
    drive step s (accepted id_of (Suc (seen s)) ms) = Some t"
  using assms
proof (induction ms arbitrary: s)
  case (Cons m ms)
  have room: "seen s < full" using Cons.prems(2) by simp
  show ?case
  proof (cases "id_of m = Suc (seen s)")
    case True
    obtain t where t: "step s m = Some (Inr t)" "inv t" "seen t = Suc (seen s)"
      using next_msg [OF Cons.prems(1) room True] by blast
    then show ?thesis using Cons.IH [of t] Cons.prems(2) True by simp
  next
    case False
    obtain e where "step s m = Some (Inl e)" using other_msg [OF Cons.prems(1) room False] by blast
    then show ?thesis using Cons.IH [OF Cons.prems(1)] Cons.prems(2) False by simp
  qed
qed simp

end

interpretation engine: log_processor "apply_message cr" msg_id en_last_seen engine_inv u64_max for cr
proof
  fix s m assume s: "engine_inv s" "en_last_seen s < u64_max" and id: "msg_id m = Suc (en_last_seen s)"
  show "\<exists>t. apply_message cr s m = Some (Inr t) \<and> engine_inv t \<and> en_last_seen t = Suc (en_last_seen s)"
    using apply_inner_next [OF s(1) id s(2), of cr None] id by (auto simp: apply_message_def)
next
  fix s m assume s: "engine_inv s" "en_last_seen s < u64_max" and id: "msg_id m \<noteq> Suc (en_last_seen s)"
  then have "msg_id m \<noteq> next_expected_id s" by (simp add: next_expected)
  from apply_inner_other [OF this] show "\<exists>e. apply_message cr s m = Some (Inl e)"
    by (simp add: apply_message_def)
qed

subsection \<open>The states an engine can be in\<close>

inductive engine_starts :: "matcher_state \<Rightarrow> bool" where
  synthetic: "engine_starts (replaying session)"
| with_funds: "replaying_funded_simulation session config = Inr s \<Longrightarrow>
    \<forall>g \<in> set (fc_funding config). fu_units g \<le> i64_max \<Longrightarrow> engine_starts s"
| with_limits: "engine_starts s \<Longrightarrow> with_resource_limits s l = Inr s' \<Longrightarrow> engine_starts s'"

inductive engine_reaches :: "crypto \<Rightarrow> matcher_state \<Rightarrow> bool" for cr where
  start: "engine_starts s \<Longrightarrow> engine_reaches cr s"
| message: "engine_reaches cr s \<Longrightarrow> en_last_seen s < u64_max \<Longrightarrow>
    apply_inner cr s msg raw = Some (Inr s') \<Longrightarrow> engine_reaches cr s'"

lemma position_total_Nil [simp]: "position_total f s [] = 0"
  by (simp add: position_total_def)

definition fresh :: "matcher_state \<Rightarrow> bool" where
  "fresh s \<longleftrightarrow> en_books s = [] \<and> en_open_orders s = [] \<and> en_positions s = [] \<and> en_trades s = [] \<and>
     en_trades_total s = 0 \<and> en_candles s = empty_cache \<and> en_symbols s = [] \<and> en_mids s = [] \<and>
     en_last_seen s = 0 \<and> ledger_wf (en_ledger s) \<and> lg_reservations (en_ledger s) = [] \<and>
     lg_last_sequence (en_ledger s) = 0"

lemma fresh_inv: "fresh s \<Longrightarrow> engine_inv s \<and> validate_resource_capacity s"
  by (auto simp: fresh_def engine_inv_def desk_ok_def record_ok_def market_ok_def books_ok_def
      no_empty_book_def live_def index_for_def backs_def covers_def positions_ok_def tape_ok_def
      cache_ok_def empty_cache_def registry_ok_def mids_live_def validate_resource_capacity_def
      split: option.splits)

lemma synthetic_wf: "ledger_wf synthetic_legacy"
  by (simp add: ledger_wf_def synthetic_legacy_def ledger_inv_def ledger_shape_def is_funded_def)

lemma starts_fresh: "engine_starts s \<Longrightarrow> fresh s"
proof (induction rule: engine_starts.induct)
  case (synthetic session)
  show ?case
    using synthetic_wf by (simp add: fresh_def replaying_def new_engine_def) (simp add: synthetic_legacy_def)
next
  case (with_funds session config s)
  obtain l where l: "funded config = Inr l"
    and s: "s = new_engine\<lparr>en_ledger := l, en_feed_session := announced session\<rparr>"
    using with_funds(1) by (auto simp: replaying_funded_simulation_def funded_simulation_def)
  have "recoverable l" by (rule funded_recoverable [OF l with_funds(2)])
  then have "ledger_wf l" by (auto simp: recoverable_def ledger_wf_def)
  moreover have "lg_reservations l = []" "lg_last_sequence l = 0" using l by (auto simp: funded_def Let_def)
  ultimately show ?case by (simp add: s fresh_def new_engine_def)
next
  case (with_limits s l s')
  then show ?case by (auto simp: with_resource_limits_def fresh_def split: if_splits)
qed

lemma reaches_inv:
  assumes "engine_reaches cr s"
  shows "engine_inv s" "validate_resource_capacity s"
proof -
  from assms have "engine_inv s \<and> validate_resource_capacity s"
  proof (induction rule: engine_reaches.induct)
    case (start s)
    then show ?case using fresh_inv starts_fresh by blast
  next
    case (message s msg raw s')
    then show ?case
      using apply_inner_next [of s msg cr raw] apply_inner_SomeD [OF message(2,3)] by auto
  qed
  then show "engine_inv s" "validate_resource_capacity s" by simp_all
qed

text \<open>Feeding a log keeps an engine among the states it can be in.\<close>

lemma reaches_drive:
  "engine_reaches cr s \<Longrightarrow> en_last_seen s + length ms < u64_max \<Longrightarrow>
     drive (apply_message cr) s ms = Some t \<Longrightarrow> engine_reaches cr t"
proof (induction ms arbitrary: s)
  case (Cons m ms)
  have room: "en_last_seen s < u64_max" using Cons.prems(2) by simp
  consider (no) e where "apply_message cr s m = Some (Inl e)" | (yes) u where "apply_message cr s m = Some (Inr u)"
    using Cons.prems(3) by (auto split: option.splits sum.splits)
  then show ?case
  proof cases
    case no
    then show ?thesis using Cons by simp
  next
    case yes
    have u: "engine_reaches cr u" using engine_reaches.message [OF Cons.prems(1) room] yes by (simp add: apply_message_def)
    have id: "msg_id m = Suc (en_last_seen s)" using apply_inner_SomeD [OF room] yes by (simp add: apply_message_def)
    have "en_last_seen u = Suc (en_last_seen s)"
      using apply_inner_next [OF reaches_inv(1) [OF Cons.prems(1)] id room, of cr None] yes id
      by (auto simp: apply_message_def)
    then show ?thesis using Cons.IH [OF u] Cons.prems yes by simp
  qed
qed simp

end
