(* ===== verification/Engine_Demo.thy ===== *)
theory Engine_Demo
  imports Engine_Run Ledger_Properties
begin

section \<open>A concrete engine\<close>

text \<open>
  The engine of the two-account exchange: its genesis, a listing, a resting offer and a bid
  that takes it and rests with what is left, each evaluated by the simplifier. The properties'
  witnesses start from these states.
\<close>

definition demo_crypto :: crypto where
  "demo_crypto = \<lparr>cr_sha = (\<lambda>_. []), cr_canonical = (\<lambda>_. []), cr_strict = (\<lambda>_ _ _. True), cr_point = (\<lambda>_. True)\<rparr>"

definition demo_key :: bytes where "demo_key = replicate 32 CHR ''k''"
definition demo_sig :: bytes where "demo_sig = replicate 64 CHR ''s''"
definition demo_nonce :: bytes where "demo_nonce = replicate 16 CHR ''n''"

definition demo_list :: order_message where
  "demo_list = ListSymbol 1 1000 OPERATOR_ACCOUNT ''BTC-USD'' (Finite (1 / 4)) (Finite 1) (Some (to_hex demo_nonce)) (to_hex demo_key) (to_hex demo_sig)"
definition demo_sell :: order_message where
 "demo_sell = New 2 2000 2 ''BTC-USD'' Sell (Finite 10) (Finite 2) None Limit GoodTillCancel False"
definition demo_buy :: order_message where
 "demo_buy = New 3 3000 1 ''BTC-USD'' Buy (Finite 11) (Finite 3) None Limit GoodTillCancel False"
definition demo_offer :: order_message where
 "demo_offer = New 4 4000 2 ''BTC-USD'' Sell (Finite (45 / 4)) (Finite 2) None Limit GoodTillCancel False"
definition demo_rule :: order_message where
 "demo_rule = EngineRule 5 5000 OPERATOR_ACCOUNT 2 (Some (to_hex demo_nonce)) (to_hex demo_key) (to_hex demo_sig)"
definition demo_cancel :: order_message where
 "demo_cancel = Cancel 4 4000 1 3 None"

lemma demo_grid: "to_grid (Finite (1 / 4)) 100 = Some 25" "to_grid (Finite (45 / 4)) 100 = Some 1125" "to_grid (Finite 1) 10 = Some 10"
  "to_grid (Finite 10) 100 = Some 1000" "to_grid (Finite 2) 10 = Some 20" "to_grid (Finite 11) 100 = Some 1100"
  "to_grid (Finite 3) 10 = Some 30" by (rule to_grid_whole; simp add: MAX_GRID_UNITS_def)+

lemma demo_lens: "length demo_key = 32" "length demo_sig = 64" "length demo_nonce = 16"
  by (simp_all add: demo_key_def demo_sig_def demo_nonce_def)

lemma demo_cn: "canonical_nonce (to_hex demo_nonce) = Some demo_nonce"
  by (simp add: canonical_nonce_iff demo_lens NONCE_BYTES_def)

lemmas listing_eval = operator_signed_def named_key_def operator_verify_def kind_and_fields_def
  trim_to_hex from_hex_to_hex apply_list_symbol_def registry_list_def registry_listing_def
  valid_symbol_def symbol_byte_def is_upper_byte_def MAX_SYMBOL_LENGTH_def demo_lens demo_cn
  ignore_listing_def apply_rule_def rules_known_def RULES_NEWEST_def RULES_GENESIS_def

lemmas engine_eval = apply_message_def apply_inner_def next_expected_id_def dispatch_def
  record_in_def record_change_def consume_def push_bounded_def extend_bytes_def
  RECENT_CHAINS_CAP_def RECENT_MESSAGES_CAP_def demo_grid demo_crypto_def TRADE_WINDOW_def

lemmas order_eval = apply_new_def resolve_def registry_listing_def on_steps_def checked_rem_def
  apply_resolved_def validate_order_def is_market_def crossing_tenths_def crossing_def
  empty_book_def admit_order_def bound_def check_self_trade_def rules_at_least_def
  RULES_GENESIS_def stage_order_def preflight_def reserve_order_def run_order_def borrow_def
  execute_unfold next_fill_def fill_step_def fill_positions_def position_after_fill_def
  no_position_def commit_fill_def reduce_maker_def push_trade_def book_positions_def
  book_agg_def no_agg_def the_trade_def the_trade_row_def remainder_policy_def decide_def
  rest_order_def release_order_def give_back_def prune_def prune_book_def observe_mid_def
  observe_def observe_window_def empty_window_def best_bid_cents_def best_ask_cents_def
  clip_to_def loss_to_def WINDOW_MS_def project_def preflight_maker_def cache_record_def
  empty_cache_def no_candles_def CANDLE_INTERVALS_def window_record_def keep_newest_def
  MAX_CANDLES_def

lemmas demo_eval = engine_eval order_eval ledger_eval new_engine_def demo_ledger_def demo_config_def

definition demo0 :: matcher_state where
  "demo0 = new_engine\<lparr>en_ledger := demo_ledger, en_feed_session := Some ''demo''\<rparr>"

definition demo1 :: matcher_state where
  "demo1 = new_engine\<lparr>en_ledger := demo_ledger\<lparr>lg_last_sequence := 1\<rparr>,
     en_feed_session := Some ''demo'', en_feed_chain := Some [], en_recent_chains := [(1, [])],
     en_symbols := [(''BTC-USD'', \<lparr>price_step_cents = 25, quantity_step_tenths = 10, is_listed = True, listed_by = 1\<rparr>)],
     en_recent_messages := [demo_list], en_last_seen := 1, en_messages_processed := 1,
     en_operator_key := Some demo_key\<rparr>"

lemma demo1: "apply_message demo_crypto demo0 demo_list = Some (Inr demo1)"
  by (simp add: demo_eval listing_eval demo_list_def demo0_def demo1_def)

definition demo2 :: matcher_state where
  "demo2 = demo1\<lparr>
     en_books := [(''BTC-USD'', \<lparr>bids = [], asks = [(1000, [\<lparr>ro_id = 2, ro_account = 2, ro_qty_tenths = 20\<rparr>])]\<rparr>)],
     en_open_orders := [(2, \<lparr>ref_symbol = ''BTC-USD'', ref_side = Sell, ref_price_cents = 1000\<rparr>)],
     en_ledger := demo_ledger\<lparr>lg_last_sequence := 2,
       lg_balances := [((1, ''USD''), \<lparr>available = 100000, reserved = 0\<rparr>),
         ((2, ''BTC''), \<lparr>available = 3000, reserved = 2000\<rparr>)],
       lg_reservations := [(2, \<lparr>rsv_order_id = 2, rsv_account = 2, rsv_symbol = ''BTC-USD'', rsv_side = Sell,
         rsv_limit_cents = 1000, rsv_remaining_tenths = 20, rsv_asset = ''BTC'', rsv_units = 2000\<rparr>)]\<rparr>,
     en_recent_messages := [demo_list, demo_sell], en_last_seen := 2, en_messages_processed := 2,
     en_recent_chains := [(1, []), (2, [])],
     en_mids := [(''BTC-USD'', \<lparr>samples = [(2000, None)], closed_weighted = 0, closed_weight = 0, clip_ms = 0\<rparr>)]\<rparr>"

lemma demo2: "apply_message demo_crypto demo1 demo_sell = Some (Inr demo2)"
  by (simp add: demo_eval demo_sell_def demo1_def demo2_def)

definition demo3 :: matcher_state where
  "demo3 = demo2\<lparr>
     en_books := [(''BTC-USD'', \<lparr>bids = [(1100, [\<lparr>ro_id = 3, ro_account = 1, ro_qty_tenths = 10\<rparr>])], asks = []\<rparr>)],
     en_open_orders := [(3, \<lparr>ref_symbol = ''BTC-USD'', ref_side = Buy, ref_price_cents = 1100\<rparr>)],
     en_trades := [\<lparr>tr_trade_id = 1, tr_symbol = ''BTC-USD'', tr_price = cents_to_f64 1000,
       tr_quantity = tenths_to_f64 20, tr_maker_order = 2, tr_maker_account = 2, tr_taker_order = 3,
       tr_taker_account = 1, tr_taker_side = Buy, tr_timestamp = 3000\<rparr>],
     en_candles := \<lparr>cc_valid = True, cc_symbols = [(''BTC-USD'',
       \<lparr>last_timestamp = Some 3000, windows = map (\<lambda>_. [\<lparr>cb_start = 0, open_cents = 1000, high_cents = 1000,
          low_cents = 1000, close_cents = 1000, cb_volume = 20, cb_trades = 1\<rparr>]) CANDLE_INTERVALS\<rparr>)]\<rparr>,
     en_trades_total := 1,
     en_aggregates := [(''BTC-USD'', \<lparr>last_trade_cents = 1000, volume_tenths = 20, trade_count = 1\<rparr>)],
     en_positions := [
       ((1, ''BTC-USD''), \<lparr>net_qty_tenths = 20, cash_mills = - 20000, cost_basis_mills = 20000, realized_mills = 0\<rparr>),
       ((2, ''BTC-USD''), \<lparr>net_qty_tenths = - 20, cash_mills = 20000, cost_basis_mills = 20000, realized_mills = 0\<rparr>)],
     en_ledger := demo_ledger\<lparr>lg_last_sequence := 3,
       lg_balances := [((1, ''BTC''), \<lparr>available = 2000, reserved = 0\<rparr>),
         ((1, ''USD''), \<lparr>available = 69000, reserved = 11000\<rparr>),
         ((2, ''BTC''), \<lparr>available = 3000, reserved = 0\<rparr>),
         ((2, ''USD''), \<lparr>available = 20000, reserved = 0\<rparr>)],
       lg_reservations := [(3, \<lparr>rsv_order_id = 3, rsv_account = 1, rsv_symbol = ''BTC-USD'', rsv_side = Buy,
         rsv_limit_cents = 1100, rsv_remaining_tenths = 10, rsv_asset = ''USD'', rsv_units = 11000\<rparr>)]\<rparr>,
     en_recent_messages := [demo_list, demo_sell, demo_buy], en_last_seen := 3, en_messages_processed := 3,
     en_recent_chains := [(1, []), (2, []), (3, [])]\<rparr>"

lemma demo3: "apply_message demo_crypto demo2 demo_buy = Some (Inr demo3)"
  by (simp add: demo_eval demo_buy_def demo1_def demo2_def demo3_def)

definition demo4 :: matcher_state where
  "demo4 = demo3\<lparr>
     en_books := [(''BTC-USD'', \<lparr>bids = [(1100, [\<lparr>ro_id = 3, ro_account = 1, ro_qty_tenths = 10\<rparr>])],
       asks = [(1125, [\<lparr>ro_id = 4, ro_account = 2, ro_qty_tenths = 20\<rparr>])]\<rparr>)],
     en_open_orders := [(3, \<lparr>ref_symbol = ''BTC-USD'', ref_side = Buy, ref_price_cents = 1100\<rparr>),
       (4, \<lparr>ref_symbol = ''BTC-USD'', ref_side = Sell, ref_price_cents = 1125\<rparr>)],
     en_mids := [(''BTC-USD'', \<lparr>samples = [(2000, None), (4000, Some 1112)], closed_weighted = 0,
       closed_weight = 0, clip_ms = 0\<rparr>)],
     en_ledger := demo_ledger\<lparr>lg_last_sequence := 4,
       lg_balances := [((1, ''BTC''), \<lparr>available = 2000, reserved = 0\<rparr>),
         ((1, ''USD''), \<lparr>available = 69000, reserved = 11000\<rparr>),
         ((2, ''BTC''), \<lparr>available = 1000, reserved = 2000\<rparr>),
         ((2, ''USD''), \<lparr>available = 20000, reserved = 0\<rparr>)],
       lg_reservations := [(3, \<lparr>rsv_order_id = 3, rsv_account = 1, rsv_symbol = ''BTC-USD'', rsv_side = Buy,
         rsv_limit_cents = 1100, rsv_remaining_tenths = 10, rsv_asset = ''USD'', rsv_units = 11000\<rparr>),
         (4, \<lparr>rsv_order_id = 4, rsv_account = 2, rsv_symbol = ''BTC-USD'', rsv_side = Sell,
         rsv_limit_cents = 1125, rsv_remaining_tenths = 20, rsv_asset = ''BTC'', rsv_units = 2000\<rparr>)]\<rparr>,
     en_recent_messages := [demo_list, demo_sell, demo_buy, demo_offer], en_last_seen := 4,
     en_messages_processed := 4, en_recent_chains := [(1, []), (2, []), (3, []), (4, [])]\<rparr>"

lemma demo4: "apply_message demo_crypto demo3 demo_offer = Some (Inr demo4)"
  by (simp add: demo_eval demo_offer_def demo1_def demo2_def demo3_def demo4_def)

text \<open>The operator moves the engine to rule set 2.\<close>

definition demo5 :: matcher_state where
  "demo5 = demo4\<lparr>en_rules := 2, en_ledger := (en_ledger demo4)\<lparr>lg_last_sequence := 5\<rparr>,
     en_recent_messages := [demo_list, demo_sell, demo_buy, demo_offer, demo_rule], en_last_seen := 5,
     en_messages_processed := 5, en_recent_chains := [(1, []), (2, []), (3, []), (4, []), (5, [])]\<rparr>"

lemma demo5: "apply_message demo_crypto demo4 demo_rule = Some (Inr demo5)"
  by (simp add: demo_eval listing_eval demo_rule_def demo1_def demo2_def demo3_def demo4_def demo5_def)

lemma demo0_starts: "engine_starts demo0"
proof -
  have "replaying_funded_simulation ''demo'' demo_config = Inr demo0"
    using demo_funded by (simp add: replaying_funded_simulation_def funded_simulation_def announced_def demo0_def)
  from engine_starts.with_funds [OF this demo_grants] show ?thesis .
qed

lemma demo_reaches:
  "engine_reaches demo_crypto demo0" "engine_reaches demo_crypto demo1"
  "engine_reaches demo_crypto demo2" "engine_reaches demo_crypto demo3"
  "engine_reaches demo_crypto demo4" "engine_reaches demo_crypto demo5"
proof -
  show r0: "engine_reaches demo_crypto demo0" by (rule engine_reaches.start [OF demo0_starts])
  show r1: "engine_reaches demo_crypto demo1"
    using engine_reaches.message [OF r0 _ demo1 [unfolded apply_message_def]]
    by (simp add: demo0_def new_engine_def u64_max_def)
  show r2: "engine_reaches demo_crypto demo2"
    using engine_reaches.message [OF r1 _ demo2 [unfolded apply_message_def]]
    by (simp add: demo1_def u64_max_def)
  show r3: "engine_reaches demo_crypto demo3"
    using engine_reaches.message [OF r2 _ demo3 [unfolded apply_message_def]]
    by (simp add: demo2_def u64_max_def)
  show r4: "engine_reaches demo_crypto demo4"
    using engine_reaches.message [OF r3 _ demo4 [unfolded apply_message_def]]
    by (simp add: demo3_def u64_max_def)
  show "engine_reaches demo_crypto demo5"
    using engine_reaches.message [OF r4 _ demo5 [unfolded apply_message_def]]
    by (simp add: demo4_def u64_max_def)
qed

end
