(* ===== verification/Recovery.thy ===== *)
theory Recovery
  imports Engine_Run
begin

section \<open>A restart accepts what the engine wrote\<close>

text \<open>
  \<open>restore_ledger\<close> checks a ledger snapshot against the restored books, order by order. For
  every state an engine can be in, its own snapshot passes and gives the same ledger back.
\<close>

lemma distinct_keyed:
  assumes "distinct (map fst m)" and "\<And>e. e \<in> set m \<Longrightarrow> distinct (f e)"
    and "\<And>e r. e \<in> set m \<Longrightarrow> r \<in> set (f e) \<Longrightarrow> g r = fst e"
  shows "distinct (concat (map f m))"
  using assms
proof (induction m)
  case (Cons e m)
  have "set (f e) \<inter> set (f e') = {}" if "e' \<in> set m" for e'
  proof (rule ccontr)
    assume "set (f e) \<inter> set (f e') \<noteq> {}"
    then obtain r where "r \<in> set (f e)" "r \<in> set (f e')" by blast
    then have "fst e = fst e'" using Cons.prems(3) [of e r] Cons.prems(3) [of e' r] that by simp
    then show False using Cons.prems(1) that by simp
  qed
  then show ?case using Cons by auto
qed simp

lemma side_rows_set:
  "bmap_ok l \<Longrightarrow> row \<in> set (side_rows s sd l) \<longleftrightarrow> or_symbol row = s \<and> or_side row = sd \<and>
     (\<exists>lv r. map_of l (or_price_cents row) = Some lv \<and> r \<in> set lv \<and>
       or_order_id row = ro_id r \<and> or_account row = ro_account r \<and> or_qty_tenths row = ro_qty_tenths r)"
  using bm.entries_iff [of l]
  by (cases row) (fastforce simp: side_rows_def)

lemma side_rows_distinct:
  assumes "side_ok l"
  shows "distinct (side_rows s sd l)"
proof -
  have level: "level_ok lv" if "(p, lv) \<in> set l" for p lv
    using assms that by (auto simp: side_ok_def list_all_iff)
  have "distinct (map (\<lambda>r. \<lparr>or_order_id = ro_id r, or_account = ro_account r, or_symbol = s,
      or_side = sd, or_price_cents = p, or_qty_tenths = ro_qty_tenths r\<rparr>) lv)" if "(p, lv) \<in> set l" for p lv
  proof -
    have "distinct (map ro_id lv)" using level [OF that] by (simp add: level_ok_def strict_sorted_iff)
    then show ?thesis by (auto simp: distinct_map inj_on_def)
  qed
  then show ?thesis
    unfolding side_rows_def
    using bmap_ok_distinct [OF side_ok_bmap [OF assms]]
    by (intro distinct_keyed [where g = or_price_cents]) auto
qed

lemma open_rows_set:
  assumes "books_ok books"
  shows "row \<in> set (open_rows books) \<longleftrightarrow>
    (or_symbol row, or_side row, or_price_cents row,
      \<lparr>ro_id = or_order_id row, ro_account = or_account row, ro_qty_tenths = or_qty_tenths row\<rparr>) \<in> live books"
proof -
  have b: "(s, b) \<in> set books \<longleftrightarrow> map_of books s = Some b" for s b
    using assms bm.entries_iff [of books] by (simp add: books_ok_def)
  have side: "row \<in> set (side_rows s Buy (bids b) @ side_rows s Sell (asks b)) \<longleftrightarrow> or_symbol row = s \<and>
      resting b (or_side row) (or_price_cents row)
        \<lparr>ro_id = or_order_id row, ro_account = or_account row, ro_qty_tenths = or_qty_tenths row\<rparr>"
    if "map_of books s = Some b" for s b
  proof -
    have ok: "bmap_ok (bids b)" "bmap_ok (asks b)"
      using books_ok_get [OF assms that] by (simp_all add: book_ok_def side_ok_def)
    have r: "r = \<lparr>ro_id = i, ro_account = a, ro_qty_tenths = q\<rparr> \<longleftrightarrow> i = ro_id r \<and> a = ro_account r \<and> q = ro_qty_tenths r"
      for r :: resting_order and i a q by (cases r) auto
    show ?thesis
      unfolding set_append Un_iff side_rows_set [OF ok(1)] side_rows_set [OF ok(2)] resting_def
      by (cases "or_side row") (auto simp: r, (metis r)+)
  qed
  have "row \<in> set (open_rows books) \<longleftrightarrow>
      (\<exists>s b. map_of books s = Some b \<and> row \<in> set (side_rows s Buy (bids b) @ side_rows s Sell (asks b)))"
    by (fastforce simp: open_rows_def b [symmetric])
  then show ?thesis using side by (auto simp: live_iff)
qed

lemma open_rows_distinct:
  assumes "books_ok books"
  shows "distinct (open_rows books)"
proof -
  have "distinct (side_rows s Buy (bids b) @ side_rows s Sell (asks b))" if "(s, b) \<in> set books" for s b
  proof -
    have "side_ok (bids b)" "side_ok (asks b)"
      using assms that by (auto simp: books_ok_def list_all_iff book_ok_def)
    then show ?thesis
      using side_rows_distinct by (fastforce simp: side_rows_set side_ok_bmap)
  qed
  moreover have "or_symbol row = s"
    if "(s, b) \<in> set books" "row \<in> set (side_rows s Buy (bids b) @ side_rows s Sell (asks b))" for s b row
    using assms that by (auto simp: books_ok_def list_all_iff book_ok_def side_rows_set side_ok_bmap)
  ultimately show ?thesis
    unfolding open_rows_def using assms
    by (intro distinct_keyed [where g = or_symbol]) (auto simp: books_ok_def bmap_ok_distinct)
qed

lemma open_rows_ids:
  assumes "books_ok books" and "unique_ids (live books)"
  shows "distinct (map or_order_id (open_rows books))"
proof -
  have "row = row'" if "row \<in> set (open_rows books)" "row' \<in> set (open_rows books)"
    and "or_order_id row = or_order_id row'" for row row'
    using that assms(2) unfolding open_rows_set [OF assms(1)] unique_ids_def
    by (cases row; cases row') fastforce
  then show ?thesis using open_rows_distinct [OF assms(1)] by (auto simp: distinct_map inj_on_def)
qed

lemma match_open_orders_ok:
  assumes "distinct (map or_order_id rows)" and "set (map or_order_id rows) \<inter> set seen = {}"
    and "\<And>row. row \<in> set rows \<Longrightarrow> \<exists>r. map_of (lg_reservations l) (or_order_id row) = Some r \<and>
      rsv_matches (or_symbol row, or_side row, or_price_cents row,
        \<lparr>ro_id = or_order_id row, ro_account = or_account row, ro_qty_tenths = or_qty_tenths row\<rparr>) r"
  shows "match_open_orders l seen rows = Inr ()"
  using assms
proof (induction l seen rows rule: match_open_orders.induct)
  case (2 l seen row rows)
  obtain r where r: "map_of (lg_reservations l) (or_order_id row) = Some r"
    "rsv_matches (or_symbol row, or_side row, or_price_cents row,
        \<lparr>ro_id = or_order_id row, ro_account = or_account row, ro_qty_tenths = or_qty_tenths row\<rparr>) r"
    using "2.prems"(3) [of row] by auto
  have "match_open_orders l (or_order_id row # seen) rows = Inr ()"
    by (rule "2.IH" [of r]) (use "2.prems" r in auto)
  then show ?case using r "2.prems"(2) by simp
qed simp

lemma engine_obligations:
  assumes "engine_inv s"
  shows "validate_obligations (en_ledger s) (open_rows (en_books s)) = Inr ()"
proof (cases "is_funded (en_ledger s)")
  case False
  then have "lg_config (en_ledger s) = None \<and> lg_balances (en_ledger s) = [] \<and> lg_reservations (en_ledger s) = []"
    using assms by (simp add: engine_inv_def desk_ok_def backs_def ledger_wf_def)
  then show ?thesis using False by (simp add: validate_obligations_def validate_def)
next
  case True
  let ?L = "live (en_books s)" and ?rs = "lg_reservations (en_ledger s)" and ?rows = "open_rows (en_books s)"
  have books: "books_ok (en_books s)" and idx: "index_for ?L (map_of (en_open_orders s))"
    and bk: "ledger_wf (en_ledger s)" "covers ?L (map_of ?rs)"
    using assms True by (simp_all add: engine_inv_def desk_ok_def backs_def)
  obtain c where c: "lg_config (en_ledger s) = Some c" "validate_config c = Inr ()" and li: "ledger_inv (en_ledger s)"
    using bk(1) True by (auto simp: ledger_wf_def split: option.splits)
  have shape: "ledger_shape (en_ledger s)" using li by (simp add: ledger_inv_def)
  have wf: "config_wf c" using c(2) by (simp add: validate_config_iff config_wf_def list_all_iff)
  have val: "validate (en_ledger s) = Inr ()"
    using validate_iff [OF True c(1) shape wf] li True c(1) by (simp add: ledger_inv_def)
  note u = live_unique [OF books idx]
  have ids: "distinct (map or_order_id ?rows)" by (rule open_rows_ids [OF books u])
  have "set (map or_order_id ?rows) = fst ` set ?rs"
  proof -
    have "fst ` set ?rs = dom (map_of ?rs)" by (simp add: dom_map_of_conv_image_fst)
    also have "\<dots> = live_id ` ?L"
      using bk(2) unfolding covers_def by (auto simp: image_iff simp del: split_paired_Ex split_paired_All)
    also have "\<dots> = set (map or_order_id ?rows)"
    proof -
      have "or_order_id row \<in> live_id ` ?L" if "row \<in> set ?rows" for row
        using that unfolding open_rows_set [OF books] by (force simp: image_iff)
      moreover have "live_id t \<in> or_order_id ` set ?rows" if t: "t \<in> ?L" for t
      proof -
        obtain sy sd p r where tt: "t = (sy, sd, p, r)" by (cases t)
        let ?row = "\<lparr>or_order_id = ro_id r, or_account = ro_account r, or_symbol = sy, or_side = sd,
          or_price_cents = p, or_qty_tenths = ro_qty_tenths r\<rparr>"
        have "?row \<in> set ?rows" using t by (cases r) (simp add: open_rows_set [OF books] tt)
        then show ?thesis by (force simp: tt)
      qed
      ultimately show ?thesis by auto
    qed
    finally show ?thesis ..
  qed
  moreover have "distinct (map fst ?rs)" using shape by (simp add: ledger_shape_def bmap_ok_distinct)
  ultimately have len: "length ?rows = length ?rs"
    using ids distinct_card [of "map or_order_id ?rows"] distinct_card [of "map fst ?rs"] by simp
  have "match_open_orders (en_ledger s) [] ?rows = Inr ()"
  proof (rule match_open_orders_ok [OF ids])
    fix row assume "row \<in> set ?rows"
    then show "\<exists>r. map_of ?rs (or_order_id row) = Some r \<and>
      rsv_matches (or_symbol row, or_side row, or_price_cents row,
        \<lparr>ro_id = or_order_id row, ro_account = or_account row, ro_qty_tenths = or_qty_tenths row\<rparr>) r"
      using covers_get [OF bk(2)] unfolding open_rows_set [OF books] by fastforce
  qed simp
  then show ?thesis using val True len by (simp add: validate_obligations_def)
qed

lemma engine_recoverable:
  assumes "engine_inv s"
  shows "recoverable (en_ledger s)"
proof -
  have d: "ledger_wf (en_ledger s)" "is_funded (en_ledger s) \<Longrightarrow> covers (live (en_books s)) (map_of (lg_reservations (en_ledger s)))"
    and ids: "\<forall>t \<in> live (en_books s). 0 < live_id t \<and> live_id t \<le> en_last_seen s"
    and seq: "lg_last_sequence (en_ledger s) = en_last_seen s"
    using assms by (simp_all add: engine_inv_def desk_ok_def backs_def)
  have "0 < fst e \<and> fst e \<le> en_last_seen s" if f: "is_funded (en_ledger s)" and e: "e \<in> set (lg_reservations (en_ledger s))" for e
  proof -
    have "bmap_ok (lg_reservations (en_ledger s))"
      using d(1) by (simp add: ledger_wf_def ledger_inv_def ledger_shape_def)
    then have "map_of (lg_reservations (en_ledger s)) (fst e) = Some (snd e)"
      using bm.entries_iff [of "lg_reservations (en_ledger s)" "fst e" "snd e"] e by simp
    then obtain t where "t \<in> live (en_books s)" "live_id t = fst e"
      using d(2) [OF f] unfolding covers_def by blast
    then show ?thesis using ids by metis
  qed
  then show ?thesis using d(1) seq by (auto simp: recoverable_def ledger_wf_def list_all_iff)
qed

lemma engine_restores:
  assumes "engine_inv s"
  shows "restore_ledger s (snapshot (en_ledger s)) = Inr s"
proof -
  have "ls_last_sequence (snapshot (en_ledger s)) = en_last_seen s"
    using assms by (simp add: snapshot_def engine_inv_def)
  then show ?thesis
    using snapshot_roundtrip [OF engine_recoverable [OF assms]] engine_obligations [OF assms]
    by (simp add: restore_ledger_def)
qed

end
