(* ===== verification/Matching.thy ===== *)
theory Matching
  imports Live_Orders Staging
begin

section \<open>What a plan fills\<close>

text \<open>
  The plan of an order against a well-formed book: best price first, oldest order first within
  a price, only crossing prices, and as much as the order and the crossing side allow; with
  rule set 2 never against the sender's own orders.
\<close>

definition fill_before :: "side \<Rightarrow> planned_fill \<Rightarrow> planned_fill \<Rightarrow> bool" where
  "fill_before sd f g \<longleftrightarrow>
     (if sd = Buy then pf_price_cents f < pf_price_cents g else pf_price_cents g < pf_price_cents f) \<or>
     pf_price_cents f = pf_price_cents g \<and> pf_maker_order f < pf_maker_order g"

definition level_total :: "resting_order list \<Rightarrow> int" where
  "level_total lv = (\<Sum>r\<leftarrow>lv. ro_qty_tenths r)"

definition walk_ok :: "side \<Rightarrow> (int \<times> resting_order list) list \<Rightarrow> bool" where
  "walk_ok sd levels \<longleftrightarrow>
     sorted_wrt (\<lambda>e f. if sd = Buy then fst e < fst f else fst f < fst e) levels \<and>
     list_all (\<lambda>e. level_ok (snd e)) levels"

lemma walk_ok_book:
  assumes "book_ok b"
  shows "walk_ok sd (walk_side sd b)"
proof -
  let ?l = "own_side (opposite sd) b"
  have ok: "side_ok ?l" using assms by (rule side_ok_own)
  then have "list_all (\<lambda>e. level_ok (snd e)) ?l" "sorted_wrt (\<lambda>e f. fst e < fst f) ?l"
    by (auto simp: side_ok_def list_all_iff bmap_ok_def sorted_wrt_map)
  then show ?thesis
    by (cases sd) (simp_all add: walk_ok_def sorted_wrt_rev list_all_iff)
qed

lemma level_total_nonneg: "level_ok lv \<or> lv = [] \<Longrightarrow> 0 \<le> level_total lv"
  by (force simp: level_ok_def level_total_def list_all_iff intro!: sum_list_nonneg)

lemma plan_makers_spec:
  assumes "lv = [] \<or> level_ok lv" and "0 \<le> remaining"
  shows "(\<forall>f \<in> set (fst (plan_makers p remaining lv)). pf_price_cents f = p \<and> 0 < pf_qty_tenths f \<and>
      (\<exists>m \<in> set lv. ro_id m = pf_maker_order f \<and> ro_account m = pf_maker_account f \<and>
        pf_qty_tenths f \<le> ro_qty_tenths m)) \<and>
    sorted_wrt (\<lambda>f g. pf_maker_order f < pf_maker_order g) (fst (plan_makers p remaining lv)) \<and>
    sum_list (map pf_qty_tenths (fst (plan_makers p remaining lv))) = min remaining (level_total lv) \<and>
    snd (plan_makers p remaining lv) = remaining - min remaining (level_total lv)"
  using assms
proof (induction p remaining lv rule: plan_makers.induct)
  case (1 price remaining)
  then show ?case by (simp add: level_total_def)
next
  case (2 price remaining m ms)
  have lv: "0 < ro_qty_tenths m" "ms = [] \<or> level_ok ms" "\<forall>x \<in> set ms. ro_id m < ro_id x"
    using "2.prems"(1) by (auto simp: level_ok_def)
  have tot: "level_total (m # ms) = ro_qty_tenths m + level_total ms" "0 \<le> level_total ms"
    using level_total_nonneg lv(2) by (auto simp: level_total_def)
  show ?case
  proof (cases "remaining = 0 \<or> remaining \<le> ro_qty_tenths m")
    case True
    then show ?thesis using lv tot "2.prems"(2) by (auto simp: min_def)
  next
    case False
    then have q: "min remaining (ro_qty_tenths m) = ro_qty_tenths m" "0 < remaining - ro_qty_tenths m"
      by simp_all
    have ih: "(\<forall>f \<in> set (fst (plan_makers price (remaining - ro_qty_tenths m) ms)). pf_price_cents f = price \<and> 0 < pf_qty_tenths f \<and>
        (\<exists>m \<in> set ms. ro_id m = pf_maker_order f \<and> ro_account m = pf_maker_account f \<and>
          pf_qty_tenths f \<le> ro_qty_tenths m))"
      "sorted_wrt (\<lambda>f g. pf_maker_order f < pf_maker_order g) (fst (plan_makers price (remaining - ro_qty_tenths m) ms))"
      "sum_list (map pf_qty_tenths (fst (plan_makers price (remaining - ro_qty_tenths m) ms))) =
        min (remaining - ro_qty_tenths m) (level_total ms)"
      "snd (plan_makers price (remaining - ro_qty_tenths m) ms) =
        remaining - ro_qty_tenths m - min (remaining - ro_qty_tenths m) (level_total ms)"
      using "2.IH" lv(2) q False by simp_all
    have "plan_makers price remaining (m # ms) =
      (\<lparr>pf_maker_order = ro_id m, pf_maker_account = ro_account m, pf_price_cents = price,
        pf_qty_tenths = ro_qty_tenths m\<rparr> # fst (plan_makers price (remaining - ro_qty_tenths m) ms),
       snd (plan_makers price (remaining - ro_qty_tenths m) ms))"
      using False q by (simp add: Let_def)
    moreover have "\<forall>f \<in> set (fst (plan_makers price (remaining - ro_qty_tenths m) ms)). ro_id m < pf_maker_order f"
      using ih(1) lv(3) by fastforce
    moreover have "min remaining (level_total (m # ms)) =
        ro_qty_tenths m + min (remaining - ro_qty_tenths m) (level_total ms)"
      using False tot by (simp add: min_def)
    ultimately show ?thesis using ih lv(1) by (auto simp: tot(1))
  qed
qed

definition crossing_total :: "side \<Rightarrow> int \<Rightarrow> (int \<times> resting_order list) list \<Rightarrow> int" where
  "crossing_total sd limit levels = (\<Sum>e\<leftarrow>crossing sd limit levels. level_total (snd e))"

lemma walk_stops:
  assumes "walk_ok sd ((p, lv) # levels)" and "\<not> crosses sd p limit"
  shows "crossing sd limit ((p, lv) # levels) = []"
proof -
  have "\<not> crosses sd (fst e) limit" if "e \<in> set levels" for e
    using assms that by (cases sd) (auto simp: walk_ok_def)
  then show ?thesis using assms(2) by (simp add: crossing_def)
qed

lemma same_price_sorted:
  "\<forall>f \<in> set fs. pf_price_cents f = p \<Longrightarrow>
     sorted_wrt (\<lambda>f g. pf_maker_order f < pf_maker_order g) fs \<Longrightarrow> sorted_wrt (fill_before sd) fs"
  by (induction fs) (simp_all add: fill_before_def)

lemma plan_levels_spec:
  assumes "walk_ok sd levels" and "0 \<le> remaining"
  shows "(\<forall>f \<in> set (plan_levels sd limit remaining levels).
      crosses sd (pf_price_cents f) limit \<and> 0 < pf_qty_tenths f \<and>
      (\<exists>e \<in> set levels. fst e = pf_price_cents f \<and> (\<exists>m \<in> set (snd e). ro_id m = pf_maker_order f \<and>
        ro_account m = pf_maker_account f \<and> pf_qty_tenths f \<le> ro_qty_tenths m))) \<and>
    sorted_wrt (fill_before sd) (plan_levels sd limit remaining levels) \<and>
    sum_list (map pf_qty_tenths (plan_levels sd limit remaining levels)) =
      min remaining (crossing_total sd limit levels)"
  using assms
proof (induction sd limit remaining levels rule: plan_levels.induct)
  case (1 sd limit remaining)
  then show ?case by (simp add: crossing_total_def crossing_def)
next
  case (2 sd limit remaining price level levels)
  have lv: "level_ok level" "walk_ok sd levels"
    and later: "\<forall>e \<in> set levels. if sd = Buy then price < fst e else fst e < price"
    using "2.prems"(1) by (auto simp: walk_ok_def)
  have nonneg: "0 \<le> crossing_total sd limit ls" if "walk_ok sd ls" for ls
  proof -
    have "0 \<le> level_total (snd e)" if "e \<in> set ls" for e
      using that \<open>walk_ok sd ls\<close> level_total_nonneg [of "snd e"] by (auto simp: walk_ok_def list_all_iff)
    then show ?thesis by (auto simp: crossing_total_def crossing_def intro!: sum_list_nonneg)
  qed
  show ?case
  proof (cases "\<not> crosses sd price limit \<or> remaining = 0")
    case True
    then show ?thesis
      using walk_stops [OF "2.prems"(1), of limit] nonneg [OF "2.prems"(1)] "2.prems"(2)
      by (auto simp: crossing_total_def)
  next
    case False
    let ?part = "plan_makers price remaining level"
    note m = plan_makers_spec [OF disjI2 [OF lv(1)] "2.prems"(2), of price]
    have ct: "crossing_total sd limit ((price, level) # levels) = level_total level + crossing_total sd limit levels"
      using False by (simp add: crossing_total_def crossing_def)
    have lt: "0 \<le> level_total level" using level_total_nonneg lv(1) by blast
    show ?thesis
    proof (cases "0 < snd ?part")
      case False
      then have le: "remaining \<le> level_total level" using m by auto
      have "plan_levels sd limit remaining ((price, level) # levels) = fst ?part"
        using False \<open>\<not> (\<not> crosses sd price limit \<or> remaining = 0)\<close> by (simp add: Let_def)
      moreover have "sorted_wrt (fill_before sd) (fst ?part)"
        using m by (intro same_price_sorted [of _ price]) simp_all
      moreover have "sum_list (map pf_qty_tenths (fst ?part)) =
          min remaining (crossing_total sd limit ((price, level) # levels))"
        using m le nonneg [OF lv(2)] by (simp add: ct)
      moreover have "\<forall>f \<in> set (fst ?part). crosses sd (pf_price_cents f) limit \<and> 0 < pf_qty_tenths f \<and>
          (\<exists>e \<in> set ((price, level) # levels). fst e = pf_price_cents f \<and> (\<exists>m \<in> set (snd e). ro_id m = pf_maker_order f \<and>
            ro_account m = pf_maker_account f \<and> pf_qty_tenths f \<le> ro_qty_tenths m))"
        using m \<open>\<not> (\<not> crosses sd price limit \<or> remaining = 0)\<close> by fastforce
      ultimately show ?thesis by presburger
    next
      case True
      let ?rest = "plan_levels sd limit (snd ?part) levels"
      have ih: "\<forall>f \<in> set ?rest. crosses sd (pf_price_cents f) limit \<and> 0 < pf_qty_tenths f \<and>
          (\<exists>e \<in> set levels. fst e = pf_price_cents f \<and> (\<exists>m \<in> set (snd e). ro_id m = pf_maker_order f \<and>
            ro_account m = pf_maker_account f \<and> pf_qty_tenths f \<le> ro_qty_tenths m))"
        "sorted_wrt (fill_before sd) ?rest"
        "sum_list (map pf_qty_tenths ?rest) = min (snd ?part) (crossing_total sd limit levels)"
        using "2.IH" [OF False refl True lv(2)] True by simp_all
      have plan: "plan_levels sd limit remaining ((price, level) # levels) = fst ?part @ ?rest"
        using False True by (simp add: Let_def)
      have "fill_before sd f g" if "f \<in> set (fst ?part)" "g \<in> set ?rest" for f g
        using m that ih(1) later by (fastforce simp: fill_before_def)
      moreover have "sorted_wrt (fill_before sd) (fst ?part)"
        using m by (intro same_price_sorted [of _ price]) simp_all
      ultimately have "sorted_wrt (fill_before sd) (fst ?part @ ?rest)"
        using ih(2) by (simp add: sorted_wrt_append)
      moreover have "sum_list (map pf_qty_tenths (fst ?part @ ?rest)) =
          min remaining (crossing_total sd limit ((price, level) # levels))"
        using m ih(3) True nonneg [OF lv(2)] lt by (auto simp: ct min_def)
      moreover have "\<forall>f \<in> set (fst ?part @ ?rest). crosses sd (pf_price_cents f) limit \<and> 0 < pf_qty_tenths f \<and>
          (\<exists>e \<in> set ((price, level) # levels). fst e = pf_price_cents f \<and> (\<exists>m \<in> set (snd e). ro_id m = pf_maker_order f \<and>
            ro_account m = pf_maker_account f \<and> pf_qty_tenths f \<le> ro_qty_tenths m))"
        using m ih(1) False by fastforce
      ultimately show ?thesis unfolding plan by blast
    qed
  qed
qed

lemma walk_resting:
  assumes "book_ok b" and "e \<in> set (walk_side sd b)" and "m \<in> set (snd e)"
  shows "resting b (opposite sd) (fst e) m"
proof -
  have "e \<in> set (own_side (opposite sd) b)" using assms(2) by (simp add: walk_side_dir)
  then have "map_of (own_side (opposite sd) b) (fst e) = Some (snd e)"
    using bm.entries_iff [OF side_ok_bmap [OF side_ok_own [OF assms(1)]], of "fst e" "snd e" "opposite sd"] by simp
  then show ?thesis using assms(3) by (auto simp: resting_def)
qed

lemma plan_fills_spec:
  assumes "book_ok b" and "0 \<le> io_qty_tenths order"
  shows "sorted_wrt (fill_before (io_side order)) (plan_fills order b)"
    and "sum_list (map pf_qty_tenths (plan_fills order b)) =
      min (io_qty_tenths order) (crossing_total (io_side order) (io_limit_cents order) (walk_side (io_side order) b))"
    and "f \<in> set (plan_fills order b) \<Longrightarrow>
      crosses (io_side order) (pf_price_cents f) (io_limit_cents order) \<and> 0 < pf_qty_tenths f \<and>
      (\<exists>m. resting b (opposite (io_side order)) (pf_price_cents f) m \<and> ro_id m = pf_maker_order f \<and>
        ro_account m = pf_maker_account f \<and> pf_qty_tenths f \<le> ro_qty_tenths m)"
proof -
  note p = plan_levels_spec [OF walk_ok_book [OF assms(1), of "io_side order"] assms(2), of "io_limit_cents order"]
  show "sorted_wrt (fill_before (io_side order)) (plan_fills order b)"
    and "sum_list (map pf_qty_tenths (plan_fills order b)) =
      min (io_qty_tenths order) (crossing_total (io_side order) (io_limit_cents order) (walk_side (io_side order) b))"
    using p by (simp_all add: plan_fills_def)
  assume "f \<in> set (plan_fills order b)"
  then show "crosses (io_side order) (pf_price_cents f) (io_limit_cents order) \<and> 0 < pf_qty_tenths f \<and>
      (\<exists>m. resting b (opposite (io_side order)) (pf_price_cents f) m \<and> ro_id m = pf_maker_order f \<and>
        ro_account m = pf_maker_account f \<and> pf_qty_tenths f \<le> ro_qty_tenths m)"
    using p walk_resting [OF assms(1)] unfolding plan_fills_def by metis
qed

subsection \<open>No trade with oneself\<close>

lemma own_order_found:
  assumes "own_order_in_the_way order b = None" and "e \<in> set (walk_side (io_side order) b)"
    and "crosses (io_side order) (fst e) (io_limit_cents order)" and "m \<in> set (snd e)"
  shows "ro_account m \<noteq> io_account order"
  using assms by (cases e) (fastforce simp: own_order_in_the_way_def crossing_def find_None_iff)

lemma plan_not_own:
  assumes "check_self_trade order b rules = Inr ()" and "2 \<le> rules" and "book_ok b"
    and "0 \<le> io_qty_tenths order" and f: "f \<in> set (plan_fills order b)"
  shows "pf_maker_account f \<noteq> io_account order"
proof -
  have none: "own_order_in_the_way order b = None"
    using assms(1,2) by (auto simp: check_self_trade_def rules_at_least_def split: option.splits)
  note p = plan_levels_spec [OF walk_ok_book [OF assms(3), of "io_side order"] assms(4), of "io_limit_cents order"]
  obtain e m where "e \<in> set (walk_side (io_side order) b)" "fst e = pf_price_cents f" "m \<in> set (snd e)"
    "ro_account m = pf_maker_account f" "crosses (io_side order) (pf_price_cents f) (io_limit_cents order)"
    using p f unfolding plan_fills_def by blast
  then show ?thesis using own_order_found [OF none, of e m] by simp
qed

subsection \<open>What a completed run counts\<close>

lemma run_plan_total:
  "run_plan order remaining fills into = Some (Crossed left, into') \<Longrightarrow>
     left = remaining - sum_list (map pf_qty_tenths fills) \<and>
     bt_trades_total into' = bt_trades_total into + length fills"
proof (induction order remaining fills into rule: run_plan.induct)
  case (2 order remaining fill fills into)
  then obtain x where x: "fill_step order fill into = Some (Some x)"
    and r: "run_plan order (remaining - pf_qty_tenths fill) fills x = Some (Crossed left, into')"
    by (auto split: option.splits)
  obtain mn tn l i where i: "Suc (bt_trades_total into) \<le> u64_max"
    and c: "commit_fill order fill mn tn i (into\<lparr>bt_ledger := l\<rparr>) = Some x"
    using x by (rule fill_step_SomeE)
  have "bt_trades_total x = Suc (bt_trades_total into)"
    using c by (rule commit_fill_SomeE) (use i in \<open>simp add: sat_add_u64_def\<close>)
  then show ?case using "2.IH" [OF x refl r] by simp
qed simp

end
