(* ===== verification/Engine_Properties.thy ===== *)
theory Engine_Properties
  imports Engine_Demo Recovery Matching
begin

section \<open>The engine: the properties\<close>

text \<open>
  What holds in every state an engine can reach from a genesis by consuming messages. The
  witnesses are the states of \<open>Engine_Demo\<close>.
\<close>

lemma demo_room:
  "en_last_seen demo1 < u64_max" "en_last_seen demo2 < u64_max" "en_last_seen demo3 < u64_max"
  by (simp_all add: demo1_def demo2_def demo3_def u64_max_def)

lemma demo_last_seen: "en_last_seen demo1 = 1" "en_last_seen demo2 = 2" "en_last_seen demo3 = 3"
  by (simp_all add: demo1_def demo2_def demo3_def)

lemma reaches_parts:
  assumes "engine_reaches cr s"
  shows "desk_ok (en_last_seen s) s" "record_ok s" "market_ok s"
  using reaches_inv(1) [OF assms] by (simp_all add: engine_inv_def)

subsection \<open>Messages\<close>

text \<open>C1: no reachable engine panics or loops, whatever message comes next: the message with the next
  id is consumed and moves the cursor by one, every other message is answered with
  \<open>OutOfOrder\<close> and the id the engine expects.\<close>

theorem engine_never_panics:
  assumes "engine_reaches cr s" and "en_last_seen s < u64_max"
  shows "if msg_id msg = Suc (en_last_seen s)
    then \<exists>t. apply_inner cr s msg raw = Some (Inr t) \<and> engine_reaches cr t \<and> en_last_seen t = msg_id msg
    else apply_inner cr s msg raw = Some (Inl (OutOfOrder (Suc (en_last_seen s)) (msg_id msg)))"
proof (cases "msg_id msg = Suc (en_last_seen s)")
  case True
  obtain t where "apply_inner cr s msg raw = Some (Inr t)" "en_last_seen t = msg_id msg"
    using apply_inner_next [OF reaches_inv(1) [OF assms(1)] True assms(2)] by blast
  then show ?thesis using True engine_reaches.message [OF assms] by auto
next
  case False
  then show ?thesis using apply_inner_other [of msg s cr raw] next_expected [OF assms(2)] by simp
qed

theorem engine_never_panics_witness:
  "(\<exists>t. apply_inner demo_crypto demo2 demo_buy None = Some (Inr t) \<and> engine_reaches demo_crypto t \<and> en_last_seen t = 3) \<and>
   apply_inner demo_crypto demo2 demo_cancel None = Some (Inl (OutOfOrder 3 4))"
  using engine_never_panics [OF demo_reaches(3) demo_room(2), of demo_buy None]
    engine_never_panics [OF demo_reaches(3) demo_room(2), of demo_cancel None]
  by (simp add: demo_buy_def demo_cancel_def demo2_def)

text \<open>C23: feeding a log with repeated, stale or early messages never panics and leads to exactly the
  state its accepted subsequence leads to: at-least-once delivery is applied exactly once.\<close>

theorem redelivery_is_harmless:
  assumes "engine_reaches cr s"
    and "en_last_seen s + length (accepted msg_id (Suc (en_last_seen s)) msgs) < u64_max"
  shows "\<exists>t. drive (apply_message cr) s msgs = Some t \<and>
    drive (apply_message cr) s (accepted msg_id (Suc (en_last_seen s)) msgs) = Some t \<and>
    en_last_seen t = en_last_seen s + length (accepted msg_id (Suc (en_last_seen s)) msgs)"
  using engine.drive_returns [OF reaches_inv(1) [OF assms(1)] assms(2), of cr] by blast

theorem redelivery_is_harmless_witness:
  "\<exists>t. drive (apply_message demo_crypto) demo1 [demo_list, demo_sell, demo_cancel, demo_sell, demo_buy] = Some t \<and>
     drive (apply_message demo_crypto) demo1 [demo_sell, demo_buy] = Some t \<and> en_last_seen t = 3"
proof -
  have "msg_id demo_list = 1" "msg_id demo_sell = 2" "msg_id demo_buy = 3" "msg_id demo_cancel = 4"
    by (simp_all add: demo_list_def demo_sell_def demo_buy_def demo_cancel_def)
  then have a: "accepted msg_id (Suc (en_last_seen demo1)) [demo_list, demo_sell, demo_cancel, demo_sell, demo_buy] =
      [demo_sell, demo_buy]"
    by (simp add: demo_last_seen)
  show ?thesis
    using redelivery_is_harmless [OF demo_reaches(2), of "[demo_list, demo_sell, demo_cancel, demo_sell, demo_buy]"]
    unfolding a unfolding demo_last_seen
    by (simp add: u64_max_def numeral_3_eq_3 del: drive.simps)
qed

subsection \<open>Restart\<close>

text \<open>C24: a reachable engine always recovers from its own snapshots: \<open>restore_ledger\<close> accepts the
  ledger it wrote, checked balance by balance and against every open order of its books, and
  gives the same engine back; the price windows come back with their recomputed sums.\<close>

theorem engine_recovers:
  assumes "engine_reaches cr s"
  shows "restore_ledger s (snapshot (en_ledger s)) = Inr s \<and>
    mids_restore (mids_snapshot (en_mids s)) = Some (en_mids s)"
proof
  show "restore_ledger s (snapshot (en_ledger s)) = Inr s"
    by (rule engine_restores [OF reaches_inv(1) [OF assms]])
  have "mids_live 1 MAX_GRID_UNITS (en_mids s)"
    using reaches_inv(1) [OF assms] by (simp add: engine_inv_def market_ok_def)
  then show "mids_restore (mids_snapshot (en_mids s)) = Some (en_mids s)"
    by (intro mids_restore_live [of 1 MAX_GRID_UNITS]) (simp_all add: mids_live_def)
qed

theorem engine_recovers_witness:
  "restore_ledger demo3 (snapshot (en_ledger demo3)) = Inr demo3 \<and>
   mids_restore (mids_snapshot (en_mids demo3)) = Some (en_mids demo3)"
  by (rule engine_recovers [OF demo_reaches(4)])

subsection \<open>Books and index\<close>

text \<open>C21: in every reachable state the book of a symbol is not empty and not crossed (every bid is
  below every ask), and each of its levels is a nonempty queue in arrival order of positive
  quantities at a price of the grid.\<close>

theorem books_never_cross:
  assumes "engine_reaches cr s" and "map_of (en_books s) symbol = Some b"
  shows "(bids b \<noteq> [] \<or> asks b \<noteq> []) \<and>
    (\<forall>x \<in> set (bids b). \<forall>y \<in> set (asks b). fst x < fst y) \<and>
    (\<forall>(price, level) \<in> set (bids b) \<union> set (asks b).
       0 < price \<and> price \<le> MAX_GRID_UNITS \<and> level \<noteq> [] \<and> sorted_wrt (<) (map ro_id level) \<and>
       list_all (\<lambda>r. 0 < ro_qty_tenths r \<and> ro_qty_tenths r \<le> MAX_GRID_UNITS) level)"
proof -
  have d: "books_ok (en_books s)" "no_empty_book (en_books s)"
    using reaches_parts(1) [OF assms(1)] by (simp_all add: desk_ok_def)
  have b: "book_ok b" using books_ok_get [OF d(1) assms(2)] .
  have "bids b \<noteq> [] \<or> asks b \<noteq> []"
    using d(2) map_of_list_all [OF _ assms(2)] by (fastforce simp: no_empty_book_def)
  then show ?thesis
    using b by (auto simp: book_ok_def uncrossed_def side_ok_def level_ok_def list_all_iff)
qed

theorem books_never_cross_witness:
  "asks \<lparr>bids = [], asks = [(1000, [\<lparr>ro_id = 2, ro_account = 2, ro_qty_tenths = 20\<rparr>])]\<rparr> \<noteq> [] \<and>
   1000 \<le> MAX_GRID_UNITS"
  using books_never_cross [OF demo_reaches(3), of "''BTC-USD''"] by (simp add: demo2_def)

text \<open>C22: the index of open orders is exactly the set of orders that rest in the books: an id is in the
  index with a symbol, a side and a price just when an order with that id rests there.\<close>

theorem index_is_books:
  assumes "engine_reaches cr s"
  shows "map_of (en_open_orders s) i = Some ref \<longleftrightarrow>
    (\<exists>b level r. map_of (en_books s) (ref_symbol ref) = Some b \<and>
       map_of (own_side (ref_side ref) b) (ref_price_cents ref) = Some level \<and> r \<in> set level \<and> ro_id r = i)"
proof -
  have "index_for (live (en_books s)) (map_of (en_open_orders s))"
    using reaches_parts(1) [OF assms] by (simp add: desk_ok_def)
  then show ?thesis unfolding index_for_def live_iff resting_def by blast
qed

theorem index_is_books_witness:
  "\<exists>b level r. map_of (en_books demo3) ''BTC-USD'' = Some b \<and>
     map_of (own_side Buy b) 1100 = Some level \<and> r \<in> set level \<and> ro_id r = 3"
  using index_is_books [OF demo_reaches(4), of 3 "\<lparr>ref_symbol = ''BTC-USD'', ref_side = Buy, ref_price_cents = 1100\<rparr>"]
  by (simp add: demo3_def)

text \<open>C2: on a funded engine every resting order is backed: the reservation under its id names its
  account, symbol, side, limit price and remaining quantity, and there are no other reservations.\<close>

theorem orders_are_funded:
  assumes "engine_reaches cr s" and "is_funded (en_ledger s)"
  shows "(\<forall>r. map_of (lg_reservations (en_ledger s)) i = Some r \<longrightarrow>
      (\<exists>x. (rsv_symbol r, rsv_side r, rsv_limit_cents r, x) \<in> live (en_books s) \<and> ro_id x = i)) \<and>
    (\<forall>symbol sd price x. (symbol, sd, price, x) \<in> live (en_books s) \<longrightarrow>
      (\<exists>r. map_of (lg_reservations (en_ledger s)) (ro_id x) = Some r \<and> rsv_account r = ro_account x \<and>
        rsv_symbol r = symbol \<and> rsv_side r = sd \<and> rsv_limit_cents r = price \<and>
        rsv_remaining_tenths r = ro_qty_tenths x))"
proof -
  have c: "covers (live (en_books s)) (map_of (lg_reservations (en_ledger s)))"
    using reaches_parts(1) [OF assms(1)] assms(2) by (simp add: desk_ok_def backs_def)
  show ?thesis
  proof (intro conjI allI impI)
    fix r assume "map_of (lg_reservations (en_ledger s)) i = Some r"
    then obtain t where "t \<in> live (en_books s)" "live_id t = i" "rsv_matches t r"
      using c unfolding covers_def by blast
    then show "\<exists>x. (rsv_symbol r, rsv_side r, rsv_limit_cents r, x) \<in> live (en_books s) \<and> ro_id x = i"
      by (cases t) auto
  next
    fix symbol sd price x assume "(symbol, sd, price, x) \<in> live (en_books s)"
    from covers_get [OF c this]
    show "\<exists>r. map_of (lg_reservations (en_ledger s)) (ro_id x) = Some r \<and> rsv_account r = ro_account x \<and>
        rsv_symbol r = symbol \<and> rsv_side r = sd \<and> rsv_limit_cents r = price \<and>
        rsv_remaining_tenths r = ro_qty_tenths x" by auto
  qed
qed

theorem orders_are_funded_witness:
  "\<exists>x. (''BTC-USD'', Buy, 1100, x) \<in> live (en_books demo3) \<and> ro_id x = 3"
proof -
  have "is_funded (en_ledger demo3)" by (simp add: demo3_def demo_ledger_def is_funded_def)
  from orders_are_funded [OF demo_reaches(4) this, of 3] show ?thesis by (simp add: demo3_def)
qed

subsection \<open>Positions and the tape\<close>

text \<open>C3: positions are zero-sum: over all accounts the net quantities of a symbol add up to zero, and
  so does the cash that moved; and every single position satisfies realised profit = cash +
  signed cost basis.\<close>

theorem positions_zero_sum:
  assumes "engine_reaches cr s"
  shows "(\<Sum>e\<leftarrow>en_positions s. if snd (fst e) = symbol then net_qty_tenths (snd e) else 0) = 0 \<and>
    (\<Sum>e\<leftarrow>en_positions s. if snd (fst e) = symbol then cash_mills (snd e) else 0) = 0 \<and>
    list_all (\<lambda>e. realized_mills (snd e) = cash_mills (snd e) + signed_basis (snd e)) (en_positions s)"
  using reaches_parts(2) [OF assms]
  by (auto simp: record_ok_def positions_ok_def position_total_def position_inv_def list_all_iff)

theorem positions_zero_sum_witness:
  "(\<Sum>e\<leftarrow>en_positions demo3. if snd (fst e) = ''BTC-USD'' then net_qty_tenths (snd e) else 0) = 0 \<and>
   map (\<lambda>e. cash_mills (snd e)) (en_positions demo3) = [- 20000, 20000]"
  using positions_zero_sum [OF demo_reaches(4), of "''BTC-USD''"] by (simp add: demo3_def)

text \<open>The recent trades are a bounded run of consecutive trade ids that ends at the total.\<close>

theorem trades_are_consecutive:
  assumes "engine_reaches cr s"
  shows "map tr_trade_id (en_trades s) =
      [Suc (en_trades_total s - length (en_trades s)) ..< Suc (en_trades_total s)] \<and>
    length (en_trades s) \<le> TRADE_WINDOW"
  using reaches_parts(2) [OF assms] by (simp add: record_ok_def tape_ok_def)

theorem trades_are_consecutive_witness:
  "map tr_trade_id (en_trades demo3) = [Suc (1 - 1) ..< Suc 1] \<and> length (en_trades demo3) \<le> TRADE_WINDOW"
  using trades_are_consecutive [OF demo_reaches(4)] by (simp add: demo3_def)

text \<open>C39: an engine with resource limits never exceeds them: open orders, position rows and symbols
  stay within the policy it was started with.\<close>

theorem limits_always_hold:
  assumes "engine_reaches cr s"
  shows "validate_resource_capacity s"
  by (rule reaches_inv(2) [OF assms])

definition demo_limited :: matcher_state where
  "demo_limited = demo0\<lparr>en_limits := Some \<lparr>max_active_orders = 1, max_positions = 2, max_symbols = 1\<rparr>\<rparr>"

theorem limits_always_hold_witness:
  "validate_resource_capacity demo_limited \<and> en_limits demo_limited \<noteq> None"
proof
  have "with_resource_limits demo0 \<lparr>max_active_orders = 1, max_positions = 2, max_symbols = 1\<rparr> = Inr demo_limited"
    by (simp add: with_resource_limits_def limits_validate_def require_def demo_limited_def demo0_def new_engine_def)
  then have "engine_reaches demo_crypto demo_limited"
    by (intro engine_reaches.start engine_starts.with_limits [OF demo0_starts])
  then show "validate_resource_capacity demo_limited" by (rule limits_always_hold)
  show "en_limits demo_limited \<noteq> None" by (simp add: demo_limited_def)
qed

text \<open>A chart served from the candle cache is a bounded run of buckets one interval apart, each
  with low \<open>\<le>\<close> open, close \<open>\<le>\<close> high and a start on the interval's grid.\<close>

theorem charts_are_contiguous:
  assumes "engine_reaches cr s" and "cache_newest (en_candles s) symbol interval n = Some rows"
  shows "length rows \<le> n \<and> length rows \<le> MAX_CANDLES \<and>
    (\<forall>i. Suc i < length rows \<longrightarrow> cb_start (rows ! Suc i) = cb_start (rows ! i) + interval * 1000) \<and>
    list_all (\<lambda>b. interval * 1000 dvd cb_start b \<and> low_cents b \<le> open_cents b \<and> open_cents b \<le> high_cents b \<and>
      low_cents b \<le> close_cents b \<and> close_cents b \<le> high_cents b) rows"
proof -
  have ok: "cache_ok (en_candles s)" using reaches_parts(2) [OF assms(1)] by (simp add: record_ok_def)
  have "window_ok (interval * 1000) rows \<and> length rows \<le> n"
    by (rule cache_newest_ok [OF ok assms(2)])
  then show ?thesis by (simp add: window_ok_def contiguous_nth bucket_ok_def list_all_iff)
qed

theorem charts_are_contiguous_witness:
  "length [\<lparr>cb_start = 0, open_cents = 1000, high_cents = 1000, low_cents = 1000, close_cents = 1000,
     cb_volume = 20, cb_trades = 1\<rparr>] \<le> MAX_CANDLES"
proof -
  have "cache_newest (en_candles demo3) ''BTC-USD'' 900 5 =
      Some [\<lparr>cb_start = 0, open_cents = 1000, high_cents = 1000, low_cents = 1000, close_cents = 1000,
        cb_volume = 20, cb_trades = 1\<rparr>]"
    by (simp add: demo3_def cache_newest_def CANDLE_INTERVALS_def window_newest_def)
  from charts_are_contiguous [OF demo_reaches(4) this] show ?thesis by blast
qed

subsection \<open>Reference price\<close>

text \<open>C40: the reference price of a reachable engine is a price of the grid, and it is the full walk over
  the samples that the incremental sums stand for.\<close>

theorem reference_price_is_walk:
  assumes "engine_reaches cr s" and "map_of (en_mids s) symbol = Some w"
  shows "sums_at w now opens = walked w now opens \<and>
    (\<forall>r. reference_cents (en_mids s) symbol now = Some r \<longrightarrow> 0 < r \<and> r \<le> MAX_GRID_UNITS)"
proof -
  have live: "mids_live 1 MAX_GRID_UNITS (en_mids s)"
    using reaches_parts(3) [OF assms(1)] by (simp add: market_ok_def)
  then have "window_inv w"
    using map_of_list_all [OF _ assms(2)] by (fastforce simp: mids_live_def window_live_def)
  then have "sums_at w now opens = walked w now opens" by (rule sums_at_walked)
  moreover have "0 < r \<and> r \<le> MAX_GRID_UNITS" if "reference_cents (en_mids s) symbol now = Some r" for r
    using reference_cents_between [OF live that] by (simp add: MAX_GRID_UNITS_def i64_max_def)
  ultimately show ?thesis by blast
qed

theorem reference_price_is_walk_witness:
  "sums_at \<lparr>samples = [(2000, None)], closed_weighted = 0, closed_weight = 0, clip_ms = 0\<rparr> 5000 1000 =
   walked \<lparr>samples = [(2000, None)], closed_weighted = 0, closed_weight = 0, clip_ms = 0\<rparr> 5000 1000"
  using reference_price_is_walk [OF demo_reaches(3), of "''BTC-USD''"] by (simp add: demo2_def)

end
