(* ===== verification/Order_Outcome.thy ===== *)
theory Order_Outcome
  imports Engine_Run Matching
begin

section \<open>What becomes of a new order\<close>

text \<open>
  The handler of a new order in one equation: a capacity check, the three decisions that only
  read, and the run. The book entry a refused order creates is gone again, so a refusal only
  counts. Then what admission, the collar, the post-only flag and the remainder policy promise
  about the trades and about what rests.
\<close>

subsection \<open>The handler in one equation\<close>

definition at_capacity :: "matcher_state \<Rightarrow> bool" where
  "at_capacity s \<longleftrightarrow>
     (case en_limits s of None \<Rightarrow> False | Some l \<Rightarrow> max_active_orders l \<le> length (en_open_orders s))"

definition book_met :: "matcher_state \<Rightarrow> incoming_order \<Rightarrow> book" where
  "book_met s order = bget_or empty_book (en_books s) (io_symbol order)"

definition entered :: "matcher_state \<Rightarrow> incoming_order \<Rightarrow> matcher_state" where
  "entered s order = s\<lparr>en_books := bput (en_books s) (io_symbol order) (book_met s order)\<rparr>"

lemma refuse_back:
  assumes "desk_ok n s"
  shows "refuse (entered s order) (io_symbol order) why = count_ignored s why"
proof -
  have "prune_book (bput (en_books s) (io_symbol order) (book_met s order)) (io_symbol order) = en_books s"
    using assms unfolding book_met_def by (intro prune_back) (simp_all add: desk_ok_def books_ok_def)
  then have "prune (entered s order) (io_symbol order) = s" by (simp add: prune_def entered_def)
  then show ?thesis by (simp add: refuse_def)
qed

lemma entered_fields [simp]:
  "en_mids (entered s order) = en_mids s" "en_rules (entered s order) = en_rules s"
  "en_limits (entered s order) = en_limits s" "en_positions (entered s order) = en_positions s"
  "en_ledger (entered s order) = en_ledger s" "en_trades_total (entered s order) = en_trades_total s"
  by (simp_all add: entered_def)

lemma admit_entered: "admit_order (entered s order) order' b = admit_order s order' b"
  unfolding admit_order_def entered_fields ..

lemma stage_entered: "stage_order (entered s order) order' b = stage_order s order' b"
  unfolding stage_order_def entered_fields ..

lemma apply_resolved_form:
  assumes "desk_ok n s"
  shows "apply_resolved s order =
    (if at_capacity s then Some (count_ignored s ActiveOrderCapacity)
     else case validate_order order (map_of (en_books s) (io_symbol order)) of
       Inl why \<Rightarrow> Some (count_ignored s why)
     | Inr _ \<Rightarrow>
         (case admit_order s order (book_met s order) of
            Inl why \<Rightarrow> Some (count_ignored s why)
          | Inr order' \<Rightarrow>
              do { staged \<leftarrow> stage_order s order' (book_met s order);
                   case staged of
                     Inl why \<Rightarrow> Some (count_ignored s why)
                   | Inr (plan, l) \<Rightarrow> run_order (entered s order) order' (book_met s order) plan l }))"
proof -
  have "apply_resolved s order =
    (if at_capacity s then Some (count_ignored s ActiveOrderCapacity)
     else case validate_order order (map_of (en_books s) (io_symbol order)) of
       Inl why \<Rightarrow> Some (count_ignored s why)
     | Inr _ \<Rightarrow>
         (case admit_order (entered s order) order (book_met s order) of
            Inl why \<Rightarrow> Some (refuse (entered s order) (io_symbol order) why)
          | Inr order' \<Rightarrow>
              do { staged \<leftarrow> stage_order (entered s order) order' (book_met s order);
                   case staged of
                     Inl why \<Rightarrow> Some (refuse (entered s order) (io_symbol order) why)
                   | Inr (plan, l) \<Rightarrow> run_order (entered s order) order' (book_met s order) plan l }))"
    unfolding apply_resolved_def Let_def at_capacity_def entered_def book_met_def ..
  then show ?thesis unfolding refuse_back [OF assms] admit_entered stage_entered .
qed

text \<open>An order that gets past every check, and what it then leads to.\<close>

definition accepted_as ::
  "matcher_state \<Rightarrow> incoming_order \<Rightarrow> incoming_order \<Rightarrow> fok_plan option \<Rightarrow> ledger \<Rightarrow> bool" where
  "accepted_as s order order' plan l \<longleftrightarrow> \<not> at_capacity s \<and>
     validate_order order (map_of (en_books s) (io_symbol order)) = Inr () \<and>
     admit_order s order (book_met s order) = Inr order' \<and>
     stage_order s order' (book_met s order) = Some (Inr (plan, l))"

lemma apply_resolved_cases:
  assumes "desk_ok n s"
  obtains (refused) why where "apply_resolved s order = Some (count_ignored s why)"
      and "\<forall>order' plan l. \<not> accepted_as s order order' plan l"
  | (ran) order' plan l where "accepted_as s order order' plan l"
      and "apply_resolved s order = run_order (entered s order) order' (book_met s order) plan l"
proof -
  note form = apply_resolved_form [OF assms, of order]
  let ?b = "book_met s order"
  consider (cap) "at_capacity s"
    | (val) why where "\<not> at_capacity s" "validate_order order (map_of (en_books s) (io_symbol order)) = Inl why"
    | (adm) why where "\<not> at_capacity s" "validate_order order (map_of (en_books s) (io_symbol order)) = Inr ()"
        "admit_order s order ?b = Inl why"
    | (go) order' where "\<not> at_capacity s" "validate_order order (map_of (en_books s) (io_symbol order)) = Inr ()"
        "admit_order s order ?b = Inr order'"
    by (metis (full_types) old.sum.exhaust old.unit.exhaust)
  then show thesis
  proof cases
    case cap
    then show ?thesis using refused form by (simp add: accepted_as_def)
  next
    case val
    then show ?thesis using refused form by (simp add: accepted_as_def)
  next
    case adm
    then show ?thesis using refused form by (simp add: accepted_as_def)
  next
    case go
    obtain r where r: "stage_order s order' ?b = Some r" using stage_order_returns by blast
    show ?thesis
    proof (cases r)
      case (Inl why)
      then show ?thesis using refused form go r by (simp add: accepted_as_def)
    next
      case (Inr pl)
      then obtain plan l where "r = Inr (plan, l)" by (cases pl) auto
      then show ?thesis using ran [of order' plan l] form go r by (simp add: accepted_as_def)
    qed
  qed
qed

subsection \<open>Admission\<close>

text \<open>A fill-or-kill order keeps its price: the collar refuses it rather than move it.\<close>

lemma fok_keeps_price:
  assumes "admit_order s order b = Inr order'" and "io_time_in_force order = FillOrKill"
  shows "order' = order"
  using assms by (auto simp: admit_order_def Let_def bound_def split: if_splits option.splits)

lemma admit_self_trade:
  "admit_order s order b = Inr order' \<Longrightarrow> check_self_trade order' b (en_rules s) = Inr ()"
  by (auto simp: admit_order_def Let_def)

lemma admit_bound:
  "admit_order s order b = Inr order' \<Longrightarrow>
     bound order (reference_cents (en_mids s) (io_symbol order) (io_timestamp order)) = Inr (io_limit_cents order')"
  by (auto simp: admit_order_def Let_def)

text \<open>The collar never loosens a limit and stays within two percent (and at least one cent) of
  the reference.\<close>

lemma collar_bounds:
  assumes "0 < r"
  shows "collar Buy limit r \<le> limit" and "100 * (collar Buy limit r - r) \<le> max (2 * r) 100"
    and "limit \<le> collar Sell limit r" and "100 * (r - collar Sell limit r) \<le> max (2 * r) 100"
proof -
  have d: "(r * COLLAR_BASIS_POINTS) sdiv 10000 = (r * 200) div 10000"
    using assms by (simp add: COLLAR_BASIS_POINTS_def signed_divide_int_def)
  define k where "k = (r * 200) div 10000"
  have "k * 10000 \<le> r * 200" using pos_mod_sign [of 10000 "r * 200"] unfolding k_def by (simp add: minus_mod_eq_div_mult [symmetric])
  then have k: "100 * k \<le> 2 * r" by simp
  show "collar Buy limit r \<le> limit" "limit \<le> collar Sell limit r" by simp_all
  show "100 * (collar Buy limit r - r) \<le> max (2 * r) 100"
    using k unfolding collar.simps d k_def [symmetric] by (auto simp: min_def max_def)
  show "100 * (r - collar Sell limit r) \<le> max (2 * r) 100"
    using k unfolding collar.simps d k_def [symmetric] by (auto simp: min_def max_def)
qed

subsection \<open>Post-only\<close>

lemma foldl_sat_add_ge:
  assumes "\<forall>r \<in> set rs. 0 < ro_qty_tenths r" and "0 \<le> n" and "n \<le> i64_max"
  shows "n \<le> foldl (\<lambda>sum r. sat_add sum (ro_qty_tenths r)) n rs"
  using assms
proof (induction rs arbitrary: n)
  case (Cons r rs)
  have "n \<le> sat_add n (ro_qty_tenths r)" "0 \<le> sat_add n (ro_qty_tenths r)" "sat_add n (ro_qty_tenths r) \<le> i64_max"
    using Cons.prems by (auto simp: arith_defs)
  then show ?case using Cons.IH [of "sat_add n (ro_qty_tenths r)"] Cons.prems(1) by fastforce
qed simp

lemma foldl_sat_add_pos:
  assumes "\<forall>r \<in> set rs. 0 < ro_qty_tenths r" and "rs \<noteq> []"
  shows "0 < foldl (\<lambda>sum r. sat_add sum (ro_qty_tenths r)) 0 rs"
proof -
  obtain r rs' where rs: "rs = r # rs'" using assms(2) by (cases rs) auto
  have "0 < sat_add 0 (ro_qty_tenths r)" "sat_add 0 (ro_qty_tenths r) \<le> i64_max"
    using assms(1) by (auto simp: rs arith_defs)
  then show ?thesis
    using foldl_sat_add_ge [of rs' "sat_add 0 (ro_qty_tenths r)"] assms(1) by (simp add: rs)
qed

lemma no_crossing_no_plan:
  assumes "book_ok b" and "crossing_tenths (Some b) (io_side order) (io_limit_cents order) \<le> 0"
    and "0 \<le> io_qty_tenths order"
  shows "plan_fills order b = []"
proof (rule ccontr)
  assume "plan_fills order b \<noteq> []"
  then obtain f where "f \<in> set (plan_fills order b)" by (meson last_in_set)
  then obtain m where c: "crosses (io_side order) (pf_price_cents f) (io_limit_cents order)"
    and m: "resting b (opposite (io_side order)) (pf_price_cents f) m"
    using plan_fills_spec(3) [OF assms(1,3)] by blast
  let ?l = "own_side (opposite (io_side order)) b"
  let ?rs = "concat (map snd (crossing (io_side order) (io_limit_cents order) ?l))"
  have ok: "side_ok ?l" using assms(1) by (rule side_ok_own)
  obtain lv where lv: "map_of ?l (pf_price_cents f) = Some lv" "m \<in> set lv" using m by (auto simp: resting_def)
  have "m \<in> set ?rs" using map_of_SomeD [OF lv(1)] lv(2) c by (force simp: crossing_def)
  moreover have "\<forall>r \<in> set ?rs. 0 < ro_qty_tenths r"
    using ok by (fastforce simp: crossing_def side_ok_def level_ok_def list_all_iff)
  ultimately have "0 < crossing_tenths (Some b) (io_side order) (io_limit_cents order)"
    unfolding crossing_tenths_def option.case by (intro foldl_sat_add_pos) (assumption, rule notI, simp only: list.set empty_iff)
  then show False using assms(2) by simp
qed

lemma post_only_no_plan:
  assumes "books_ok books" and "validate_order order (map_of books (io_symbol order)) = Inr ()"
    and "io_post_only order" and "0 \<le> io_qty_tenths order"
  shows "plan_fills order (bget_or empty_book books (io_symbol order)) = []"
proof (cases "map_of books (io_symbol order)")
  case None
  then show ?thesis
    by (cases "io_side order") (simp_all add: bget_or_def plan_fills_def empty_book_def)
next
  case (Some b)
  have "crossing_tenths (Some b) (io_side order) (io_limit_cents order) \<le> 0"
    using assms(2,3) Some by (auto simp: validate_order_def Let_def split: if_splits)
  then show ?thesis
    using no_crossing_no_plan [OF books_ok_get [OF assms(1) Some]] assms(4) Some by (simp add: bget_or_def)
qed

subsection \<open>The end of a run\<close>

lemma close_order_fields [simp]:
  "en_books (close_order s order) = prune_book (en_books s) (io_symbol order)"
  "en_trades_total (close_order s order) = en_trades_total s"
  "en_trades (close_order s order) = en_trades s"
  "en_positions (close_order s order) = en_positions s"
  "en_ledger (close_order s order) = en_ledger s"
  by (simp_all add: close_order_def)

text \<open>The orders that rest after an accepted order, and the trades it made.\<close>

lemma ran_outcome:
  assumes d: "desk_ok n s" and rc: "record_ok s"
    and acc: "accepted_as s order order' plan l"
    and o': "io_id order = Suc n" "0 < io_qty_tenths order"
  obtains m into l0 left s' where "run_order (entered s order) order' (book_met s order) plan l = Some s'"
    and "run_plan order' (io_qty_tenths order) (plan_fills order' (book_met s order))
      (borrow (entered s order) (book_met s order) l0 (plan \<noteq> None)) = Some (m, into)"
    and "m = Crossed left \<or> m = Overflowed left" and "0 \<le> left"
    and "io_time_in_force order = FillOrKill \<longrightarrow> m = Crossed 0"
    and "en_trades_total s' = bt_trades_total into" and "en_positions s' = bt_positions into"
    and "live (en_books s') = exec_live (en_books s) order' into \<or>
      m = Crossed left \<and> 0 < left \<and> decide order' left = Rest"
    and "\<forall>t \<in> exec_live (en_books s) order' into. live_id t < io_id order"
proof -
  let ?b = "book_met s order" and ?s1 = "entered s order"
  obtain limit where order': "order' = order\<lparr>io_limit_cents := limit\<rparr>"
    using acc by (auto simp: accepted_as_def elim: admit_order_fields)
  have fields: "io_id order' = Suc n" "0 < io_qty_tenths order'" "io_symbol order' = io_symbol order"
    "io_time_in_force order' = io_time_in_force order" "io_qty_tenths order' = io_qty_tenths order"
    "io_id order = io_id order'"
    using o' order' by simp_all
  have b: "?b = bget_or empty_book (en_books s) (io_symbol order')" by (simp add: book_met_def fields)
  have s1: "?s1 = s\<lparr>en_books := bput (en_books s) (io_symbol order') ?b\<rparr>" by (simp add: entered_def fields)
  have st: "stage_order ?s1 order' ?b = Some (Inr (plan, l))"
    using acc by (simp add: accepted_as_def stage_entered)
  obtain m into l0 left where run: "run_order ?s1 order' ?b plan l =
      (case m of
         Overflowed _ \<Rightarrow>
           do { x \<leftarrow> release_order (io_id order') into;
                Some (close_order (count_ignored (give_back ?s1 (io_symbol order') x) PositionOverflow) order') }
       | Crossed r \<Rightarrow>
           do { x \<leftarrow> remainder_policy order' r into;
                Some (close_order (give_back ?s1 (io_symbol order') x) order') })"
    and rp: "run_plan order' (io_qty_tenths order') (plan_fills order' ?b) (borrow ?s1 ?b l0 (plan \<noteq> None)) = Some (m, into)"
    and ok: "exec_ok (en_books s) order' left into" and tape: "tape_inv into"
    and left: "0 \<le> left" "left \<le> io_qty_tenths order'"
    and m: "m = Crossed left \<and> (left = 0 \<or> next_fill order' (bt_book into) left = None) \<or> m = Overflowed left"
    and fok: "io_time_in_force order' = FillOrKill \<longrightarrow> m = Crossed 0"
    by (rule order_executed [OF d rc b s1 st fields(1,2)]) (rule that)
  have ids: "\<forall>t \<in> exec_live (en_books s) order' into. live_id t < io_id order"
    using ok by (simp add: exec_ok_def fields(6))
  have gb: "bput (bput (en_books s) (io_symbol order') ?b) (io_symbol order') x = bput (en_books s) (io_symbol order') x" for x
    using bm.put_put [of "en_books s" "io_symbol order'" ?b] d by (simp add: desk_ok_def books_ok_def)
  have books: "live (prune_book (bput (en_books ?s1) (io_symbol order') (bt_book into)) (io_symbol order')) =
      exec_live (en_books s) order' into"
    by (simp add: live_prune exec_live_def s1 gb)
  obtain x where x: "release_order (io_id order') into = Some x" "bt_positions x = bt_positions into"
    "bt_book x = bt_book into" "bt_trades_total x = bt_trades_total into"
    using release_order_ok [OF ok tape] by (auto simp: release_order_def bind_eq_Some_conv)
  show thesis
  proof (cases m)
    case (Overflowed r)
    let ?s' = "close_order (count_ignored (give_back ?s1 (io_symbol order') x) PositionOverflow) order'"
    show ?thesis
      by (rule that [of ?s' l0 m into left])
        (use run rp Overflowed x left m fok books ids in \<open>simp_all add: fields\<close>)
  next
    case (Crossed r)
    with m have r: "r = left" by auto
    show ?thesis
    proof (cases "0 < left \<and> decide order' left = Rest")
      case True
      let ?s' = "close_order (give_back ?s1 (io_symbol order') (rest_order order' left into)) order'"
      show ?thesis
        by (rule that [of ?s' l0 m into left])
          (use run rp Crossed r True left m fok ids in
            \<open>simp_all add: fields remainder_policy_def rest_order_def Let_def\<close>)
    next
      case False
      obtain y where y: "remainder_policy order' left into = Some y" "bt_positions y = bt_positions into"
        "bt_book y = bt_book into" "bt_trades_total y = bt_trades_total into"
        using x False by (cases "decide order' left"; cases "0 < left") (auto simp: remainder_policy_def)
      let ?s' = "close_order (give_back ?s1 (io_symbol order') y) order'"
      show ?thesis
        by (rule that [of ?s' l0 m into left])
          (use run rp Crossed r y left m fok books ids in \<open>simp_all add: fields\<close>)
    qed
  qed
qed

end
