(* ===== verification/Order_Properties.thy ===== *)
theory Order_Properties
  imports Engine_Demo Order_Outcome
begin

section \<open>Orders: the properties\<close>

text \<open>
  What the engine promises about a single order or cancel in every state it can reach. The
  witnesses are orders met by the concrete engine of \<open>Engine_Demo\<close>.
\<close>

subsection \<open>Orders for the example\<close>

text \<open>An order as the sixth message of the example, from account \<open>a\<close>.\<close>

definition demo_order :: "account_id \<Rightarrow> side \<Rightarrow> int \<Rightarrow> int \<Rightarrow> order_type \<Rightarrow> time_in_force \<Rightarrow> bool \<Rightarrow> incoming_order" where
  "demo_order a sd p q ty tif post =
     \<lparr>io_id = 6, io_timestamp = 6000, io_account = a, io_symbol = ''BTC-USD'', io_side = sd,
      io_limit_cents = p, io_qty_tenths = q, io_order_type = ty, io_time_in_force = tif,
      io_post_only = post\<rparr>"

lemmas accept_eval = accepted_as_def at_capacity_def book_met_def demo_order_def demo5_def demo4_def demo3_def demo2_def
  demo1_def plan_fills_def stage_fok_def stage_fok_ledger_def reference_cents_def
  window_reference_def sums_at_def check_positions_def own_order_in_the_way_def

lemma reaches_desk:
  assumes "engine_reaches cr s"
  shows "desk_ok (en_last_seen s) s" "record_ok s" "market_ok s" "books_ok (en_books s)"
  using reaches_inv(1) [OF assms] by (simp_all add: engine_inv_def desk_ok_def)


lemma accepted_fields:
  assumes "accepted_as s order order' plan l"
  shows "io_side order' = io_side order" "io_account order' = io_account order"
    "io_qty_tenths order' = io_qty_tenths order" "io_time_in_force order' = io_time_in_force order"
    "io_order_type order' = io_order_type order" "io_id order' = io_id order"
    "\<not> is_market order \<Longrightarrow> order' = order"
  using assms by (auto simp: accepted_as_def elim!: admit_order_fields)

subsection \<open>Refusals\<close>

text \<open>C18: an order that a check refuses changes nothing but the counters of ignored orders: no book
  entry, no reservation, no position and no trade is left behind.\<close>

theorem refusals_leave_no_trace:
  assumes "engine_reaches cr s" and "\<nexists>order' plan l. accepted_as s order order' plan l"
  shows "\<exists>why. apply_resolved s order = Some (count_ignored s why)"
  using apply_resolved_cases [OF reaches_desk(1) [OF assms(1)], of order] assms(2) by metis

theorem refusals_leave_no_trace_witness:
  "\<exists>why. apply_resolved demo5 (demo_order 3 Buy 1000 10 Limit GoodTillCancel False) = Some (count_ignored demo5 why)"
proof (rule refusals_leave_no_trace [OF demo_reaches(6)])
  show "\<nexists>order' plan l. accepted_as demo5 (demo_order 3 Buy 1000 10 Limit GoodTillCancel False) order' plan l"
    by (auto simp: accept_eval demo_eval)
qed

subsection \<open>Fill-or-kill\<close>



subsection \<open>What an accepted order trades with\<close>







subsection \<open>What rests\<close>

text \<open>A post-only order never trades: if it is accepted, the number of trades stays.\<close>

theorem post_only_never_trades:
  assumes "engine_reaches cr s" and "io_id order = Suc (en_last_seen s)" and "0 < io_qty_tenths order"
    and "io_post_only order"
  shows "\<exists>s'. apply_resolved s order = Some s' \<and> en_trades_total s' = en_trades_total s \<and>
    en_positions s' = en_positions s"
  using reaches_desk(1) [OF assms(1)]
proof (cases rule: apply_resolved_cases [where order = order])
  case (refused why)
  then show ?thesis by simp
next
  case (ran order' plan l)
  have v: "validate_order order (map_of (en_books s) (io_symbol order)) = Inr ()"
    using ran(1) by (simp add: accepted_as_def)
  then have "\<not> is_market order" using assms(4) by (auto simp: validate_order_def)
  then have same: "order' = order" by (rule accepted_fields(7) [OF ran(1)])
  have none: "plan_fills order (book_met s order) = []"
    using post_only_no_plan [OF reaches_desk(4) [OF assms(1)] v assms(4)] assms(3) by (simp add: book_met_def)
  obtain m into l0 left s' where s': "run_order (entered s order) order' (book_met s order) plan l = Some s'"
    and rp: "run_plan order' (io_qty_tenths order) (plan_fills order' (book_met s order))
      (borrow (entered s order) (book_met s order) l0 (plan \<noteq> None)) = Some (m, into)"
    and t: "en_trades_total s' = bt_trades_total into" "en_positions s' = bt_positions into"
    by (rule ran_outcome [OF reaches_desk(1,2) [OF assms(1)] ran(1) assms(2,3)]) (rule that)
  have "into = borrow (entered s order) (book_met s order) l0 (plan \<noteq> None)"
    using rp none by (simp add: same del: not_None_eq)
  then show ?thesis using ran(2) s' t by (simp add: borrow_def)
qed

theorem post_only_never_trades_witness:
  "\<exists>s'. apply_resolved demo5 (demo_order 1 Buy 1100 5 Limit GoodTillCancel True) = Some s' \<and>
     en_trades_total s' = 1 \<and> en_positions s' = en_positions demo5"
  using post_only_never_trades [OF demo_reaches(6), of "demo_order 1 Buy 1100 5 Limit GoodTillCancel True"]
  by (simp add: demo_order_def demo5_def demo4_def demo3_def)

text \<open>Only limit orders that are good till cancelled rest: a market, immediate-or-cancel or
  fill-or-kill order is gone once it has been handled.\<close>

theorem only_patient_orders_rest:
  assumes "engine_reaches cr s" and "io_id order = Suc (en_last_seen s)" and "0 < io_qty_tenths order"
    and "\<not> (io_order_type order = Limit \<and> io_time_in_force order = GoodTillCancel)"
  shows "\<exists>s'. apply_resolved s order = Some s' \<and> io_id order \<notin> live_id ` live (en_books s')"
  using reaches_desk(1) [OF assms(1)]
proof (cases rule: apply_resolved_cases [where order = order])
  case (refused why)
  have "\<forall>t \<in> live (en_books s). live_id t \<le> en_last_seen s"
    using reaches_desk(1) [OF assms(1)] by (simp add: desk_ok_def)
  then show ?thesis using refused assms(2) by fastforce
next
  case (ran order' plan l)
  have no: "decide order' left \<noteq> Rest" for left
    using assms(4) accepted_fields [OF ran(1)]
    by (cases "io_order_type order"; cases "io_time_in_force order") (simp_all add: decide_def is_market_def)
  obtain m into l0 left s' where s': "run_order (entered s order) order' (book_met s order) plan l = Some s'"
    and L: "live (en_books s') = exec_live (en_books s) order' into \<or>
      m = Crossed left \<and> 0 < left \<and> decide order' left = Rest"
    and ids: "\<forall>t \<in> exec_live (en_books s) order' into. live_id t < io_id order"
    by (rule ran_outcome [OF reaches_desk(1,2) [OF assms(1)] ran(1) assms(2,3)]) (rule that)
  have "live (en_books s') = exec_live (en_books s) order' into" using L no by blast
  then show ?thesis using ran(2) s' ids by auto
qed

theorem only_patient_orders_rest_witness:
  "\<exists>s'. apply_resolved demo5 (demo_order 1 Buy 1125 25 Limit ImmediateOrCancel False) = Some s' \<and>
     6 \<notin> live_id ` live (en_books s')"
  using only_patient_orders_rest [OF demo_reaches(6), of "demo_order 1 Buy 1125 25 Limit ImmediateOrCancel False"]
  by (simp add: demo_order_def demo5_def demo4_def demo3_def demo2_def demo1_def)

end
