(* ===== verification/Component_Properties.thy ===== *)
theory Component_Properties
  imports Engine_Demo Order_Outcome
begin

section \<open>Cancels, operator messages and the parts of a step: the properties\<close>

text \<open>
  What a cancel and an operator message may change, that execution follows its plan and
  staging is sound, and the laws of the small components: positions, the price grid, nonces
  and the resource limits' snapshot.
\<close>

subsection \<open>Cancel\<close>

text \<open>C37: only its owner cancels an order: the owner's cancel removes exactly that order from the
  books and the index and releases exactly its reservation; any other cancel leaves books,
  index and ledger as they are. Neither touches positions or trades.\<close>

theorem cancel_frees_one_order:
  assumes "engine_reaches cr s"
  shows "\<exists>s'. apply_cancel s account target t = Some s' \<and>
    en_positions s' = en_positions s \<and> en_trades s' = en_trades s \<and>
    (if resting_owner s target = Some account
     then live (en_books s') = without (live (en_books s)) target \<and>
       en_open_orders s' = bdel (en_open_orders s) target \<and>
       (\<exists>found. release (en_ledger s) target = Inr (found, en_ledger s'))
     else en_books s' = en_books s \<and> en_open_orders s' = en_open_orders s \<and> en_ledger s' = en_ledger s)"
proof -
  have books: "books_ok (en_books s)" and idx: "index_for (live (en_books s)) (map_of (en_open_orders s))"
    and bk: "backs (en_ledger s) (live (en_books s))"
    using reaches_inv(1) [OF assms] by (simp_all add: engine_inv_def desk_ok_def)
  show ?thesis
  proof (cases "resting_owner s target")
    case None
    have "map_of (en_open_orders s) target = None" by (rule resting_owner_None [OF idx None])
    then have "bdel (en_open_orders s) target = en_open_orders s"
      by (intro bdel_absent) (force simp: map_of_eq_None_iff)
    then show ?thesis using None by (simp add: apply_cancel_def)
  next
    case (Some owner)
    show ?thesis
    proof (cases "owner = account")
      case False
      then show ?thesis using Some by (simp add: apply_cancel_def)
    next
      case True
      obtain ref b level r where ref: "map_of (en_open_orders s) target = Some ref"
        and b: "map_of (en_books s) (ref_symbol ref) = Some b"
        and lv: "map_of (own_side (ref_side ref) b) (ref_price_cents ref) = Some level" "r \<in> set level"
        and r: "ro_id r = target"
        using Some by (rule resting_owner_Some)
      note L = cancel_live [OF books live_unique [OF books idx] b lv r]
      obtain found l where "release (en_ledger s) target = Inr (found, l)"
        using backs_release [OF bk, of target] by blast
      then show ?thesis using Some True ref b L by (simp add: apply_cancel_def Let_def live_prune)
    qed
  qed
qed

theorem cancel_frees_one_order_witness:
  "\<exists>s'. apply_cancel demo5 1 3 6000 = Some s' \<and> live (en_books s') = without (live (en_books demo5)) 3 \<and>
     en_open_orders s' = [(4, \<lparr>ref_symbol = ''BTC-USD'', ref_side = Sell, ref_price_cents = 1125\<rparr>)]"
proof -
  have "resting_owner demo5 3 = Some 1" by (simp add: resting_owner_def demo5_def demo4_def)
  moreover have "bdel (en_open_orders demo5) 3 =
      [(4, \<lparr>ref_symbol = ''BTC-USD'', ref_side = Sell, ref_price_cents = 1125\<rparr>)]"
    by (simp add: bdel_def demo5_def demo4_def)
  ultimately show ?thesis using cancel_frees_one_order [OF demo_reaches(6), of 1 3 6000] by auto
qed

subsection \<open>Operator messages\<close>

text \<open>The fields only operator messages write.\<close>

definition rulebook :: "matcher_state \<Rightarrow> symbol_registry \<times> rule_set \<times> bytes option" where
  "rulebook s = (en_symbols s, en_rules s, en_operator_key s)"

lemma rulebook_fields [simp]:
  "rulebook (count_ignored s why) = rulebook s" "rulebook (prune s x) = rulebook s"
  "rulebook (observe_mid s x t) = rulebook s" "rulebook (give_back s x into) = rulebook s"
  "rulebook (ignore_listing s) = rulebook s" "rulebook (record_in s c) = rulebook s"
  "rulebook (refuse s x why) = rulebook s" "rulebook (s\<lparr>en_books := bs\<rparr>) = rulebook s"
  by (simp_all add: rulebook_def count_ignored_def prune_def observe_mid_def give_back_def
      ignore_listing_def record_in_def refuse_def Let_def)

lemma run_order_rulebook:
  assumes "run_order s order b plan l = Some s'"
  shows "rulebook s' = rulebook s"
proof -
  obtain m into where r: "(case m of
      Overflowed _ \<Rightarrow>
        do { into2 \<leftarrow> release_order (io_id order) into;
             Some (observe_mid (prune (count_ignored (give_back s (io_symbol order) into2) PositionOverflow)
                     (io_symbol order)) (io_symbol order) (io_timestamp order)) }
    | Crossed remaining \<Rightarrow>
        do { into2 \<leftarrow> remainder_policy order remaining into;
             Some (observe_mid (prune (give_back s (io_symbol order) into2) (io_symbol order))
                     (io_symbol order) (io_timestamp order)) }) = Some s'"
    using assms unfolding run_order_def Let_def by (auto simp: bind_eq_Some_conv)
  then show ?thesis by (cases m) (auto simp: bind_eq_Some_conv)
qed

lemma apply_resolved_rulebook:
  assumes "apply_resolved s order = Some s'"
  shows "rulebook s' = rulebook s"
proof -
  let ?b = "bget_or empty_book (en_books s) (io_symbol order)"
  let ?s1 = "s\<lparr>en_books := bput (en_books s) (io_symbol order) ?b\<rparr>"
  consider (counted) why where "s' = count_ignored s why"
    | (met) "(case admit_order ?s1 order ?b of
        Inl why \<Rightarrow> Some (refuse ?s1 (io_symbol order) why)
      | Inr order' \<Rightarrow>
          do { staged \<leftarrow> stage_order ?s1 order' ?b;
               case staged of
                 Inl why \<Rightarrow> Some (refuse ?s1 (io_symbol order) why)
               | Inr (plan, l) \<Rightarrow> run_order ?s1 order' ?b plan l }) = Some s'"
    using assms unfolding apply_resolved_def Let_def
    by (cases "validate_order order (map_of (en_books s) (io_symbol order))")
      (simp_all split: if_split_asm, blast+)
  then show ?thesis
  proof cases
    case met
    show ?thesis
    proof (cases "admit_order ?s1 order ?b")
      case (Inr order')
      obtain r where r: "stage_order ?s1 order' ?b = Some r" using stage_order_returns by blast
      then show ?thesis using met Inr by (cases r) (auto dest!: run_order_rulebook)
    qed (use met in auto)
  qed simp
qed

lemma apply_new_rulebook:
  assumes "apply_new s i t a x sd p q te = Some s'"
  shows "rulebook s' = rulebook s"
proof -
  obtain r where "resolve (en_symbols s) x p q = Some r"
    using assms by (auto simp: apply_new_def bind_eq_Some_conv)
  then show ?thesis
    using assms by (cases r) (auto simp: apply_new_def dest!: apply_resolved_rulebook)
qed

lemma apply_cancel_rulebook:
  assumes "apply_cancel s account target t = Some s'"
  shows "rulebook s' = rulebook s"
  using assms
  by (auto simp: apply_cancel_def Let_def bind_eq_Some_conv rulebook_def record_in_def observe_mid_def prune_def
      split: option.splits if_splits)

lemma delist_orders_rulebook: "delist_orders rs s = Some s' \<Longrightarrow> rulebook s' = rulebook s"
  by (induction rs s rule: delist_orders.induct) (auto simp: bind_eq_Some_conv, simp add: rulebook_def)

lemma apply_delist_rulebook:
  "apply_delist_symbol s t x = Some s' \<Longrightarrow> en_rules s' = en_rules s \<and> en_operator_key s' = en_operator_key s"
  by (auto simp: apply_delist_symbol_def Let_def bind_eq_Some_conv ignore_listing_def record_in_def
      observe_mid_def rulebook_def dest!: delist_orders_rulebook split: if_splits)

lemma apply_list_rulebook:
  "en_rules (apply_list_symbol s i x p q) = en_rules s \<and>
   en_operator_key (apply_list_symbol s i x p q) = en_operator_key s"
  by (auto simp: apply_list_symbol_def Let_def ignore_listing_def record_in_def split: option.splits)

lemma operator_signed_stands:
  assumes "operator_signed cr s msg = (stands, s1)"
  shows "en_symbols s1 = en_symbols s \<and> en_rules s1 = en_rules s \<and>
    (en_operator_key s \<noteq> None \<longrightarrow> en_operator_key s1 = en_operator_key s) \<and>
    (stands \<longrightarrow> (\<exists>k. en_operator_key s1 = Some k \<and>
        operator_verify (cr_strict cr) msg (case en_feed_session s of None \<Rightarrow> [] | Some x \<Rightarrow> x) k = Inr ()))"
  using assms
  by (auto simp: operator_signed_def Let_def ignore_listing_def split: option.splits sum.splits if_splits)

text \<open>C38: listings and the rule set move only on a message that carries the signature of the
  operator's key over its session, kind and fields; and a key, once the engine has one, stays.\<close>

theorem only_the_operator_lists:
  assumes "dispatch cr s msg = Some s'"
  shows "(en_symbols s' \<noteq> en_symbols s \<or> en_rules s' \<noteq> en_rules s \<longrightarrow>
      (\<exists>k. en_operator_key s' = Some k \<and>
        operator_verify (cr_strict cr) msg (case en_feed_session s of None \<Rightarrow> [] | Some x \<Rightarrow> x) k = Inr ())) \<and>
    (en_operator_key s \<noteq> None \<longrightarrow> en_operator_key s' = en_operator_key s)"
proof (cases "\<exists>stands s1. operator_signed cr s msg = (stands, s1) \<and> (if stands then
    (case msg of
       ListSymbol i t a x p q nonce key sig \<Rightarrow> s' = apply_list_symbol s1 i x p q
     | DelistSymbol i t a x nonce key sig \<Rightarrow> apply_delist_symbol s1 t x = Some s'
     | EngineRule i t a v nonce key sig \<Rightarrow> s' = apply_rule s1 v
     | _ \<Rightarrow> False) else s' = s1)")
  case True
  then obtain stands s1 where o': "operator_signed cr s msg = (stands, s1)"
    and r: "if stands then (case msg of
       ListSymbol i t a x p q nonce key sig \<Rightarrow> s' = apply_list_symbol s1 i x p q
     | DelistSymbol i t a x nonce key sig \<Rightarrow> apply_delist_symbol s1 t x = Some s'
     | EngineRule i t a v nonce key sig \<Rightarrow> s' = apply_rule s1 v
     | _ \<Rightarrow> False) else s' = s1" by blast
  have "en_operator_key s' = en_operator_key s1"
    using r apply_list_rulebook apply_delist_rulebook
    by (fastforce simp: apply_rule_def split: if_splits order_message.splits option.splits)
  then show ?thesis using operator_signed_stands [OF o'] r by (cases stands) auto
next
  case False
  then have "rulebook s' = rulebook s"
    using assms apply_new_rulebook apply_cancel_rulebook
    by (auto simp: dispatch_def split: order_message.splits prod.splits if_splits)
  then show ?thesis by (simp add: rulebook_def)
qed

theorem only_the_operator_lists_witness:
  "\<exists>s1. dispatch demo_crypto demo4 demo_rule = Some s1 \<and> en_rules s1 \<noteq> en_rules demo4 \<and>
    (\<exists>k. en_operator_key s1 = Some k \<and> operator_verify (cr_strict demo_crypto) demo_rule ''demo'' k = Inr ())"
proof -
  let ?s = "demo4\<lparr>en_rules := 2\<rparr>"
  have d: "dispatch demo_crypto demo4 demo_rule = Some ?s"
    by (simp add: demo_eval listing_eval demo_rule_def demo1_def demo2_def demo3_def demo4_def)
  moreover have "en_rules ?s \<noteq> en_rules demo4" "en_feed_session demo4 = Some ''demo''"
    by (simp_all add: demo4_def demo3_def demo2_def demo1_def new_engine_def RULES_GENESIS_def)
  ultimately show ?thesis using only_the_operator_lists [OF d] by auto
qed

subsection \<open>Execution follows the plan\<close>

text \<open>The book of the example's last state, and an order of account 2 that meets it.\<close>

definition demo_book :: book where
  "demo_book = \<lparr>bids = [(1100, [\<lparr>ro_id = 3, ro_account = 1, ro_qty_tenths = 10\<rparr>])],
     asks = [(1125, [\<lparr>ro_id = 4, ro_account = 2, ro_qty_tenths = 20\<rparr>])]\<rparr>"

definition demo_taker :: incoming_order where
  "demo_taker = \<lparr>io_id = 6, io_timestamp = 6000, io_account = 2, io_symbol = ''BTC-USD'', io_side = Sell,
     io_limit_cents = 1100, io_qty_tenths = 5, io_order_type = Limit,
     io_time_in_force = ImmediateOrCancel, io_post_only = False\<rparr>"

definition demo_fok :: incoming_order where
  "demo_fok = demo_taker\<lparr>io_time_in_force := FillOrKill\<rparr>"

lemma demo_book_ok: "book_ok demo_book"
  by (simp add: demo_book_def book_ok_def side_ok_def uncrossed_def level_ok_def MAX_GRID_UNITS_def
      bmap_ok_def)

text \<open>The fill loop, which looks for its next maker in the changing book, does exactly what the
  plan computed from the book before the first fill says, and always ends.\<close>

theorem loop_follows_plan:
  assumes "book_ok (bt_book into)" and "0 \<le> remaining"
  shows "execute order remaining into = run_plan order remaining (rest_of_plan order remaining into) into"
  using assms by (rule execute_run_plan)

theorem loop_follows_plan_witness:
  "execute demo_taker 5 (borrow demo5 demo_book demo_ledger True) =
   run_plan demo_taker 5 (rest_of_plan demo_taker 5 (borrow demo5 demo_book demo_ledger True))
     (borrow demo5 demo_book demo_ledger True)"
  by (rule loop_follows_plan) (simp_all add: borrow_def demo_book_ok)

text \<open>C36: the sweep that commits a fill-or-kill plan from precomputed positions and a precomputed
  ledger ends in the same state as executing the order fill by fill.\<close>

theorem sweep_equals_loop:
  assumes "stage_order s order b = Some (Inr (Some p, l))" and "book_ok b" and "0 < io_qty_tenths order"
  shows "\<exists>l0. reserve_order (en_ledger s) order = Inr l0 \<and>
    execute_fok order p (borrow s b l True) = execute order (io_qty_tenths order) (borrow s b l0 True)"
proof -
  have "\<exists>l0 l'. reserve_order (en_ledger s) order = Inr l0 \<and>
      (case Some p of Some p' \<Rightarrow> execute_fok order p' (borrow s b l (Some p \<noteq> None))
        | None \<Rightarrow> execute order (io_qty_tenths order) (borrow s b l (Some p \<noteq> None))) =
      execute order (io_qty_tenths order) (borrow s b l0 (Some p \<noteq> None))"
    by (rule staged_execution [OF assms]) blast
  then show ?thesis by auto
qed

theorem sweep_equals_loop_witness:
  "\<exists>p l l0. stage_order demo5 demo_fok demo_book = Some (Inr (Some p, l)) \<and>
     execute_fok demo_fok p (borrow demo5 demo_book l True) = execute demo_fok 5 (borrow demo5 demo_book l0 True)"
proof -
  obtain p l where st: "stage_order demo5 demo_fok demo_book = Some (Inr (Some p, l))"
    by (simp add: demo_eval demo_fok_def demo_taker_def demo_book_def plan_fills_def stage_fok_def
        stage_fok_ledger_def staged_before_def demo5_def demo4_def demo3_def)
  from sweep_equals_loop [OF st demo_book_ok] st show ?thesis
    by (auto simp: demo_fok_def demo_taker_def)
qed

text \<open>An order that passes the preflight of the funded ledger can be reserved and every fill of
  its plan can be settled: nothing fails after the first effect.\<close>

lemma preflight_is_sound:
  assumes "preflight order b positions l count = Inr ()" and "is_funded l" and "0 \<le> io_qty_tenths order"
  shows "\<exists>l0 l'. reserve_order l order = Inr l0 \<and> stage_settlements order (plan_fills order b) l0 = Inr l'"
  using assms by (rule preflight_settles)

subsection \<open>Positions\<close>

text \<open>A fill moves a position's net quantity and cash by exactly the fill and keeps the
  accounting identity, whether it opens, adds, reduces, closes or flips.\<close>

lemma fill_accounting:
  assumes "position_after_fill p sd qty price = Some p'" and "0 < qty" and "0 < price" and "position_inv p"
  shows "position_inv p' \<and>
    net_qty_tenths p' = net_qty_tenths p + (case sd of Buy \<Rightarrow> qty | Sell \<Rightarrow> - qty) \<and>
    cash_mills p' = cash_mills p - (case sd of Buy \<Rightarrow> qty | Sell \<Rightarrow> - qty) * price"
  using after_fill_inv [OF assms] after_fill_net [OF assms(1)] by simp

subsection \<open>The grid, nonces, limits\<close>

text \<open>Prices and quantities are read within the grid, and every whole multiple of the unit that
  is on the grid is read exactly.\<close>

theorem grid_reading_exact:
  "(\<forall>u. to_grid v scale = Some u \<longrightarrow> 0 < u \<and> u \<le> MAX_GRID_UNITS) \<and>
   (x * scale = of_int k \<longrightarrow> 0 < k \<longrightarrow> k \<le> MAX_GRID_UNITS \<longrightarrow> to_grid (Finite x) scale = Some k)"
  using to_grid_range to_grid_whole by blast

theorem grid_reading_exact_witness: "to_grid (Finite (45 / 4)) 100 = Some 1125"
  using grid_reading_exact [of _ 100 "45 / 4" 1125] by (simp add: MAX_GRID_UNITS_def)

text \<open>A nonce is accepted exactly when it is the lowercase hex of sixteen bytes, so no two texts
  stand for one nonce.\<close>

lemma nonces_are_canonical:
  "canonical_nonce nonce = Some raw \<longleftrightarrow> nonce = to_hex raw \<and> length raw = NONCE_BYTES"
  by (rule canonical_nonce_iff)

lemma length_to_le [simp]: "length (to_le k n) = k"
  by (induction k n rule: to_le.induct) simp_all

lemma from_le_to_le: "n < 256 ^ k \<Longrightarrow> from_le (to_le k n) = n"
proof (induction k n rule: to_le.induct)
  case (2 k n)
  have "n div 256 < 256 ^ k" using "2.prems" by (simp add: less_mult_imp_div_less mult.commute)
  then show ?case using "2.IH" by simp
qed simp

text \<open>Resource limits come back from their 28-byte snapshot, and a snapshot of another length or
  version is refused.\<close>

lemma limits_snapshot_roundtrip:
  assumes "limits_validate l = Inr ()"
    and "max_active_orders l \<le> u64_max" "max_positions l \<le> u64_max" "max_symbols l \<le> u64_max"
  shows "limits_from_snapshot (limits_snapshot_bytes l) = Inr l \<and>
    (length bs \<noteq> 28 \<longrightarrow> limits_from_snapshot bs \<noteq> Inr l)"
proof -
  have r: "from_le (to_le 8 n) = n" if "n \<le> u64_max" for n
    using that by (intro from_le_to_le) (simp add: u64_max_def)
  have "from_le (to_le 4 1) = 1" by (rule from_le_to_le) simp
  then show ?thesis using assms r by (cases l) (simp add: limits_from_snapshot_def limits_snapshot_bytes_def limits_bytes_def Let_def)
qed

end
