(* ===== verification/Statements.thy ===== *)
theory Statements
  imports Operator
begin

section \<open>Signed statements (services/src/logchain.rs)\<close>

text \<open>
  The byte strings the sequencer, the exchange and the validators sign: one line per field
  under a first line that names the kind. Ed25519 is third-party code: \<open>strict key bytes
  signature\<close> is \<open>verify_strict\<close> and \<open>sign key bytes\<close> signs. The lemmas show that a
  statement can be read back: no two lists of fields print the same bytes.
\<close>

definition show_bool :: "bool \<Rightarrow> string" where
  "show_bool b = (if b then ''true'' else ''false'')"

subsection \<open>The log: heads, checkpoints and tree heads\<close>

definition head_statement :: "string \<Rightarrow> nat \<Rightarrow> bytes \<Rightarrow> bytes" where
  "head_statement session last_id chain =
     join_lines [''exchange-feed-head-v1'', session, show_nat last_id, to_hex chain]"

definition verify_head ::
  "(bytes \<Rightarrow> bytes \<Rightarrow> bytes \<Rightarrow> bool) \<Rightarrow> bytes \<Rightarrow> string \<Rightarrow> nat \<Rightarrow> bytes \<Rightarrow> bytes \<Rightarrow> bool" where
  "verify_head strict key session last_id chain signature \<longleftrightarrow>
     strict key (head_statement session last_id chain) signature"

definition sign_head ::
  "('k \<Rightarrow> bytes \<Rightarrow> bytes) \<Rightarrow> 'k \<Rightarrow> string \<Rightarrow> nat \<Rightarrow> bytes \<Rightarrow> bytes" where
  "sign_head sign key session last_id chain = sign key (head_statement session last_id chain)"

definition checkpoint_statement :: "string \<Rightarrow> nat \<Rightarrow> bytes \<Rightarrow> bytes \<Rightarrow> bytes" where
  "checkpoint_statement session last_id chain root_hash =
     join_lines [''exchange-feed-checkpoint-v1'', session, show_nat last_id, to_hex chain, to_hex root_hash]"

definition sign_checkpoint ::
  "('k \<Rightarrow> bytes \<Rightarrow> bytes) \<Rightarrow> 'k \<Rightarrow> string \<Rightarrow> nat \<Rightarrow> bytes \<Rightarrow> bytes \<Rightarrow> bytes" where
  "sign_checkpoint sign key session last_id chain root_hash =
     sign key (checkpoint_statement session last_id chain root_hash)"

definition verify_checkpoint ::
  "(bytes \<Rightarrow> bytes \<Rightarrow> bytes \<Rightarrow> bool) \<Rightarrow> bytes \<Rightarrow> string \<Rightarrow> nat \<Rightarrow> bytes \<Rightarrow> bytes \<Rightarrow> bytes \<Rightarrow> bool" where
  "verify_checkpoint strict key session last_id chain root_hash signature \<longleftrightarrow>
     strict key (checkpoint_statement session last_id chain root_hash) signature"

definition tree_head_statement :: "string \<Rightarrow> nat \<Rightarrow> nat \<Rightarrow> bytes \<Rightarrow> bytes" where
  "tree_head_statement session timestamp_ms tree_size root_hash =
     join_lines [''exchange-feed-sth-v1'', session, show_nat timestamp_ms, show_nat tree_size, to_hex root_hash]"

definition sign_tree_head ::
  "('k \<Rightarrow> bytes \<Rightarrow> bytes) \<Rightarrow> 'k \<Rightarrow> string \<Rightarrow> nat \<Rightarrow> nat \<Rightarrow> bytes \<Rightarrow> bytes" where
  "sign_tree_head sign key session timestamp_ms tree_size root_hash =
     sign key (tree_head_statement session timestamp_ms tree_size root_hash)"

definition verify_tree_head ::
  "(bytes \<Rightarrow> bytes \<Rightarrow> bytes \<Rightarrow> bool) \<Rightarrow> bytes \<Rightarrow> string \<Rightarrow> nat \<Rightarrow> nat \<Rightarrow> bytes \<Rightarrow> bytes \<Rightarrow> bool" where
  "verify_tree_head strict key session timestamp_ms tree_size root_hash signature \<longleftrightarrow>
     strict key (tree_head_statement session timestamp_ms tree_size root_hash) signature"

subsection \<open>Claims and attestations\<close>

definition claim_statement :: "string \<Rightarrow> nat \<Rightarrow> nat \<Rightarrow> bytes \<Rightarrow> bytes \<Rightarrow> nat \<Rightarrow> bytes" where
  "claim_statement session from_msg to_msg root_before root_after trades =
     join_lines [''exchange-claim-v1'', session, show_nat from_msg, show_nat to_msg,
       to_hex root_before, to_hex root_after, show_nat trades]"

definition sign_claim ::
  "('k \<Rightarrow> bytes \<Rightarrow> bytes) \<Rightarrow> 'k \<Rightarrow> string \<Rightarrow> nat \<Rightarrow> nat \<Rightarrow> bytes \<Rightarrow> bytes \<Rightarrow> nat \<Rightarrow> bytes" where
  "sign_claim sign key session from_msg to_msg root_before root_after trades =
     sign key (claim_statement session from_msg to_msg root_before root_after trades)"

definition verify_claim ::
  "(bytes \<Rightarrow> bytes \<Rightarrow> bytes \<Rightarrow> bool) \<Rightarrow> bytes \<Rightarrow> string \<Rightarrow> nat \<Rightarrow> nat \<Rightarrow> bytes \<Rightarrow> bytes \<Rightarrow> nat \<Rightarrow> bytes \<Rightarrow> bool" where
  "verify_claim strict key session from_msg to_msg root_before root_after trades signature \<longleftrightarrow>
     strict key (claim_statement session from_msg to_msg root_before root_after trades) signature"

record attest_status =
  as_disputed :: bool
  as_stalled :: bool

definition is_vouching :: "attest_status \<Rightarrow> bool" where
  "is_vouching status \<longleftrightarrow> \<not> as_disputed status \<and> \<not> as_stalled status"

definition attest_statement :: "string \<Rightarrow> nat \<Rightarrow> bytes \<Rightarrow> attest_status \<Rightarrow> bytes" where
  "attest_statement session last_id chain status =
     join_lines [''exchange-validator-attest-v2'', session, show_nat last_id, to_hex chain,
       show_bool (as_disputed status), show_bool (as_stalled status)]"

definition sign_attest ::
  "('k \<Rightarrow> bytes \<Rightarrow> bytes) \<Rightarrow> 'k \<Rightarrow> string \<Rightarrow> nat \<Rightarrow> bytes \<Rightarrow> attest_status \<Rightarrow> bytes" where
  "sign_attest sign key session last_id chain status = sign key (attest_statement session last_id chain status)"

definition verify_attest ::
  "(bytes \<Rightarrow> bytes \<Rightarrow> bytes \<Rightarrow> bool) \<Rightarrow> bytes \<Rightarrow> string \<Rightarrow> nat \<Rightarrow> bytes \<Rightarrow> attest_status \<Rightarrow> bytes \<Rightarrow> bool" where
  "verify_attest strict key session last_id chain status signature \<longleftrightarrow>
     strict key (attest_statement session last_id chain status) signature"

subsection \<open>Numbers print one way\<close>

fun read_digits :: "nat \<Rightarrow> string \<Rightarrow> nat" where
  "read_digits acc [] = acc"
| "read_digits acc (c # cs) = read_digits (10 * acc + ((of_char c :: nat) - 48)) cs"

lemma read_digits_append: "read_digits acc (xs @ ys) = read_digits (read_digits acc xs) ys"
  by (induction acc xs rule: read_digits.induct) simp_all

lemma digit_code: "d < 10 \<Longrightarrow> (of_char (char_of (48 + d)) :: nat) = 48 + d"
  by simp

lemma read_show_nat: "read_digits 0 (show_nat n) = n"
proof (induction n rule: show_nat.induct)
  case (1 n)
  show ?case
  proof (cases "n < 10")
    case True
    then show ?thesis by (simp add: show_nat.simps [of n])
  next
    case False
    then show ?thesis using 1 by (simp add: show_nat.simps [of n] read_digits_append)
  qed
qed

lemma show_nat_inj [simp]: "show_nat m = show_nat n \<longleftrightarrow> m = n"
  by (metis read_show_nat)

lemma show_nat_digits: "c \<in> set (show_nat n) \<Longrightarrow> 48 \<le> (of_char c :: nat) \<and> (of_char c :: nat) \<le> 57"
proof (induction n rule: show_nat.induct)
  case (1 n)
  show ?case
  proof (cases "n < 10")
    case True
    then show ?thesis using "1.prems" by (simp add: show_nat.simps [of n])
  next
    case False
    have "n mod 10 < 10" by simp
    then show ?thesis using 1 False by (auto simp: show_nat.simps [of n])
  qed
qed

lemma show_int_inj [simp]: "show_int i = show_int j \<longleftrightarrow> i = j"
proof
  assume "show_int i = show_int j"
  have minus: "CHR ''-'' \<notin> set (show_nat n)" for n using show_nat_digits [of "CHR ''-''" n] by auto
  have ne: "CHR ''-'' # x \<noteq> show_nat n" for x n
  proof
    assume "CHR ''-'' # x = show_nat n"
    then have "CHR ''-'' \<in> set (show_nat n)" by (metis list.set_intros(1))
    then show False using minus by blast
  qed
  from \<open>show_int i = show_int j\<close> show "i = j"
    using ne ne [symmetric] by (cases "i < 0"; cases "j < 0") (auto simp: show_int_def)
qed simp

subsection \<open>Lines can be read back\<close>

definition one_line :: "string \<Rightarrow> bool" where
  "one_line s \<longleftrightarrow> CHR 10 \<notin> set s"

lemma one_line_show_nat [simp]: "one_line (show_nat n)"
  using show_nat_digits [of "CHR 10" n] by (auto simp: one_line_def)

lemma one_line_show_int [simp]: "one_line (show_int i)"
  using one_line_show_nat by (simp add: show_int_def one_line_def)

lemma one_line_to_hex [simp]: "one_line (to_hex bs)"
proof -
  have digit: "hex_digit n \<noteq> CHR 10" if "n < 16" for n
  proof
    assume "hex_digit n = CHR 10"
    then have "(of_char (hex_digit n) :: nat) = of_char (CHR 10)" by simp
    then show False using that by (simp add: hex_digit_code split: if_splits)
  qed
  have "(of_char b :: nat) div 16 < 16" for b :: char
    using of_char_less [of b] by (simp add: less_mult_imp_div_less)
  then show ?thesis using digit by (auto simp: to_hex_def one_line_def dest: sym)
qed

lemma one_line_show_bool [simp]: "one_line (show_bool b)"
  by (simp add: one_line_def show_bool_def)

lemma one_line_prefix [simp]: "one_line (op_prefix k)"
  by (cases k) (simp_all add: one_line_def)

lemma line_split:
  assumes "a @ CHR 10 # x = b @ CHR 10 # y" and "one_line a" and "one_line b"
  shows "a = b \<and> x = y"
  using assms
proof (induction a arbitrary: b)
  case Nil
  then show ?case by (cases b) (auto simp: one_line_def)
next
  case (Cons c a)
  then show ?case by (cases b) (auto simp: one_line_def)
qed

lemma join_lines_Cons: "ls \<noteq> [] \<Longrightarrow> join_lines (l # ls) = l @ CHR 10 # join_lines ls"
  by (cases ls) simp_all

lemma join_lines_inj:
  assumes "join_lines xs = join_lines ys" and "xs \<noteq> []" and "ys \<noteq> []"
    and "list_all one_line xs" and "list_all one_line ys"
  shows "xs = ys"
  using assms
proof (induction xs arbitrary: ys)
  case (Cons x xs)
  obtain y ys' where ys: "ys = y # ys'" using Cons.prems(3) by (cases ys) auto
  consider "xs = []" "ys' = []" | "xs = []" "ys' \<noteq> []" | "xs \<noteq> []" "ys' = []" | "xs \<noteq> []" "ys' \<noteq> []" by blast
  then show ?case
  proof cases
    case 1
    then show ?thesis using Cons.prems(1) by (simp add: ys)
  next
    case 2
    then have "x = y @ CHR 10 # join_lines ys'" using Cons.prems(1) by (simp add: ys join_lines_Cons)
    then show ?thesis using Cons.prems(4) by (simp add: one_line_def)
  next
    case 3
    then have "y = x @ CHR 10 # join_lines xs" using Cons.prems(1) by (simp add: ys join_lines_Cons)
    then show ?thesis using Cons.prems(5) by (simp add: ys one_line_def)
  next
    case 4
    then have "x @ CHR 10 # join_lines xs = y @ CHR 10 # join_lines ys'"
      using Cons.prems(1) by (simp add: ys join_lines_Cons)
    then have "x = y \<and> join_lines xs = join_lines ys'"
      by (rule line_split) (use Cons.prems(4,5) in \<open>simp_all add: ys\<close>)
    then show ?thesis using Cons.IH [of ys'] 4 Cons.prems(4,5) by (simp add: ys)
  qed
qed simp

lemma to_hex_eq [simp]: "to_hex a = to_hex b \<longleftrightarrow> a = b"
  using to_hex_inj by blast

lemma show_bool_eq [simp]: "show_bool a = show_bool b \<longleftrightarrow> a = b"
  by (simp add: show_bool_def)

end
