(* ===== verification/Submission.thy ===== *)
theory Submission
  imports Statements
begin

section \<open>Submissions (services/src/inbox.rs)\<close>

text \<open>
  What a user signs, how it is checked, and the message it becomes. Ed25519 is third-party
  code: \<open>point\<close> says whether 32 bytes are a verifying key, \<open>strict\<close> is \<open>verify_strict\<close>.
  The refusals are named; \<open>status_code\<close> is the HTTP status the source pairs with each.
\<close>

datatype submission =
  SubOrder (account_of: account_id) string side f64 f64 "string option" "string option"
    order_type time_in_force bool
| SubCancel (account_of: account_id) order_id "string option" "string option"

fun session_of :: "submission \<Rightarrow> string option" where
  "session_of (SubOrder _ _ _ _ _ _ session _ _ _) = session"
| "session_of (SubCancel _ _ _ session) = session"

fun nonce_of :: "submission \<Rightarrow> string option" where
  "nonce_of (SubOrder _ _ _ _ _ nonce _ _ _ _) = nonce"
| "nonce_of (SubCancel _ _ nonce _) = nonce"

record signed_submission =
  ss_submission :: submission
  ss_public_key :: string
  ss_signature :: string

datatype proof_fault =
  HeadMalformed | HeadNotSigned | FeedIdZero | OutsideTree nat nat | PathTooLong nat
| PathNotHashes | RootNotReached

datatype inbox_error =
  NonceMissing | NonceSpelling | SessionMissing | SessionSpelling
| SymbolRefused symbol_error | PriceOffGrid | QuantityOffGrid | TargetZero
| KeyText | KeyNotPoint | SignatureText | NoStatement | SignatureMismatch
| WrongSession string string | WrongKey account_id | PinUnreadable account_id
| TooManySubmissions | PendingFull nat | NonceTaken account_id nat
| NoFeedKey | MarkUnauthenticated | WrongEpoch string string | NoSuchEntry nat
| MarkProof proof_fault | MarkNotMessage | MarkOtherMessage nat nat
| MarkOtherEntry | MarkOtherContent | MarkTwice nat nat

fun status_code :: "inbox_error \<Rightarrow> nat" where
  "status_code SignatureMismatch = 401"
| "status_code MarkUnauthenticated = 401"
| "status_code (WrongKey _) = 403"
| "status_code (NonceTaken _ _) = 409"
| "status_code (WrongEpoch _ _) = 409"
| "status_code (MarkTwice _ _) = 409"
| "status_code TooManySubmissions = 429"
| "status_code (PinUnreadable _) = 500"
| "status_code (PendingFull _) = 503"
| "status_code NoFeedKey = 503"
| "status_code _ = 400"

subsection \<open>Is this a submission the exchange can run?\<close>

definition SESSION_BYTES :: nat where "SESSION_BYTES = 8"

definition PRICE_SCALE :: rat where "PRICE_SCALE = 100"

definition QUANTITY_SCALE :: rat where "QUANTITY_SCALE = 10"

definition canonical_session :: "string \<Rightarrow> bool" where
  "canonical_session session \<longleftrightarrow>
     (case from_hex SESSION_BYTES session of None \<Rightarrow> False | Some b \<Rightarrow> to_hex b = session)"

definition checked_session :: "submission \<Rightarrow> inbox_error + string" where
  "checked_session submission =
     (case session_of submission of
        None \<Rightarrow> Inl SessionMissing
      | Some session \<Rightarrow> if canonical_session session then Inr session else Inl SessionSpelling)"

definition checked_nonce :: "submission \<Rightarrow> inbox_error + bytes" where
  "checked_nonce submission =
     (case nonce_of submission of
        None \<Rightarrow> Inl NonceMissing
      | Some nonce \<Rightarrow> ok_or NonceSpelling (canonical_nonce nonce))"

definition validate_submission :: "submission \<Rightarrow> inbox_error + unit" where
  "validate_submission submission =
     res_bind (checked_nonce submission) (\<lambda>_.
     res_bind (checked_session submission) (\<lambda>_.
     case submission of
       SubOrder _ symbol _ price quantity _ _ _ _ _ \<Rightarrow>
         (case valid_symbol symbol of
            Inl e \<Rightarrow> Inl (SymbolRefused e)
          | Inr _ \<Rightarrow>
              if to_grid price PRICE_SCALE = None then Inl PriceOffGrid
              else if to_grid quantity QUANTITY_SCALE = None then Inl QuantityOffGrid
              else Inr ())
     | SubCancel _ target_id _ _ \<Rightarrow> if target_id = 0 then Inl TargetZero else Inr ()))"

subsection \<open>The statement and the message\<close>

fun named_order_type :: "order_type \<Rightarrow> string" where
  "named_order_type Limit = ''Limit''"
| "named_order_type Market = ''Market''"

fun named_time_in_force :: "time_in_force \<Rightarrow> string" where
  "named_time_in_force GoodTillCancel = ''GoodTillCancel''"
| "named_time_in_force ImmediateOrCancel = ''ImmediateOrCancel''"
| "named_time_in_force FillOrKill = ''FillOrKill''"

definition named_post_only :: "bool \<Rightarrow> string" where
  "named_post_only post_only = (if post_only then ''true'' else ''false'')"

fun side_name :: "side \<Rightarrow> string" where
  "side_name Buy = ''Buy''"
| "side_name Sell = ''Sell''"

definition submission_statement :: "submission \<Rightarrow> bytes option" where
  "submission_statement submission =
     do {
       text \<leftarrow> nonce_of submission;
       raw \<leftarrow> canonical_nonce text;
       let nonce = to_hex raw;
       session \<leftarrow> result_ok (checked_session submission);
       case submission of
         SubOrder account symbol side price quantity _ _ order_type time_in_force post_only \<Rightarrow>
           do {
             price_cents \<leftarrow> to_grid price PRICE_SCALE;
             quantity_tenths \<leftarrow> to_grid quantity QUANTITY_SCALE;
             Some (join_lines [''exchange-account-order-v3'', session, show_nat account, symbol,
               side_name side, show_int price_cents, show_int quantity_tenths,
               named_order_type order_type, named_time_in_force time_in_force,
               named_post_only post_only, nonce])
           }
       | SubCancel account target_id _ _ \<Rightarrow>
           Some (join_lines [''exchange-account-cancel-v3'', session, show_nat account,
             show_nat target_id, nonce])
     }"

fun message_from :: "order_id \<Rightarrow> nat \<Rightarrow> submission \<Rightarrow> order_message" where
  "message_from ident timestamp
     (SubOrder account symbol side price quantity nonce session order_type time_in_force post_only) =
     New ident timestamp account symbol side price quantity nonce order_type time_in_force post_only"
| "message_from ident timestamp (SubCancel account target_id nonce session) =
     Cancel ident timestamp account target_id nonce"

definition sign_submission ::
  "('k \<Rightarrow> bytes) \<Rightarrow> ('k \<Rightarrow> bytes \<Rightarrow> bytes) \<Rightarrow> 'k \<Rightarrow> submission \<Rightarrow> signed_submission option" where
  "sign_submission verifying_key sign key submission =
     map_option (\<lambda>statement. \<lparr>ss_submission = submission, ss_public_key = to_hex (verifying_key key),
       ss_signature = to_hex (sign key statement)\<rparr>) (submission_statement submission)"

subsection \<open>Who sent it\<close>

definition verify_account_signature ::
  "(bytes \<Rightarrow> bool) \<Rightarrow> (bytes \<Rightarrow> bytes \<Rightarrow> bytes \<Rightarrow> bool) \<Rightarrow> signed_submission \<Rightarrow> inbox_error + bytes" where
  "verify_account_signature point strict signed =
     res_bind (ok_or KeyText (from_hex 32 (trim (ss_public_key signed)))) (\<lambda>key.
     if \<not> point key then Inl KeyNotPoint
     else
       res_bind (ok_or SignatureText (from_hex 64 (trim (ss_signature signed)))) (\<lambda>signature.
       res_bind (ok_or NoStatement (submission_statement (ss_submission signed))) (\<lambda>statement.
       if strict key statement signature then Inr key else Inl SignatureMismatch)))"

datatype account_pin = First | Known

definition check_session :: "string \<Rightarrow> submission \<Rightarrow> inbox_error + unit" where
  "check_session current submission =
     res_bind (checked_session submission) (\<lambda>named.
     if named = current then Inr () else Inl (WrongSession named current))"

definition check_account_key :: "account_id \<Rightarrow> bytes option \<Rightarrow> bytes \<Rightarrow> inbox_error + account_pin" where
  "check_account_key account pinned presented =
     (case pinned of
        None \<Rightarrow> Inr First
      | Some known \<Rightarrow> if known = presented then Inr Known else Inl (WrongKey account))"

subsection \<open>Is this message that submission?\<close>

definition grid_form :: "order_message \<Rightarrow> order_message option" where
  "grid_form message =
     (case message of
        New ident timestamp account symbol side price quantity nonce order_type time_in_force post_only \<Rightarrow>
          do {
            cents \<leftarrow> to_grid price PRICE_SCALE;
            tenths \<leftarrow> to_grid quantity QUANTITY_SCALE;
            Some (New ident timestamp account symbol side (f64_div (f64_of_int cents) PRICE_SCALE)
              (f64_div (f64_of_int tenths) QUANTITY_SCALE) nonce order_type time_in_force post_only)
          }
      | _ \<Rightarrow> Some message)"

text \<open>\<open>to_vec\<close> is \<open>logchain::canonical_bytes\<close>, the JSON serde writes for a message.\<close>

definition message_matches :: "(order_message \<Rightarrow> bytes) \<Rightarrow> submission \<Rightarrow> order_message \<Rightarrow> bool" where
  "message_matches to_vec submission message \<longleftrightarrow>
     (let compare = (\<lambda>timestamp.
          case (grid_form (message_from (msg_id message) timestamp submission), grid_form message) of
            (Some expected, Some message') \<Rightarrow> to_vec expected = to_vec message'
          | _ \<Rightarrow> False)
      in case message of
           New _ timestamp _ _ _ _ _ _ _ _ _ \<Rightarrow> compare timestamp
         | Cancel _ timestamp _ _ _ \<Rightarrow> compare timestamp
         | _ \<Rightarrow> False)"

subsection \<open>What acceptance says\<close>

lemma canonical_session_line: "canonical_session s \<Longrightarrow> one_line s"
  by (auto simp: canonical_session_def split: option.splits dest!: sym [of "to_hex _"])

lemma valid_symbol_line: "valid_symbol s = Inr u \<Longrightarrow> one_line s"
  by (auto simp: valid_symbol_iff one_line_def list_all_iff symbol_byte_def is_upper_byte_def is_digit_byte_def)

lemma checked_session_iff:
  "checked_session sub = Inr s \<longleftrightarrow> session_of sub = Some s \<and> canonical_session s"
  by (auto simp: checked_session_def split: option.splits)

text \<open>A submission that validates has a statement.\<close>

lemma validated_statement:
  assumes "validate_submission sub = Inr ()"
  shows "\<exists>st. submission_statement sub = Some st"
  using assms
  by (auto simp: validate_submission_def submission_statement_def checked_nonce_def ok_or_def Let_def
      split: submission.splits option.splits sum.splits if_splits)

lemma verified_account:
  assumes "verify_account_signature point strict signed = Inr key"
  shows "\<exists>st signature. point key \<and> submission_statement (ss_submission signed) = Some st \<and>
    from_hex 64 (trim (ss_signature signed)) = Some signature \<and> strict key st signature"
  using assms by (auto simp: verify_account_signature_def ok_or_def split: option.splits if_splits)

end
