(* ===== verification/Caller.thy ===== *)
theory Caller
  imports Ordered_Map "HOL-Library.Word"
begin

unbundle bit_operations_syntax

section \<open>Who is calling (services/src/inbox.rs)\<close>

text \<open>
  The address a submission is counted against: the socket peer, or behind a trusted proxy the
  first untrusted address of the forwarded chain, read from the right. Addresses are machine
  words; their text is read by the standard library and an entry that cannot be read is
  \<open>None\<close>. A header that is not text makes the whole chain unreadable. An \<open>Instant\<close> is a \<open>nat\<close>
  of milliseconds.
\<close>

datatype ip_addr = V4 "32 word" | V6 "128 word"

record proxy_net =
  pn_base :: ip_addr
  pn_prefix :: nat

definition mask_v4 :: "32 word \<Rightarrow> nat \<Rightarrow> 32 word" where
  "mask_v4 ip prefix = (if prefix = 0 then 0 else ip AND push_bit (32 - prefix) (- 1))"

definition mask_v6 :: "128 word \<Rightarrow> nat \<Rightarrow> 128 word" where
  "mask_v6 ip prefix = (if prefix = 0 then 0 else ip AND push_bit (128 - prefix) (- 1))"

text \<open>\<open>::ffff:a.b.c.d\<close> is the IPv4 address \<open>a.b.c.d\<close>.\<close>

fun canonical_ip :: "ip_addr \<Rightarrow> ip_addr" where
  "canonical_ip (V6 v6) = (if drop_bit 32 v6 = 0xFFFF then V4 (ucast v6) else V6 v6)"
| "canonical_ip (V4 v4) = V4 v4"

definition net_contains :: "proxy_net \<Rightarrow> ip_addr \<Rightarrow> bool" where
  "net_contains net ip =
     (case (pn_base net, ip) of
        (V4 base, V4 v4) \<Rightarrow> mask_v4 v4 (pn_prefix net) = base
      | (V6 base, V6 v6) \<Rightarrow> mask_v6 v6 (pn_prefix net) = base
      | _ \<Rightarrow> False)"

definition proxies_contain :: "proxy_net list \<Rightarrow> ip_addr \<Rightarrow> bool" where
  "proxies_contain nets ip = list_ex (\<lambda>net. net_contains net (canonical_ip ip)) nets"

datatype net_error = PrefixTooLong nat | BitsBelowPrefix

text \<open>The checks of \<open>parse_trusted_proxy\<close>, once its two texts have been read.\<close>

definition trusted_net :: "ip_addr \<Rightarrow> nat option \<Rightarrow> net_error + proxy_net" where
  "trusted_net spec prefix_text =
     (let addr = canonical_ip spec;
          bits = (case addr of V4 _ \<Rightarrow> 32 | V6 _ \<Rightarrow> 128);
          prefix = (case prefix_text of None \<Rightarrow> bits | Some p \<Rightarrow> p)
      in if bits < prefix then Inl (PrefixTooLong prefix)
         else
           let base = (case addr of V4 v4 \<Rightarrow> V4 (mask_v4 v4 prefix) | V6 v6 \<Rightarrow> V6 (mask_v6 v6 prefix))
           in if base \<noteq> addr then Inl BitsBelowPrefix else Inr \<lparr>pn_base = base, pn_prefix = prefix\<rparr>)"

fun add_nets :: "proxy_net list \<Rightarrow> (ip_addr \<times> nat option) list \<Rightarrow> net_error + proxy_net list" where
  "add_nets nets [] = Inr nets"
| "add_nets nets ((spec, prefix) # specs) =
     res_bind (trusted_net spec prefix) (\<lambda>net.
     add_nets (if net \<in> set nets then nets else nets @ [net]) specs)"

definition trusted_proxies :: "(ip_addr \<times> nat option) list \<Rightarrow> net_error + proxy_net list" where
  "trusted_proxies specs = add_nets [] specs"

record caller =
  cl_peer :: ip_addr
  cl_forwarded :: "ip_addr option list option"

text \<open>The walk from the right.\<close>

fun first_untrusted :: "proxy_net list \<Rightarrow> ip_addr \<Rightarrow> ip_addr option list \<Rightarrow> ip_addr" where
  "first_untrusted nets peer [] = peer"
| "first_untrusted nets peer (None # entries) = peer"
| "first_untrusted nets peer (Some ip # entries) =
     (if \<not> proxies_contain nets ip then ip else first_untrusted nets peer entries)"

definition client_ip :: "caller \<Rightarrow> proxy_net list \<Rightarrow> ip_addr" where
  "client_ip c nets =
     (let peer = canonical_ip (cl_peer c) in
      if \<not> proxies_contain nets peer then peer
      else case cl_forwarded c of
             None \<Rightarrow> peer
           | Some entries \<Rightarrow> first_untrusted nets peer (rev (map (map_option canonical_ip) entries)))"

subsection \<open>The rate limiter\<close>

definition SUBMIT_BURST :: nat where "SUBMIT_BURST = 120"

definition SUBMIT_WINDOW :: nat where "SUBMIT_WINDOW = 10000"

type_synonym rate_limiter = "(ip_addr \<times> nat \<times> nat) list"

text \<open>\<open>duration_since\<close> saturates at zero.\<close>

definition live_count :: "nat \<Rightarrow> ip_addr \<times> nat \<times> nat \<Rightarrow> bool" where
  "live_count now = (\<lambda>(_, start, _). now - start < SUBMIT_WINDOW)"

definition limiter_allow :: "rate_limiter \<Rightarrow> ip_addr \<Rightarrow> nat \<Rightarrow> bool \<times> rate_limiter" where
  "limiter_allow seen ip now =
     (let kept = (if 10000 < length seen then filter (live_count now) seen else seen);
          (start, count) = (case map_of kept ip of None \<Rightarrow> (now, 0) | Some c \<Rightarrow> c);
          (start, count) = (if SUBMIT_WINDOW \<le> now - start then (now, 0) else (start, count));
          seen' = (ip, start, count + 1) # filter (\<lambda>(i, _). i \<noteq> ip) kept
      in (count + 1 \<le> SUBMIT_BURST, seen'))"

subsection \<open>What a caller can choose\<close>

definition stops_at :: "proxy_net list \<Rightarrow> ip_addr option \<Rightarrow> bool" where
  "stops_at nets e \<longleftrightarrow> (case e of None \<Rightarrow> True | Some ip \<Rightarrow> \<not> proxies_contain nets ip)"

lemma first_untrusted_stops:
  "list_ex (stops_at nets) es \<Longrightarrow> first_untrusted nets peer (es @ forged) = first_untrusted nets peer es"
  by (induction nets peer es rule: first_untrusted.induct) (auto simp: stops_at_def)

lemma canonical_ip_idem [simp]: "canonical_ip (canonical_ip ip) = canonical_ip ip"
  by (cases ip) auto

lemma client_ip_known:
  "client_ip c nets = canonical_ip (cl_peer c) \<or>
   \<not> proxies_contain nets (client_ip c nets)"
proof -
  have "first_untrusted nets peer es = peer \<or> \<not> proxies_contain nets (first_untrusted nets peer es)" for peer es
    by (induction nets peer es rule: first_untrusted.induct) auto
  then show ?thesis by (auto simp: client_ip_def Let_def split: option.splits)
qed

text \<open>The limiter lets an address make at most two bursts in any span as long as its window: what
  is left of the count it found, and one fresh count.\<close>

fun allowed_calls :: "ip_addr \<Rightarrow> rate_limiter \<Rightarrow> (ip_addr \<times> nat) list \<Rightarrow> nat" where
  "allowed_calls i seen [] = 0"
| "allowed_calls i seen ((ip, now) # calls) =
     (let (b, seen') = limiter_allow seen ip now
      in (if b \<and> ip = i then 1 else 0) + allowed_calls i seen' calls)"

definition calls_left :: "nat \<Rightarrow> ip_addr \<Rightarrow> rate_limiter \<Rightarrow> nat" where
  "calls_left t i seen =
     (case map_of seen i of
        None \<Rightarrow> SUBMIT_BURST
      | Some (start, count) \<Rightarrow> if t \<le> start then SUBMIT_BURST - count else (SUBMIT_BURST - count) + SUBMIT_BURST)"

lemma map_of_filter_other: "i \<noteq> ip \<Longrightarrow> map_of (filter (\<lambda>(j, _). j \<noteq> ip) xs) i = map_of xs i"
  by (induction xs) auto

lemma calls_left_retain:
  assumes "distinct (map fst seen)" and "t \<le> now" and "now < t + SUBMIT_WINDOW"
  shows "calls_left t i (filter (live_count now) seen) \<le> calls_left t i seen"
proof (cases "map_of seen i")
  case None
  then show ?thesis using assms(1) by (simp add: calls_left_def map_of_filter_distinct)
next
  case (Some c)
  obtain start count where c: "c = (start, count)" by (cases c) auto
  have "\<not> live_count now (i, c) \<Longrightarrow> \<not> t \<le> start" using assms(2,3) by (auto simp: live_count_def c SUBMIT_WINDOW_def)
  then show ?thesis using Some assms(1) by (auto simp: calls_left_def map_of_filter_distinct c)
qed

lemma limiter_allow_left:
  assumes "distinct (map fst seen)" and "t \<le> now" and "now < t + SUBMIT_WINDOW"
    and "limiter_allow seen ip now = (b, seen')"
  shows "(if b \<and> ip = i then 1 else 0) + calls_left t i seen' \<le> calls_left t i seen"
    and "distinct (map fst seen')"
proof -
  define kept where "kept = (if 10000 < length seen then filter (live_count now) seen else seen)"
  have d: "distinct (map fst kept)" using assms(1) by (simp add: kept_def distinct_map_filter)
  have k: "calls_left t i kept \<le> calls_left t i seen" using calls_left_retain [OF assms(1-3)] by (simp add: kept_def)
  obtain start count where sc: "(case map_of kept ip of None \<Rightarrow> (now, 0) | Some c \<Rightarrow> c) = (start, count)"
    by (cases "case map_of kept ip of None \<Rightarrow> (now, 0) | Some c \<Rightarrow> c") auto
  obtain start' count' where sc': "(if SUBMIT_WINDOW \<le> now - start then (now, 0) else (start, count)) = (start', count')"
    by (cases "if SUBMIT_WINDOW \<le> now - start then (now, 0) else (start, count)") auto
  have r: "b = (count' + 1 \<le> SUBMIT_BURST)" "seen' = (ip, start', count' + 1) # filter (\<lambda>(j, _). j \<noteq> ip) kept"
    using assms(4) unfolding limiter_allow_def Let_def kept_def [symmetric] sc prod.case sc' by simp_all
  show "distinct (map fst seen')" using d by (auto simp: r distinct_map_filter)
  show "(if b \<and> ip = i then 1 else 0) + calls_left t i seen' \<le> calls_left t i seen"
  proof (cases "ip = i")
    case False
    then have "calls_left t i seen' = calls_left t i kept"
      using map_of_filter_other [of i ip kept] by (simp add: r calls_left_def)
    then show ?thesis using k False by simp
  next
    case True
    have "(if b then 1 else 0) + calls_left t i seen' \<le> calls_left t i kept"
    proof (cases "SUBMIT_WINDOW \<le> now - start")
      case late: True
      then have "map_of kept i = Some (start, count)" "\<not> t \<le> start"
        using sc assms(2,3) True by (auto simp: SUBMIT_WINDOW_def split: option.splits)
      then show ?thesis using late sc' assms(2) True by (auto simp: calls_left_def r SUBMIT_BURST_def)
    next
      case False
      then have s: "start' = start" "count' = count" using sc' by simp_all
      show ?thesis
        using sc assms(2) True by (auto simp: calls_left_def r s SUBMIT_BURST_def split: option.splits)
    qed
    then show ?thesis using k True by simp
  qed
qed

lemma allowed_calls_left:
  assumes "distinct (map fst seen)" and "list_all (\<lambda>(_, now). t \<le> now \<and> now < t + SUBMIT_WINDOW) calls"
  shows "allowed_calls i seen calls \<le> calls_left t i seen"
  using assms
proof (induction i seen calls rule: allowed_calls.induct)
  case (2 i seen ip now calls)
  obtain b seen' where a: "limiter_allow seen ip now = (b, seen')" by fastforce
  have t: "t \<le> now" "now < t + SUBMIT_WINDOW" using "2.prems"(2) by simp_all
  have "allowed_calls i seen' calls \<le> calls_left t i seen'"
    using "2.IH" [OF a [symmetric] refl] "2.prems"(2) limiter_allow_left(2) [OF "2.prems"(1) t a] by simp
  then show ?case using limiter_allow_left(1) [OF "2.prems"(1) t a, of i] a by simp
qed simp

end
