(* ===== verification/Merkle.thy ===== *)
theory Merkle
  imports Logchain Ordered_Map
begin

section \<open>The Merkle tree (services/src/merkle.rs)\<close>

text \<open>
  The tree of RFC 9162: hashes of leaves and nodes, the walks that compute roots and proofs
  from stored perfect subtrees, the append, the two stores in memory, and the two verifiers.
  SHA-256 is the argument \<open>sha\<close>. A \<open>u64\<close> is a \<open>nat\<close>; the sums and products on sizes stay
  below \<open>2 ^ 64\<close> for every tree that fits in a machine. A result is an \<open>Inl\<close> where the
  source returns an error or panics (\<open>Panicked\<close>; the debug assertions count as panics).
\<close>

type_synonym hash = bytes

definition HASH_SIZE :: nat where "HASH_SIZE = 32"

definition LEAF_PREFIX :: char where "LEAF_PREFIX = char_of (0 :: nat)"

definition NODE_PREFIX :: char where "NODE_PREFIX = char_of (1 :: nat)"

definition empty_root :: "(bytes \<Rightarrow> hash) \<Rightarrow> hash" where
  "empty_root sha = sha []"

definition leaf_hash :: "(bytes \<Rightarrow> hash) \<Rightarrow> bytes \<Rightarrow> hash" where
  "leaf_hash sha entry = sha (LEAF_PREFIX # entry)"

definition node_hash :: "(bytes \<Rightarrow> hash) \<Rightarrow> hash \<Rightarrow> hash \<Rightarrow> hash" where
  "node_hash sha left right = sha (NODE_PREFIX # left @ right)"

datatype proof_error =
  UnknownTreeSize nat nat | LeafOutOfRange nat nat | BackwardsConsistency nat nat

datatype 'e store_fault = StoreError 'e | Panicked

datatype 'e tree_error = ProofFault proof_error | SourceFault "'e store_fault"

type_synonym 'e node_source = "nat \<Rightarrow> nat \<Rightarrow> 'e store_fault + hash"

subsection \<open>Bits of a \<open>u64\<close>\<close>

fun bit_width :: "nat \<Rightarrow> nat" where
  "bit_width n = (if n = 0 then 0 else Suc (bit_width (n div 2)))"

fun count_ones :: "nat \<Rightarrow> nat" where
  "count_ones n = (if n = 0 then 0 else n mod 2 + count_ones (n div 2))"

fun trailing_zeros :: "nat \<Rightarrow> nat" where
  "trailing_zeros n = (if n = 0 then 64 else if odd n then 0 else Suc (trailing_zeros (n div 2)))"

declare bit_width.simps [simp del] count_ones.simps [simp del] trailing_zeros.simps [simp del]

definition leading_zeros :: "nat \<Rightarrow> nat" where
  "leading_zeros n = 64 - bit_width n"

definition is_power_of_two :: "nat \<Rightarrow> bool" where
  "is_power_of_two n \<longleftrightarrow> n \<noteq> 0 \<and> n = 2 ^ trailing_zeros n"

definition split_point :: "nat \<Rightarrow> nat" where
  "split_point n = 2 ^ (64 - 1 - leading_zeros (n - 1))"

text \<open>The bit tricks in plain arithmetic.\<close>

lemma bit_width_le: "n < 2 ^ bit_width n"
  by (induction n rule: bit_width.induct) (subst bit_width.simps, auto)

lemma bit_width_ge: "0 < n \<Longrightarrow> 2 ^ (bit_width n - 1) \<le> n"
proof (induction n rule: bit_width.induct)
  case (1 n)
  show ?case
  proof (cases "n div 2 = 0")
    case True
    then show ?thesis using 1 by (simp add: bit_width.simps)
  next
    case False
    then have "2 ^ (bit_width (n div 2) - 1) \<le> n div 2" "0 < bit_width (n div 2)"
      using 1 by (simp_all add: bit_width.simps [of "n div 2"])
    moreover have "bit_width n = Suc (bit_width (n div 2))" using 1 by (simp add: bit_width.simps [of n])
    ultimately show ?thesis by (cases "bit_width (n div 2)") auto
  qed
qed

lemma bit_width_pos: "0 < n \<Longrightarrow> 0 < bit_width n"
  by (simp add: bit_width.simps [of n])

lemma bit_width_64:
  assumes "n < 2 ^ 64"
  shows "bit_width n \<le> 64"
proof (rule ccontr)
  assume "\<not> bit_width n \<le> 64"
  then have "(2 :: nat) ^ 64 \<le> 2 ^ (bit_width n - 1)" by (intro power_increasing) simp_all
  moreover have n: "0 < n" using \<open>\<not> bit_width n \<le> 64\<close> by (cases n) (simp_all add: bit_width.simps)
  ultimately show False using bit_width_ge [OF n] assms by linarith
qed

lemma split_point_spec:
  assumes "2 \<le> n" and "n \<le> 2 ^ 64"
  obtains j where "split_point n = 2 ^ j" and "2 ^ j < n" and "n \<le> 2 * 2 ^ j"
proof -
  let ?w = "bit_width (n - 1)"
  have w: "0 < ?w" using assms(1) by (intro bit_width_pos) simp
  have "?w \<le> 64" using assms by (intro bit_width_64) simp
  then have "split_point n = 2 ^ (?w - 1)" using w by (simp add: split_point_def leading_zeros_def)
  moreover have "2 ^ (?w - 1) < n" using bit_width_ge [of "n - 1"] assms(1) by simp
  moreover have "n \<le> 2 * 2 ^ (?w - 1)"
    using bit_width_le [of "n - 1"] w assms(1) by (cases ?w) simp_all
  ultimately show thesis using that by blast
qed

lemma split_point_bounds: "2 \<le> n \<Longrightarrow> 0 < split_point n \<and> split_point n < n"
proof -
  assume n: "2 \<le> n"
  let ?w = "bit_width (n - 1)"
  have "64 - 1 - leading_zeros (n - 1) \<le> ?w - 1" by (simp add: leading_zeros_def)
  then have "split_point n \<le> 2 ^ (?w - 1)" unfolding split_point_def by (rule power_increasing) simp
  also have "\<dots> \<le> n - 1" using n by (intro bit_width_ge) simp
  finally show ?thesis using n by (simp add: split_point_def)
qed

lemma trailing_zeros_power: "trailing_zeros (2 ^ k) = k"
  by (induction k) (simp_all add: trailing_zeros.simps)

lemma is_power_of_two_iff: "is_power_of_two n \<longleftrightarrow> (\<exists>k. n = 2 ^ k)"
  by (auto simp: is_power_of_two_def trailing_zeros_power)

subsection \<open>The walks\<close>

lemma not_perfect_two: "lo < hi \<Longrightarrow> \<not> (is_power_of_two (hi - lo) \<and> hi - lo dvd lo) \<Longrightarrow> 2 \<le> hi - (lo :: nat)"
  by (cases "hi - lo = 1") (auto simp: is_power_of_two_def trailing_zeros.simps)

lemma split_shrink:
  assumes "2 \<le> hi - (lo :: nat)"
  shows "lo + split_point (hi - lo) - lo < hi - lo" and "hi - (lo + split_point (hi - lo)) < hi - lo"
  using split_point_bounds [OF assms] by linarith+

text \<open>\<open>MTH(D[lo:hi])\<close> from the stored perfect subtrees.\<close>

function subtree_hash ::
  "(bytes \<Rightarrow> hash) \<Rightarrow> 'e node_source \<Rightarrow> nat \<Rightarrow> nat \<Rightarrow> 'e store_fault + hash" where
  "subtree_hash sha node lo hi =
     (if \<not> lo < hi then Inl Panicked
      else
        let size = hi - lo in
        if is_power_of_two size \<and> size dvd lo
        then node (trailing_zeros size) (drop_bit (trailing_zeros size) lo)
        else
          let k = split_point size in
          if lo mod k \<noteq> 0 then Inl Panicked
          else
            res_bind (subtree_hash sha node lo (lo + k)) (\<lambda>left.
            res_bind (subtree_hash sha node (lo + k) hi) (\<lambda>right.
            Inr (node_hash sha left right))))"
  by pat_completeness auto

termination
proof (relation "measure (\<lambda>(sha, node, lo, hi). hi - lo)", goal_cases)
  case (2 sha node lo hi x xa)
  then show ?case using split_shrink(1) [OF not_perfect_two, of lo hi] by simp
next
  case (3 sha node lo hi x xa y)
  then show ?case using split_shrink(2) [OF not_perfect_two, of lo hi] by simp
qed simp

declare subtree_hash.simps [simp del]

text \<open>\<open>PATH(m, D[lo:hi])\<close>, leaf to root.\<close>

function walk_path ::
  "(bytes \<Rightarrow> hash) \<Rightarrow> 'e node_source \<Rightarrow> nat \<Rightarrow> nat \<Rightarrow> nat \<Rightarrow> 'e store_fault + hash list" where
  "walk_path sha node m lo hi =
     (let n = hi - lo in
      if n = 1 then Inr []
      else if n < 2 then Inl Panicked
      else
        let k = split_point n in
        if m < k
        then res_bind (walk_path sha node m lo (lo + k)) (\<lambda>out.
             res_bind (subtree_hash sha node (lo + k) hi) (\<lambda>h. Inr (out @ [h])))
        else res_bind (walk_path sha node (m - k) (lo + k) hi) (\<lambda>out.
             res_bind (subtree_hash sha node lo (lo + k)) (\<lambda>h. Inr (out @ [h]))))"
  by pat_completeness auto
termination
  by (relation "measure (\<lambda>(sha, node, m, lo, hi). hi - lo)") (use split_shrink in \<open>simp_all add: not_less\<close>)

text \<open>\<open>SUBPROOF(m, D[lo:hi], complete)\<close>.\<close>

function walk_proof ::
  "(bytes \<Rightarrow> hash) \<Rightarrow> 'e node_source \<Rightarrow> nat \<Rightarrow> nat \<Rightarrow> nat \<Rightarrow> bool \<Rightarrow> 'e store_fault + hash list" where
  "walk_proof sha node m lo hi complete =
     (let n = hi - lo in
      if m = n
      then if complete then Inr []
           else res_bind (subtree_hash sha node lo hi) (\<lambda>h. Inr [h])
      else if n < 2 then Inl Panicked
      else
        let k = split_point n in
        if m \<le> k
        then res_bind (walk_proof sha node m lo (lo + k) complete) (\<lambda>out.
             res_bind (subtree_hash sha node (lo + k) hi) (\<lambda>h. Inr (out @ [h])))
        else res_bind (walk_proof sha node (m - k) (lo + k) hi False) (\<lambda>out.
             res_bind (subtree_hash sha node lo (lo + k)) (\<lambda>h. Inr (out @ [h]))))"
  by pat_completeness auto
termination
  by (relation "measure (\<lambda>(sha, node, m, lo, hi, complete). hi - lo)") (use split_shrink in \<open>simp_all add: not_less\<close>)

declare walk_path.simps [simp del] walk_proof.simps [simp del]

definition checked_size :: "nat \<Rightarrow> nat \<Rightarrow> proof_error + nat" where
  "checked_size have_size tree_size =
     (if have_size < tree_size then Inl (UnknownTreeSize tree_size have_size) else Inr tree_size)"

text \<open>The error half of a result mapped, \<open>Result::map_err\<close>.\<close>

fun map_err :: "('e \<Rightarrow> 'f) \<Rightarrow> 'e + 'a \<Rightarrow> 'f + 'a" where
  "map_err f (Inl e) = Inl (f e)"
| "map_err f (Inr x) = Inr x"

definition mth ::
  "(bytes \<Rightarrow> hash) \<Rightarrow> 'e node_source \<Rightarrow> nat \<Rightarrow> nat \<Rightarrow> 'e tree_error + hash" where
  "mth sha node have_size tree_size =
     res_bind (map_err ProofFault (checked_size have_size tree_size)) (\<lambda>size.
     if size = 0 then Inr (empty_root sha)
     else map_err SourceFault (subtree_hash sha node 0 size))"

definition path_of ::
  "(bytes \<Rightarrow> hash) \<Rightarrow> 'e node_source \<Rightarrow> nat \<Rightarrow> nat \<Rightarrow> nat \<Rightarrow> 'e tree_error + hash list" where
  "path_of sha node have_size leaf_index tree_size =
     res_bind (map_err ProofFault (checked_size have_size tree_size)) (\<lambda>size.
     if size \<le> leaf_index then Inl (ProofFault (LeafOutOfRange leaf_index tree_size))
     else map_err SourceFault (walk_path sha node leaf_index 0 size))"

definition proof_of ::
  "(bytes \<Rightarrow> hash) \<Rightarrow> 'e node_source \<Rightarrow> nat \<Rightarrow> nat \<Rightarrow> nat \<Rightarrow> 'e tree_error + hash list" where
  "proof_of sha node have_size first second =
     res_bind (map_err ProofFault (checked_size have_size second)) (\<lambda>size.
     if second < first then Inl (ProofFault (BackwardsConsistency first second))
     else if first = 0 \<or> first = second then Inr []
     else map_err SourceFault (walk_proof sha node first 0 size True))"

subsection \<open>Appending\<close>

text \<open>The loop halves the count while it is even. The count is never 0: it starts at
  \<open>leaf_index + 1\<close>.\<close>

function appended_above :: "nat \<Rightarrow> nat \<Rightarrow> (nat \<times> nat) list" where
  "appended_above level count =
     (if even count \<and> 0 < count
      then (level + 1, count div 2 - 1) # appended_above (level + 1) (count div 2) else [])"
  by pat_completeness auto
termination by (relation "measure snd") auto

declare appended_above.simps [simp del]

definition appended_at :: "nat \<Rightarrow> (nat \<times> nat) list" where
  "appended_at leaf_index = (0, leaf_index) # appended_above 0 (leaf_index + 1)"

type_synonym made_node = "nat \<times> nat \<times> hash"

definition made_or_stored :: "'e node_source \<Rightarrow> made_node list \<Rightarrow> nat \<Rightarrow> nat \<Rightarrow> 'e store_fault + hash" where
  "made_or_stored node made level index =
     (case find (\<lambda>(at_level, at_index, _). at_level = level \<and> at_index = index) (rev made) of
        Some (_, _, h) \<Rightarrow> Inr h
      | None \<Rightarrow> node level index)"

fun append_parents ::
  "(bytes \<Rightarrow> hash) \<Rightarrow> 'e node_source \<Rightarrow> (nat \<times> nat) list \<Rightarrow> nat \<Rightarrow> made_node list \<Rightarrow>
   'e store_fault + made_node list" where
  "append_parents sha node [] count made = Inr made"
| "append_parents sha node ((level, index) # numbering) count made =
     res_bind (made_or_stored node made (level - 1) (count - 2)) (\<lambda>left.
     res_bind (made_or_stored node made (level - 1) (count - 1)) (\<lambda>right.
     append_parents sha node numbering (count div 2)
       (made @ [(level, index, node_hash sha left right)])))"

definition append_nodes ::
  "(bytes \<Rightarrow> hash) \<Rightarrow> 'e node_source \<Rightarrow> nat \<Rightarrow> hash \<Rightarrow> 'e store_fault + made_node list" where
  "append_nodes sha node tree_size leaf =
     append_parents sha node (tl (appended_at tree_size)) (tree_size + 1) [(0, tree_size, leaf)]"

definition nodes_in :: "nat \<Rightarrow> nat" where
  "nodes_in leaves = 2 * leaves - count_ones leaves"

subsection \<open>Comparing stored nodes\<close>

definition last_leaf_under :: "nat \<Rightarrow> nat \<Rightarrow> nat" where
  "last_leaf_under level index = push_bit level (index + 1) - 1"

text \<open>The three faults; their sentences are not modelled.\<close>

datatype node_fault = WrongNode nat nat hash hash | MissingNode nat nat | ForeignNode nat nat

definition compare_nodes ::
  "(nat \<times> nat, hash) bmap \<Rightarrow> (nat \<times> nat, hash) bmap \<Rightarrow> nat \<Rightarrow> nat \<Rightarrow> node_fault list" where
  "compare_nodes ours stored from_leaf to_leaf =
     (let covered = (\<lambda>(level, index). let leaf = last_leaf_under level index in
            from_leaf \<le> leaf \<and> leaf < to_leaf)
      in concat (map (\<lambda>((level, index), our_hash).
            if \<not> covered (level, index) then []
            else case map_of stored (level, index) of
                   Some theirs \<Rightarrow> if theirs = our_hash then [] else [WrongNode level index theirs our_hash]
                 | None \<Rightarrow> [MissingNode level index]) ours) @
         concat (map (\<lambda>((level, index), _).
            if covered (level, index) \<and> map_of ours (level, index) = None
            then [ForeignNode level index] else []) stored))"

subsection \<open>A tree that keeps every node\<close>

type_synonym merkle_tree = "hash list list"

definition tree_len :: "merkle_tree \<Rightarrow> nat" where
  "tree_len levels = (case levels of [] \<Rightarrow> 0 | leaves # _ \<Rightarrow> length leaves)"

definition tree_node :: "merkle_tree \<Rightarrow> 'e node_source" where
  "tree_node levels level index =
     (if level < length levels \<and> index < length (levels ! level)
      then Inr (levels ! level ! index) else Inl Panicked)"

definition store_node :: "merkle_tree \<Rightarrow> made_node \<Rightarrow> 'e store_fault + merkle_tree" where
  "store_node levels m =
     (case m of (level, index, h) \<Rightarrow>
        let levels1 = (if length levels = level then levels @ [[]] else levels) in
        if level < length levels1 \<and> length (levels1 ! level) = index
        then Inr (levels1[level := levels1 ! level @ [h]])
        else Inl Panicked)"

fun store_nodes :: "merkle_tree \<Rightarrow> made_node list \<Rightarrow> 'e store_fault + merkle_tree" where
  "store_nodes levels [] = Inr levels"
| "store_nodes levels (m # ms) = res_bind (store_node levels m) (\<lambda>levels'. store_nodes levels' ms)"

definition push_leaf_hash ::
  "(bytes \<Rightarrow> hash) \<Rightarrow> merkle_tree \<Rightarrow> hash \<Rightarrow> 'e store_fault + nat \<times> merkle_tree" where
  "push_leaf_hash sha levels leaf =
     res_bind (append_nodes sha (tree_node levels) (tree_len levels) leaf) (\<lambda>made.
     res_bind (store_nodes levels made) (\<lambda>levels'. Inr (tree_len levels, levels')))"

definition push_entry ::
  "(bytes \<Rightarrow> hash) \<Rightarrow> merkle_tree \<Rightarrow> bytes \<Rightarrow> 'e store_fault + nat \<times> merkle_tree" where
  "push_entry sha levels entry = push_leaf_hash sha levels (leaf_hash sha entry)"

fun push_entries ::
  "(bytes \<Rightarrow> hash) \<Rightarrow> merkle_tree \<Rightarrow> bytes list \<Rightarrow> 'e store_fault + merkle_tree" where
  "push_entries sha levels [] = Inr levels"
| "push_entries sha levels (e # es) =
     res_bind (push_entry sha levels e) (\<lambda>(_, levels'). push_entries sha levels' es)"

definition from_entries :: "(bytes \<Rightarrow> hash) \<Rightarrow> bytes list \<Rightarrow> 'e store_fault + merkle_tree" where
  "from_entries sha entries = push_entries sha [] entries"

definition tree_leaf :: "merkle_tree \<Rightarrow> nat \<Rightarrow> hash option" where
  "tree_leaf levels index =
     (case levels of [] \<Rightarrow> None
      | leaves # _ \<Rightarrow> if index < length leaves then Some (leaves ! index) else None)"

definition root_at :: "(bytes \<Rightarrow> hash) \<Rightarrow> merkle_tree \<Rightarrow> nat \<Rightarrow> 'e tree_error + hash" where
  "root_at sha levels tree_size = mth sha (tree_node levels) (tree_len levels) tree_size"

text \<open>\<open>root\<close> expects the answer; no answer is a panic.\<close>

definition tree_root :: "(bytes \<Rightarrow> hash) \<Rightarrow> merkle_tree \<Rightarrow> 'e store_fault + hash" where
  "tree_root sha levels = map_err (\<lambda>_. Panicked) (root_at sha levels (tree_len levels) :: unit tree_error + hash)"

definition inclusion_proof ::
  "(bytes \<Rightarrow> hash) \<Rightarrow> merkle_tree \<Rightarrow> nat \<Rightarrow> nat \<Rightarrow> 'e tree_error + hash list" where
  "inclusion_proof sha levels leaf_index tree_size =
     path_of sha (tree_node levels) (tree_len levels) leaf_index tree_size"

definition consistency_proof ::
  "(bytes \<Rightarrow> hash) \<Rightarrow> merkle_tree \<Rightarrow> nat \<Rightarrow> nat \<Rightarrow> 'e tree_error + hash list" where
  "consistency_proof sha levels first second =
     proof_of sha (tree_node levels) (tree_len levels) first second"

subsection \<open>The right edge alone\<close>

record root_fold =
  rf_edge :: "made_node list"
  rf_leaves :: nat
  rf_wanted :: "nat list"
  rf_roots :: "(nat, hash) bmap"

definition fold_node :: "root_fold \<Rightarrow> 'e node_source" where
  "fold_node edge level index =
     (case find (\<lambda>(at_level, at_index, _). at_level = level \<and> at_index = index) (rf_edge edge) of
        Some (_, _, h) \<Rightarrow> Inr h
      | None \<Rightarrow> Inl Panicked)"

definition fold_new :: "(bytes \<Rightarrow> hash) \<Rightarrow> nat list \<Rightarrow> root_fold" where
  "fold_new sha sizes =
     (let wanted = remdups_adj (sort sizes)
      in \<lparr>rf_edge = [], rf_leaves = 0, rf_wanted = wanted,
          rf_roots = (case wanted of 0 # _ \<Rightarrow> [(0, empty_root sha)] | _ \<Rightarrow> [])\<rparr>)"

definition fold_push_leaf ::
  "(bytes \<Rightarrow> hash) \<Rightarrow> root_fold \<Rightarrow> hash \<Rightarrow> 'e store_fault + made_node list \<times> root_fold" where
  "fold_push_leaf sha edge leaf =
     res_bind (append_nodes sha (fold_node edge) (rf_leaves edge) leaf) (\<lambda>made.
     if made = [] then Inl Panicked
     else
       let top = last made;
           edge1 = edge\<lparr>rf_edge := filter (\<lambda>(level, _, _). fst top < level) (rf_edge edge) @ [top],
                        rf_leaves := rf_leaves edge + 1\<rparr>
       in if rf_leaves edge1 \<in> set (rf_wanted edge1)
          then case mth sha (fold_node edge1) (rf_leaves edge1) (rf_leaves edge1) of
                 Inr root \<Rightarrow> Inr (made, edge1\<lparr>rf_roots := bput (rf_roots edge1) (rf_leaves edge1) root\<rparr>)
               | Inl (ProofFault _) \<Rightarrow> Inl Panicked
               | Inl (SourceFault e) \<Rightarrow> Inl e
          else Inr (made, edge1))"

definition fold_push_entry ::
  "(bytes \<Rightarrow> hash) \<Rightarrow> root_fold \<Rightarrow> bytes \<Rightarrow> 'e store_fault + made_node list \<times> root_fold" where
  "fold_push_entry sha edge entry = fold_push_leaf sha edge (leaf_hash sha entry)"

definition fold_root_at :: "root_fold \<Rightarrow> nat \<Rightarrow> hash option" where
  "fold_root_at edge tree_size = map_of (rf_roots edge) tree_size"

subsection \<open>The verifiers\<close>

text \<open>\<open>while fnode & 1 == 0 && fnode != 0 { fnode >>= 1; snode >>= 1; }\<close>.\<close>

function edge_up :: "nat \<Rightarrow> nat \<Rightarrow> nat \<times> nat" where
  "edge_up fnode snode =
     (if even fnode \<and> fnode \<noteq> 0 then edge_up (fnode div 2) (snode div 2) else (fnode, snode))"
  by pat_completeness auto
termination by (relation "measure fst") auto

declare edge_up.simps [simp del]

text \<open>Step 4 of section 2.1.3.2; \<open>None\<close> where a proof is too long.\<close>

fun inclusion_steps ::
  "(bytes \<Rightarrow> hash) \<Rightarrow> nat \<Rightarrow> nat \<Rightarrow> hash \<Rightarrow> hash list \<Rightarrow> (nat \<times> hash) option" where
  "inclusion_steps sha fnode snode r [] = Some (snode, r)"
| "inclusion_steps sha fnode snode r (p # ps) =
     (if snode = 0 then None
      else if odd fnode \<or> fnode = snode
      then let (f, s) = edge_up fnode snode
           in inclusion_steps sha (f div 2) (s div 2) (node_hash sha p r) ps
      else inclusion_steps sha (fnode div 2) (snode div 2) (node_hash sha r p) ps)"

definition verify_inclusion ::
  "(bytes \<Rightarrow> hash) \<Rightarrow> nat \<Rightarrow> nat \<Rightarrow> hash \<Rightarrow> hash list \<Rightarrow> hash \<Rightarrow> bool" where
  "verify_inclusion sha leaf_index tree_size leaf inclusion_path root_hash \<longleftrightarrow>
     (if tree_size \<le> leaf_index then False
      else case inclusion_steps sha leaf_index (tree_size - 1) leaf inclusion_path of
             None \<Rightarrow> False
           | Some (snode, r) \<Rightarrow> snode = 0 \<and> r = root_hash)"

definition verify_entry_inclusion ::
  "(bytes \<Rightarrow> hash) \<Rightarrow> nat \<Rightarrow> nat \<Rightarrow> bytes \<Rightarrow> hash list \<Rightarrow> hash \<Rightarrow> bool" where
  "verify_entry_inclusion sha leaf_index tree_size entry inclusion_path root_hash \<longleftrightarrow>
     verify_inclusion sha leaf_index tree_size (leaf_hash sha entry) inclusion_path root_hash"

text \<open>Step 4 of section 2.1.4.2: \<open>while fnode & 1 == 1\<close>.\<close>

function odd_up :: "nat \<Rightarrow> nat \<Rightarrow> nat \<times> nat" where
  "odd_up fnode snode = (if odd fnode then odd_up (fnode div 2) (snode div 2) else (fnode, snode))"
  by pat_completeness auto
termination by (relation "measure fst") (simp_all add: odd_pos)

declare odd_up.simps [simp del]

fun consistency_steps ::
  "(bytes \<Rightarrow> hash) \<Rightarrow> nat \<Rightarrow> nat \<Rightarrow> hash \<Rightarrow> hash \<Rightarrow> hash list \<Rightarrow> (nat \<times> hash \<times> hash) option" where
  "consistency_steps sha fnode snode fr sr [] = Some (snode, fr, sr)"
| "consistency_steps sha fnode snode fr sr (c # cs) =
     (if snode = 0 then None
      else if odd fnode \<or> fnode = snode
      then let (f, s) = edge_up fnode snode
           in consistency_steps sha (f div 2) (s div 2) (node_hash sha c fr) (node_hash sha c sr) cs
      else consistency_steps sha (fnode div 2) (snode div 2) fr (node_hash sha sr c) cs)"

definition verify_consistency ::
  "(bytes \<Rightarrow> hash) \<Rightarrow> nat \<Rightarrow> nat \<Rightarrow> hash \<Rightarrow> hash \<Rightarrow> hash list \<Rightarrow> bool" where
  "verify_consistency sha first second first_hash second_hash consistency_path \<longleftrightarrow>
     (if second < first then False
      else if first = 0 then consistency_path = [] \<and> first_hash = empty_root sha
      else if first = second then consistency_path = [] \<and> first_hash = second_hash
      else if consistency_path = [] then False
      else
        let full = (if is_power_of_two first then [first_hash] else []) @ consistency_path;
            (fnode, snode) = odd_up (first - 1) (second - 1)
        in case consistency_steps sha fnode snode (hd full) (hd full) (tl full) of
             None \<Rightarrow> False
           | Some (s, fr, sr) \<Rightarrow> s = 0 \<and> fr = first_hash \<and> sr = second_hash)"

end
