(* ===== verification/Inbox.thy ===== *)
theory Inbox
  imports Submission Caller Merkle
begin

section \<open>The inbox (services/src/inbox.rs)\<close>

text \<open>
  The service that takes submissions in behind the sequencer's back, and closes each with the
  sequencer's signed evidence. Its tables are lists of rows in insertion order; a row keeps the
  signed submission itself, where the file keeps its JSON. SQLite is third-party code, and what
  is used of it is the meaning of the statements: ids count up, the pair of account and nonce
  is unique, no write fails. \<open>envelope\<close> and \<open>parse\<close> read a message out of bytes and
  \<open>to_vec\<close> writes one (serde); \<open>sha\<close> hashes; \<open>point\<close> and \<open>strict\<close> are Ed25519. The clock
  and the peer's answers are arguments.
\<close>

record inbox_row =
  ir_id :: nat
  ir_received_at :: nat
  ir_signed :: signed_submission
  ir_account :: account_id
  ir_nonce :: string
  ir_feed_id :: "nat option"
  ir_sequenced_at :: "nat option"
  ir_feed_message :: "bytes option"
  ir_content_checked :: "bool option"

datatype rejection_kind = DoubleSequenced | ContentMismatch | ProofFailed

record mark_rejection =
  mr_id :: nat
  mr_at :: nat
  mr_inbox_id :: nat
  mr_feed_id :: nat
  mr_kind :: rejection_kind

record inbox_state =
  ib_rows :: "inbox_row list"
  ib_next_id :: nat
  ib_accounts :: "(account_id, string) bmap"
  ib_rejections :: "mark_rejection list"
  ib_next_rejection :: nat
  ib_epoch :: string
  ib_feed_key :: "bytes option"
  ib_limiter :: rate_limiter
  ib_proxies :: "proxy_net list"
  ib_deadline_ms :: nat
  ib_unauthenticated :: nat

definition MAX_PENDING :: nat where "MAX_PENDING = 5000"

definition MAX_REJECTIONS :: nat where "MAX_REJECTIONS = 1000"

definition PAGE_LIMIT :: nat where "PAGE_LIMIT = 200"

definition MAX_INCLUSION_PATH :: nat where "MAX_INCLUSION_PATH = 64"

definition parse_public_key :: "(bytes \<Rightarrow> bool) \<Rightarrow> string \<Rightarrow> bytes option" where
  "parse_public_key point hex =
     do { key \<leftarrow> from_hex 32 (trim hex); if point key then Some key else None }"

definition open_inbox :: "string \<Rightarrow> bytes option \<Rightarrow> proxy_net list \<Rightarrow> nat \<Rightarrow> inbox_state" where
  "open_inbox epoch key proxies deadline_ms =
     \<lparr>ib_rows = [], ib_next_id = 1, ib_accounts = [], ib_rejections = [], ib_next_rejection = 1,
      ib_epoch = epoch, ib_feed_key = key, ib_limiter = [], ib_proxies = proxies,
      ib_deadline_ms = deadline_ms, ib_unauthenticated = 0\<rparr>"

subsection \<open>POST /submit\<close>

definition is_pending :: "inbox_row \<Rightarrow> bool" where
  "is_pending row \<longleftrightarrow> ir_feed_id row = None"

definition pinned_account_key ::
  "(bytes \<Rightarrow> bool) \<Rightarrow> inbox_state \<Rightarrow> account_id \<Rightarrow> inbox_error + bytes option" where
  "pinned_account_key point state account =
     (case map_of (ib_accounts state) account of
        None \<Rightarrow> Inr None
      | Some hex \<Rightarrow>
          (case parse_public_key point hex of
             Some key \<Rightarrow> Inr (Some key)
           | None \<Rightarrow> Inl (PinUnreadable account)))"

definition pin_or_check_account ::
  "(bytes \<Rightarrow> bool) \<Rightarrow> inbox_state \<Rightarrow> account_id \<Rightarrow> bytes \<Rightarrow> inbox_error + account_pin \<times> inbox_state" where
  "pin_or_check_account point state account key =
     res_bind (pinned_account_key point state account) (\<lambda>pinned.
     res_bind (check_account_key account pinned key) (\<lambda>decision.
     Inr (decision,
       if decision = First
       then state\<lparr>ib_accounts := bput (ib_accounts state) account (to_hex key)\<rparr>
       else state)))"

text \<open>The part of \<open>submit\<close> under the lock. A refusal keeps what was written before it.\<close>

definition submit_db ::
  "(bytes \<Rightarrow> bool) \<Rightarrow> inbox_state \<Rightarrow> caller \<Rightarrow> nat \<Rightarrow> nat \<Rightarrow> signed_submission \<Rightarrow> account_id \<Rightarrow> bytes \<Rightarrow> string \<Rightarrow>
   (inbox_error + inbox_row) \<times> inbox_state" where
  "submit_db point state caller instant now sent account key nonce =
     (let ip = client_ip caller (ib_proxies state);
          (allowed, limiter) = limiter_allow (ib_limiter state) ip instant;
          state1 = state\<lparr>ib_limiter := limiter\<rparr>;
          pending = length (filter is_pending (ib_rows state1))
      in if \<not> allowed then (Inl TooManySubmissions, state1)
         else if MAX_PENDING \<le> pending then (Inl (PendingFull pending), state1)
         else case pin_or_check_account point state1 account key of
                Inl e \<Rightarrow> (Inl e, state1)
              | Inr (_, state2) \<Rightarrow>
                  (case find (\<lambda>row. ir_account row = account \<and> ir_nonce row = nonce) (ib_rows state2) of
                     Some row \<Rightarrow> (Inl (NonceTaken account (ir_id row)), state2)
                   | None \<Rightarrow>
                       let row = \<lparr>ir_id = ib_next_id state2, ir_received_at = now, ir_signed = sent,
                             ir_account = account, ir_nonce = nonce, ir_feed_id = None,
                             ir_sequenced_at = None, ir_feed_message = None, ir_content_checked = None\<rparr>
                       in (Inr row, state2\<lparr>ib_rows := ib_rows state2 @ [row], ib_next_id := ib_next_id state2 + 1\<rparr>)))"

definition submit ::
  "(bytes \<Rightarrow> bool) \<Rightarrow> (bytes \<Rightarrow> bytes \<Rightarrow> bytes \<Rightarrow> bool) \<Rightarrow> inbox_state \<Rightarrow> caller \<Rightarrow> nat \<Rightarrow> nat \<Rightarrow> signed_submission \<Rightarrow>
   (inbox_error + inbox_row) \<times> inbox_state" where
  "submit point strict state caller instant now sent =
     (case res_bind (validate_submission (ss_submission sent)) (\<lambda>_.
           res_bind (verify_account_signature point strict sent) (\<lambda>key.
           res_bind (checked_nonce (ss_submission sent)) (\<lambda>nonce.
           Inr (key, to_hex nonce)))) of
        Inl e \<Rightarrow> (Inl e, state)
      | Inr (key, nonce) \<Rightarrow>
          submit_db point state caller instant now sent (account_of (ss_submission sent)) key nonce)"

subsection \<open>POST /mark\<close>

record tree_head =
  th_session :: string
  th_timestamp :: nat
  th_tree_size :: nat
  th_root_hash :: string
  th_signature :: string

record mark_request =
  mq_inbox_id :: nat
  mq_feed_id :: nat
  mq_inbox_epoch :: string
  mq_message :: bytes
  mq_tree_head :: tree_head
  mq_inclusion_path :: "string list"
  mq_signature :: string

definition mark_statement ::
  "(bytes \<Rightarrow> bytes) \<Rightarrow> string \<Rightarrow> nat \<Rightarrow> nat \<Rightarrow> bytes \<Rightarrow> tree_head \<Rightarrow> bytes" where
  "mark_statement sha inbox_epoch inbox_id feed_id message head =
     join_lines [''exchange-inbox-mark-v3'', th_session head, inbox_epoch, show_nat inbox_id,
       show_nat feed_id, show_nat (th_tree_size head), th_root_hash head, to_hex (sha message)]"

definition signed_mark ::
  "(bytes \<Rightarrow> bytes) \<Rightarrow> ('k \<Rightarrow> bytes \<Rightarrow> bytes) \<Rightarrow> 'k \<Rightarrow> string \<Rightarrow> nat \<Rightarrow> nat \<Rightarrow> bytes \<Rightarrow> tree_head \<Rightarrow> string list \<Rightarrow>
   mark_request" where
  "signed_mark sha sign key inbox_epoch inbox_id feed_id message head inclusion_path =
     \<lparr>mq_inbox_id = inbox_id, mq_feed_id = feed_id, mq_inbox_epoch = inbox_epoch, mq_message = message,
      mq_tree_head = head, mq_inclusion_path = inclusion_path,
      mq_signature = to_hex (sign key (mark_statement sha inbox_epoch inbox_id feed_id message head))\<rparr>"

definition verify_mark ::
  "(bytes \<Rightarrow> bytes) \<Rightarrow> (bytes \<Rightarrow> bytes \<Rightarrow> bytes \<Rightarrow> bool) \<Rightarrow> bytes \<Rightarrow> mark_request \<Rightarrow> bool" where
  "verify_mark sha strict key req \<longleftrightarrow>
     (case from_hex 64 (mq_signature req) of
        None \<Rightarrow> False
      | Some signature \<Rightarrow>
          strict key (mark_statement sha (mq_inbox_epoch req) (mq_inbox_id req) (mq_feed_id req)
            (mq_message req) (mq_tree_head req)) signature)"

definition mark_inclusion ::
  "(bytes \<Rightarrow> bytes) \<Rightarrow> (bytes \<Rightarrow> bytes \<Rightarrow> bytes \<Rightarrow> bool) \<Rightarrow> bytes \<Rightarrow> mark_request \<Rightarrow> proof_fault + unit" where
  "mark_inclusion sha strict key req =
     (let head = mq_tree_head req in
      case (from_hex HASH_SIZE (th_root_hash head), from_hex 64 (th_signature head)) of
        (Some root_hash, Some signature) \<Rightarrow>
          if \<not> verify_tree_head strict key (th_session head) (th_timestamp head) (th_tree_size head) root_hash signature
          then Inl HeadNotSigned
          else if mq_feed_id req = 0 then Inl FeedIdZero
          else
            let leaf_index = mq_feed_id req - 1 in
            if th_tree_size head \<le> leaf_index then Inl (OutsideTree leaf_index (th_tree_size head))
            else if MAX_INCLUSION_PATH < length (mq_inclusion_path req)
            then Inl (PathTooLong (length (mq_inclusion_path req)))
            else (case those (map (from_hex HASH_SIZE) (mq_inclusion_path req)) of
                    None \<Rightarrow> Inl PathNotHashes
                  | Some path \<Rightarrow>
                      require (verify_entry_inclusion sha leaf_index (th_tree_size head) (mq_message req) path root_hash)
                        RootNotReached)
      | _ \<Rightarrow> Inl HeadMalformed)"

definition record_rejection :: "inbox_state \<Rightarrow> nat \<Rightarrow> rejection_kind \<Rightarrow> nat \<Rightarrow> nat \<Rightarrow> inbox_state" where
  "record_rejection state now kind inbox_id feed_id =
     (let i = ib_next_rejection state;
          row = \<lparr>mr_id = i, mr_at = now, mr_inbox_id = inbox_id, mr_feed_id = feed_id, mr_kind = kind\<rparr>
      in state\<lparr>ib_rejections := filter (\<lambda>r. i < mr_id r + MAX_REJECTIONS) (ib_rejections state @ [row]),
               ib_next_rejection := i + 1\<rparr>)"

record message_envelope =
  me_kind :: string
  me_id :: nat
  me_account :: "account_id option"
  me_nonce :: "string option"

datatype confirmation = Confirmed | ContentNotChecked

definition content_checked :: "confirmation \<Rightarrow> bool" where
  "content_checked c \<longleftrightarrow> c = Confirmed"

text \<open>Everything a mark has to show, in the order of the questions. A refusal with a kind is
  filed against the sequencer.\<close>

definition judge_mark ::
  "(bytes \<Rightarrow> bytes) \<Rightarrow> (bytes \<Rightarrow> bytes \<Rightarrow> bytes \<Rightarrow> bool) \<Rightarrow> (bytes \<Rightarrow> message_envelope option) \<Rightarrow>
   (bytes \<Rightarrow> order_message option) \<Rightarrow> (order_message \<Rightarrow> bytes) \<Rightarrow> inbox_state \<Rightarrow> bytes \<Rightarrow> mark_request \<Rightarrow>
   (inbox_error \<times> rejection_kind option) + (inbox_row \<times> confirmation)" where
  "judge_mark sha strict envelope parse to_vec state key req =
     (if mq_inbox_epoch req \<noteq> ib_epoch state
      then Inl (WrongEpoch (mq_inbox_epoch req) (ib_epoch state), None)
      else case find (\<lambda>row. ir_id row = mq_inbox_id req) (ib_rows state) of
        None \<Rightarrow> Inl (NoSuchEntry (mq_inbox_id req), None)
      | Some row \<Rightarrow>
          let submission = ss_submission (ir_signed row) in
          (case mark_inclusion sha strict key req of
             Inl why \<Rightarrow> Inl (MarkProof why, Some ProofFailed)
           | Inr _ \<Rightarrow>
               (case envelope (mq_message req) of
                  None \<Rightarrow> Inl (MarkNotMessage, Some ProofFailed)
                | Some env \<Rightarrow>
                    if me_id env \<noteq> mq_feed_id req
                    then Inl (MarkOtherMessage (mq_feed_id req) (me_id env), Some ProofFailed)
                    else if me_account env \<noteq> Some (account_of submission) \<or> me_nonce env \<noteq> nonce_of submission
                    then Inl (MarkOtherEntry, Some ContentMismatch)
                    else
                      res_bind
                        (case parse (mq_message req) of
                           Some message \<Rightarrow>
                             if message_matches to_vec submission message then Inr Confirmed
                             else Inl (MarkOtherContent, Some ContentMismatch)
                         | None \<Rightarrow> Inr ContentNotChecked)
                        (\<lambda>confirmation.
                         case ir_feed_id row of
                           Some feed_id \<Rightarrow>
                             if feed_id \<noteq> mq_feed_id req
                             then Inl (MarkTwice feed_id (mq_feed_id req), Some DoubleSequenced)
                             else Inr (row, confirmation)
                         | None \<Rightarrow> Inr (row, confirmation)))))"

definition mark_entry ::
  "(bytes \<Rightarrow> bytes) \<Rightarrow> (bytes \<Rightarrow> bytes \<Rightarrow> bytes \<Rightarrow> bool) \<Rightarrow> (bytes \<Rightarrow> message_envelope option) \<Rightarrow>
   (bytes \<Rightarrow> order_message option) \<Rightarrow> (order_message \<Rightarrow> bytes) \<Rightarrow> inbox_state \<Rightarrow> nat \<Rightarrow> bytes \<Rightarrow> mark_request \<Rightarrow>
   (inbox_error + inbox_row) \<times> inbox_state" where
  "mark_entry sha strict envelope parse to_vec state now key req =
     (case judge_mark sha strict envelope parse to_vec state key req of
        Inl (e, None) \<Rightarrow> (Inl e, state)
      | Inl (e, Some kind) \<Rightarrow> (Inl e, record_rejection state now kind (mq_inbox_id req) (mq_feed_id req))
      | Inr (row, confirmation) \<Rightarrow>
          (case ir_feed_id row of
             Some _ \<Rightarrow> (Inr row, state)
           | None \<Rightarrow>
               let row' = row\<lparr>ir_feed_id := Some (mq_feed_id req), ir_sequenced_at := Some now,
                     ir_feed_message := Some (mq_message req),
                     ir_content_checked := Some (content_checked confirmation)\<rparr>
               in (Inr row', state\<lparr>ib_rows := map (\<lambda>r. if ir_id r = mq_inbox_id req then row' else r) (ib_rows state)\<rparr>)))"

text \<open>A key pinned on first contact: it has signed the head its own server gave.\<close>

record served_head =
  sh_session :: string
  sh_last_id :: nat
  sh_chain :: string
  sh_public_key :: string
  sh_signature :: string

definition fetch_feed_key ::
  "(bytes \<Rightarrow> bool) \<Rightarrow> (bytes \<Rightarrow> bytes \<Rightarrow> bytes \<Rightarrow> bool) \<Rightarrow> served_head option \<Rightarrow> bytes option" where
  "fetch_feed_key point strict served =
     do {
       head \<leftarrow> served;
       key \<leftarrow> parse_public_key point (sh_public_key head);
       chain \<leftarrow> from_hex 32 (sh_chain head);
       signature \<leftarrow> from_hex 64 (sh_signature head);
       if verify_head strict key (sh_session head) (sh_last_id head) chain signature then Some key else None
     }"

definition feed_key ::
  "(bytes \<Rightarrow> bool) \<Rightarrow> (bytes \<Rightarrow> bytes \<Rightarrow> bytes \<Rightarrow> bool) \<Rightarrow> inbox_state \<Rightarrow> served_head option \<Rightarrow> bytes option \<times> inbox_state" where
  "feed_key point strict state served =
     (case ib_feed_key state of
        Some key \<Rightarrow> (Some key, state)
      | None \<Rightarrow>
          (case fetch_feed_key point strict served of
             None \<Rightarrow> (None, state)
           | Some key \<Rightarrow> (Some key, state\<lparr>ib_feed_key := Some key\<rparr>)))"

definition refused_mark :: "inbox_state \<Rightarrow> inbox_state" where
  "refused_mark state = state\<lparr>ib_unauthenticated := ib_unauthenticated state + 1\<rparr>"

definition mark ::
  "(bytes \<Rightarrow> bytes) \<Rightarrow> (bytes \<Rightarrow> bool) \<Rightarrow> (bytes \<Rightarrow> bytes \<Rightarrow> bytes \<Rightarrow> bool) \<Rightarrow> (bytes \<Rightarrow> message_envelope option) \<Rightarrow>
   (bytes \<Rightarrow> order_message option) \<Rightarrow> (order_message \<Rightarrow> bytes) \<Rightarrow> inbox_state \<Rightarrow> served_head option \<Rightarrow> nat \<Rightarrow>
   mark_request \<Rightarrow> (inbox_error + inbox_row) \<times> inbox_state" where
  "mark sha point strict envelope parse to_vec state served now req =
     (case feed_key point strict state served of
        (None, state') \<Rightarrow> (Inl NoFeedKey, refused_mark state')
      | (Some key, state') \<Rightarrow>
          if \<not> verify_mark sha strict key req then (Inl MarkUnauthenticated, refused_mark state')
          else mark_entry sha strict envelope parse to_vec state' now key req)"

subsection \<open>GET /pending and GET /status\<close>

definition read_pending :: "inbox_state \<Rightarrow> nat \<Rightarrow> inbox_row list" where
  "read_pending state limit = take limit (filter is_pending (ib_rows state))"

definition read_recent :: "inbox_state \<Rightarrow> nat \<Rightarrow> inbox_row list" where
  "read_recent state limit = rev (take limit (rev (ib_rows state)))"

definition read_by_ids :: "inbox_state \<Rightarrow> nat list \<Rightarrow> inbox_row list" where
  "read_by_ids state ids = filter (\<lambda>row. ir_id row \<in> set ids) (ib_rows state)"

record pending_picture =
  pp_pending :: nat
  pp_overdue :: nat
  pp_entries :: "inbox_row list"

definition pending_snapshot :: "inbox_state \<Rightarrow> nat \<Rightarrow> nat \<Rightarrow> pending_picture" where
  "pending_snapshot state cutoff_ms limit =
     (let rows = filter is_pending (ib_rows state)
      in \<lparr>pp_pending = length rows, pp_overdue = length (filter (\<lambda>r. ir_received_at r < cutoff_ms) rows),
          pp_entries = take limit rows\<rparr>)"

record inbox_status =
  st_pending :: nat
  st_overdue :: "inbox_row list"
  st_overdue_count :: nat
  st_content_unchecked :: nat
  st_oldest_wait_ms :: "nat option"

definition get_status :: "inbox_state \<Rightarrow> nat \<Rightarrow> inbox_status" where
  "get_status state now =
     (let cutoff = now - ib_deadline_ms state;
          snapshot = pending_snapshot state cutoff PAGE_LIMIT
      in \<lparr>st_pending = pp_pending snapshot,
          st_overdue = filter (\<lambda>r. ir_received_at r < cutoff) (pp_entries snapshot),
          st_overdue_count = pp_overdue snapshot,
          st_content_unchecked = length (filter (\<lambda>r. ir_content_checked r = Some False) (ib_rows state)),
          st_oldest_wait_ms = (case pp_entries snapshot of [] \<Rightarrow> None | e # _ \<Rightarrow> Some (now - ir_received_at e))\<rparr>)"

end
