(* ===== verification/Inbox_Invariant.thy ===== *)
theory Inbox_Invariant
  imports Inbox
begin

section \<open>What the inbox keeps\<close>

text \<open>
  The step relation of the inbox, its invariant, and what a step does to the entries: they are
  added signed and under a pinned key, closed once on evidence, and never lost or changed.
\<close>

datatype inbox_event =
  Submitted caller nat nat signed_submission
| Marked "served_head option" nat mark_request

text \<open>The world an inbox runs in: the hash, the signature scheme and serde.\<close>

record inbox_world =
  iw_sha :: "bytes \<Rightarrow> bytes"
  iw_point :: "bytes \<Rightarrow> bool"
  iw_strict :: "bytes \<Rightarrow> bytes \<Rightarrow> bytes \<Rightarrow> bool"
  iw_envelope :: "bytes \<Rightarrow> message_envelope option"
  iw_parse :: "bytes \<Rightarrow> order_message option"
  iw_to_vec :: "order_message \<Rightarrow> bytes"

fun inbox_step :: "inbox_world \<Rightarrow> inbox_state \<Rightarrow> inbox_event \<Rightarrow> (inbox_error + inbox_row) \<times> inbox_state" where
  "inbox_step w s (Submitted c instant now sent) = submit (iw_point w) (iw_strict w) s c instant now sent"
| "inbox_step w s (Marked served now req) =
     mark (iw_sha w) (iw_point w) (iw_strict w) (iw_envelope w) (iw_parse w) (iw_to_vec w) s served now req"

inductive inbox_run :: "inbox_world \<Rightarrow> inbox_state \<Rightarrow> inbox_state \<Rightarrow> bool" for w where
  inbox_start: "inbox_run w s s"
| inbox_next: "inbox_run w s s' \<Longrightarrow> inbox_run w s (snd (inbox_step w s' ev))"

subsection \<open>The invariant\<close>

definition row_signed :: "inbox_world \<Rightarrow> inbox_state \<Rightarrow> inbox_row \<Rightarrow> bool" where
  "row_signed w s row \<longleftrightarrow>
     validate_submission (ss_submission (ir_signed row)) = Inr () \<and>
     ir_account row = account_of (ss_submission (ir_signed row)) \<and>
     nonce_of (ss_submission (ir_signed row)) = Some (ir_nonce row) \<and>
     (\<exists>key. verify_account_signature (iw_point w) (iw_strict w) (ir_signed row) = Inr key \<and>
        map_of (ib_accounts s) (ir_account row) = Some (to_hex key))"

definition evidence :: "inbox_world \<Rightarrow> string \<Rightarrow> bytes \<Rightarrow> inbox_row \<Rightarrow> mark_request \<Rightarrow> bool" where
  "evidence w epoch key row req \<longleftrightarrow>
     mq_inbox_id req = ir_id row \<and> mq_inbox_epoch req = epoch \<and>
     ir_feed_id row = Some (mq_feed_id req) \<and> ir_feed_message row = Some (mq_message req) \<and>
     verify_mark (iw_sha w) (iw_strict w) key req \<and>
     mark_inclusion (iw_sha w) (iw_strict w) key req = Inr () \<and>
     (\<exists>env. iw_envelope w (mq_message req) = Some env \<and> me_id env = mq_feed_id req \<and>
        me_account env = Some (ir_account row) \<and> me_nonce env = Some (ir_nonce row)) \<and>
     (ir_content_checked row = Some True \<longrightarrow>
        (\<exists>m. iw_parse w (mq_message req) = Some m \<and>
           message_matches (iw_to_vec w) (ss_submission (ir_signed row)) m))"

definition row_closed_well :: "inbox_world \<Rightarrow> inbox_state \<Rightarrow> inbox_row \<Rightarrow> bool" where
  "row_closed_well w s row \<longleftrightarrow>
     ir_feed_id row = None \<or> (\<exists>key req. ib_feed_key s = Some key \<and> evidence w (ib_epoch s) key row req)"

definition pins_ok :: "inbox_world \<Rightarrow> inbox_state \<Rightarrow> bool" where
  "pins_ok w s \<longleftrightarrow>
     (\<forall>a hex. map_of (ib_accounts s) a = Some hex \<longrightarrow> (\<exists>key. hex = to_hex key \<and> length key = 32 \<and> iw_point w key))"

definition inbox_ok :: "inbox_world \<Rightarrow> inbox_state \<Rightarrow> bool" where
  "inbox_ok w s \<longleftrightarrow>
     sorted_wrt (<) (map ir_id (ib_rows s)) \<and> (\<forall>row \<in> set (ib_rows s). ir_id row < ib_next_id s) \<and>
     distinct (map (\<lambda>row. (ir_account row, ir_nonce row)) (ib_rows s)) \<and>
     distinct (map fst (ib_limiter s)) \<and> pins_ok w s \<and>
     (\<forall>row \<in> set (ib_rows s). row_signed w s row \<and> row_closed_well w s row)"

lemma inbox_ok_open: "inbox_ok w (open_inbox epoch key proxies deadline)"
  by (simp add: inbox_ok_def open_inbox_def pins_ok_def)

text \<open>Pins are only added, and a row needs no more of the state than the pins, the epoch and
  the key.\<close>

definition pins_kept :: "inbox_state \<Rightarrow> inbox_state \<Rightarrow> bool" where
  "pins_kept s s' \<longleftrightarrow> (\<forall>a hex. map_of (ib_accounts s) a = Some hex \<longrightarrow> map_of (ib_accounts s') a = Some hex)"

lemma row_signed_kept: "row_signed w s row \<Longrightarrow> pins_kept s s' \<Longrightarrow> row_signed w s' row"
  by (auto simp: row_signed_def pins_kept_def)

lemma row_closed_kept:
  "row_closed_well w s row \<Longrightarrow> ib_epoch s' = ib_epoch s \<Longrightarrow> ib_feed_key s = None \<or> ib_feed_key s' = ib_feed_key s \<Longrightarrow>
   row_closed_well w s' row"
  by (auto simp: row_closed_well_def)

subsection \<open>A submission\<close>

lemma from_hex_length: "from_hex n hex = Some bs \<Longrightarrow> length bs = n"
  by (auto simp: from_hex_def split: if_splits dest: hex_pairs_length)

lemma pin_frame:
  assumes "pin_or_check_account (iw_point w) s account key = Inr (d, s')" and "pins_ok w s"
    and "iw_point w key" and "length key = 32"
  shows "pins_kept s s'" and "map_of (ib_accounts s') account = Some (to_hex key)" and "pins_ok w s'"
    and "s' = s\<lparr>ib_accounts := ib_accounts s'\<rparr>"
proof -
  have "pins_kept s s' \<and> map_of (ib_accounts s') account = Some (to_hex key) \<and> pins_ok w s' \<and> s' = s\<lparr>ib_accounts := ib_accounts s'\<rparr>"
  proof (cases "map_of (ib_accounts s) account")
    case None
    then have "s' = s\<lparr>ib_accounts := bput (ib_accounts s) account (to_hex key)\<rparr>"
      using assms(1) by (simp add: pin_or_check_account_def pinned_account_key_def check_account_key_def)
    then show ?thesis using None assms(2-4) by (auto simp: pins_kept_def pins_ok_def)
  next
    case (Some hex)
    then obtain k where k: "hex = to_hex k" "length k = 32" "iw_point w k" using assms(2) by (auto simp: pins_ok_def)
    then have "parse_public_key (iw_point w) hex = Some k"
      by (simp add: parse_public_key_def trim_to_hex from_hex_to_hex)
    then show ?thesis
      using assms(1,2) Some k(1) by (auto simp: pin_or_check_account_def pinned_account_key_def check_account_key_def
          pins_kept_def split: if_splits)
  qed
  then show "pins_kept s s'" "map_of (ib_accounts s') account = Some (to_hex key)" "pins_ok w s'"
    "s' = s\<lparr>ib_accounts := ib_accounts s'\<rparr>" by blast+
qed

text \<open>What a submission does to the state: a refusal leaves the entries, an acceptance adds one
  entry that is signed under the pinned key.\<close>

definition submit_frame :: "inbox_world \<Rightarrow> inbox_state \<Rightarrow> inbox_state \<Rightarrow> bool" where
  "submit_frame w s s' \<longleftrightarrow>
     ib_epoch s' = ib_epoch s \<and> ib_feed_key s' = ib_feed_key s \<and> pins_kept s s' \<and> pins_ok w s' \<and>
     distinct (map fst (ib_limiter s'))"

definition added_row :: "inbox_world \<Rightarrow> inbox_state \<Rightarrow> inbox_state \<Rightarrow> nat \<Rightarrow> signed_submission \<Rightarrow> inbox_row \<Rightarrow> bool" where
  "added_row w s s' now sent row \<longleftrightarrow>
     ib_rows s' = ib_rows s @ [row] \<and> ib_next_id s' = ib_next_id s + 1 \<and> row_signed w s' row \<and>
     ir_id row = ib_next_id s \<and> ir_received_at row = now \<and> ir_signed row = sent \<and> is_pending row \<and>
     (\<forall>r \<in> set (ib_rows s). \<not> (ir_account r = ir_account row \<and> ir_nonce r = ir_nonce row))"

lemma limiter_distinct: "distinct (map fst seen) \<Longrightarrow> distinct (map fst (snd (limiter_allow seen ip now)))"
  using limiter_allow_left(2) [of seen now now ip "fst (limiter_allow seen ip now)" "snd (limiter_allow seen ip now)"]
  by (simp add: SUBMIT_WINDOW_def)

lemma submit_db_frame:
  assumes "submit_db (iw_point w) s c instant now sent account key nonce = (r, s')"
    and "pins_ok w s" and "distinct (map fst (ib_limiter s))" and "iw_point w key" and "length key = 32"
    and "verify_account_signature (iw_point w) (iw_strict w) sent = Inr key"
    and "validate_submission (ss_submission sent) = Inr ()" and "account = account_of (ss_submission sent)"
    and "nonce_of (ss_submission sent) = Some nonce"
  shows "submit_frame w s s' \<and> (case r of
      Inl _ \<Rightarrow> ib_rows s' = ib_rows s \<and> ib_next_id s' = ib_next_id s
    | Inr row \<Rightarrow> added_row w s s' now sent row)"
proof -
  obtain b lim where a: "limiter_allow (ib_limiter s) (client_ip c (ib_proxies s)) instant = (b, lim)" by fastforce
  have lim: "distinct (map fst lim)" using limiter_distinct [OF assms(3), of "client_ip c (ib_proxies s)" instant] a by simp
  let ?s1 = "s\<lparr>ib_limiter := lim\<rparr>"
  have p1: "pins_ok w ?s1" using assms(2) by (simp add: pins_ok_def)
  have keep1: "submit_frame w s ?s1" using lim p1 by (simp add: submit_frame_def pins_kept_def)
  consider "\<not> b \<or> MAX_PENDING \<le> length (filter is_pending (ib_rows s)) \<or> (\<exists>e. pin_or_check_account (iw_point w) ?s1 account key = Inl e)"
      and "s' = ?s1" and "\<exists>e. r = Inl e"
    | d s2 where "pin_or_check_account (iw_point w) ?s1 account key = Inr (d, s2)"
      and "b" and "\<not> MAX_PENDING \<le> length (filter is_pending (ib_rows s))"
    using assms(1) a by (auto simp: submit_db_def Let_def split: if_splits sum.splits)
  then show ?thesis
  proof cases
    case 1
    then show ?thesis using keep1 by auto
  next
    case 2
    note pin = pin_frame [OF 2(1) p1 assms(4,5)]
    obtain acc where acc: "s2 = ?s1\<lparr>ib_accounts := acc\<rparr>" using pin(4) by blast
    have s2: "ib_rows s2 = ib_rows s" "ib_next_id s2 = ib_next_id s" "ib_epoch s2 = ib_epoch s"
      "ib_feed_key s2 = ib_feed_key s" "ib_limiter s2 = lim"
      by (simp_all add: acc)
    have keep2: "submit_frame w s s2" using s2 lim pin(1,3) by (simp add: submit_frame_def pins_kept_def)
    let ?find = "find (\<lambda>row. ir_account row = account \<and> ir_nonce row = nonce) (ib_rows s2)"
    have run: "(r, s') = (case ?find of
        Some row \<Rightarrow> (Inl (NonceTaken account (ir_id row)), s2)
      | None \<Rightarrow> let row = \<lparr>ir_id = ib_next_id s2, ir_received_at = now, ir_signed = sent,
            ir_account = account, ir_nonce = nonce, ir_feed_id = None,
            ir_sequenced_at = None, ir_feed_message = None, ir_content_checked = None\<rparr>
          in (Inr row, s2\<lparr>ib_rows := ib_rows s2 @ [row], ib_next_id := ib_next_id s2 + 1\<rparr>))"
      using assms(1) a 2 by (simp add: submit_db_def Let_def)
    show ?thesis
    proof (cases ?find)
      case (Some row)
      then show ?thesis using run keep2 s2 by simp
    next
      case None
      have new: "\<forall>row \<in> set (ib_rows s). \<not> (ir_account row = account \<and> ir_nonce row = nonce)"
        using None s2(1) by (auto simp: find_None_iff)
      have "map_of (ib_accounts s2) account = Some (to_hex key)" by (rule pin(2))
      then show ?thesis
        using run None s2 keep2 new assms(6-9)
        by (simp add: submit_frame_def pins_kept_def pins_ok_def added_row_def row_signed_def is_pending_def Let_def)
    qed
  qed
qed

lemma submit_step:
  assumes "submit (iw_point w) (iw_strict w) s c instant now sent = (r, s')"
    and "pins_ok w s" and "distinct (map fst (ib_limiter s))"
  shows "submit_frame w s s' \<and> (case r of
      Inl _ \<Rightarrow> ib_rows s' = ib_rows s \<and> ib_next_id s' = ib_next_id s
    | Inr row \<Rightarrow> added_row w s s' now sent row)"
proof (cases "res_bind (validate_submission (ss_submission sent)) (\<lambda>_.
    res_bind (verify_account_signature (iw_point w) (iw_strict w) sent) (\<lambda>key.
    res_bind (checked_nonce (ss_submission sent)) (\<lambda>nonce. Inr (key, to_hex nonce))))")
  case (Inl e)
  then show ?thesis
    using assms by (auto simp: submit_def submit_frame_def pins_kept_def)
next
  case (Inr kn)
  then obtain key raw where h: "validate_submission (ss_submission sent) = Inr ()"
    "verify_account_signature (iw_point w) (iw_strict w) sent = Inr key"
    "checked_nonce (ss_submission sent) = Inr raw" "kn = (key, to_hex raw)" by auto
  have "nonce_of (ss_submission sent) = Some (to_hex raw)"
    using h(3) by (auto simp: checked_nonce_def ok_or_def canonical_nonce_iff split: option.splits)
  moreover have "iw_point w key" "length key = 32"
    using h(2) from_hex_length by (auto simp: verify_account_signature_def ok_or_def split: option.splits if_splits)
  moreover have "submit_db (iw_point w) s c instant now sent (account_of (ss_submission sent)) key (to_hex raw) = (r, s')"
    using assms(1) Inr by (simp add: submit_def h(4))
  ultimately show ?thesis using submit_db_frame assms(2,3) h(1,2) by blast
qed

subsection \<open>A mark\<close>

lemma judge_mark_ok:
  assumes "judge_mark (iw_sha w) (iw_strict w) (iw_envelope w) (iw_parse w) (iw_to_vec w) s key req = Inr (row, c)"
    and "\<forall>row \<in> set (ib_rows s). row_signed w s row"
  shows "row \<in> set (ib_rows s) \<and> ir_id row = mq_inbox_id req \<and> mq_inbox_epoch req = ib_epoch s \<and>
    mark_inclusion (iw_sha w) (iw_strict w) key req = Inr () \<and>
    (\<exists>env. iw_envelope w (mq_message req) = Some env \<and> me_id env = mq_feed_id req \<and>
       me_account env = Some (ir_account row) \<and> me_nonce env = Some (ir_nonce row)) \<and>
    (c = Confirmed \<longrightarrow> (\<exists>m. iw_parse w (mq_message req) = Some m \<and>
       message_matches (iw_to_vec w) (ss_submission (ir_signed row)) m))"
proof -
  have e: "mq_inbox_epoch req = ib_epoch s" using assms(1) by (auto simp: judge_mark_def split: if_splits)
  obtain row' where f: "find (\<lambda>row. ir_id row = mq_inbox_id req) (ib_rows s) = Some row'"
    using assms(1) e by (auto simp: judge_mark_def split: option.splits)
  have m: "row' \<in> set (ib_rows s)" "ir_id row' = mq_inbox_id req" using find_member [OF f] by auto
  have rs: "ir_account row' = account_of (ss_submission (ir_signed row'))"
    "nonce_of (ss_submission (ir_signed row')) = Some (ir_nonce row')"
    using assms(2) m(1) by (auto simp: row_signed_def)
  obtain env where q: "mark_inclusion (iw_sha w) (iw_strict w) key req = Inr ()"
    "iw_envelope w (mq_message req) = Some env" "me_id env = mq_feed_id req"
    "me_account env = Some (ir_account row')" "me_nonce env = Some (ir_nonce row')"
    using assms(1) e f rs by (auto simp: judge_mark_def Let_def split: sum.splits option.splits if_splits)
  have "row = row' \<and> (c = Confirmed \<longrightarrow> (\<exists>m. iw_parse w (mq_message req) = Some m \<and>
       message_matches (iw_to_vec w) (ss_submission (ir_signed row')) m))"
    using assms(1) e f q rs by (auto simp: judge_mark_def Let_def split: option.splits if_splits)
  then show ?thesis using m e q by blast
qed

lemma mark_entry_step:
  assumes "mark_entry (iw_sha w) (iw_strict w) (iw_envelope w) (iw_parse w) (iw_to_vec w) s now key req = (r, s')"
    and "\<forall>row \<in> set (ib_rows s). row_signed w s row" and "verify_mark (iw_sha w) (iw_strict w) key req"
  shows "s' = s\<lparr>ib_rejections := ib_rejections s', ib_next_rejection := ib_next_rejection s'\<rparr> \<or>
    (\<exists>row row'. row \<in> set (ib_rows s) \<and> is_pending row \<and> ir_id row' = ir_id row \<and>
       ir_received_at row' = ir_received_at row \<and> ir_signed row' = ir_signed row \<and>
       ir_account row' = ir_account row \<and> ir_nonce row' = ir_nonce row \<and> evidence w (ib_epoch s) key row' req \<and>
       s' = s\<lparr>ib_rows := map (\<lambda>x. if ir_id x = ir_id row then row' else x) (ib_rows s)\<rparr>)"
proof (cases "judge_mark (iw_sha w) (iw_strict w) (iw_envelope w) (iw_parse w) (iw_to_vec w) s key req")
  case (Inl ek)
  then show ?thesis
    using assms(1) by (cases ek; cases "snd ek") (auto simp: mark_entry_def record_rejection_def Let_def)
next
  case (Inr rc)
  obtain row c where rc: "rc = (row, c)" by fastforce
  note j = judge_mark_ok [OF Inr [unfolded rc] assms(2)]
  show ?thesis
  proof (cases "ir_feed_id row")
    case (Some f)
    then show ?thesis using assms(1) Inr rc by (simp add: mark_entry_def)
  next
    case None
    let ?row' = "row\<lparr>ir_feed_id := Some (mq_feed_id req), ir_sequenced_at := Some now,
      ir_feed_message := Some (mq_message req), ir_content_checked := Some (content_checked c)\<rparr>"
    have "s' = s\<lparr>ib_rows := map (\<lambda>x. if ir_id x = ir_id row then ?row' else x) (ib_rows s)\<rparr>"
      using assms(1) Inr rc None j by (simp add: mark_entry_def Let_def)
    moreover have "evidence w (ib_epoch s) key ?row' req"
      using j assms(3) by (auto simp: evidence_def content_checked_def)
    ultimately show ?thesis using j None by (intro disjI2 exI [of _ row] exI [of _ ?row']) (simp add: is_pending_def)
  qed
qed

subsection \<open>Every step\<close>

definition row_kept :: "inbox_row \<Rightarrow> inbox_row \<Rightarrow> bool" where
  "row_kept row row' \<longleftrightarrow>
     ir_id row' = ir_id row \<and> ir_received_at row' = ir_received_at row \<and> ir_signed row' = ir_signed row \<and>
     (row' = row \<or> is_pending row)"

definition inbox_grows :: "inbox_state \<Rightarrow> inbox_state \<Rightarrow> bool" where
  "inbox_grows s s' \<longleftrightarrow>
     ib_epoch s' = ib_epoch s \<and> (ib_feed_key s = None \<or> ib_feed_key s' = ib_feed_key s) \<and>
     (\<forall>row \<in> set (ib_rows s). \<exists>row' \<in> set (ib_rows s'). row_kept row row')"

lemma row_kept_refl [simp]: "row_kept row row"
  by (simp add: row_kept_def)

lemma row_kept_trans: "row_kept a b \<Longrightarrow> row_kept b c \<Longrightarrow> row_kept a c"
  by (auto simp: row_kept_def)

lemma inbox_grows_refl [simp]: "inbox_grows s s"
  by (auto simp: inbox_grows_def intro: row_kept_refl)

lemma inbox_growsI:
  "ib_epoch s' = ib_epoch s \<Longrightarrow> ib_feed_key s = None \<or> ib_feed_key s' = ib_feed_key s \<Longrightarrow>
   set (ib_rows s) \<subseteq> set (ib_rows s') \<Longrightarrow> inbox_grows s s'"
  unfolding inbox_grows_def using row_kept_refl by blast

lemma inbox_grows_trans: "inbox_grows a b \<Longrightarrow> inbox_grows b c \<Longrightarrow> inbox_grows a c"
  unfolding inbox_grows_def by (metis row_kept_trans)

lemma submit_keeps_ok:
  assumes "inbox_ok w s" and "submit (iw_point w) (iw_strict w) s c instant now sent = (r, s')"
  shows "inbox_ok w s' \<and> inbox_grows s s'"
proof -
  have f: "submit_frame w s s'" and o: "case r of
      Inl _ \<Rightarrow> ib_rows s' = ib_rows s \<and> ib_next_id s' = ib_next_id s
    | Inr row \<Rightarrow> added_row w s s' now sent row"
    using submit_step [OF assms(2)] assms(1) by (simp_all add: inbox_ok_def)
  have old: "row_signed w s' row \<and> row_closed_well w s' row" if "row \<in> set (ib_rows s)" for row
    using that f assms(1) row_signed_kept [of w s row s'] row_closed_kept [of w s row s']
    by (simp add: inbox_ok_def submit_frame_def)
  show ?thesis
  proof (cases r)
    case (Inl e)
    then have "ib_rows s' = ib_rows s" "ib_next_id s' = ib_next_id s" using o by auto
    then show ?thesis using assms(1) f old by (auto simp: inbox_ok_def submit_frame_def intro: inbox_growsI)
  next
    case (Inr row)
    then have a: "added_row w s s' now sent row" using o by simp
    have "row_closed_well w s' row" using a by (simp add: added_row_def row_closed_well_def is_pending_def)
    then show ?thesis
      using a assms(1) f old
      by (auto simp: inbox_ok_def submit_frame_def added_row_def sorted_wrt_append less_Suc_eq intro!: inbox_growsI)
  qed
qed

lemma feed_key_step:
  assumes "feed_key point strict s served = (k, s')"
  shows "s' = s\<lparr>ib_feed_key := k\<rparr>" and "ib_feed_key s = None \<or> k = ib_feed_key s"
  using assms by (auto simp: feed_key_def split: option.splits)

lemma other_parts_ok:
  assumes "inbox_ok w s" and "ib_rows s' = ib_rows s" and "ib_next_id s' = ib_next_id s" and "ib_limiter s' = ib_limiter s"
    and "ib_accounts s' = ib_accounts s" and "ib_epoch s' = ib_epoch s"
    and "ib_feed_key s = None \<or> ib_feed_key s' = ib_feed_key s"
  shows "inbox_ok w s' \<and> inbox_grows s s'"
proof -
  have "row_signed w s' row \<and> row_closed_well w s' row" if "row \<in> set (ib_rows s)" for row
    using that assms(1) row_signed_kept [of w s row s'] row_closed_kept [of w s row s'] assms(5-7)
    by (simp add: inbox_ok_def pins_kept_def)
  then show ?thesis using assms by (auto simp: inbox_ok_def pins_ok_def intro: inbox_growsI)
qed

lemma sorted_ids_eq:
  assumes "sorted_wrt (<) (map ir_id rows)" and "x \<in> set rows" and "y \<in> set rows" and "ir_id x = ir_id y"
  shows "x = y"
proof -
  have "distinct (map ir_id rows)" using assms(1) strict_sorted_iff by blast
  then show ?thesis using assms(2-4) by (auto simp: distinct_map inj_on_def)
qed

lemma close_row_ok:
  assumes "inbox_ok w s" and "ib_feed_key s = Some key" and "row \<in> set (ib_rows s)" and "is_pending row"
    and "ir_id row' = ir_id row" and "ir_received_at row' = ir_received_at row" and "ir_signed row' = ir_signed row"
    and "ir_account row' = ir_account row" and "ir_nonce row' = ir_nonce row" and "evidence w (ib_epoch s) key row' req"
    and s': "s' = s\<lparr>ib_rows := map (\<lambda>x. if ir_id x = ir_id row then row' else x) (ib_rows s)\<rparr>"
  shows "inbox_ok w s' \<and> inbox_grows s s'"
proof -
  let ?f = "\<lambda>x. if ir_id x = ir_id row then row' else x"
  have sorted: "sorted_wrt (<) (map ir_id (ib_rows s))" using assms(1) by (simp add: inbox_ok_def)
  have ids: "ir_id (?f x) = ir_id x" for x using assms(5) by simp
  have only: "x = row" if "x \<in> set (ib_rows s)" "ir_id x = ir_id row" for x
    using sorted_ids_eq [OF sorted that(1) assms(3) that(2)] .
  have m: "map ir_id (map ?f (ib_rows s)) = map ir_id (ib_rows s)" using ids by simp
  have keys: "map (\<lambda>x. (ir_account x, ir_nonce x)) (map ?f (ib_rows s)) = map (\<lambda>x. (ir_account x, ir_nonce x)) (ib_rows s)"
    using only assms(8,9) by auto
  have signed': "row_signed w s' x" if "x \<in> set (ib_rows s)" for x
    using that assms(1) row_signed_kept [of w s x s'] by (simp add: inbox_ok_def pins_kept_def s')
  have "row_signed w s' row'" using signed' [OF assms(3)] unfolding row_signed_def assms(7-9) .
  moreover have "row_closed_well w s' row'" using assms(2,10) by (auto simp: row_closed_well_def s')
  moreover have "row_closed_well w s' x" if "x \<in> set (ib_rows s)" for x
    using that assms(1) row_closed_kept [of w s x s'] by (simp add: inbox_ok_def s')
  ultimately have all: "\<forall>x \<in> set (map ?f (ib_rows s)). row_signed w s' x \<and> row_closed_well w s' x" using signed' by auto
  have "inbox_ok w s'"
    unfolding inbox_ok_def
  proof (intro conjI)
    show "sorted_wrt (<) (map ir_id (ib_rows s'))" using sorted m by (simp add: s' del: map_map)
    show "\<forall>x \<in> set (ib_rows s'). ir_id x < ib_next_id s'" using assms(1,5) by (auto simp: s' inbox_ok_def)
    show "distinct (map (\<lambda>x. (ir_account x, ir_nonce x)) (ib_rows s'))"
      using keys assms(1) by (simp add: s' inbox_ok_def del: map_map)
    show "distinct (map fst (ib_limiter s'))" "pins_ok w s'" using assms(1) by (simp_all add: s' inbox_ok_def pins_ok_def)
    show "\<forall>x \<in> set (ib_rows s'). row_signed w s' x \<and> row_closed_well w s' x" using all by (simp add: s')
  qed
  have k: "row_kept x (?f x)" if "x \<in> set (ib_rows s)" for x
    using only [OF that] assms(4-7) by (auto simp: row_kept_def)
  have rows': "ib_rows s' = map ?f (ib_rows s)" by (simp add: s')
  have "inbox_grows s s'"
    unfolding inbox_grows_def
  proof (intro conjI ballI)
    fix x
    assume x: "x \<in> set (ib_rows s)"
    show "\<exists>y \<in> set (ib_rows s'). row_kept x y"
      unfolding rows' set_map by (rule bexI [where P = "row_kept x", OF k [OF x]]) (rule imageI [OF x])
  qed (simp_all add: s')
  with \<open>inbox_ok w s'\<close> show ?thesis by blast
qed

lemma mark_keeps_ok:
  assumes "inbox_ok w s" and "mark (iw_sha w) (iw_point w) (iw_strict w) (iw_envelope w) (iw_parse w) (iw_to_vec w) s served now req = (r, s')"
  shows "inbox_ok w s' \<and> inbox_grows s s'"
proof -
  obtain k s1 where k: "feed_key (iw_point w) (iw_strict w) s served = (k, s1)" by fastforce
  note ks = feed_key_step [OF k]
  have s1: "inbox_ok w s1 \<and> inbox_grows s s1"
    by (rule other_parts_ok [OF assms(1)]) (use ks in auto)
  consider "s' = refused_mark s1"
    | key where "k = Some key" and "verify_mark (iw_sha w) (iw_strict w) key req"
      and "mark_entry (iw_sha w) (iw_strict w) (iw_envelope w) (iw_parse w) (iw_to_vec w) s1 now key req = (r, s')"
    using assms(2) k by (auto simp: mark_def split: option.splits if_splits)
  then show ?thesis
  proof cases
    case 1
    have "inbox_ok w s' \<and> inbox_grows s1 s'"
      by (rule other_parts_ok [of w s1]) (use s1 in \<open>auto simp: 1 refused_mark_def\<close>)
    then show ?thesis using s1 inbox_grows_trans by blast
  next
    case 2
    have signed1: "\<forall>row \<in> set (ib_rows s1). row_signed w s1 row" using s1 by (simp add: inbox_ok_def)
    have key1: "ib_feed_key s1 = Some key" using ks(1) 2(1) by simp
    from mark_entry_step [OF 2(3) signed1 2(2)] have "inbox_ok w s' \<and> inbox_grows s1 s'"
    proof (elim disjE exE conjE, goal_cases)
      case 1
      obtain a b where e: "s' = s1\<lparr>ib_rejections := a, ib_next_rejection := b\<rparr>" using 1 by blast
      show ?case by (rule other_parts_ok [of w s1]) (use s1 in \<open>auto simp: e\<close>)
    next
      case (2 row row')
      then show ?case using close_row_ok [of w s1 key row row' req s'] s1 key1 by blast
    qed
    then show ?thesis using s1 inbox_grows_trans by blast
  qed
qed

lemma inbox_step_ok: "inbox_ok w s \<Longrightarrow> inbox_ok w (snd (inbox_step w s ev)) \<and> inbox_grows s (snd (inbox_step w s ev))"
proof (cases ev)
  case (Submitted c instant now sent)
  assume "inbox_ok w s"
  from submit_keeps_ok [OF this, of c instant now sent "fst (inbox_step w s ev)" "snd (inbox_step w s ev)"]
  show ?thesis using Submitted by simp
next
  case (Marked served now req)
  assume "inbox_ok w s"
  from mark_keeps_ok [OF this, of served now req "fst (inbox_step w s ev)" "snd (inbox_step w s ev)"]
  show ?thesis using Marked by simp
qed

lemma inbox_run_ok:
  assumes "inbox_run w s s'" and "inbox_ok w s"
  shows "inbox_ok w s' \<and> inbox_grows s s'"
  using assms
proof (induction rule: inbox_run.induct)
  case (inbox_next s s' ev)
  then show ?case using inbox_step_ok inbox_grows_trans by blast
qed simp

end
