(* ===== verification/Statement_Kinds.thy ===== *)
theory Statement_Kinds
  imports Inbox
begin

section \<open>One signature, one statement\<close>

text \<open>
  Every statement a key of this system signs, in one type, and the lines each prints. A
  statement whose free texts hold no newline can be read back from its bytes: its kind, and
  every field. Two submissions that print one statement become one message of the engine.
\<close>

datatype statement =
  HeadOf string nat bytes
| CheckpointOf string nat bytes bytes
| TreeHeadOf string nat nat bytes
| ClaimOf string nat nat bytes bytes nat
| AttestOf string nat bytes attest_status
| OperatorOf operator_kind string "string list"
| SubmissionOf submission
| MarkOf string nat nat bytes tree_head

fun statement_bytes :: "(bytes \<Rightarrow> bytes) \<Rightarrow> statement \<Rightarrow> bytes option" where
  "statement_bytes sha (HeadOf session last_id chain) = Some (head_statement session last_id chain)"
| "statement_bytes sha (CheckpointOf session last_id chain root_hash) =
     Some (checkpoint_statement session last_id chain root_hash)"
| "statement_bytes sha (TreeHeadOf session timestamp leaves root_hash) =
     Some (tree_head_statement session timestamp leaves root_hash)"
| "statement_bytes sha (ClaimOf session from_msg to_msg before after trades) =
     Some (claim_statement session from_msg to_msg before after trades)"
| "statement_bytes sha (AttestOf session last_id chain status) =
     Some (attest_statement session last_id chain status)"
| "statement_bytes sha (OperatorOf kind session lines) = Some (operator_statement kind session lines)"
| "statement_bytes sha (SubmissionOf submission) = submission_statement submission"
| "statement_bytes sha (MarkOf epoch inbox_id feed_id message head) =
     Some (mark_statement sha epoch inbox_id feed_id message head)"

text \<open>The texts a signer puts in as they are: sessions, operator fields, epochs, root texts. A
  submission's session and symbol are checked on the way.\<close>

fun plain :: "statement \<Rightarrow> bool" where
  "plain (HeadOf session _ _) = one_line session"
| "plain (CheckpointOf session _ _ _) = one_line session"
| "plain (TreeHeadOf session _ _ _) = one_line session"
| "plain (ClaimOf session _ _ _ _ _) = one_line session"
| "plain (AttestOf session _ _ _) = one_line session"
| "plain (OperatorOf _ session lines) = (one_line session \<and> list_all one_line lines)"
| "plain (SubmissionOf submission) = (validate_submission submission = Inr ())"
| "plain (MarkOf epoch _ _ _ head) = (one_line epoch \<and> one_line (th_session head) \<and> one_line (th_root_hash head))"

definition engine_message :: "submission \<Rightarrow> order_message option" where
  "engine_message submission = grid_form (message_from 0 0 submission)"

fun same_words :: "(bytes \<Rightarrow> bytes) \<Rightarrow> statement \<Rightarrow> statement \<Rightarrow> bool" where
  "same_words sha (SubmissionOf a) (SubmissionOf b) =
     (session_of a = session_of b \<and> engine_message a = engine_message b)"
| "same_words sha (MarkOf epoch inbox_id feed_id message head) (MarkOf epoch' inbox_id' feed_id' message' head') =
     (epoch = epoch' \<and> inbox_id = inbox_id' \<and> feed_id = feed_id' \<and> sha message = sha message' \<and>
      th_session head = th_session head' \<and> th_tree_size head = th_tree_size head' \<and>
      th_root_hash head = th_root_hash head')"
| "same_words sha a b = (a = b)"

fun statement_lines :: "(bytes \<Rightarrow> bytes) \<Rightarrow> statement \<Rightarrow> string list option" where
  "statement_lines sha (HeadOf session last_id chain) =
     Some [''exchange-feed-head-v1'', session, show_nat last_id, to_hex chain]"
| "statement_lines sha (CheckpointOf session last_id chain root_hash) =
     Some [''exchange-feed-checkpoint-v1'', session, show_nat last_id, to_hex chain, to_hex root_hash]"
| "statement_lines sha (TreeHeadOf session timestamp leaves root_hash) =
     Some [''exchange-feed-sth-v1'', session, show_nat timestamp, show_nat leaves, to_hex root_hash]"
| "statement_lines sha (ClaimOf session from_msg to_msg before after trades) =
     Some [''exchange-claim-v1'', session, show_nat from_msg, show_nat to_msg, to_hex before, to_hex after, show_nat trades]"
| "statement_lines sha (AttestOf session last_id chain status) =
     Some [''exchange-validator-attest-v2'', session, show_nat last_id, to_hex chain,
       show_bool (as_disputed status), show_bool (as_stalled status)]"
| "statement_lines sha (OperatorOf kind session lines) = Some (op_prefix kind # session # lines)"
| "statement_lines sha (SubmissionOf (SubOrder account symbol side price quantity nonce session order_type tif post)) =
     (case (nonce, session, to_grid price PRICE_SCALE, to_grid quantity QUANTITY_SCALE) of
        (Some n, Some s, Some p, Some q) \<Rightarrow>
          Some [''exchange-account-order-v3'', s, show_nat account, symbol, side_name side, show_int p, show_int q,
            named_order_type order_type, named_time_in_force tif, named_post_only post, n]
      | _ \<Rightarrow> None)"
| "statement_lines sha (SubmissionOf (SubCancel account target nonce session)) =
     (case (nonce, session) of
        (Some n, Some s) \<Rightarrow> Some [''exchange-account-cancel-v3'', s, show_nat account, show_nat target, n]
      | _ \<Rightarrow> None)"
| "statement_lines sha (MarkOf epoch inbox_id feed_id message head) =
     Some [''exchange-inbox-mark-v3'', th_session head, epoch, show_nat inbox_id, show_nat feed_id,
       show_nat (th_tree_size head), th_root_hash head, to_hex (sha message)]"

lemma validated_parts:
  assumes "validate_submission sub = Inr ()"
  shows "\<exists>n b s. nonce_of sub = Some n \<and> canonical_nonce n = Some b \<and> to_hex b = n \<and> one_line n \<and>
    session_of sub = Some s \<and> checked_session sub = Inr s \<and> one_line s"
proof -
  obtain b s where h: "checked_nonce sub = Inr b" "checked_session sub = Inr s"
    using assms by (auto simp: validate_submission_def)
  then have "session_of sub = Some s" "one_line s" using canonical_session_line by (auto simp: checked_session_iff)
  moreover obtain n where "nonce_of sub = Some n" "canonical_nonce n = Some b"
    using h(1) by (auto simp: checked_nonce_def ok_or_def split: option.splits)
  ultimately show ?thesis using h(2) by (auto simp: canonical_nonce_iff)
qed

lemma named_lines [simp]:
  "one_line (side_name sd)" "one_line (named_order_type ot)" "one_line (named_time_in_force tf)" "one_line (named_post_only p)"
proof -
  show "one_line (side_name sd)" by (cases sd) (simp_all add: one_line_def)
  show "one_line (named_order_type ot)" by (cases ot) (simp_all add: one_line_def)
  show "one_line (named_time_in_force tf)" by (cases tf) (simp_all add: one_line_def)
  show "one_line (named_post_only p)" by (simp add: one_line_def named_post_only_def)
qed

lemma named_inj [simp]:
  "side_name a = side_name b \<longleftrightarrow> a = b"
  "named_order_type c = named_order_type d \<longleftrightarrow> c = d"
  "named_time_in_force e = named_time_in_force f \<longleftrightarrow> e = f"
  "named_post_only p = named_post_only q \<longleftrightarrow> p = q"
proof -
  show "side_name a = side_name b \<longleftrightarrow> a = b" by (cases a; cases b) simp_all
  show "named_order_type c = named_order_type d \<longleftrightarrow> c = d" by (cases c; cases d) simp_all
  show "named_time_in_force e = named_time_in_force f \<longleftrightarrow> e = f" by (cases e; cases f) simp_all
  show "named_post_only p = named_post_only q \<longleftrightarrow> p = q" by (simp add: named_post_only_def)
qed

lemma statement_by_lines:
  assumes "plain st"
  shows "\<exists>ls. statement_lines sha st = Some ls \<and> statement_bytes sha st = Some (join_lines ls) \<and>
    ls \<noteq> [] \<and> list_all one_line ls"
proof (cases st)
  case (SubmissionOf sub)
  then have v: "validate_submission sub = Inr ()" using assms by simp
  obtain n b s where p: "nonce_of sub = Some n" "canonical_nonce n = Some b" "to_hex b = n" "one_line n"
    "session_of sub = Some s" "checked_session sub = Inr s" "one_line s"
    using validated_parts [OF v] by blast
  show ?thesis
  proof (cases sub)
    case (SubOrder account symbol sd price quantity nonce session ot tf post)
    then have "\<exists>p q. to_grid price PRICE_SCALE = Some p \<and> to_grid quantity QUANTITY_SCALE = Some q"
      and "one_line symbol"
      using v valid_symbol_line by (auto simp: validate_submission_def split: sum.splits if_splits)
    then show ?thesis
      using p SubOrder SubmissionOf by (auto simp: submission_statement_def result_ok_def) (simp_all add: one_line_def)
  next
    case (SubCancel account target nonce session)
    then show ?thesis
      using p SubmissionOf by (auto simp: submission_statement_def result_ok_def) (simp_all add: one_line_def)
  qed
qed (use assms in \<open>simp_all add: head_statement_def checkpoint_statement_def tree_head_statement_def
    claim_statement_def attest_statement_def operator_statement_def mark_statement_def\<close>, simp_all add: one_line_def)

fun first_line :: "statement \<Rightarrow> string" where
  "first_line (HeadOf _ _ _) = ''exchange-feed-head-v1''"
| "first_line (CheckpointOf _ _ _ _) = ''exchange-feed-checkpoint-v1''"
| "first_line (TreeHeadOf _ _ _ _) = ''exchange-feed-sth-v1''"
| "first_line (ClaimOf _ _ _ _ _ _) = ''exchange-claim-v1''"
| "first_line (AttestOf _ _ _ _) = ''exchange-validator-attest-v2''"
| "first_line (OperatorOf kind _ _) = op_prefix kind"
| "first_line (SubmissionOf (SubOrder _ _ _ _ _ _ _ _ _ _)) = ''exchange-account-order-v3''"
| "first_line (SubmissionOf (SubCancel _ _ _ _)) = ''exchange-account-cancel-v3''"
| "first_line (MarkOf _ _ _ _ _) = ''exchange-inbox-mark-v3''"

lemma statement_lines_first: "statement_lines sha st = Some ls \<Longrightarrow> hd ls = first_line st"
  by (induction sha st rule: statement_lines.induct) (auto split: option.splits)

lemma op_prefix_iff:
  "t = op_prefix k \<longleftrightarrow> k = OpList \<and> t = ''exchange-operator-list-v1'' \<or>
     k = OpDelist \<and> t = ''exchange-operator-delist-v1'' \<or> k = OpRule \<and> t = ''exchange-operator-rule-v1''"
  by (cases k) auto

lemma first_line_other:
  "t \<noteq> ''exchange-operator-list-v1'' \<Longrightarrow> t \<noteq> ''exchange-operator-delist-v1'' \<Longrightarrow> t \<noteq> ''exchange-operator-rule-v1'' \<Longrightarrow>
   t = op_prefix k \<longleftrightarrow> False"
  "t \<noteq> ''exchange-account-order-v3'' \<Longrightarrow> t \<noteq> ''exchange-account-cancel-v3'' \<Longrightarrow>
   t = first_line (SubmissionOf sub) \<longleftrightarrow> False"
  by (cases k; simp) (cases sub; simp)

lemma lines_say_same:
  assumes "statement_lines sha a = Some ls" and "statement_lines sha b = Some ls"
  shows "same_words sha a b"
proof -
  have f: "first_line a = first_line b" using assms statement_lines_first by metis
  show ?thesis
  proof (cases a)
    case (SubmissionOf sub)
    then obtain sub' where b: "b = SubmissionOf sub'"
      using f by (cases sub; cases b; auto simp: op_prefix_iff elim: first_line.elims)
    show ?thesis
    proof (cases sub)
      case (SubOrder account symbol sd price quantity nonce session ot tf post)
      then obtain account' symbol' sd' price' quantity' nonce' session' ot' tf' post' where
        s: "sub' = SubOrder account' symbol' sd' price' quantity' nonce' session' ot' tf' post'"
        using f SubmissionOf b by (cases sub') auto
      show ?thesis
        using assms by (auto simp: SubmissionOf b SubOrder s engine_message_def grid_form_def split: option.splits)
    next
      case (SubCancel account target nonce session)
      then obtain account' target' nonce' session' where s: "sub' = SubCancel account' target' nonce' session'"
        using f SubmissionOf b by (cases sub') auto
      show ?thesis
        using assms by (auto simp: SubmissionOf b SubCancel s engine_message_def grid_form_def split: option.splits)
    qed
  next
    case (OperatorOf k s l)
    show ?thesis
    proof (cases b)
      case (SubmissionOf sub)
      then show ?thesis using f OperatorOf by (cases sub; cases k) simp_all
    next
      case (OperatorOf k' s' l')
      then show ?thesis using f assms \<open>a = OperatorOf k s l\<close> by (cases k; cases k') auto
    qed (use f OperatorOf in \<open>cases k; simp\<close>)+
  next
    case (HeadOf s i c)
    then show ?thesis using f assms by (cases b) (auto simp: first_line_other)
  next
    case (CheckpointOf s i c r)
    then show ?thesis using f assms by (cases b) (auto simp: first_line_other)
  next
    case (TreeHeadOf s i c r)
    then show ?thesis using f assms by (cases b) (auto simp: first_line_other)
  next
    case (ClaimOf s i c r x y)
    then show ?thesis using f assms by (cases b) (auto simp: first_line_other)
  next
    case (AttestOf s i c r)
    then show ?thesis using f assms by (cases b) (auto simp: first_line_other)
  next
    case (MarkOf e i f' m h)
    then show ?thesis using f assms by (cases b) (auto simp: first_line_other)
  qed
qed

lemma statement_read_back:
  assumes "plain a" and "plain b" and "statement_bytes sha a = Some bs" and "statement_bytes sha b = Some bs"
  shows "same_words sha a b"
proof -
  obtain ls where a: "statement_lines sha a = Some ls" "statement_bytes sha a = Some (join_lines ls)" "ls \<noteq> []" "list_all one_line ls"
    using statement_by_lines [OF assms(1)] by blast
  obtain ks where b: "statement_lines sha b = Some ks" "statement_bytes sha b = Some (join_lines ks)" "ks \<noteq> []" "list_all one_line ks"
    using statement_by_lines [OF assms(2)] by blast
  have "ls = ks" using join_lines_inj [OF _ a(3) b(3) a(4) b(4)] a(2) b(2) assms(3,4) by simp
  then show ?thesis using lines_say_same a(1) b(1) by blast
qed

end
