(* ===== verification/Merkle_Spec.thy ===== *)
theory Merkle_Spec
  imports Merkle
begin

section \<open>The tree of RFC 9162 and its levels\<close>

text \<open>
  Section 2.1 of the RFC over the list of leaf hashes: \<open>tree_hash\<close> is \<open>MTH\<close>, \<open>tree_path\<close> is
  \<open>PATH\<close>, \<open>tree_proof\<close> is \<open>SUBPROOF\<close>. Each is then read level by level: \<open>pair_up\<close> joins
  neighbours and promotes a last node without one, which is how a verifier climbs.
\<close>

subsection \<open>The definitions of the RFC\<close>

lemma halves_shrink:
  assumes "2 \<le> length ls"
  shows "min (length ls) (split_point (length ls)) < length ls" and "length ls - split_point (length ls) < length ls"
  using split_point_bounds [OF assms] by auto

function tree_hash :: "(bytes \<Rightarrow> hash) \<Rightarrow> hash list \<Rightarrow> hash" where
  "tree_hash sha ls =
     (if length ls = 0 then empty_root sha
      else if length ls = 1 then hd ls
      else
        let k = split_point (length ls)
        in node_hash sha (tree_hash sha (take k ls)) (tree_hash sha (drop k ls)))"
  by pat_completeness auto
termination
  by (relation "measure (\<lambda>(sha, ls). length ls)") (simp_all add: halves_shrink Suc_le_eq less_2_cases_iff not_less_eq_eq not_less [symmetric] Let_def)

function tree_path :: "(bytes \<Rightarrow> hash) \<Rightarrow> nat \<Rightarrow> hash list \<Rightarrow> hash list" where
  "tree_path sha m ls =
     (if length ls < 2 then []
      else
        let k = split_point (length ls)
        in if m < k then tree_path sha m (take k ls) @ [tree_hash sha (drop k ls)]
           else tree_path sha (m - k) (drop k ls) @ [tree_hash sha (take k ls)])"
  by pat_completeness auto
termination
  by (relation "measure (\<lambda>(sha, m, ls). length ls)") (simp_all add: halves_shrink not_less)

function tree_proof :: "(bytes \<Rightarrow> hash) \<Rightarrow> nat \<Rightarrow> hash list \<Rightarrow> bool \<Rightarrow> hash list" where
  "tree_proof sha m ls complete =
     (if m = length ls then if complete then [] else [tree_hash sha ls]
      else if length ls < 2 then []
      else
        let k = split_point (length ls)
        in if m \<le> k then tree_proof sha m (take k ls) complete @ [tree_hash sha (drop k ls)]
           else tree_proof sha (m - k) (drop k ls) False @ [tree_hash sha (take k ls)])"
  by pat_completeness auto
termination
  by (relation "measure (\<lambda>(sha, m, ls, complete). length ls)") (simp_all add: halves_shrink not_less)

declare tree_hash.simps [simp del] tree_path.simps [simp del] tree_proof.simps [simp del]

lemma tree_hash_one [simp]: "tree_hash sha [h] = h"
  by (simp add: tree_hash.simps)

lemma tree_hash_node:
  "2 \<le> length ls \<Longrightarrow> tree_hash sha ls =
     node_hash sha (tree_hash sha (take (split_point (length ls)) ls)) (tree_hash sha (drop (split_point (length ls)) ls))"
  by (subst tree_hash.simps) (auto simp: Let_def)

subsection \<open>One level\<close>

lemma half_diff:
  assumes "even (k :: nat)"
  shows "i div 2 - k div 2 = (i - k) div 2"
proof -
  obtain q where k: "k = 2 * q" using assms by (elim evenE)
  show ?thesis
  proof (cases "2 * q \<le> i")
    case True
    then obtain r where "i = 2 * q + r" by (auto simp: le_iff_add)
    then show ?thesis by (simp add: k)
  qed (simp add: k)
qed

fun pair_up :: "(bytes \<Rightarrow> hash) \<Rightarrow> hash list \<Rightarrow> hash list" where
  "pair_up sha (a # b # ls) = node_hash sha a b # pair_up sha ls"
| "pair_up sha ls = ls"

lemma length_pair_up [simp]: "length (pair_up sha ls) = (length ls + 1) div 2"
  by (induction sha ls rule: pair_up.induct) auto

lemma pair_up_append: "even (length xs) \<Longrightarrow> pair_up sha (xs @ ys) = pair_up sha xs @ pair_up sha ys"
  by (induction sha xs rule: pair_up.induct) auto

lemma pair_up_nth:
  "2 * j + 1 < length ls \<Longrightarrow> pair_up sha ls ! j = node_hash sha (ls ! (2 * j)) (ls ! (2 * j + 1))"
proof (induction sha ls arbitrary: j rule: pair_up.induct)
  case (1 sha a b ls)
  then show ?case by (cases j) auto
qed auto

lemma pair_up_last: "length ls = 2 * j + 1 \<Longrightarrow> pair_up sha ls ! j = ls ! (2 * j)"
proof (induction sha ls arbitrary: j rule: pair_up.induct)
  case (1 sha a b ls)
  then show ?case by (cases j) auto
qed auto

text \<open>The split of a longer list falls between two pairs, at the split of its pairs.\<close>

lemma split_unique:
  assumes "2 \<le> n" and "n \<le> 2 ^ 64" and "2 ^ j < n" and "n \<le> 2 * 2 ^ j"
  shows "split_point n = 2 ^ j"
proof -
  obtain i where i: "split_point n = 2 ^ i" "2 ^ i < n" "n \<le> 2 * 2 ^ i"
    using assms(1,2) by (rule split_point_spec)
  have "i < Suc j" by (rule power_less_imp_less_exp [of "2 :: nat"]) (use i(2) assms(4) in simp_all)
  moreover have "j < Suc i" by (rule power_less_imp_less_exp [of "2 :: nat"]) (use i(3) assms(3) in simp_all)
  ultimately have "i = j" by simp
  then show ?thesis using i(1) by simp
qed

lemma split_half:
  assumes "3 \<le> n" and "n \<le> 2 ^ 64"
  shows "even (split_point n)" and "split_point ((n + 1) div 2) = split_point n div 2"
proof -
  obtain j where j: "split_point n = 2 ^ j" "2 ^ j < n" "n \<le> 2 * 2 ^ j"
    using split_point_spec [of n] assms by auto
  have "j \<noteq> 0" using j(3) assms(1) by (intro notI) simp
  then obtain i where i: "j = Suc i" by (cases j) auto
  show "even (split_point n)" by (simp add: j(1) i)
  have "split_point ((n + 1) div 2) = 2 ^ i"
    by (rule split_unique) (use j i assms in auto)
  then show "split_point ((n + 1) div 2) = split_point n div 2" by (simp add: j(1) i)
qed

lemma pair_up_split:
  assumes "3 \<le> length ls" and "length ls \<le> 2 ^ 64"
  defines "k \<equiv> split_point (length ls)"
  shows "take (k div 2) (pair_up sha ls) = pair_up sha (take k ls)"
    and "drop (k div 2) (pair_up sha ls) = pair_up sha (drop k ls)"
proof -
  have k: "even k" "k < length ls" using split_half [OF assms(1,2)] split_point_bounds assms(1) by (simp_all add: k_def)
  have "pair_up sha ls = pair_up sha (take k ls) @ pair_up sha (drop k ls)"
    using pair_up_append [of "take k ls" sha "drop k ls"] k by simp
  moreover have "length (pair_up sha (take k ls)) = k div 2" using k by simp
  ultimately show "take (k div 2) (pair_up sha ls) = pair_up sha (take k ls)"
    "drop (k div 2) (pair_up sha ls) = pair_up sha (drop k ls)" by simp_all
qed

lemma split_two: "split_point 2 = 1"
  by (simp add: split_point_def leading_zeros_def bit_width.simps)

lemmas split_two_Suc = split_two [unfolded numeral_2_eq_2]

lemma two_list: "length ls = 2 \<Longrightarrow> \<exists>a b. ls = [a, b]"
  by (auto simp: numeral_2_eq_2 length_Suc_conv)

text \<open>Joining one level keeps the root.\<close>

lemma tree_hash_pair_up:
  assumes "2 \<le> length ls" and "length ls \<le> 2 ^ 64"
  shows "tree_hash sha (pair_up sha ls) = tree_hash sha ls"
  using assms
proof (induction "length ls" arbitrary: ls rule: less_induct)
  case less
  show ?case
  proof (cases "length ls = 2")
    case True
    then obtain a b where "ls = [a, b]" using two_list by blast
    then show ?thesis by (simp add: tree_hash_node split_two_Suc)
  next
    case False
    then have n: "3 \<le> length ls" using less.prems(1) by simp
    let ?k = "split_point (length ls)"
    have k: "0 < ?k" "?k < length ls" "even ?k" using split_point_bounds [OF less.prems(1)] split_half [OF n less.prems(2)] by auto
    have part: "tree_hash sha (pair_up sha xs) = tree_hash sha xs" if "xs = take ?k ls \<or> xs = drop ?k ls" for xs
    proof (cases "length xs < 2")
      case True
      then have "pair_up sha xs = xs" by (cases xs; cases "tl xs") auto
      then show ?thesis by simp
    next
      case False
      then show ?thesis using less.hyps [of xs] that k less.prems(2) by auto
    qed
    have "2 \<le> length (pair_up sha ls)" using n by simp
    moreover have "split_point (length (pair_up sha ls)) = ?k div 2" using split_half(2) [OF n less.prems(2)] by simp
    ultimately show ?thesis
      using tree_hash_node [of "pair_up sha ls" sha] pair_up_split [OF n less.prems(2)] part
      by (simp add: tree_hash_node [OF less.prems(1)])
  qed
qed

text \<open>The first element of a path is the sibling, if there is one; the rest is the path one level up.\<close>

definition sibling :: "nat \<Rightarrow> hash list \<Rightarrow> hash list" where
  "sibling i ls = (if odd i then [ls ! (i - 1)] else if i + 1 < length ls then [ls ! (i + 1)] else [])"

lemma sibling_split:
  assumes "even k" and "0 < k" and "k < length ls" and "i < length ls"
  shows "sibling i ls = (if i < k then sibling i (take k ls) else sibling (i - k) (drop k ls))"
proof (cases "i < k")
  case True
  have "even i \<Longrightarrow> Suc i < k" using True assms(1) by presburger
  then show ?thesis using True assms by (auto simp: sibling_def)
next
  case False
  have "odd i \<Longrightarrow> k \<le> i - 1" using False assms(1) by presburger
  then show ?thesis using False assms by (auto simp: sibling_def)
qed

lemma tree_path_pair_up:
  assumes "2 \<le> length ls" and "length ls \<le> 2 ^ 64" and "i < length ls"
  shows "tree_path sha i ls = sibling i ls @ tree_path sha (i div 2) (pair_up sha ls)"
  using assms
proof (induction "length ls" arbitrary: ls i rule: less_induct)
  case less
  show ?case
  proof (cases "length ls = 2")
    case True
    then obtain a b where "ls = [a, b]" using two_list by blast
    then show ?thesis using less.prems(3) by (auto simp: tree_path.simps split_two_Suc sibling_def less_Suc_eq Let_def)
  next
    case False
    then have n: "3 \<le> length ls" using less.prems(1) by simp
    let ?k = "split_point (length ls)"
    have k: "0 < ?k" "?k < length ls" "even ?k" using split_point_bounds [OF less.prems(1)] split_half [OF n less.prems(2)] by auto
    have part: "tree_path sha m xs = sibling m xs @ tree_path sha (m div 2) (pair_up sha xs)"
      and ph: "tree_hash sha (pair_up sha xs) = tree_hash sha xs"
      if "xs = take ?k ls \<or> xs = drop ?k ls" and "m < length xs" for m xs
    proof -
      consider "xs = [hd xs]" | "2 \<le> length xs" using \<open>m < length xs\<close> by (cases xs; cases "tl xs") auto
      then show "tree_path sha m xs = sibling m xs @ tree_path sha (m div 2) (pair_up sha xs)"
      proof cases
        case 1
        then obtain x where "xs = [x]" by blast
        then show ?thesis using that(2) by (simp add: tree_path.simps sibling_def)
      next
        case 2
        then show ?thesis using less.hyps [of xs m] that k less.prems(2) by auto
      qed
      show "tree_hash sha (pair_up sha xs) = tree_hash sha xs"
      proof (cases "2 \<le> length xs")
        case True
        then show ?thesis using tree_hash_pair_up [of xs sha] that(1) less.prems(2) k by auto
      next
        case False
        then show ?thesis by (cases xs; cases "tl xs") auto
      qed
    qed
    have up: "tree_path sha (i div 2) (pair_up sha ls) =
        (if i < ?k then tree_path sha (i div 2) (pair_up sha (take ?k ls)) @ [tree_hash sha (pair_up sha (drop ?k ls))]
         else tree_path sha ((i - ?k) div 2) (pair_up sha (drop ?k ls)) @ [tree_hash sha (pair_up sha (take ?k ls))])"
    proof -
      have "split_point (length (pair_up sha ls)) = ?k div 2" using split_half(2) [OF n less.prems(2)] by simp
      moreover have "i div 2 < ?k div 2 \<longleftrightarrow> i < ?k" using k(3) by presburger
      moreover have "\<not> i < ?k \<Longrightarrow> i div 2 - ?k div 2 = (i - ?k) div 2" using half_diff [OF k(3)] by simp
      moreover have "\<not> length (pair_up sha ls) < 2" using n by simp
      ultimately show ?thesis
        using pair_up_split [OF n less.prems(2), of sha] by (subst tree_path.simps) (simp add: Let_def)
    qed
    have here: "tree_path sha i ls =
        (if i < ?k then tree_path sha i (take ?k ls) @ [tree_hash sha (drop ?k ls)]
         else tree_path sha (i - ?k) (drop ?k ls) @ [tree_hash sha (take ?k ls)])"
      using less.prems(1) by (subst tree_path.simps) (simp add: Let_def)
    show ?thesis
    proof (cases "i < ?k")
      case True
      then show ?thesis
        using here up part [of "take ?k ls" i] ph [of "drop ?k ls" 0] k
          sibling_split [OF k(3,1,2) less.prems(3)] by simp
    next
      case False
      then show ?thesis
        using here up part [of "drop ?k ls" "i - ?k"] ph [of "take ?k ls" 0] k less.prems(3)
          sibling_split [OF k(3,1,2) less.prems(3)] by simp
    qed
  qed
qed

subsection \<open>Consistency proofs, level by level\<close>

lemma tree_proof_even:
  assumes "even m" and "0 < m" and "m \<le> length ls" and "length ls \<le> 2 ^ 64"
  shows "tree_proof sha m ls c = tree_proof sha (m div 2) (pair_up sha ls) c"
  using assms
proof (induction "length ls" arbitrary: ls m c rule: less_induct)
  case less
  have "m \<noteq> 1" using less.prems(1) by auto
  then have two: "2 \<le> length ls" using less.prems(2,3) by linarith
  show ?case
  proof (cases "m = length ls")
    case True
    then have "m div 2 = length (pair_up sha ls)" using less.prems(1) by simp
    then show ?thesis
      using True tree_hash_pair_up [OF two less.prems(4), of sha] by (simp add: tree_proof.simps)
  next
    case False
    then have n: "3 \<le> length ls" using less.prems(1-3) two by presburger
    let ?k = "split_point (length ls)"
    have k: "0 < ?k" "?k < length ls" "even ?k" using split_point_bounds [OF two] split_half [OF n less.prems(4)] by auto
    have ph: "tree_hash sha (pair_up sha xs) = tree_hash sha xs" if "length xs \<le> length ls" for xs
    proof (cases "2 \<le> length xs")
      case True
      then show ?thesis using tree_hash_pair_up [of xs sha] that less.prems(4) by simp
    next
      case False
      then show ?thesis by (cases xs; cases "tl xs") auto
    qed
    have here: "tree_proof sha m ls c =
        (if m \<le> ?k then tree_proof sha m (take ?k ls) c @ [tree_hash sha (drop ?k ls)]
         else tree_proof sha (m - ?k) (drop ?k ls) False @ [tree_hash sha (take ?k ls)])"
      using False two by (subst tree_proof.simps) (simp add: Let_def)
    have up: "tree_proof sha (m div 2) (pair_up sha ls) c =
        (if m \<le> ?k then tree_proof sha (m div 2) (pair_up sha (take ?k ls)) c @ [tree_hash sha (pair_up sha (drop ?k ls))]
         else tree_proof sha ((m - ?k) div 2) (pair_up sha (drop ?k ls)) False @ [tree_hash sha (pair_up sha (take ?k ls))])"
    proof -
      have "split_point (length (pair_up sha ls)) = ?k div 2" using split_half(2) [OF n less.prems(4)] by simp
      moreover have "m div 2 \<le> ?k div 2 \<longleftrightarrow> m \<le> ?k" using k(3) less.prems(1) by presburger
      moreover have "m div 2 - ?k div 2 = (m - ?k) div 2" using half_diff [OF k(3)] by simp
      moreover have "m div 2 \<noteq> length (pair_up sha ls)" "\<not> length (pair_up sha ls) < 2"
        using False n less.prems(1,3) by auto
      ultimately show ?thesis
        using pair_up_split [OF n less.prems(4), of sha] by (subst tree_proof.simps) (simp add: Let_def)
    qed
    show ?thesis
    proof (cases "m \<le> ?k")
      case True
      then show ?thesis
        using here up ph [of "drop ?k ls"] less.hyps [of "take ?k ls" m c] less.prems k by simp
    next
      case F: False
      then show ?thesis
        using here up ph [of "take ?k ls"] less.hyps [of "drop ?k ls" "m - ?k" False] less.prems k by simp
    qed
  qed
qed

lemma tree_proof_odd:
  assumes "odd m" and "m < length ls \<or> m = 1 \<and> length ls = 1" and "length ls \<le> 2 ^ 64"
  shows "tree_proof sha m ls c = (if m = 1 \<and> c then [] else [ls ! (m - 1)]) @ tree_path sha (m - 1) ls"
  using assms
proof (induction "length ls" arbitrary: ls m c rule: less_induct)
  case less
  show ?case
  proof (cases "length ls = 1")
    case True
    then obtain x where "ls = [x]" by (auto simp: length_Suc_conv)
    then show ?thesis using less.prems(1,2) by (auto simp: tree_proof.simps tree_path.simps)
  next
    case False
    then have m: "m < length ls" using less.prems(2) by simp
    then have two: "2 \<le> length ls" using less.prems(1) by (cases m) auto
    let ?k = "split_point (length ls)"
    have k: "0 < ?k" "?k < length ls" using split_point_bounds [OF two] by auto
    have kodd: "?k = 1 \<or> even ?k"
      using split_point_spec [OF two less.prems(3)] by (metis dvd_refl even_power gr0I power_0)
    have here: "tree_proof sha m ls c =
        (if m \<le> ?k then tree_proof sha m (take ?k ls) c @ [tree_hash sha (drop ?k ls)]
         else tree_proof sha (m - ?k) (drop ?k ls) False @ [tree_hash sha (take ?k ls)])"
      using m two by (subst tree_proof.simps) (simp add: Let_def)
    have path: "tree_path sha (m - 1) ls =
        (if m \<le> ?k then tree_path sha (m - 1) (take ?k ls) @ [tree_hash sha (drop ?k ls)]
         else tree_path sha (m - 1 - ?k) (drop ?k ls) @ [tree_hash sha (take ?k ls)])"
    proof -
      have "m - 1 < ?k \<longleftrightarrow> m \<le> ?k" using less.prems(1) by (cases m) auto
      then show ?thesis using two by (subst tree_path.simps) (simp add: Let_def)
    qed
    show ?thesis
    proof (cases "m \<le> ?k")
      case True
      have "m < ?k \<or> m = 1 \<and> ?k = 1" using True kodd less.prems(1) by (cases "m = ?k") auto
      then show ?thesis
        using here path True less.hyps [of "take ?k ls" m c] less.prems k by (auto simp: odd_pos)
    next
      case F: False
      show ?thesis
      proof (cases "even ?k")
        case True
        have "m - ?k < length (drop ?k ls)" "length (drop ?k ls) < length ls" "odd (m - ?k)"
          using m F k True less.prems(1) by auto
        then have "tree_proof sha (m - ?k) (drop ?k ls) False =
            [drop ?k ls ! (m - ?k - 1)] @ tree_path sha (m - ?k - 1) (drop ?k ls)"
          using less.hyps [of "drop ?k ls" "m - ?k" False] less.prems(3) by simp
        moreover have "drop ?k ls ! (m - ?k - 1) = ls ! (m - 1)" "m - 1 - ?k = m - ?k - 1" "m \<noteq> 1"
          using F k by auto
        ultimately show ?thesis using here path F by simp
      next
        case G: False
        then have "?k = 1" using kodd by simp
        then have "length ls = 2" using split_point_spec [OF two less.prems(3)] two by (metis le_antisym mult.right_neutral)
        then show ?thesis using m F less.prems(1) \<open>?k = 1\<close> by (cases "m = 1") auto
      qed
    qed
  qed
qed

end
