(* ===== verification/Merkle_Store.thy ===== *)
theory Merkle_Store
  imports Merkle_Spec
begin

section \<open>Where the nodes are kept\<close>

text \<open>
  \<open>node_source\<close> is the contract of the trait \<open>NodeSource\<close>: a perfect subtree inside the log is
  answered with its hash. Under it the walks compute the RFC's root and proofs, no debug
  assertion fires, and an append makes exactly the perfect subtrees the new leaf fills. The
  tree in memory keeps the contract: \<open>node_source\<close> is interpreted on \<open>tree_node\<close>.
\<close>

definition perfect :: "(bytes \<Rightarrow> hash) \<Rightarrow> hash list \<Rightarrow> nat \<Rightarrow> nat \<Rightarrow> hash" where
  "perfect sha ls level index = tree_hash sha (take (2 ^ level) (drop (index * 2 ^ level) ls))"

definition slice :: "nat \<Rightarrow> nat \<Rightarrow> hash list \<Rightarrow> hash list" where
  "slice lo hi ls = take (hi - lo) (drop lo ls)"

text \<open>The walks ask for ranges that start on a multiple of a power of two no shorter than them.\<close>

definition aligned :: "nat \<Rightarrow> nat \<Rightarrow> bool" where
  "aligned lo n \<longleftrightarrow> (\<exists>j. n \<le> 2 ^ j \<and> 2 ^ j dvd lo)"

lemma aligned_0 [simp]: "aligned 0 n"
  by (auto simp: aligned_def intro: exI [of _ n])

lemma aligned_split:
  assumes "aligned lo n" and "2 \<le> n" and "n \<le> 2 ^ 64"
  shows "split_point n dvd lo" and "aligned lo (split_point n)" and "aligned (lo + split_point n) (n - split_point n)"
proof -
  obtain j where j: "n \<le> 2 ^ j" "2 ^ j dvd lo" using assms(1) by (auto simp: aligned_def)
  obtain i where i: "split_point n = 2 ^ i" "2 ^ i < n" "n \<le> 2 * 2 ^ i"
    using assms(2,3) by (rule split_point_spec)
  have "(2 :: nat) ^ i < 2 ^ j" using i(2) j(1) by (rule less_le_trans)
  then have "i < j" by (rule power_less_imp_less_exp [rotated]) simp
  then have "i \<le> j" by simp
  then have "(2 :: nat) ^ i dvd 2 ^ j" by (rule le_imp_power_dvd)
  then have d: "2 ^ i dvd lo" using j(2) by (rule dvd_trans)
  then show "split_point n dvd lo" by (simp add: i(1))
  show "aligned lo (split_point n)" using d by (auto simp: aligned_def i(1))
  show "aligned (lo + split_point n) (n - split_point n)"
    using d i(3) by (auto simp: aligned_def i(1) intro!: exI [of _ i])
qed

lemma slice_split:
  assumes "hi \<le> length ls" and "2 \<le> hi - lo"
  shows "length (slice lo hi ls) = hi - lo"
    and "take (split_point (hi - lo)) (slice lo hi ls) = slice lo (lo + split_point (hi - lo)) ls"
    and "drop (split_point (hi - lo)) (slice lo hi ls) = slice (lo + split_point (hi - lo)) hi ls"
  using assms split_point_bounds [OF assms(2)]
  by (auto simp: slice_def min_absorb1 drop_take add.commute)

lemma split_range:
  assumes "2 \<le> hi - lo" and "hi \<le> n"
  defines "k \<equiv> split_point (hi - lo)"
  shows "lo < lo + k" and "lo + k - lo = k" and "k < hi - lo" and "lo + k \<le> n" and "lo + k < hi"
    and "hi - (lo + k) = hi - lo - k" and "hi - lo - k < hi - lo"
  using split_point_bounds [OF assms(1)] assms(2) by (auto simp: k_def)

text \<open>What an append makes: the perfect subtrees that end with the new leaf.\<close>

definition made_above :: "(bytes \<Rightarrow> hash) \<Rightarrow> hash list \<Rightarrow> hash \<Rightarrow> nat \<Rightarrow> nat \<Rightarrow> made_node list" where
  "made_above sha ls leaf level count =
     map (\<lambda>(l, i). (l, i, perfect sha (ls @ [leaf]) l i)) (appended_above level count)"

lemma perfect_old:
  assumes "(i + 1) * 2 ^ l \<le> length ls"
  shows "perfect sha (ls @ [leaf]) l i = perfect sha ls l i"
  using assms by (simp add: perfect_def)

lemma perfect_join:
  assumes "(i + 1) * 2 ^ Suc l \<le> length xs" and "length xs \<le> 2 ^ 64"
  shows "perfect sha xs (Suc l) i = node_hash sha (perfect sha xs l (2 * i)) (perfect sha xs l (2 * i + 1))"
proof -
  let ?ys = "take (2 ^ Suc l) (drop (i * 2 ^ Suc l) xs)"
  have len: "length ?ys = 2 ^ Suc l" using assms(1) by auto
  have k: "split_point (2 ^ Suc l) = 2 ^ l"
  proof (rule split_unique)
    have "(2 :: nat) ^ Suc l \<le> (i + 1) * 2 ^ Suc l" by simp
    then show "(2 :: nat) ^ Suc l \<le> 2 ^ 64" using assms by linarith
  qed (simp_all add: Suc_leI)
  have "take (2 ^ l) ?ys = take (2 ^ l) (drop (2 * i * 2 ^ l) xs)"
    "drop (2 ^ l) ?ys = take (2 ^ l) (drop ((2 * i + 1) * 2 ^ l) xs)"
    by (simp_all add: drop_take min_def algebra_simps)
  moreover have "2 \<le> length ?ys" unfolding len by simp
  ultimately show ?thesis
    using tree_hash_node [of ?ys sha] unfolding len k perfect_def by presburger
qed

text \<open>Only the nodes on the right edge, which is what a \<open>RootFold\<close> keeps. The hash of the
  whole log and an append ask for nothing else.\<close>

locale edge_source =
  fixes sha :: "bytes \<Rightarrow> hash" and node :: "'e node_source" and ls :: "hash list"
  assumes fits: "length ls \<le> 2 ^ 64"
    and edge_ok: "odd (length ls div 2 ^ level) \<Longrightarrow>
      node level (length ls div 2 ^ level - 1) = Inr (perfect sha ls level (length ls div 2 ^ level - 1))"
begin

lemma perfect_edge:
  assumes "hi = lo + 2 ^ i" and "2 * 2 ^ i dvd lo" and "hi \<le> length ls" and "length ls < hi + 2 ^ i"
  shows "subtree_hash sha node lo hi = Inr (tree_hash sha (slice lo hi ls))"
proof -
  obtain q where q: "lo = 2 * 2 ^ i * q" using assms(2) by (elim dvdE)
  have n: "length ls div 2 ^ i = 2 * q + 1"
  proof (rule div_nat_eqI)
    show "2 ^ i * (2 * q + 1) \<le> length ls" "length ls < 2 ^ i * Suc (2 * q + 1)"
      using assms(1,3,4) by (simp_all add: q algebra_simps)
  qed
  have size: "hi - lo = 2 ^ i" by (simp add: assms(1))
  have "drop_bit i lo = 2 * q" by (simp add: drop_bit_eq_div q mult.assoc mult.left_commute)
  then have "node i (drop_bit i lo) = Inr (perfect sha ls i (2 * q))" using edge_ok [of i] n by simp
  moreover have "2 * q * 2 ^ i = lo" by (simp add: q)
  then have "perfect sha ls i (2 * q) = tree_hash sha (slice lo hi ls)"
    by (simp add: perfect_def slice_def size)
  moreover have "is_power_of_two (2 ^ i)" by (auto simp: is_power_of_two_iff)
  ultimately show ?thesis
    using assms(1) by (subst subtree_hash.simps) (simp add: Let_def size trailing_zeros_power q)
qed

lemma edge_hash:
  assumes "lo < length ls" and "2 ^ j dvd lo" and "length ls - lo < 2 ^ j"
  shows "subtree_hash sha node lo (length ls) = Inr (tree_hash sha (slice lo (length ls) ls))"
  using assms
proof (induction "length ls - lo" arbitrary: lo j rule: less_induct)
  case less
  let ?n = "length ls - lo"
  show ?case
  proof (cases "is_power_of_two ?n \<and> ?n dvd lo")
    case True
    then obtain i where i: "?n = 2 ^ i" by (auto simp: is_power_of_two_iff)
    then have "i < j" using less.prems(3) by (metis power_less_imp_less_exp one_less_numeral_iff semiring_norm(76))
    then have "(2 :: nat) ^ Suc i dvd 2 ^ j" by (intro le_imp_power_dvd) simp
    then have "2 * 2 ^ i dvd lo" using less.prems(2) by (metis dvd_trans power_Suc)
    then show ?thesis using i less.prems(1) by (intro perfect_edge [of _ _ i]) simp_all
  next
    case False
    then have two: "2 \<le> ?n" using not_perfect_two [OF less.prems(1)] by blast
    have fit: "?n \<le> 2 ^ 64" using fits by linarith
    obtain i where i: "split_point ?n = 2 ^ i" "2 ^ i < ?n" "?n \<le> 2 * 2 ^ i"
      by (rule split_point_spec [OF two fit])
    have "(2 :: nat) ^ i < 2 ^ j" using i(2) less.prems(3) by (rule less_trans)
    then have "i < j" by (rule power_less_imp_less_exp [rotated]) simp
    then have "(2 :: nat) ^ Suc i dvd 2 ^ j" by (intro le_imp_power_dvd) simp
    then have d: "2 * 2 ^ i dvd lo" using less.prems(2) by (metis dvd_trans power_Suc)
    then have d1: "2 ^ i dvd lo" by (rule dvd_mult_right)
    have strict: "?n < 2 * 2 ^ i"
    proof (rule ccontr)
      assume "\<not> ?n < 2 * 2 ^ i"
      then have "?n = 2 ^ Suc i" using i(3) by simp
      moreover have "is_power_of_two (2 ^ Suc i)" unfolding is_power_of_two_iff by blast
      ultimately show False using False d by simp
    qed
    have "subtree_hash sha node lo (lo + 2 ^ i) = Inr (tree_hash sha (slice lo (lo + 2 ^ i) ls))"
      by (rule perfect_edge [OF refl d]) (use i(2) strict in linarith)+
    moreover have "subtree_hash sha node (lo + 2 ^ i) (length ls) = Inr (tree_hash sha (slice (lo + 2 ^ i) (length ls) ls))"
      by (rule less.hyps [of _ i]) (use i(2) strict d1 in \<open>simp_all add: diff_less_mono2\<close>)
    moreover have "tree_hash sha (slice lo (length ls) ls) =
        node_hash sha (tree_hash sha (slice lo (lo + 2 ^ i) ls)) (tree_hash sha (slice (lo + 2 ^ i) (length ls) ls))"
      using tree_hash_node [of "slice lo (length ls) ls" sha] two slice_split [OF order_refl two] i(1)
      by simp
    moreover have "lo mod 2 ^ i = 0" using d1 by simp
    ultimately show ?thesis
      using False less.prems(1) i(1) by (subst subtree_hash.simps) (auto simp: Let_def)
  qed
qed

lemma edge_mth: "mth sha node (length ls) (length ls) = Inr (tree_hash sha ls)"
proof (cases "ls = []")
  case True
  then show ?thesis by (simp add: mth_def checked_size_def tree_hash.simps [of sha "[]"])
next
  case False
  then have "subtree_hash sha node 0 (length ls) = Inr (tree_hash sha (slice 0 (length ls) ls))"
    by (intro edge_hash [of _ "length ls"]) simp_all
  then show ?thesis using False by (simp add: mth_def checked_size_def slice_def)
qed

lemma parents_ok:
  assumes "count * 2 ^ level = length ls + 1" and "length ls < 2 ^ 64"
    and "made = pre @ [(level, count - 1, perfect sha (ls @ [leaf]) level (count - 1))]"
    and "\<forall>m \<in> set pre. fst m < level"
  shows "append_parents sha node (appended_above level count) count made = Inr (made @ made_above sha ls leaf level count)"
  using assms
proof (induction level count arbitrary: pre made rule: appended_above.induct)
  case (1 level count)
  show ?case
  proof (cases "even count \<and> 0 < count")
    case True
    then obtain c where c: "count = 2 * Suc c" by (metis evenE gr0_conv_Suc mult_0_right mult_is_0 not_gr0)
    let ?p = "perfect sha (ls @ [leaf])"
    have n: "(2 * c + 1) * 2 ^ level \<le> length ls"
    proof -
      have "(2 * c + 1) * 2 ^ level < count * 2 ^ level" by (simp add: c)
      then show ?thesis using "1.prems"(1) by linarith
    qed
    have left: "made_or_stored node made level (count - 2) = Inr (?p level (2 * c))"
    proof -
      have "find (\<lambda>(l, i, _). l = level \<and> i = count - 2) (rev made) = None"
        using "1.prems"(3,4) c by (auto simp: find_None_iff)
      moreover have "node level (2 * c) = Inr (perfect sha ls level (2 * c))"
      proof -
        have "length ls div 2 ^ level = 2 * c + 1"
        proof (rule div_nat_eqI)
          show "2 ^ level * (2 * c + 1) \<le> length ls" using n by (simp add: mult.commute)
          have "2 * Suc c * 2 ^ level = length ls + 1" using "1.prems"(1) by (simp only: c)
          then show "length ls < 2 ^ level * Suc (2 * c + 1)" by (simp add: algebra_simps)
        qed
        then show ?thesis using edge_ok [of level] by simp
      qed
      ultimately show ?thesis using perfect_old [of "2 * c" level ls sha leaf] n by (simp add: made_or_stored_def c)
    qed
    have right: "made_or_stored node made level (count - 1) = Inr (?p level (2 * c + 1))"
      using "1.prems"(3) by (simp add: made_or_stored_def c)
    have join: "?p (Suc level) c = node_hash sha (?p level (2 * c)) (?p level (2 * c + 1))"
      by (rule perfect_join) (use "1.prems"(1,2) in \<open>simp_all add: c algebra_simps\<close>)
    let ?made = "made @ [(Suc level, c, ?p (Suc level) c)]"
    have "append_parents sha node (appended_above (level + 1) (count div 2)) (count div 2) ?made =
        Inr (?made @ made_above sha ls leaf (level + 1) (count div 2))"
    proof (rule "1.IH" [OF True])
      show "count div 2 * 2 ^ (level + 1) = length ls + 1" using "1.prems"(1) by (simp add: c)
      show "?made = made @ [(level + 1, count div 2 - 1, ?p (level + 1) (count div 2 - 1))]" by (simp add: c)
      show "\<forall>m \<in> set made. fst m < level + 1" using "1.prems"(3,4) by auto
    qed (rule "1.prems"(2))
    then have ih: "append_parents sha node (appended_above (level + 1) (count div 2)) (count div 2) ?made =
        Inr (?made @ made_above sha ls leaf (level + 1) (count div 2))" .
    have ap: "appended_above level count = (level + 1, count div 2 - 1) # appended_above (level + 1) (count div 2)"
      using True by (subst appended_above.simps) simp
    have ma: "made_above sha ls leaf level count = (Suc level, c, ?p (Suc level) c) # made_above sha ls leaf (level + 1) (count div 2)"
      unfolding made_above_def ap by (simp add: c)
    have "count div 2 - 1 = c" by (simp add: c)
    then have "append_parents sha node (appended_above level count) count made =
        append_parents sha node (appended_above (level + 1) (count div 2)) (count div 2) ?made"
      unfolding ap using left right join by simp
    then show ?thesis unfolding ma ih by simp
  next
    case False
    then have "appended_above level count = []" by (subst appended_above.simps) simp
    then show ?thesis by (simp add: made_above_def)
  qed
qed

lemma append_ok:
  assumes "length ls < 2 ^ 64"
  shows "append_nodes sha node (length ls) leaf = Inr ((0, length ls, leaf) # made_above sha ls leaf 0 (length ls + 1))"
  using parents_ok [of "length ls + 1" 0 "[(0, length ls, leaf)]" "[]" leaf] assms
  by (simp add: append_nodes_def appended_at_def perfect_def)

end

text \<open>Every perfect subtree inside the log: what a tree that keeps every node answers.\<close>

locale node_source =
  fixes sha :: "bytes \<Rightarrow> hash" and node :: "'e node_source" and ls :: "hash list"
  assumes fits: "length ls \<le> 2 ^ 64"
    and node_ok: "(index + 1) * 2 ^ level \<le> length ls \<Longrightarrow> node level index = Inr (perfect sha ls level index)"
begin

lemma subtree_ok:
  assumes "lo < hi" and "hi \<le> length ls" and "aligned lo (hi - lo)"
  shows "subtree_hash sha node lo hi = Inr (tree_hash sha (slice lo hi ls))"
  using assms
proof (induction "hi - lo" arbitrary: lo hi rule: less_induct)
  case less
  let ?n = "hi - lo"
  show ?case
  proof (cases "is_power_of_two ?n \<and> ?n dvd lo")
    case True
    let ?l = "trailing_zeros ?n"
    have n: "?n = 2 ^ ?l" using True by (simp add: is_power_of_two_def)
    have lo: "drop_bit ?l lo * 2 ^ ?l = lo"
      using True n by (metis drop_bit_eq_div dvd_div_mult_self)
    have "(drop_bit ?l lo + 1) * 2 ^ ?l = hi"
      using lo n less.prems(1) by (simp add: distrib_right)
    then have "node ?l (drop_bit ?l lo) = Inr (perfect sha ls ?l (drop_bit ?l lo))"
      using less.prems(2) by (intro node_ok) simp
    moreover have "perfect sha ls ?l (drop_bit ?l lo) = tree_hash sha (slice lo hi ls)"
      using lo n by (simp add: perfect_def slice_def)
    ultimately show ?thesis
      using True less.prems(1) by (subst subtree_hash.simps) (simp add: Let_def)
  next
    case False
    then have two: "2 \<le> ?n" using not_perfect_two [OF less.prems(1)] by blast
    have fit: "?n \<le> 2 ^ 64" using fits less.prems(2) by linarith
    let ?k = "split_point ?n"
    note b = split_point_bounds [OF two] and al = aligned_split [OF less.prems(3) two fit]
      and sl = slice_split [OF less.prems(2) two]
      and rng = split_range [OF two less.prems(2)]
    have "subtree_hash sha node lo (lo + ?k) = Inr (tree_hash sha (slice lo (lo + ?k) ls))"
      by (rule less.hyps) (simp_all only: rng al less.prems)
    moreover have "subtree_hash sha node (lo + ?k) hi = Inr (tree_hash sha (slice (lo + ?k) hi ls))"
      by (rule less.hyps) (simp_all only: rng al less.prems)
    moreover have "tree_hash sha (slice lo hi ls) =
        node_hash sha (tree_hash sha (slice lo (lo + ?k) ls)) (tree_hash sha (slice (lo + ?k) hi ls))"
      using tree_hash_node [of "slice lo hi ls" sha] two sl by simp
    moreover have "lo mod ?k = 0" using al(1) by simp
    ultimately show ?thesis
      using False less.prems(1) by (subst subtree_hash.simps) (auto simp: Let_def)
  qed
qed

lemma path_ok:
  assumes "m < hi - lo" and "hi \<le> length ls" and "aligned lo (hi - lo)"
  shows "walk_path sha node m lo hi = Inr (tree_path sha m (slice lo hi ls))"
  using assms
proof (induction "hi - lo" arbitrary: m lo hi rule: less_induct)
  case less
  let ?n = "hi - lo"
  show ?case
  proof (cases "?n = 1")
    case True
    then have "length (slice lo hi ls) = 1" using less.prems(2) by (simp add: slice_def)
    then show ?thesis using True by (subst walk_path.simps, subst tree_path.simps) simp
  next
    case False
    then have two: "2 \<le> ?n" using less.prems(1) by simp
    have fit: "?n \<le> 2 ^ 64" using fits less.prems(2) by linarith
    let ?k = "split_point ?n"
    note b = split_point_bounds [OF two] and al = aligned_split [OF less.prems(3) two fit]
      and sl = slice_split [OF less.prems(2) two]
      and rng = split_range [OF two less.prems(2)]
    have "subtree_hash sha node lo (lo + ?k) = Inr (tree_hash sha (slice lo (lo + ?k) ls))"
      by (rule subtree_ok) (simp_all only: rng al less.prems)
    moreover have "subtree_hash sha node (lo + ?k) hi = Inr (tree_hash sha (slice (lo + ?k) hi ls))"
      by (rule subtree_ok) (simp_all only: rng al less.prems)
    moreover have "m < ?k \<Longrightarrow> walk_path sha node m lo (lo + ?k) = Inr (tree_path sha m (slice lo (lo + ?k) ls))"
      by (rule less.hyps) (simp_all only: rng al less.prems)
    moreover have "\<not> m < ?k \<Longrightarrow> walk_path sha node (m - ?k) (lo + ?k) hi = Inr (tree_path sha (m - ?k) (slice (lo + ?k) hi ls))"
    proof (rule less.hyps)
      assume "\<not> m < ?k"
      then show "m - ?k < hi - (lo + ?k)" using less.prems(1) by linarith
    qed (simp_all only: rng al less.prems)
    ultimately show ?thesis
      using two False sl
      by (subst walk_path.simps, subst tree_path.simps) (simp add: Let_def)
  qed
qed

lemma proof_ok:
  assumes "0 < m" and "m \<le> hi - lo" and "hi \<le> length ls" and "aligned lo (hi - lo)"
  shows "walk_proof sha node m lo hi c = Inr (tree_proof sha m (slice lo hi ls) c)"
  using assms
proof (induction "hi - lo" arbitrary: m lo hi c rule: less_induct)
  case less
  let ?n = "hi - lo"
  have len: "length (slice lo hi ls) = ?n" using less.prems(3) by (simp add: slice_def)
  show ?case
  proof (cases "m = ?n")
    case True
    then have "subtree_hash sha node lo hi = Inr (tree_hash sha (slice lo hi ls))"
      using less.prems by (intro subtree_ok) auto
    then show ?thesis
      using True len by (subst walk_proof.simps, subst tree_proof.simps) (simp add: Let_def)
  next
    case False
    then have two: "2 \<le> ?n" using less.prems(1,2) by simp
    have fit: "?n \<le> 2 ^ 64" using fits less.prems(3) by linarith
    let ?k = "split_point ?n"
    note b = split_point_bounds [OF two] and al = aligned_split [OF less.prems(4) two fit]
      and sl = slice_split [OF less.prems(3) two]
      and rng = split_range [OF two less.prems(3)]
    have "subtree_hash sha node lo (lo + ?k) = Inr (tree_hash sha (slice lo (lo + ?k) ls))"
      by (rule subtree_ok) (simp_all only: rng al less.prems)
    moreover have "subtree_hash sha node (lo + ?k) hi = Inr (tree_hash sha (slice (lo + ?k) hi ls))"
      by (rule subtree_ok) (simp_all only: rng al less.prems)
    moreover have "m \<le> ?k \<Longrightarrow> walk_proof sha node m lo (lo + ?k) c = Inr (tree_proof sha m (slice lo (lo + ?k) ls) c)"
      by (rule less.hyps) (simp_all only: rng al less.prems)
    moreover have "\<not> m \<le> ?k \<Longrightarrow> walk_proof sha node (m - ?k) (lo + ?k) hi False =
        Inr (tree_proof sha (m - ?k) (slice (lo + ?k) hi ls) False)"
    proof (rule less.hyps)
      assume "\<not> m \<le> ?k"
      then show "0 < m - ?k" "m - ?k \<le> hi - (lo + ?k)" using less.prems(2) by linarith+
    qed (simp_all only: rng al less.prems)
    ultimately show ?thesis
      using two False sl len
      by (subst walk_proof.simps, subst tree_proof.simps) (simp add: Let_def)
  qed
qed

text \<open>The public walks, with the size the store reports.\<close>

lemma slice_0: "slice 0 n ls = take n ls"
  by (simp add: slice_def)

lemma mth_ok:
  assumes "n \<le> length ls"
  shows "mth sha node (length ls) n = Inr (tree_hash sha (take n ls))"
  using assms subtree_ok [of 0 n]
  by (cases "n = 0") (simp_all add: mth_def checked_size_def slice_0 tree_hash.simps [of sha "[]"])

lemma path_of_ok:
  assumes "i < n" and "n \<le> length ls"
  shows "path_of sha node (length ls) i n = Inr (tree_path sha i (take n ls))"
  using assms path_ok [of i n 0] by (simp add: path_of_def checked_size_def slice_0)

lemma proof_of_ok:
  assumes "0 < m" and "m < n" and "n \<le> length ls"
  shows "proof_of sha node (length ls) m n = Inr (tree_proof sha m (take n ls) True)"
  using assms proof_ok [of m n 0 True] by (simp add: proof_of_def checked_size_def slice_0)

end

lemma edge_inside:
  assumes "odd (n div 2 ^ level)"
  shows "(n div 2 ^ level - 1 + 1) * 2 ^ level \<le> (n :: nat)"
  using assms div_times_less_eq_dividend [of n "2 ^ level"] by (simp add: odd_pos)

sublocale node_source \<subseteq> edge: edge_source
  by unfold_locales (use fits node_ok edge_inside in blast)+

subsection \<open>The tree in memory\<close>

definition level_at :: "merkle_tree \<Rightarrow> nat \<Rightarrow> hash list" where
  "level_at levels d = (if d < length levels then levels ! d else [])"

definition tree_ok :: "(bytes \<Rightarrow> hash) \<Rightarrow> hash list \<Rightarrow> merkle_tree \<Rightarrow> bool" where
  "tree_ok sha ls levels \<longleftrightarrow> length ls \<le> 2 ^ 64 \<and>
     (\<forall>d. level_at levels d = map (perfect sha ls d) [0 ..< length ls div 2 ^ d])"

lemma tree_ok_Nil: "tree_ok sha [] []"
  by (simp add: tree_ok_def level_at_def)

lemma tree_ok_len: "tree_ok sha ls levels \<Longrightarrow> tree_len levels = length ls"
proof -
  assume "tree_ok sha ls levels"
  then have "level_at levels 0 = map (perfect sha ls 0) [0 ..< length ls]" by (simp add: tree_ok_def)
  then show "tree_len levels = length ls" by (cases levels) (auto simp: level_at_def tree_len_def dest: arg_cong [of _ _ length])
qed

lemma tree_node_ok:
  assumes "tree_ok sha ls levels" and "(index + 1) * 2 ^ level \<le> length ls"
  shows "tree_node levels level index = Inr (perfect sha ls level index)"
proof -
  have "index < length ls div 2 ^ level" using assms(2) by (simp add: less_eq_div_iff_mult_less_eq Suc_le_eq [symmetric])
  moreover have l: "level_at levels level = map (perfect sha ls level) [0 ..< length ls div 2 ^ level]"
    using assms(1) by (simp add: tree_ok_def)
  ultimately have "index < length (level_at levels level)" "level_at levels level ! index = perfect sha ls level index"
    by simp_all
  then show ?thesis by (auto simp: tree_node_def level_at_def split: if_splits)
qed

lemma tree_source: "tree_ok sha ls levels \<Longrightarrow> node_source sha (tree_node levels) ls"
  by unfold_locales (simp_all add: tree_node_ok tree_ok_def)

lemma tree_edge:
  assumes "tree_ok sha ls levels"
  shows "edge_source sha (tree_node levels) ls"
proof unfold_locales
  show "length ls \<le> 2 ^ 64" using assms by (simp add: tree_ok_def)
qed (rule tree_node_ok [OF assms edge_inside])

text \<open>Storing the nodes of an append, level by level.\<close>

lemma store_node_ok:
  assumes "level \<le> length levels" and "length (level_at levels level) = index"
  obtains levels' where "store_node levels (level, index, h) = Inr levels'"
    and "level < length levels'" and "level_at levels' level = level_at levels level @ [h]"
    and "\<forall>d. d \<noteq> level \<longrightarrow> level_at levels' d = level_at levels d"
proof -
  let ?l = "if length levels = level then levels @ [[]] else levels"
  have l: "level < length ?l" "?l ! level = level_at levels level" using assms(1) by (auto simp: level_at_def)
  let ?r = "?l[level := ?l ! level @ [h]]"
  have "store_node levels (level, index, h) = Inr ?r" using l assms(2) by (simp add: store_node_def Let_def)
  moreover have "level < length ?r" using l by simp
  moreover have "level_at ?r level = level_at levels level @ [h]" using l by (simp add: level_at_def)
  moreover have "\<forall>d. d \<noteq> level \<longrightarrow> level_at ?r d = level_at levels d" by (auto simp: level_at_def nth_append)
  ultimately show thesis using that by blast
qed

lemma last_div:
  assumes "count * 2 ^ level = Suc n" and "level \<le> d"
  shows "Suc n div 2 ^ d = count div 2 ^ (d - level)" and "n div 2 ^ d = (count - 1) div 2 ^ (d - level)"
proof -
  have d: "(2 :: nat) ^ d = 2 ^ level * 2 ^ (d - level)" using assms(2) by (simp flip: power_add)
  have c: "count = Suc (count - 1)" using assms(1) by (cases count) simp_all
  show "Suc n div 2 ^ d = count div 2 ^ (d - level)"
    unfolding d div_mult2_eq assms(1) [symmetric] by simp
  have "n div 2 ^ level = count - 1"
  proof (rule div_nat_eqI)
    have "Suc n = 2 ^ level + 2 ^ level * (count - 1)" unfolding assms(1) [symmetric] by (subst c) simp
    moreover have "0 < (2 :: nat) ^ level" by simp
    ultimately show "2 ^ level * (count - 1) \<le> n" "n < 2 ^ level * Suc (count - 1)"
      unfolding mult_Suc_right by linarith+
  qed
  then show "n div 2 ^ d = (count - 1) div 2 ^ (d - level)" unfolding d div_mult2_eq by simp
qed

lemma odd_div: "odd (c :: nat) \<Longrightarrow> 0 < j \<Longrightarrow> (c - 1) div 2 ^ j = c div 2 ^ j"
  by (cases j) (auto elim!: oddE simp: div_mult2_eq)

definition filling :: "(bytes \<Rightarrow> hash) \<Rightarrow> hash list \<Rightarrow> nat \<Rightarrow> merkle_tree \<Rightarrow> bool" where
  "filling sha xs level levels \<longleftrightarrow> level \<le> length levels \<and>
     (\<forall>d < level. level_at levels d = map (perfect sha xs d) [0 ..< length xs div 2 ^ d]) \<and>
     (\<forall>d \<ge> level. level_at levels d = map (perfect sha xs d) [0 ..< (length xs - 1) div 2 ^ d])"

lemma store_filling:
  assumes "count * 2 ^ level = length xs" and "0 < length xs" and "length xs \<le> 2 ^ 64" and "filling sha xs level levels"
  shows "\<exists>levels'. store_nodes levels
      (map (\<lambda>(l, i). (l, i, perfect sha xs l i)) ((level, count - 1) # appended_above level count)) = (Inr levels' :: 'e store_fault + _) \<and>
    tree_ok sha xs levels'"
  using assms
proof (induction level count arbitrary: levels rule: appended_above.induct)
  case (1 level count)
  have c: "0 < count" using "1.prems"(1,2) by (cases count) simp_all
  have n: "count * 2 ^ level = Suc (length xs - 1)" using "1.prems"(1,2) by simp
  note ld = last_div [OF n]
  have here: "level_at levels level = map (perfect sha xs level) [0 ..< count - 1]"
    using "1.prems"(4) ld(2) [of level] by (simp add: filling_def)
  have free: "level \<le> length levels" "length (level_at levels level) = count - 1"
    using "1.prems"(4) here by (simp_all add: filling_def)
  obtain levels1 where s: "store_node levels (level, count - 1, perfect sha xs level (count - 1)) = (Inr levels1 :: 'e store_fault + _)"
    and len: "level < length levels1"
    and at1: "level_at levels1 level = level_at levels level @ [perfect sha xs level (count - 1)]"
    and rest: "\<forall>d. d \<noteq> level \<longrightarrow> level_at levels1 d = level_at levels d"
    by (rule store_node_ok [OF free, of "perfect sha xs level (count - 1)"])
  have "[0 ..< count] = [0 ..< count - 1] @ [count - 1]" using c upt_Suc_append [of 0 "count - 1"] by simp
  then have "level_at levels1 level = map (perfect sha xs level) [0 ..< count]" using at1 here by simp
  then have at1: "level_at levels1 level = map (perfect sha xs level) [0 ..< length xs div 2 ^ level]"
    using "1.prems"(1) by (metis nonzero_mult_div_cancel_right power_not_zero zero_neq_numeral)
  show ?case
  proof (cases "even count \<and> 0 < count")
    case True
    have "filling sha xs (level + 1) levels1"
      using "1.prems"(4) at1 rest len by (auto simp: filling_def less_Suc_eq)
    moreover have "count div 2 * 2 ^ (level + 1) = length xs"
      using True "1.prems"(1) by (auto elim!: evenE)
    ultimately have "\<exists>levels'. store_nodes levels1
        (map (\<lambda>(l, i). (l, i, perfect sha xs l i))
          ((level + 1, count div 2 - 1) # appended_above (level + 1) (count div 2))) = (Inr levels' :: 'e store_fault + _) \<and>
        tree_ok sha xs levels'"
      using "1.IH" [OF True _ "1.prems"(2,3)] by blast
    moreover have "appended_above level count = (level + 1, count div 2 - 1) # appended_above (level + 1) (count div 2)"
      using True by (subst appended_above.simps) simp
    ultimately show ?thesis using s by auto
  next
    case False
    then have "appended_above level count = []" by (subst appended_above.simps) simp
    moreover have "level_at levels1 d = map (perfect sha xs d) [0 ..< length xs div 2 ^ d]" for d
    proof -
      have "level < d \<Longrightarrow> (length xs - 1) div 2 ^ d = length xs div 2 ^ d"
        using ld [of d] odd_div [of count "d - level"] False c "1.prems"(2) by simp
      then show ?thesis
        using "1.prems"(4) at1 rest by (cases d level rule: linorder_cases) (auto simp: filling_def)
    qed
    ultimately show ?thesis using s "1.prems"(3) by (simp add: tree_ok_def)
  qed
qed

lemma push_ok:
  assumes "tree_ok sha ls levels" and "length ls < 2 ^ 64"
  shows "\<exists>levels'. push_leaf_hash sha levels leaf = (Inr (length ls, levels') :: 'e store_fault + _) \<and> tree_ok sha (ls @ [leaf]) levels'"
proof -
  let ?node = "tree_node levels :: 'e node_source" and ?xs = "ls @ [leaf]"
  have edge: "edge_source sha ?node ls" by (rule tree_edge [OF assms(1)])
  have made: "append_nodes sha ?node (length ls) leaf =
      Inr (map (\<lambda>(l, i). (l, i, perfect sha ?xs l i)) ((0, length ls) # appended_above 0 (length ls + 1)))"
    using edge_source.append_ok [OF edge assms(2)] by (simp add: made_above_def perfect_def)
  have old: "map (perfect sha ?xs d) [0 ..< length ls div 2 ^ d] = map (perfect sha ls d) [0 ..< length ls div 2 ^ d]" for d
  proof (rule map_cong [OF refl])
    fix i
    assume "i \<in> set [0 ..< length ls div 2 ^ d]"
    then have "i + 1 \<le> length ls div 2 ^ d" by simp
    then have "(i + 1) * 2 ^ d \<le> length ls" by (simp only: less_eq_div_iff_mult_less_eq zero_less_power zero_less_numeral)
    then show "perfect sha ?xs d i = perfect sha ls d i" by (rule perfect_old)
  qed
  have "filling sha ?xs 0 levels" using assms(1) old by (simp add: filling_def tree_ok_def)
  then obtain levels' where "store_nodes levels
      (map (\<lambda>(l, i). (l, i, perfect sha ?xs l i)) ((0, length ls) # appended_above 0 (length ls + 1))) = (Inr levels' :: 'e store_fault + _)"
    "tree_ok sha ?xs levels'"
    using store_filling [of "length ls + 1" 0 ?xs sha levels] assms(2) by auto
  then show ?thesis using made tree_ok_len [OF assms(1)] by (auto simp: push_leaf_hash_def)
qed

lemma push_entries_ok:
  assumes "tree_ok sha ls levels" and "length ls + length es \<le> 2 ^ 64"
  shows "\<exists>levels'. push_entries sha levels es = (Inr levels' :: 'e store_fault + _) \<and> tree_ok sha (ls @ map (leaf_hash sha) es) levels'"
  using assms
proof (induction es arbitrary: ls levels)
  case (Cons e es)
  obtain l where "push_leaf_hash sha levels (leaf_hash sha e) = (Inr (length ls, l) :: 'e store_fault + _)"
    "tree_ok sha (ls @ [leaf_hash sha e]) l"
    using push_ok [OF Cons.prems(1)] Cons.prems(2) by fastforce
  then show ?case using Cons.IH [of "ls @ [leaf_hash sha e]" l] Cons.prems(2) by (simp add: push_entry_def)
qed simp

lemma from_entries_ok:
  "length es \<le> 2 ^ 64 \<Longrightarrow> \<exists>levels. from_entries sha es = Inr levels \<and> tree_ok sha (map (leaf_hash sha) es) levels"
  using push_entries_ok [OF tree_ok_Nil, of es sha] by (simp add: from_entries_def)

subsection \<open>The contract on the code's tree\<close>

text \<open>The tree of a log, cut where a \<open>u64\<close> could no longer number its leaves.\<close>

definition entries_tree :: "(bytes \<Rightarrow> hash) \<Rightarrow> bytes list \<Rightarrow> merkle_tree" where
  "entries_tree sha es = (case from_entries sha es :: unit store_fault + merkle_tree of Inr t \<Rightarrow> t | Inl _ \<Rightarrow> [])"

lemma entries_tree_ok: "length es \<le> 2 ^ 64 \<Longrightarrow> tree_ok sha (map (leaf_hash sha) es) (entries_tree sha es)"
  using from_entries_ok [of es sha, where 'a = unit] by (auto simp: entries_tree_def)

interpretation log_tree: node_source sha "tree_node (entries_tree sha (take (2 ^ 64) es))"
    "map (leaf_hash sha) (take (2 ^ 64) es)" for sha es
  by (rule tree_source, rule entries_tree_ok) simp

end
