(* ===== verification/Merkle_Fold.thy ===== *)
theory Merkle_Fold
  imports Merkle_Store
begin

section \<open>The right edge alone\<close>

text \<open>
  \<open>RootFold\<close> keeps one perfect subtree per set bit of its size and forgets the rest. That is
  enough for an append and for the root: \<open>edge_source\<close> is interpreted on \<open>fold_node\<close>.
\<close>

text \<open>The entries of a log pushed one after the other, as the callers do.\<close>

fun fold_entries :: "(bytes \<Rightarrow> hash) \<Rightarrow> root_fold \<Rightarrow> bytes list \<Rightarrow> 'e store_fault + root_fold" where
  "fold_entries sha edge [] = Inr edge"
| "fold_entries sha edge (e # es) =
     res_bind (fold_push_entry sha edge e) (\<lambda>(_, edge'). fold_entries sha edge' es)"

definition edge_nodes :: "(bytes \<Rightarrow> hash) \<Rightarrow> hash list \<Rightarrow> made_node set" where
  "edge_nodes sha ls =
     {(l, i, h). odd (length ls div 2 ^ l) \<and> i = length ls div 2 ^ l - 1 \<and> h = perfect sha ls l i}"

definition fold_ok :: "(bytes \<Rightarrow> hash) \<Rightarrow> hash list \<Rightarrow> root_fold \<Rightarrow> bool" where
  "fold_ok sha ls edge \<longleftrightarrow> length ls \<le> 2 ^ 64 \<and> rf_leaves edge = length ls \<and>
     set (rf_edge edge) = edge_nodes sha ls \<and>
     (\<forall>k. map_of (rf_roots edge) k =
        (if k \<in> set (rf_wanted edge) \<and> k \<le> length ls then Some (tree_hash sha (take k ls)) else None))"

lemma fold_node_edge:
  assumes "fold_ok sha ls edge" and "odd (length ls div 2 ^ level)"
  shows "fold_node edge level (length ls div 2 ^ level - 1) =
    Inr (perfect sha ls level (length ls div 2 ^ level - 1))"
proof -
  let ?i = "length ls div 2 ^ level - 1"
  let ?P = "\<lambda>(l, i, _ :: hash). l = level \<and> i = ?i"
  have s: "set (rf_edge edge) = edge_nodes sha ls" using assms(1) by (simp add: fold_ok_def)
  have "(level, ?i, perfect sha ls level ?i) \<in> set (rf_edge edge)" using assms(2) by (simp add: s edge_nodes_def)
  then obtain m where m: "find ?P (rf_edge edge) = Some m" by (cases "find ?P (rf_edge edge)") (auto simp: find_None_iff)
  then have "m \<in> set (rf_edge edge)" "?P m" using find_member by fast+
  then have "m = (level, ?i, perfect sha ls level ?i)" unfolding s by (auto simp: edge_nodes_def)
  then show ?thesis using m by (simp add: fold_node_def)
qed

lemma fold_source:
  assumes "fold_ok sha ls edge"
  shows "edge_source sha (fold_node edge) ls"
proof unfold_locales
  show "length ls \<le> 2 ^ 64" using assms by (simp add: fold_ok_def)
qed (rule fold_node_edge [OF assms])

subsection \<open>One push\<close>

text \<open>The last node an append makes stands at the lowest set bit of the new size.\<close>

lemma last_appended:
  assumes "0 < count"
  obtains t c where "last ((level, count - 1) # appended_above level count) = (level + t, c - 1)"
    and "odd c" and "count = c * 2 ^ t"
proof -
  have "\<exists>t c. last ((level, count - 1) # appended_above level count) = (level + t, c - 1) \<and> odd c \<and> count = c * 2 ^ t"
    using assms
  proof (induction level count rule: appended_above.induct)
    case (1 level count)
    show ?case
    proof (cases "even count \<and> 0 < count")
      case True
      have ap: "appended_above level count = (level + 1, count div 2 - 1) # appended_above (level + 1) (count div 2)"
        using True by (subst appended_above.simps) simp
      have "0 < count div 2" using True by (auto elim!: evenE)
      then obtain t c where h: "last ((level + 1, count div 2 - 1) # appended_above (level + 1) (count div 2)) = (level + 1 + t, c - 1)"
        "odd c" "count div 2 = c * 2 ^ t"
        using "1.IH" [OF True] by blast
      have "count = 2 * (count div 2)" using True by simp
      then have "count = c * 2 ^ Suc t" by (simp only: h(3) power_Suc mult.left_commute)
      moreover have "last ((level, count - 1) # appended_above level count) = (level + Suc t, c - 1)"
        using h(1) unfolding ap by simp
      ultimately show ?thesis using h(2) by blast
    next
      case False
      then have "appended_above level count = []" by (subst appended_above.simps) simp
      then have "last ((level, count - 1) # appended_above level count) = (level + 0, count - 1) \<and> odd count \<and> count = count * 2 ^ 0"
        using False "1.prems" by simp
      then show ?thesis by blast
    qed
  qed
  then show thesis using that by blast
qed

lemma edge_after_push:
  assumes "length ls + 1 = c * 2 ^ t" and "odd c"
  shows "edge_nodes sha (ls @ [x]) =
    insert (t, c - 1, perfect sha (ls @ [x]) t (c - 1)) {m \<in> edge_nodes sha ls. t < fst m}"
proof -
  let ?n = "length ls"
  have n: "c * 2 ^ t = Suc ?n" using assms(1) by simp
  have above: "Suc ?n div 2 ^ l = ?n div 2 ^ l" if "t < l" for l
    using last_div [OF n, of l] odd_div [OF assms(2), of "l - t"] that by simp
  have here: "Suc ?n div 2 ^ t = c" using last_div(1) [OF n, of t] by simp
  have below: "even (Suc ?n div 2 ^ l)" if "l < t" for l
  proof -
    obtain d where d: "t = l + Suc d" using less_imp_Suc_add [OF \<open>l < t\<close>] by auto
    have "Suc ?n = (c * 2 ^ Suc d) * 2 ^ l" unfolding n [symmetric] by (simp add: d power_add)
    then have "Suc ?n div 2 ^ l = c * 2 ^ Suc d" by simp
    then show ?thesis by simp
  qed
  have same: "perfect sha (ls @ [x]) l (?n div 2 ^ l - 1) = perfect sha ls l (?n div 2 ^ l - 1)"
    if "odd (?n div 2 ^ l)" for l
    using perfect_old [OF edge_inside [OF that]] .
  have "(l, i, h) \<in> edge_nodes sha (ls @ [x]) \<longleftrightarrow>
      (l, i, h) \<in> insert (t, c - 1, perfect sha (ls @ [x]) t (c - 1)) {m \<in> edge_nodes sha ls. t < fst m}" for l i h
  proof (cases l t rule: linorder_cases)
    case less
    then show ?thesis using below by (simp add: edge_nodes_def)
  next
    case equal
    then show ?thesis using here assms(2) by (auto simp: edge_nodes_def)
  next
    case greater
    then show ?thesis using above [OF greater] same [of l] by (auto simp: edge_nodes_def)
  qed
  then show ?thesis by auto
qed

lemma fold_push_ok:
  assumes "fold_ok sha ls edge" and "length ls < 2 ^ 64"
  shows "\<exists>edge'. fold_push_leaf sha edge leaf =
      (Inr ((0, length ls, leaf) # made_above sha ls leaf 0 (length ls + 1), edge') :: 'e store_fault + _) \<and>
    fold_ok sha (ls @ [leaf]) edge' \<and> rf_wanted edge' = rf_wanted edge"
proof -
  let ?xs = "ls @ [leaf]" and ?made = "(0, length ls, leaf) # made_above sha ls leaf 0 (length ls + 1)"
  have src: "edge_source sha (fold_node edge :: 'e node_source) ls" by (rule fold_source [OF assms(1)])
  have len: "rf_leaves edge = length ls" using assms(1) by (simp add: fold_ok_def)
  have made: "append_nodes sha (fold_node edge :: 'e node_source) (rf_leaves edge) leaf = Inr ?made"
    using edge_source.append_ok [OF src assms(2)] by (simp add: len)
  obtain t c where top: "last ((0, length ls + 1 - 1) # appended_above 0 (length ls + 1)) = (0 + t, c - 1)"
    and c: "odd c" "length ls + 1 = c * 2 ^ t"
    by (rule last_appended [of "length ls + 1" 0]) simp_all
  let ?f = "\<lambda>(l, i). (l, i, perfect sha ?xs l i)" and ?nums = "(0, length ls + 1 - 1) # appended_above 0 (length ls + 1)"
  let ?top = "(t, c - 1, perfect sha ?xs t (c - 1))"
  have "?made = map ?f ?nums" by (simp add: made_above_def perfect_def)
  moreover have "last (map ?f ?nums) = ?f (last ?nums)" by (rule last_map) simp
  ultimately have last: "last ?made = (t, c - 1, perfect sha ?xs t (c - 1))" unfolding top by simp
  define edge1 where "edge1 = edge\<lparr>rf_edge := filter (\<lambda>(l, _, _). t < l) (rf_edge edge) @ [?top],
    rf_leaves := rf_leaves edge + 1\<rparr>"
  have e1: "rf_leaves edge1 = length ?xs" "rf_wanted edge1 = rf_wanted edge" "rf_roots edge1 = rf_roots edge"
    by (simp_all add: edge1_def len)
  have "set (rf_edge edge) = edge_nodes sha ls" using assms(1) by (simp add: fold_ok_def)
  then have edge: "set (rf_edge edge1) = edge_nodes sha ?xs"
    unfolding edge_after_push [OF c(2,1)] by (auto simp: edge1_def)
  have rest: "map_of (rf_roots edge) k =
      (if k \<in> set (rf_wanted edge) \<and> k \<le> length ls then Some (tree_hash sha (take k ls)) else None)" for k
    using assms(1) by (simp add: fold_ok_def)
  have src1: "edge_source sha (fold_node edge1 :: 'e node_source) ?xs"
  proof -
    let ?e = "edge1\<lparr>rf_wanted := [], rf_roots := []\<rparr>"
    have "fold_ok sha ?xs ?e" using e1(1) edge assms(2) by (simp add: fold_ok_def)
    from fold_source [OF this] show ?thesis by (simp add: fold_node_def [abs_def])
  qed
  let ?root = "mth sha (fold_node edge1 :: 'e node_source) (rf_leaves edge1) (rf_leaves edge1)"
  have root: "?root = Inr (tree_hash sha ?xs)" using edge_source.edge_mth [OF src1] by (simp add: e1)
  define edge2 where "edge2 = (if rf_leaves edge1 \<in> set (rf_wanted edge1)
    then edge1\<lparr>rf_roots := bput (rf_roots edge1) (rf_leaves edge1) (tree_hash sha ?xs)\<rparr> else edge1)"
  have "fold_push_leaf sha edge leaf = (Inr (?made, edge2) :: 'e store_fault + _)"
  proof -
    have "?made \<noteq> []" by simp
    then show ?thesis
      unfolding fold_push_leaf_def made res_bind.simps Let_def last fst_conv edge1_def [symmetric]
      using root by (simp add: edge2_def)
  qed
  moreover have "fold_ok sha ?xs edge2"
    using edge e1 rest assms(2) by (auto simp: fold_ok_def edge2_def le_Suc_eq)
  ultimately show ?thesis using e1 by (auto simp: edge2_def)
qed

subsection \<open>A log folded\<close>

lemma fold_entries_ok:
  assumes "fold_ok sha ls edge" and "length ls + length es \<le> 2 ^ 64"
  shows "\<exists>edge'. fold_entries sha edge es = (Inr edge' :: 'e store_fault + _) \<and>
    fold_ok sha (ls @ map (leaf_hash sha) es) edge' \<and> rf_wanted edge' = rf_wanted edge"
  using assms
proof (induction es arbitrary: ls edge)
  case (Cons e es)
  obtain edge1 where p: "fold_push_leaf sha edge (leaf_hash sha e) =
      (Inr ((0, length ls, leaf_hash sha e) # made_above sha ls (leaf_hash sha e) 0 (length ls + 1), edge1) :: 'e store_fault + _)"
    "fold_ok sha (ls @ [leaf_hash sha e]) edge1" "rf_wanted edge1 = rf_wanted edge"
    using fold_push_ok [OF Cons.prems(1)] Cons.prems(2) by fastforce
  then show ?case using Cons.IH [OF p(2)] Cons.prems(2) by (simp add: fold_push_entry_def)
qed simp

lemma fold_new_ok: "fold_ok sha [] (fold_new sha sizes)" and fold_new_wanted: "set (rf_wanted (fold_new sha sizes)) = set sizes"
proof -
  let ?w = "remdups_adj (sort sizes)"
  show "set (rf_wanted (fold_new sha sizes)) = set sizes" by (simp add: fold_new_def Let_def)
  have s: "sorted ?w" by (simp add: sorted_remdups_adj)
  have "map_of (rf_roots (fold_new sha sizes)) k = (if k \<in> set ?w \<and> k \<le> 0 then Some (empty_root sha) else None)" for k
  proof (cases ?w)
    case Nil
    then show ?thesis by (simp add: fold_new_def)
  next
    case (Cons a w)
    then have "\<forall>x \<in> set w. a \<le> x" using s by simp
    then show ?thesis using Cons by (cases a) (auto simp: fold_new_def Let_def)
  qed
  moreover have "tree_hash sha [] = empty_root sha" by (simp add: tree_hash.simps)
  ultimately show "fold_ok sha [] (fold_new sha sizes)"
    by (auto simp: fold_ok_def edge_nodes_def fold_new_def Let_def intro!: gr0I)
qed

lemma fold_log_ok:
  assumes "length es \<le> 2 ^ 64"
  shows "\<exists>edge. fold_entries sha (fold_new sha sizes) es = (Inr edge :: 'e store_fault + _) \<and>
    fold_ok sha (map (leaf_hash sha) es) edge \<and> set (rf_wanted edge) = set sizes"
  using fold_entries_ok [OF fold_new_ok, of es sha sizes] fold_new_wanted assms by auto

definition entries_edge :: "(bytes \<Rightarrow> hash) \<Rightarrow> nat list \<Rightarrow> bytes list \<Rightarrow> root_fold" where
  "entries_edge sha sizes es =
     (case fold_entries sha (fold_new sha sizes) es :: unit store_fault + root_fold of
        Inr edge \<Rightarrow> edge | Inl _ \<Rightarrow> fold_new sha sizes)"

lemma entries_edge_ok:
  assumes "length es \<le> 2 ^ 64"
  shows "fold_ok sha (map (leaf_hash sha) es) (entries_edge sha sizes es)"
proof -
  obtain edge where "fold_entries sha (fold_new sha sizes) es = (Inr edge :: unit store_fault + _)"
    "fold_ok sha (map (leaf_hash sha) es) edge"
    using fold_log_ok [OF assms] by blast
  then show ?thesis by (simp add: entries_edge_def)
qed

interpretation log_edge: edge_source sha "fold_node (entries_edge sha sizes (take (2 ^ 64) es))"
    "map (leaf_hash sha) (take (2 ^ 64) es)" for sha sizes es
  by (rule fold_source, rule entries_edge_ok) simp

end
