(* ===== verification/Merkle_Verify.thy ===== *)
theory Merkle_Verify
  imports Merkle_Spec
begin

section \<open>What the verifiers accept\<close>

text \<open>
  The bit loops of both verifiers climb the levels of the tree. Completeness: they accept
  the RFC's proofs. Soundness is a reduction: what they accept is true, or two different
  inputs to the hash are at hand that it maps to one value, and the inputs are among the
  node hashes of the verification and of the trees.
\<close>

subsection \<open>Climbing level by level\<close>

function climb :: "(bytes \<Rightarrow> hash) \<Rightarrow> nat \<Rightarrow> nat \<Rightarrow> hash \<Rightarrow> hash list \<Rightarrow> hash option" where
  "climb sha i s r path =
     (if s = 0 then if path = [] then Some r else None
      else if even i \<and> i = s then climb sha (i div 2) (s div 2) r path
      else case path of
             [] \<Rightarrow> None
           | p # ps \<Rightarrow> climb sha (i div 2) (s div 2) (if odd i then node_hash sha p r else node_hash sha r p) ps)"
  by pat_completeness auto
termination by (relation "measure (\<lambda>(sha, i, s, r, path). s)") auto

text \<open>The old root of a consistency proof: only left siblings count.\<close>

function climb_left :: "(bytes \<Rightarrow> hash) \<Rightarrow> nat \<Rightarrow> nat \<Rightarrow> hash \<Rightarrow> hash list \<Rightarrow> hash option" where
  "climb_left sha i s r path =
     (if s = 0 then if path = [] then Some r else None
      else if even i \<and> i = s then climb_left sha (i div 2) (s div 2) r path
      else case path of
             [] \<Rightarrow> None
           | p # ps \<Rightarrow> climb_left sha (i div 2) (s div 2) (if odd i then node_hash sha p r else r) ps)"
  by pat_completeness auto
termination by (relation "measure (\<lambda>(sha, i, s, r, path). s)") auto

declare climb.simps [simp del] climb_left.simps [simp del]

lemma climb_Nil: "climb sha i s r [] = (if s = 0 then Some r else None)"
proof (induction s arbitrary: i rule: less_induct)
  case (less s)
  have "even i \<Longrightarrow> i = s \<Longrightarrow> s \<noteq> 0 \<Longrightarrow> s div 2 \<noteq> 0" by auto
  then show ?case using less [of "s div 2"] by (subst climb.simps) auto
qed

lemma climb_left_Nil: "climb_left sha i s r [] = (if s = 0 then Some r else None)"
proof (induction s arbitrary: i rule: less_induct)
  case (less s)
  have "even i \<Longrightarrow> i = s \<Longrightarrow> s \<noteq> 0 \<Longrightarrow> s div 2 \<noteq> 0" by auto
  then show ?case using less [of "s div 2"] by (subst climb_left.simps) auto
qed

lemma edge_up_edge:
  assumes "f \<noteq> 0"
  obtains g where "edge_up f f = (g, g)" and "odd g"
    and "climb sha f f r path = climb sha g g r path" and "climb_left sha f f a path = climb_left sha g g a path"
proof -
  have "\<exists>g. edge_up f f = (g, g) \<and> odd g \<and> climb sha f f r path = climb sha g g r path \<and>
      climb_left sha f f a path = climb_left sha g g a path"
    using assms
  proof (induction f rule: less_induct)
    case (less f)
    show ?case
    proof (cases "even f")
      case True
      then have "f div 2 < f" "f div 2 \<noteq> 0" using less.prems by auto
      moreover have "edge_up f f = edge_up (f div 2) (f div 2)" "climb sha f f r path = climb sha (f div 2) (f div 2) r path"
        "climb_left sha f f a path = climb_left sha (f div 2) (f div 2) a path"
        using True less.prems by (subst edge_up.simps climb.simps climb_left.simps, simp)+
      ultimately show ?thesis using less.IH [of "f div 2"] by simp
    next
      case False
      then show ?thesis by (simp add: edge_up.simps)
    qed
  qed
  then show thesis using that by blast
qed

lemma edge_up_odd: "odd f \<Longrightarrow> edge_up f s = (f, s)"
  by (simp add: edge_up.simps)

lemma climb_Cons_odd:
  "s \<noteq> 0 \<Longrightarrow> odd i \<Longrightarrow> climb sha i s r (p # ps) = climb sha (i div 2) (s div 2) (node_hash sha p r) ps"
  "s \<noteq> 0 \<Longrightarrow> odd i \<Longrightarrow> climb_left sha i s r (p # ps) = climb_left sha (i div 2) (s div 2) (node_hash sha p r) ps"
  by (simp_all add: climb.simps [of sha i s] climb_left.simps [of sha i s])

lemma climb_Cons_even:
  "s \<noteq> 0 \<Longrightarrow> even i \<Longrightarrow> i \<noteq> s \<Longrightarrow> climb sha i s r (p # ps) = climb sha (i div 2) (s div 2) (node_hash sha r p) ps"
  "s \<noteq> 0 \<Longrightarrow> even i \<Longrightarrow> i \<noteq> s \<Longrightarrow> climb_left sha i s r (p # ps) = climb_left sha (i div 2) (s div 2) r ps"
  by (simp_all add: climb.simps [of sha i s] climb_left.simps [of sha i s])

lemma inclusion_climb:
  assumes "i \<le> s"
  shows "(case inclusion_steps sha i s r path of
      None \<Rightarrow> None | Some (s', x) \<Rightarrow> if s' = 0 then Some x else None) = climb sha i s r path"
  using assms
proof (induction path arbitrary: i s r)
  case Nil
  then show ?case by (simp add: climb_Nil)
next
  case (Cons p ps)
  show ?case
  proof (cases "s = 0")
    case True
    then show ?thesis by (simp add: climb.simps)
  next
    case s: False
    consider "odd i" | "even i" "i = s" | "even i" "i \<noteq> s" by blast
    then show ?thesis
    proof cases
      case 1
      then show ?thesis
        using s Cons.IH [of "i div 2" "s div 2"] Cons.prems
        by (simp add: edge_up_odd climb_Cons_odd div_le_mono)
    next
      case 2
      obtain g where g: "edge_up s s = (g, g)" "odd g" "climb sha s s r (p # ps) = climb sha g g r (p # ps)"
        by (rule edge_up_edge [OF s]) (rule that)
      then show ?thesis
        using s 2 Cons.IH [of "g div 2" "g div 2"] by (auto simp: climb_Cons_odd odd_pos)
    next
      case 3
      then show ?thesis
        using s Cons.IH [of "i div 2" "s div 2"] Cons.prems by (simp add: climb_Cons_even div_le_mono)
    qed
  qed
qed

lemma consistency_climb:
  assumes "i \<le> s"
  shows "consistency_steps sha i s fr sr path = Some (0, a, b) \<longleftrightarrow>
    climb_left sha i s fr path = Some a \<and> climb sha i s sr path = Some b"
  using assms
proof (induction path arbitrary: i s fr sr)
  case Nil
  then show ?case by (auto simp: climb_Nil climb_left_Nil)
next
  case (Cons p ps)
  show ?case
  proof (cases "s = 0")
    case True
    then show ?thesis by (simp add: climb.simps)
  next
    case s: False
    consider "odd i" | "even i" "i = s" | "even i" "i \<noteq> s" by blast
    then show ?thesis
    proof cases
      case 1
      then show ?thesis
        using s Cons.IH [of "i div 2" "s div 2"] Cons.prems
        by (simp add: edge_up_odd climb_Cons_odd div_le_mono)
    next
      case 2
      obtain g where g: "edge_up s s = (g, g)" "odd g" "climb sha s s sr (p # ps) = climb sha g g sr (p # ps)"
        "climb_left sha s s fr (p # ps) = climb_left sha g g fr (p # ps)"
        by (rule edge_up_edge [OF s]) (rule that)
      then show ?thesis
        using s 2 Cons.IH [of "g div 2" "g div 2"] by (auto simp: climb_Cons_odd odd_pos)
    next
      case 3
      then show ?thesis
        using s Cons.IH [of "i div 2" "s div 2"] Cons.prems by (simp add: climb_Cons_even div_le_mono)
    qed
  qed
qed

lemma verify_inclusion_climb:
  assumes "i < n"
  shows "verify_inclusion sha i n r path root \<longleftrightarrow> climb sha i (n - 1) r path = Some root"
proof -
  have "i \<le> n - 1" using assms by simp
  from inclusion_climb [OF this, of sha r path] show ?thesis
    using assms by (cases "inclusion_steps sha i (n - 1) r path") (auto simp: verify_inclusion_def split: if_splits)
qed

subsection \<open>Completeness\<close>

lemma up_index: "length ls = s + 1 \<Longrightarrow> length (pair_up sha ls) = s div 2 + 1"
  by simp

lemma climb_complete:
  assumes "length ls = s + 1" and "length ls \<le> 2 ^ 64" and "i \<le> s"
  shows "climb sha i s (ls ! i) (tree_path sha i ls) = Some (tree_hash sha ls)"
  using assms
proof (induction s arbitrary: ls i rule: less_induct)
  case (less s)
  show ?case
  proof (cases "s = 0")
    case True
    then obtain x where "ls = [x]" using less.prems(1) by (auto simp: length_Suc_conv)
    then show ?thesis using True less.prems(3) by (simp add: climb.simps tree_path.simps)
  next
    case False
    then have two: "2 \<le> length ls" using less.prems(1) by simp
    note path = tree_path_pair_up [OF two less.prems(2), of i sha] and root = tree_hash_pair_up [OF two less.prems(2), of sha]
    have up: "climb sha (i div 2) (s div 2) (pair_up sha ls ! (i div 2)) (tree_path sha (i div 2) (pair_up sha ls)) =
        Some (tree_hash sha ls)"
      unfolding root [symmetric] using False less.prems by (intro less.IH) (auto simp: div_le_mono)
    consider "odd i" | "even i" "i = s" | "even i" "i < s" using less.prems(3) by linarith
    then show ?thesis
    proof cases
      case 1
      then have "pair_up sha ls ! (i div 2) = node_hash sha (ls ! (i - 1)) (ls ! i)"
        using pair_up_nth [of "i div 2" ls sha] less.prems by (auto elim!: oddE)
      then show ?thesis using 1 False path up less.prems by (simp add: sibling_def climb_Cons_odd)
    next
      case 2
      then have "pair_up sha ls ! (i div 2) = ls ! i"
        using pair_up_last [of ls "i div 2" sha] less.prems(1) by auto
      then show ?thesis using 2 False path up less.prems by (simp add: sibling_def climb.simps [of sha s])
    next
      case 3
      then have "pair_up sha ls ! (i div 2) = node_hash sha (ls ! i) (ls ! (i + 1))"
        using pair_up_nth [of "i div 2" ls sha] less.prems by auto
      then show ?thesis using 3 False path up less.prems by (simp add: sibling_def climb_Cons_even)
    qed
  qed
qed

lemma take_pair_up: "take j (pair_up sha ls) = pair_up sha (take (2 * j) ls)"
proof (induction sha ls arbitrary: j rule: pair_up.induct)
  case (1 sha a b ls)
  then show ?case by (cases j) auto
next
  case "2_2"
  then show ?case by (cases j) auto
qed simp

text \<open>The first \<open>i + 1\<close> nodes of a level are the level of the tree over the first entries.\<close>

lemma take_level:
  assumes "i < length ls" and "even i"
  shows "pair_up sha (take (i + 1) ls) = take (i div 2) (pair_up sha ls) @ [ls ! i]"
proof -
  have "take (i + 1) ls = take i ls @ [ls ! i]" using assms(1) by (simp add: take_Suc_conv_app_nth)
  moreover have "pair_up sha (take i ls @ [ls ! i]) = pair_up sha (take i ls) @ [ls ! i]"
    using pair_up_append [of "take i ls" sha "[ls ! i]"] assms by simp
  moreover have "take (i div 2) (pair_up sha ls) = pair_up sha (take i ls)"
    using take_pair_up [of "i div 2" sha ls] assms(2) by simp
  ultimately show ?thesis by simp
qed

lemma climb_left_complete:
  assumes "length ls = s + 1" and "length ls \<le> 2 ^ 64" and "i \<le> s" and "length old = i + 1"
    and "take i old = take i ls"
  shows "climb_left sha i s (old ! i) (tree_path sha i ls) = Some (tree_hash sha old)"
  using assms
proof (induction s arbitrary: ls old i rule: less_induct)
  case (less s)
  show ?case
  proof (cases "s = 0")
    case True
    then obtain x where "old = [x]" using less.prems(3,4) by (auto simp: length_Suc_conv)
    then show ?thesis using True less.prems(1,3) by (simp add: climb_left.simps tree_path.simps)
  next
    case False
    then have two: "2 \<le> length ls" using less.prems(1) by simp
    note path = tree_path_pair_up [OF two less.prems(2), of i sha]
    have root: "tree_hash sha (pair_up sha old) = tree_hash sha old"
    proof (cases "i = 0")
      case True
      then obtain x where "old = [x]" using less.prems(4) by (auto simp: length_Suc_conv)
      then show ?thesis by simp
    next
      case False
      then show ?thesis using less.prems by (intro tree_hash_pair_up) auto
    qed
    have tk: "take (i div 2) (pair_up sha old) = take (i div 2) (pair_up sha ls)"
    proof -
      have "take (2 * (i div 2)) old = take (2 * (i div 2)) ls"
        using arg_cong [OF less.prems(5), of "take (2 * (i div 2))"] by (simp add: min_absorb1)
      then show ?thesis by (simp add: take_pair_up)
    qed
    have up: "climb_left sha (i div 2) (s div 2) (pair_up sha old ! (i div 2)) (tree_path sha (i div 2) (pair_up sha ls)) =
        Some (tree_hash sha old)"
      unfolding root [symmetric] using False less.prems tk by (intro less.IH) (auto simp: div_le_mono)
    consider "odd i" | "even i" "i = s" | "even i" "i < s" using less.prems(3) by linarith
    then show ?thesis
    proof cases
      case 1
      then have "pair_up sha old ! (i div 2) = node_hash sha (old ! (i - 1)) (old ! i)"
        using pair_up_nth [of "i div 2" old sha] less.prems by (auto elim!: oddE)
      moreover have "old ! (i - 1) = ls ! (i - 1)"
        using arg_cong [OF less.prems(5), of "\<lambda>xs. xs ! (i - 1)"] 1 by (simp add: odd_pos)
      ultimately show ?thesis using 1 False path up less.prems by (simp add: sibling_def climb_Cons_odd)
    next
      case 2
      then have "pair_up sha old ! (i div 2) = old ! i"
        using pair_up_last [of old "i div 2" sha] less.prems(4) by auto
      then show ?thesis using 2 False path up less.prems by (simp add: sibling_def climb_left.simps [of sha s])
    next
      case 3
      then have "pair_up sha old ! (i div 2) = old ! i"
        using pair_up_last [of old "i div 2" sha] less.prems(4) by auto
      then show ?thesis using 3 False path up less.prems by (simp add: sibling_def climb_Cons_even)
    qed
  qed
qed

subsection \<open>Soundness\<close>

definition node_input :: "hash \<Rightarrow> hash \<Rightarrow> bytes" where
  "node_input l r = NODE_PREFIX # l @ r"

text \<open>The inputs hashed for the nodes of a tree, and for a climb.\<close>

fun level_inputs :: "hash list \<Rightarrow> bytes list" where
  "level_inputs (a # b # ls) = node_input a b # level_inputs ls"
| "level_inputs ls = []"

function tree_inputs :: "(bytes \<Rightarrow> hash) \<Rightarrow> hash list \<Rightarrow> bytes list" where
  "tree_inputs sha ls =
     (if length ls < 2 then [] else level_inputs ls @ tree_inputs sha (pair_up sha ls))"
  by pat_completeness auto
termination by (relation "measure (\<lambda>(sha, ls). length ls)") auto

function climb_inputs :: "(bytes \<Rightarrow> hash) \<Rightarrow> nat \<Rightarrow> nat \<Rightarrow> hash \<Rightarrow> hash list \<Rightarrow> bytes list" where
  "climb_inputs sha i s r path =
     (if s = 0 then []
      else if even i \<and> i = s then climb_inputs sha (i div 2) (s div 2) r path
      else case path of
             [] \<Rightarrow> []
           | p # ps \<Rightarrow>
               (if odd i then node_input p r else node_input r p) #
               climb_inputs sha (i div 2) (s div 2) (if odd i then node_hash sha p r else node_hash sha r p) ps)"
  by pat_completeness auto
termination by (relation "measure (\<lambda>(sha, i, s, r, path). s)") auto

function climb_left_inputs :: "(bytes \<Rightarrow> hash) \<Rightarrow> nat \<Rightarrow> nat \<Rightarrow> hash \<Rightarrow> hash list \<Rightarrow> bytes list" where
  "climb_left_inputs sha i s r path =
     (if s = 0 then []
      else if even i \<and> i = s then climb_left_inputs sha (i div 2) (s div 2) r path
      else case path of
             [] \<Rightarrow> []
           | p # ps \<Rightarrow>
               (if odd i then [node_input p r] else []) @
               climb_left_inputs sha (i div 2) (s div 2) (if odd i then node_hash sha p r else r) ps)"
  by pat_completeness auto
termination by (relation "measure (\<lambda>(sha, i, s, r, path). s)") auto

declare tree_inputs.simps [simp del] climb_inputs.simps [simp del] climb_left_inputs.simps [simp del]

definition clash :: "(bytes \<Rightarrow> hash) \<Rightarrow> bytes set \<Rightarrow> bool" where
  "clash sha X \<longleftrightarrow> (\<exists>x \<in> X. \<exists>y \<in> X. x \<noteq> y \<and> sha x = sha y)"

definition hashes :: "hash list \<Rightarrow> bool" where
  "hashes hs \<longleftrightarrow> list_all (\<lambda>h. length h = HASH_SIZE) hs"

lemma node_inj:
  assumes "\<not> clash sha X" and "node_input a b \<in> X" and "node_input c d \<in> X" and "length a = length c"
    and "node_hash sha a b = node_hash sha c d"
  shows "a = c \<and> b = d"
proof -
  have "node_input a b = node_input c d"
    using assms(1-3,5) by (auto simp: clash_def node_hash_def node_input_def)
  then show ?thesis using assms(4) by (simp add: node_input_def)
qed

lemma hashes_pair_up: "\<forall>x. length (sha x) = HASH_SIZE \<Longrightarrow> hashes ls \<Longrightarrow> hashes (pair_up sha ls)"
  by (induction sha ls rule: pair_up.induct) (auto simp: hashes_def node_hash_def)

lemma hashes_nth: "hashes ls \<Longrightarrow> i < length ls \<Longrightarrow> length (ls ! i) = HASH_SIZE"
  by (simp add: hashes_def list_all_length)

lemma level_inputs_nth: "2 * j + 1 < length ls \<Longrightarrow> node_input (ls ! (2 * j)) (ls ! (2 * j + 1)) \<in> set (level_inputs ls)"
proof (induction ls arbitrary: j rule: level_inputs.induct)
  case (1 a b ls)
  then show ?case by (cases j) auto
qed auto

lemma climb_sound:
  assumes "length ls = s + 1" and "length ls \<le> 2 ^ 64" and "i \<le> s"
    and "\<forall>x. length (sha x) = HASH_SIZE" and "hashes ls" and "hashes (r # path)"
    and "climb sha i s r path = Some (tree_hash sha ls)"
    and "set (tree_inputs sha ls) \<subseteq> X" and "set (climb_inputs sha i s r path) \<subseteq> X" and "\<not> clash sha X"
  shows "r = ls ! i"
  using assms
proof (induction s arbitrary: ls i r path rule: less_induct)
  case (less s)
  show ?case
  proof (cases "s = 0")
    case True
    then obtain x where "ls = [x]" using less.prems(1) by (auto simp: length_Suc_conv)
    then show ?thesis using less.prems(3,7) True by (simp add: climb.simps split: if_splits)
  next
    case False
    then have two: "2 \<le> length ls" using less.prems(1) by simp
    have root: "tree_hash sha (pair_up sha ls) = tree_hash sha ls" by (rule tree_hash_pair_up [OF two less.prems(2)])
    have tin: "set (level_inputs ls) \<subseteq> X" "set (tree_inputs sha (pair_up sha ls)) \<subseteq> X"
      using less.prems(8) two by (simp_all add: tree_inputs.simps [of sha ls])
    have hup: "hashes (pair_up sha ls)" by (rule hashes_pair_up [OF less.prems(4,5)])
    have ih: "r' = pair_up sha ls ! (i div 2)"
      if "climb sha (i div 2) (s div 2) r' path' = Some (tree_hash sha ls)" "hashes (r' # path')"
        "set (climb_inputs sha (i div 2) (s div 2) r' path') \<subseteq> X" for r' path'
      by (rule less.IH [where path = path'])
        (use that less.prems False root tin hup in \<open>auto simp: div_le_mono\<close>)
    show ?thesis
    proof (cases "even i \<and> i = s")
      case True
      then have ev: "even s" "i = s" by auto
      from True have "pair_up sha ls ! (i div 2) = ls ! i"
        using pair_up_last [of ls "i div 2" sha] less.prems(1) by auto
      then show ?thesis
        using ih [of r path] ev less.prems(6,7,9) False by (simp add: climb.simps [of sha s s] climb_inputs.simps [of sha s s])
    next
      case F: False
      then obtain p ps where path: "path = p # ps"
        using less.prems(7) False by (cases path) (auto simp: climb_Nil)
      have p: "length p = HASH_SIZE" "length r = HASH_SIZE" "hashes ps"
        using less.prems(6) by (simp_all add: path hashes_def)
      show ?thesis
      proof (cases "odd i")
        case True
        then have up: "pair_up sha ls ! (i div 2) = node_hash sha (ls ! (i - 1)) (ls ! i)"
          and mem: "node_input (ls ! (i - 1)) (ls ! i) \<in> X"
          using pair_up_nth [of "i div 2" ls sha] level_inputs_nth [of "i div 2" ls] less.prems(1,3) tin(1)
          by (auto elim!: oddE)
        have "node_hash sha p r = pair_up sha ls ! (i div 2)"
          using ih [of "node_hash sha p r" ps] True less.prems(4,7,9) False p
          by (simp add: path climb_Cons_odd climb_inputs.simps [of sha i s] hashes_def node_hash_def)
        moreover have "node_input p r \<in> X"
          using less.prems(9) True False by (simp add: path climb_inputs.simps [of sha i s])
        moreover have "length p = length (ls ! (i - 1))"
          using p(1) hashes_nth [OF less.prems(5), of "i - 1"] less.prems(1,3) by simp
        ultimately show ?thesis using node_inj [OF less.prems(10) _ mem] up by metis
      next
        case ev: False
        then have "i < s" using F less.prems(3) by auto
        then have up: "pair_up sha ls ! (i div 2) = node_hash sha (ls ! i) (ls ! (i + 1))"
          and mem: "node_input (ls ! i) (ls ! (i + 1)) \<in> X"
          using pair_up_nth [of "i div 2" ls sha] level_inputs_nth [of "i div 2" ls] less.prems(1) tin(1) ev
          by auto
        have "node_hash sha r p = pair_up sha ls ! (i div 2)"
          using ih [of "node_hash sha r p" ps] ev F less.prems(4,7,9) False p
          by (simp add: path climb_Cons_even climb_inputs.simps [of sha i s] hashes_def node_hash_def)
        moreover have "node_input r p \<in> X"
          using less.prems(9) ev F False by (simp add: path climb_inputs.simps [of sha i s])
        moreover have "length r = length (ls ! i)"
          using p(2) hashes_nth [OF less.prems(5), of i] less.prems(1,3) by simp
        ultimately show ?thesis using node_inj [OF less.prems(10) _ mem] up by metis
      qed
    qed
  qed
qed

text \<open>Two levels that pair up to the same nodes are the same.\<close>

lemma pair_up_inj:
  assumes "length xs = length ys" and "even (length xs)" and "pair_up sha xs = pair_up sha ys"
    and "hashes xs" and "hashes ys" and "set (level_inputs xs) \<subseteq> X" and "set (level_inputs ys) \<subseteq> X"
    and "\<not> clash sha X"
  shows "xs = ys"
  using assms
proof (induction xs arbitrary: ys rule: level_inputs.induct)
  case (1 a b xs)
  obtain c d zs where ys: "ys = c # d # zs"
    using "1.prems"(1) by (metis length_Suc_conv)
  have "a = c \<and> b = d"
    using "1.prems" node_inj [of sha X a b c d] by (simp add: ys hashes_def)
  moreover have "xs = zs"
    by (rule "1.IH") (use "1.prems" in \<open>auto simp: ys hashes_def\<close>)
  ultimately show ?case by (simp add: ys)
qed auto

lemma level_inputs_take: "set (level_inputs (take (2 * j) ls)) \<subseteq> set (level_inputs ls)"
proof (induction ls arbitrary: j rule: level_inputs.induct)
  case (1 a b ls)
  then show ?case by (cases j) auto
qed (auto split: nat.splits simp: take_Cons)

lemma hashes_take: "hashes ls \<Longrightarrow> hashes (take n ls)"
  by (auto simp: hashes_def list_all_iff dest: in_set_takeD)

lemma consistency_sound:
  assumes "length ls = s + 1" and "length ls \<le> 2 ^ 64" and "i \<le> s" and "length old = i + 1"
    and "\<forall>x. length (sha x) = HASH_SIZE" and "hashes ls" and "hashes old" and "hashes (fr # sr # path)"
    and "climb sha i s sr path = Some (tree_hash sha ls)" and "climb_left sha i s fr path = Some (tree_hash sha old)"
    and "set (tree_inputs sha ls) \<subseteq> X" and "set (tree_inputs sha old) \<subseteq> X"
    and "set (climb_inputs sha i s sr path) \<subseteq> X" and "set (climb_left_inputs sha i s fr path) \<subseteq> X"
    and "\<not> clash sha X"
  shows "take i old = take i ls \<and> fr = old ! i \<and> sr = ls ! i"
  using assms
proof (induction s arbitrary: ls old i fr sr path rule: less_induct)
  case (less s)
  show ?case
  proof (cases "s = 0")
    case True
    then obtain x y where "ls = [x]" "old = [y]" using less.prems(1,3,4) by (auto simp: length_Suc_conv)
    then show ?thesis
      using less.prems(3,9,10) True by (simp add: climb.simps climb_left.simps split: if_splits)
  next
    case False
    then have two: "2 \<le> length ls" using less.prems(1) by simp
    have root: "tree_hash sha (pair_up sha ls) = tree_hash sha ls" by (rule tree_hash_pair_up [OF two less.prems(2)])
    have tin: "set (level_inputs ls) \<subseteq> X" "set (tree_inputs sha (pair_up sha ls)) \<subseteq> X"
      using less.prems(11) two by (simp_all add: tree_inputs.simps [of sha ls])
    have old: "tree_hash sha (pair_up sha old) = tree_hash sha old \<and> set (level_inputs old) \<subseteq> X \<and>
        set (tree_inputs sha (pair_up sha old)) \<subseteq> X"
    proof (cases "i = 0")
      case True
      then obtain x where "old = [x]" using less.prems(4) by (auto simp: length_Suc_conv)
      then show ?thesis by (simp add: tree_inputs.simps)
    next
      case False
      then have "2 \<le> length old" using less.prems(4) by simp
      then show ?thesis
        using tree_hash_pair_up [of old sha] less.prems(1-4,12) by (simp add: tree_inputs.simps [of sha old])
    qed
    have hup: "hashes (pair_up sha ls)" "hashes (pair_up sha old)"
      using hashes_pair_up less.prems(5-7) by auto
    have ih: "take (i div 2) (pair_up sha old) = take (i div 2) (pair_up sha ls) \<and>
        fr' = pair_up sha old ! (i div 2) \<and> sr' = pair_up sha ls ! (i div 2)"
      if "climb sha (i div 2) (s div 2) sr' path' = Some (tree_hash sha ls)"
        "climb_left sha (i div 2) (s div 2) fr' path' = Some (tree_hash sha old)" "hashes (fr' # sr' # path')"
        "set (climb_inputs sha (i div 2) (s div 2) sr' path') \<subseteq> X"
        "set (climb_left_inputs sha (i div 2) (s div 2) fr' path') \<subseteq> X" for fr' sr' path'
      by (rule less.IH [where path = path'])
        (use that less.prems False root old tin hup in \<open>auto simp: div_le_mono\<close>)
    have below: "take (2 * (i div 2)) old = take (2 * (i div 2)) ls"
      if "take (i div 2) (pair_up sha old) = take (i div 2) (pair_up sha ls)"
    proof (rule pair_up_inj [of _ _ sha X])
      show "pair_up sha (take (2 * (i div 2)) old) = pair_up sha (take (2 * (i div 2)) ls)"
        using that by (simp add: take_pair_up)
      show "set (level_inputs (take (2 * (i div 2)) old)) \<subseteq> X" "set (level_inputs (take (2 * (i div 2)) ls)) \<subseteq> X"
        using level_inputs_take old tin by blast+
    qed (use less.prems in \<open>auto intro: hashes_take\<close>)
    show ?thesis
    proof (cases "even i")
      case ev: True
      have o': "pair_up sha old ! (i div 2) = old ! i"
        using pair_up_last [of old "i div 2" sha] less.prems(4) ev by auto
      have tk: "2 * (i div 2) = i" using ev by simp
      show ?thesis
      proof (cases "i = s")
        case True
        then have l: "pair_up sha ls ! (i div 2) = ls ! i"
          using pair_up_last [of ls "i div 2" sha] less.prems(1) ev by auto
        have "take (i div 2) (pair_up sha old) = take (i div 2) (pair_up sha ls) \<and>
          fr = pair_up sha old ! (i div 2) \<and> sr = pair_up sha ls ! (i div 2)"
          by (rule ih [where path' = path])
            (use True ev False less.prems(8-10,13,14) in \<open>simp_all add: climb.simps [of sha s s]
              climb_left.simps [of sha s s] climb_inputs.simps [of sha s s] climb_left_inputs.simps [of sha s s]\<close>)
        then show ?thesis using below o' l tk by simp
      next
        case F: False
        then have lt: "i < s" using less.prems(3) by simp
        obtain p ps where path: "path = p # ps"
          using less.prems(9) False by (cases path) (auto simp: climb_Nil)
        have p: "length p = HASH_SIZE" "length sr = HASH_SIZE" "hashes ps" "length fr = HASH_SIZE"
          using less.prems(8) by (simp_all add: path hashes_def)
        have l: "pair_up sha ls ! (i div 2) = node_hash sha (ls ! i) (ls ! (i + 1))"
          and mem: "node_input (ls ! i) (ls ! (i + 1)) \<in> X"
          using pair_up_nth [of "i div 2" ls sha] level_inputs_nth [of "i div 2" ls] less.prems(1) tin(1) ev lt
          by auto
        have up: "take (i div 2) (pair_up sha old) = take (i div 2) (pair_up sha ls) \<and>
          fr = pair_up sha old ! (i div 2) \<and> node_hash sha sr p = pair_up sha ls ! (i div 2)"
          by (rule ih [where path' = ps])
            (use F ev False less.prems(5,9,10,13,14) p in \<open>simp_all add: path climb_Cons_even hashes_def node_hash_def
              climb_inputs.simps [of sha i s] climb_left_inputs.simps [of sha i s]\<close>)
        have "node_input sr p \<in> X"
          using less.prems(13) ev F False by (simp add: path climb_inputs.simps [of sha i s])
        moreover have "length sr = length (ls ! i)"
          using p(2) hashes_nth [OF less.prems(6), of i] less.prems(1,3) by simp
        ultimately have "sr = ls ! i" using node_inj [OF less.prems(15) _ mem] up l by metis
        then show ?thesis using up below o' tk by simp
      qed
    next
      case od: False
      obtain p ps where path: "path = p # ps"
        using less.prems(9) False by (cases path) (auto simp: climb_Nil)
      have p: "length p = HASH_SIZE" "length sr = HASH_SIZE" "hashes ps" "length fr = HASH_SIZE"
        using less.prems(8) by (simp_all add: path hashes_def)
      have idx: "2 * (i div 2) = i - 1" "2 * (i div 2) + 1 = i" using od by (auto elim!: oddE)
      have l: "pair_up sha ls ! (i div 2) = node_hash sha (ls ! (i - 1)) (ls ! i)"
        "node_input (ls ! (i - 1)) (ls ! i) \<in> X"
        using pair_up_nth [of "i div 2" ls sha] level_inputs_nth [of "i div 2" ls] less.prems(1,3) tin(1) idx
        by auto
      have o': "pair_up sha old ! (i div 2) = node_hash sha (old ! (i - 1)) (old ! i)"
        "node_input (old ! (i - 1)) (old ! i) \<in> X"
        using pair_up_nth [of "i div 2" old sha] level_inputs_nth [of "i div 2" old] less.prems(4) old idx
        by auto
      have up: "take (i div 2) (pair_up sha old) = take (i div 2) (pair_up sha ls) \<and>
        node_hash sha p fr = pair_up sha old ! (i div 2) \<and> node_hash sha p sr = pair_up sha ls ! (i div 2)"
        by (rule ih [where path' = ps])
          (use od False less.prems(5,9,10,13,14) p in \<open>simp_all add: path climb_Cons_odd hashes_def node_hash_def
            climb_inputs.simps [of sha i s] climb_left_inputs.simps [of sha i s]\<close>)
      have "node_input p fr \<in> X" "node_input p sr \<in> X"
        using less.prems(13,14) od False
        by (simp_all add: path climb_inputs.simps [of sha i s] climb_left_inputs.simps [of sha i s])
      moreover have "length p = length (ls ! (i - 1))" "length p = length (old ! (i - 1))"
        using p(1) hashes_nth [OF less.prems(6), of "i - 1"] hashes_nth [OF less.prems(7), of "i - 1"] less.prems(1,3,4)
        by simp_all
      ultimately have eq: "p = ls ! (i - 1) \<and> sr = ls ! i" "p = old ! (i - 1) \<and> fr = old ! i"
        using node_inj [OF less.prems(15) _ l(2)] node_inj [OF less.prems(15) _ o'(2)] l(1) o'(1) up by metis+
      have "take i old = take (i - 1) old @ [old ! (i - 1)]" "take i ls = take (i - 1) ls @ [ls ! (i - 1)]"
        using take_Suc_conv_app_nth [of "i - 1" old] take_Suc_conv_app_nth [of "i - 1" ls] less.prems(1,3,4) od
        by (simp_all add: odd_pos)
      then show ?thesis using below up eq idx(1) by simp
    qed
  qed
qed

end
