(* ===== verification/Merkle_Consistency.thy ===== *)
theory Merkle_Consistency
  imports Merkle_Verify
begin

section \<open>Consistency proofs between two logs\<close>

text \<open>
  A consistency proof starts some levels above the leaves: where the old size stops being
  even. \<open>levels_up\<close> climbs there; the old log is a prefix of the new one exactly when its
  level is. Two logs of one size with one root are equal, unless the hash clashes.
\<close>

fun levels_up :: "(bytes \<Rightarrow> hash) \<Rightarrow> nat \<Rightarrow> hash list \<Rightarrow> hash list" where
  "levels_up sha 0 ls = ls"
| "levels_up sha (Suc t) ls = levels_up sha t (pair_up sha ls)"

lemma pair_up_short: "length ls < 2 \<Longrightarrow> pair_up sha ls = ls"
  by (cases ls; cases "tl ls") auto

lemma length_levels_up: "0 < length ls \<Longrightarrow> length (levels_up sha t ls) = (length ls - 1) div 2 ^ t + 1"
proof (induction t arbitrary: ls)
  case (Suc t)
  have "length (pair_up sha ls) - 1 = (length ls - 1) div 2" using Suc.prems by (cases "length ls") simp_all
  then show ?case using Suc.IH [of "pair_up sha ls"] Suc.prems by (simp add: div_mult2_eq)
qed simp

lemma tree_hash_levels_up: "length ls \<le> 2 ^ 64 \<Longrightarrow> tree_hash sha (levels_up sha t ls) = tree_hash sha ls"
proof (induction t arbitrary: ls)
  case (Suc t)
  have "tree_hash sha (pair_up sha ls) = tree_hash sha ls"
    using tree_hash_pair_up [of ls sha] pair_up_short [of ls sha] Suc.prems by (cases "2 \<le> length ls") auto
  moreover have "length (pair_up sha ls) \<le> 2 ^ 64" using Suc.prems by simp
  ultimately show ?case using Suc.IH by simp
qed simp

lemma take_levels_up: "take j (levels_up sha t ls) = levels_up sha t (take (j * 2 ^ t) ls)"
proof (induction t arbitrary: ls)
  case (Suc t)
  then show ?case using take_pair_up [of "j * 2 ^ t" sha ls] by (simp add: mult.left_commute)
qed simp

lemma tree_proof_levels_up:
  "0 < j \<Longrightarrow> j * 2 ^ t \<le> length ls \<Longrightarrow> length ls \<le> 2 ^ 64 \<Longrightarrow>
   tree_proof sha (j * 2 ^ t) ls c = tree_proof sha j (levels_up sha t ls) c"
proof (induction t arbitrary: ls)
  case (Suc t)
  have "tree_proof sha (j * 2 ^ Suc t) ls c = tree_proof sha (j * 2 ^ t) (pair_up sha ls) c"
    using tree_proof_even [of "j * 2 ^ Suc t" ls sha c] Suc.prems by simp
  moreover have "j * 2 ^ t \<le> length (pair_up sha ls)" "length (pair_up sha ls) \<le> 2 ^ 64"
    using Suc.prems by auto
  ultimately show ?case using Suc.IH [of "pair_up sha ls"] Suc.prems(1) by simp
qed simp

lemma tree_inputs_levels_up: "set (tree_inputs sha (levels_up sha t ls)) \<subseteq> set (tree_inputs sha ls)"
proof (induction t arbitrary: ls)
  case (Suc t)
  have "set (tree_inputs sha (pair_up sha ls)) \<subseteq> set (tree_inputs sha ls)"
    using pair_up_short [of ls sha] by (cases "length ls < 2") (auto simp: tree_inputs.simps [of sha ls])
  then show ?case using Suc [of "pair_up sha ls"] by auto
qed simp

lemma hashes_levels_up: "\<forall>x. length (sha x) = HASH_SIZE \<Longrightarrow> hashes ls \<Longrightarrow> hashes (levels_up sha t ls)"
  by (induction t arbitrary: ls) (simp_all add: hashes_pair_up)

lemma level_in_tree: "set (level_inputs ls) \<subseteq> set (tree_inputs sha ls)"
proof (cases "length ls < 2")
  case True
  then show ?thesis by (cases ls; cases "tl ls") auto
qed (simp add: tree_inputs.simps [of sha ls])

lemma tree_inputs_up: "set (tree_inputs sha (pair_up sha ls)) \<subseteq> set (tree_inputs sha ls)"
  using tree_inputs_levels_up [of sha 1 ls] by simp

lemma tree_inputs_sub: "set (tree_inputs sha ls) \<subseteq> X \<Longrightarrow> set (tree_inputs sha (pair_up sha ls)) \<subseteq> X"
  using tree_inputs_up by (rule subset_trans)

text \<open>The inputs of the lowest levels.\<close>

fun low_inputs :: "(bytes \<Rightarrow> hash) \<Rightarrow> nat \<Rightarrow> hash list \<Rightarrow> bytes list" where
  "low_inputs sha 0 ls = []"
| "low_inputs sha (Suc t) ls = level_inputs ls @ low_inputs sha t (pair_up sha ls)"

lemma low_inputs_in_tree: "set (tree_inputs sha ls) \<subseteq> X \<Longrightarrow> set (low_inputs sha t ls) \<subseteq> X"
proof (induction t arbitrary: ls)
  case (Suc t)
  then show ?case using tree_inputs_sub [OF Suc.prems] level_in_tree [of ls sha] by auto
qed simp

lemma low_inputs_take: "set (low_inputs sha t (take (j * 2 ^ t) ls)) \<subseteq> set (low_inputs sha t ls)"
proof (induction t arbitrary: ls)
  case (Suc t)
  have e: "j * 2 ^ Suc t = 2 * (j * 2 ^ t)" by simp
  show ?case
    unfolding e
    using Suc [of "pair_up sha ls"] level_inputs_take [of "j * 2 ^ t" ls] take_pair_up [of "j * 2 ^ t" sha ls]
    by auto
qed simp

lemma levels_up_inj:
  assumes "length xs = length ys" and "2 ^ t dvd length xs" and "levels_up sha t xs = levels_up sha t ys"
    and "\<forall>x. length (sha x) = HASH_SIZE" and "hashes xs" and "hashes ys"
    and "set (low_inputs sha t xs) \<subseteq> X" and "set (low_inputs sha t ys) \<subseteq> X" and "\<not> clash sha X"
  shows "xs = ys"
  using assms
proof (induction t arbitrary: xs ys)
  case (Suc t)
  have ev: "even (length xs)" using Suc.prems(2) by (metis dvd_mult_left power_Suc)
  obtain q where "length xs = 2 ^ Suc t * q" using Suc.prems(2) by (elim dvdE)
  then have "(length xs + 1) div 2 = 2 ^ t * q" by simp
  then have dv: "2 ^ t dvd length (pair_up sha xs)" by simp
  have "pair_up sha xs = pair_up sha ys"
    by (rule Suc.IH) (use Suc.prems dv in \<open>simp_all add: hashes_pair_up\<close>)
  then show ?case
    using pair_up_inj [of xs ys sha X] Suc.prems ev by auto
qed simp

text \<open>Equal roots of equally long logs.\<close>

lemma tree_hash_inj:
  assumes "length xs = length ys" and "length xs \<le> 2 ^ 64" and "tree_hash sha xs = tree_hash sha ys"
    and "\<forall>x. length (sha x) = HASH_SIZE" and "hashes xs" and "hashes ys"
    and "set (tree_inputs sha xs) \<subseteq> X" and "set (tree_inputs sha ys) \<subseteq> X" and "\<not> clash sha X"
  shows "xs = ys"
  using assms
proof (induction "length xs" arbitrary: xs ys rule: less_induct)
  case less
  show ?case
  proof (cases "2 \<le> length xs")
    case False
    then consider "xs = []" "ys = []" | x y where "xs = [x]" "ys = [y]"
      using less.prems(1) by (cases xs; cases ys; cases "tl xs"; cases "tl ys") auto
    then show ?thesis using less.prems(3) by cases simp_all
  next
    case True
    have up: "pair_up sha xs = pair_up sha ys"
      by (rule less.hyps) (use less.prems True tree_hash_pair_up [of xs sha] tree_hash_pair_up [of ys sha]
          in \<open>simp_all add: hashes_pair_up tree_inputs_sub\<close>)
    let ?j = "length xs div 2"
    have pairs: "take (2 * ?j) xs = take (2 * ?j) ys"
    proof (rule pair_up_inj [of _ _ sha X])
      show "pair_up sha (take (2 * ?j) xs) = pair_up sha (take (2 * ?j) ys)" using up by (simp flip: take_pair_up)
      show "set (level_inputs (take (2 * ?j) xs)) \<subseteq> X" "set (level_inputs (take (2 * ?j) ys)) \<subseteq> X"
        using level_inputs_take level_in_tree less.prems(7,8) by blast+
    qed (use less.prems in \<open>auto intro: hashes_take\<close>)
    show ?thesis
    proof (cases "even (length xs)")
      case True
      then show ?thesis using pairs less.prems(1) by simp
    next
      case False
      then have l: "length xs = 2 * ?j + 1" by simp
      then have "xs ! (2 * ?j) = ys ! (2 * ?j)"
        using pair_up_last [OF l, of sha] pair_up_last [of ys ?j sha] up less.prems(1) by metis
      moreover have "xs = take (2 * ?j) xs @ [xs ! (2 * ?j)]" "ys = take (2 * ?j) ys @ [ys ! (2 * ?j)]"
        using l less.prems(1) take_Suc_conv_app_nth [of "2 * ?j" xs] take_Suc_conv_app_nth [of "2 * ?j" ys] by simp_all
      ultimately show ?thesis using pairs by metis
    qed
  qed
qed

subsection \<open>The level where a proof starts\<close>

lemma odd_up_levels:
  assumes "0 < m"
  obtains t f where "m = (f + 1) * 2 ^ t" and "even f" and "\<forall>s. odd_up (m - 1) s = (f, s div 2 ^ t)"
    and "is_power_of_two m \<longleftrightarrow> f = 0"
proof -
  have "\<exists>t f. m = (f + 1) * 2 ^ t \<and> even f \<and> (\<forall>s. odd_up (m - 1) s = (f, s div 2 ^ t))"
    using assms
  proof (induction m rule: less_induct)
    case (less m)
    show ?case
    proof (cases "odd m")
      case True
      then have "m = (m - 1 + 1) * 2 ^ 0" "even (m - 1)" using less.prems by simp_all
      have "m = (m - 1 + 1) * 2 ^ 0 \<and> even (m - 1) \<and> (\<forall>s. odd_up (m - 1) s = (m - 1, s div 2 ^ 0))"
        using True less.prems by (simp add: odd_up.simps [of "m - Suc 0"])
      then show ?thesis by blast
    next
      case False
      then obtain t f where h: "m div 2 = (f + 1) * 2 ^ t" "even f" "\<forall>s. odd_up (m div 2 - 1) s = (f, s div 2 ^ t)"
        using less.IH [of "m div 2"] less.prems by fastforce
      have "(m - 1) div 2 = m div 2 - 1" "odd (m - 1)" using False less.prems by (auto elim!: evenE)
      then have "odd_up (m - 1) s = (f, s div 2 ^ Suc t)" for s
        using h(3) by (subst odd_up.simps) (simp add: div_mult2_eq)
      moreover have "m = (f + 1) * 2 ^ Suc t" using h(1) False by (auto elim!: evenE)
      ultimately show ?thesis using h(2) by blast
    qed
  qed
  then obtain t f where h: "m = (f + 1) * 2 ^ t" "even f" "\<forall>s. odd_up (m - 1) s = (f, s div 2 ^ t)" by blast
  have "is_power_of_two m \<longleftrightarrow> f = 0"
  proof
    assume "is_power_of_two m"
    then obtain k where k: "(f + 1) * 2 ^ t = 2 ^ k" unfolding h(1) is_power_of_two_iff by blast
    have "f + 1 dvd 2 ^ k" unfolding k [symmetric] by (rule dvd_triv_left)
    moreover have "coprime (f + 1) (2 ^ k)" by (intro coprime_power_right_iff [THEN iffD2] disjI1) (use h(2) in simp)
    ultimately have "is_unit (f + 1)" by (intro coprime_common_divisor [of "f + 1" "2 ^ k"] dvd_refl)
    then show "f = 0" by simp
  next
    assume "f = 0"
    then show "is_power_of_two m" unfolding h(1) by (auto simp: is_power_of_two_iff)
  qed
  then show thesis using that h by blast
qed

lemma start_level:
  assumes "m = (f + 1) * 2 ^ t" and "m < length ls"
  shows "length (levels_up sha t ls) = (length ls - 1) div 2 ^ t + 1" and "f < (length ls - 1) div 2 ^ t"
proof -
  show "length (levels_up sha t ls) = (length ls - 1) div 2 ^ t + 1"
    by (rule length_levels_up) (use assms(2) in linarith)
  have "f + 1 \<le> (length ls - 1) div 2 ^ t"
    using assms by (simp only: less_eq_div_iff_mult_less_eq zero_less_power zero_less_numeral)
  then show "f < (length ls - 1) div 2 ^ t" by simp
qed

lemma old_level:
  assumes "length old = (f + 1) * 2 ^ t"
  shows "length (levels_up sha t old) = f + 1"
proof -
  have "(f + 1) * 2 ^ t - 1 = f * 2 ^ t + (2 ^ t - 1)" by (simp add: add.commute)
  moreover have "(f * 2 ^ t + (2 ^ t - 1)) div 2 ^ t = f"
  proof (rule div_nat_eqI)
    have "0 < (2 :: nat) ^ t" by simp
    then show "2 ^ t * f \<le> f * 2 ^ t + (2 ^ t - 1)" "f * 2 ^ t + (2 ^ t - 1) < 2 ^ t * Suc f"
      unfolding mult_Suc_right mult.commute [of f] by linarith+
  qed
  ultimately show ?thesis using length_levels_up [of old sha t] assms by simp
qed


subsection \<open>The verifier, at the level where it starts\<close>

definition start_path :: "nat \<Rightarrow> hash \<Rightarrow> hash list \<Rightarrow> hash list" where
  "start_path m first_hash path = (if is_power_of_two m then [first_hash] else []) @ path"

lemma verify_consistency_climb:
  assumes "0 < m" and "m < n" and "odd_up (m - 1) (n - 1) = (f, s)" and "f \<le> s"
  shows "verify_consistency sha m n old_root root path \<longleftrightarrow> path \<noteq> [] \<and>
    (case start_path m old_root path of
       [] \<Rightarrow> False
     | r # rs \<Rightarrow> climb_left sha f s r rs = Some old_root \<and> climb sha f s r rs = Some root)"
proof (cases "path = []")
  case True
  then show ?thesis using assms by (simp add: verify_consistency_def)
next
  case False
  then have "start_path m old_root path \<noteq> []" by (simp add: start_path_def)
  then obtain r rs where full: "start_path m old_root path = r # rs" by (auto simp: neq_Nil_conv)
  then have "verify_consistency sha m n old_root root path \<longleftrightarrow>
      consistency_steps sha f s r r rs = Some (0, old_root, root)"
    using assms(1-3) False
    by (auto simp: verify_consistency_def start_path_def Let_def split: option.splits)
  then show ?thesis using consistency_climb [OF assms(4)] full False by simp
qed

lemma verify_consistency_complete:
  assumes "0 < m" and "m < length ls" and "length ls \<le> 2 ^ 64"
  shows "verify_consistency sha m (length ls) (tree_hash sha (take m ls)) (tree_hash sha ls) (tree_proof sha m ls True)"
proof -
  obtain t f where m: "m = (f + 1) * 2 ^ t" "even f" "\<forall>s. odd_up (m - 1) s = (f, s div 2 ^ t)"
    "is_power_of_two m \<longleftrightarrow> f = 0"
    by (rule odd_up_levels [OF assms(1)])
  let ?L = "levels_up sha t ls" and ?O = "levels_up sha t (take m ls)" and ?s = "(length ls - 1) div 2 ^ t"
  have L: "length ?L = ?s + 1" "f < ?s" using start_level [OF m(1) assms(2)] by simp_all
  have O: "?O = take (f + 1) ?L" unfolding m(1) by (rule take_levels_up [symmetric])
  then have O: "?O = take (f + 1) ?L" "length ?O = f + 1" using L by simp_all
  have roots: "tree_hash sha ?L = tree_hash sha ls" "tree_hash sha ?O = tree_hash sha (take m ls)"
    using tree_hash_levels_up assms by simp_all
  have fit: "length ?L \<le> 2 ^ 64"
  proof -
    have "?s \<le> length ls - 1" by (rule div_le_dividend)
    then show ?thesis using L(1) assms by linarith
  qed
  have "tree_proof sha m ls True = tree_proof sha (f + 1) ?L True"
    unfolding m(1) by (rule tree_proof_levels_up) (use assms m(1) in simp_all)
  then have path: "tree_proof sha m ls True = (if f = 0 then [] else [?L ! f]) @ tree_path sha f ?L"
    using tree_proof_odd [of "f + 1" ?L sha True] m(2) L fit by simp
  have "?O ! f = ?L ! f" using O L by simp
  then have "f = 0 \<Longrightarrow> tree_hash sha (take m ls) = ?L ! f"
    using O(2) roots(2) by (cases ?O) auto
  then have start: "start_path m (tree_hash sha (take m ls)) (tree_proof sha m ls True) = ?L ! f # tree_path sha f ?L"
    by (simp add: start_path_def path m(4))
  have "climb sha f ?s (?L ! f) (tree_path sha f ?L) = Some (tree_hash sha ls)"
    using climb_complete [OF L(1) fit, of f sha] L(2) roots(1) by simp
  moreover have "climb_left sha f ?s (?L ! f) (tree_path sha f ?L) = Some (tree_hash sha (take m ls))"
    using climb_left_complete [OF L(1) fit, of f ?O sha] L(2) O \<open>?O ! f = ?L ! f\<close> roots(2) by simp
  moreover have "tree_proof sha m ls True \<noteq> []"
  proof
    assume "tree_proof sha m ls True = []"
    then have "climb sha f ?s (?L ! f) [] = Some (tree_hash sha ls)"
      using path calculation(1) by (auto split: if_splits)
    then show False using L(2) by (simp add: climb_Nil)
  qed
  ultimately show ?thesis
    using verify_consistency_climb [OF assms(1,2) spec [OF m(3)] less_imp_le [OF L(2)]] start by simp
qed

text \<open>The node hashes computed by a verification.\<close>

definition consistency_inputs :: "(bytes \<Rightarrow> hash) \<Rightarrow> nat \<Rightarrow> nat \<Rightarrow> hash \<Rightarrow> hash list \<Rightarrow> bytes list" where
  "consistency_inputs sha m n old_root path =
     (let (f, s) = odd_up (m - 1) (n - 1); full = start_path m old_root path
      in climb_inputs sha f s (hd full) (tl full) @ climb_left_inputs sha f s (hd full) (tl full))"

lemma verify_consistency_prefix:
  assumes "0 < length old" and "length old < length ls" and "length ls \<le> 2 ^ 64"
    and "verify_consistency sha (length old) (length ls) (tree_hash sha old) (tree_hash sha ls) path"
    and "\<forall>x. length (sha x) = HASH_SIZE" and "hashes ls" and "hashes old" and "hashes path"
    and "set (tree_inputs sha ls) \<subseteq> X" and "set (tree_inputs sha old) \<subseteq> X"
    and "set (consistency_inputs sha (length old) (length ls) (tree_hash sha old) path) \<subseteq> X"
    and "\<not> clash sha X"
  shows "old = take (length old) ls"
proof -
  let ?m = "length old"
  obtain t f where m: "?m = (f + 1) * 2 ^ t" "even f" "\<forall>s. odd_up (?m - 1) s = (f, s div 2 ^ t)"
    "is_power_of_two ?m \<longleftrightarrow> f = 0"
    by (rule odd_up_levels [OF assms(1)])
  let ?L = "levels_up sha t ls" and ?O = "levels_up sha t old" and ?s = "(length ls - 1) div 2 ^ t"
  have L: "length ?L = ?s + 1" "f < ?s" using start_level [OF m(1) assms(2)] by simp_all
  have O: "length ?O = f + 1" by (rule old_level [OF m(1)])
  have fit: "length ?L \<le> 2 ^ 64"
  proof -
    have "?s \<le> length ls - 1" by (rule div_le_dividend)
    then show ?thesis using L(1) assms(2,3) by linarith
  qed
  have roots: "tree_hash sha ?L = tree_hash sha ls" "tree_hash sha ?O = tree_hash sha old"
    using tree_hash_levels_up assms(2,3) by simp_all
  have hup: "hashes ?L" "hashes ?O" using hashes_levels_up assms(5-7) by auto
  obtain r rs where full: "start_path ?m (tree_hash sha old) path = r # rs"
    and c: "climb_left sha f ?s r rs = Some (tree_hash sha old)" "climb sha f ?s r rs = Some (tree_hash sha ls)"
    using verify_consistency_climb [OF assms(1,2) spec [OF m(3)] less_imp_le [OF L(2)]] assms(4)
    by (auto split: list.splits)
  have "length (tree_hash sha old) = HASH_SIZE" if "f = 0"
    using roots(2) O that hup(2) by (cases ?O) (auto simp: hashes_def)
  then have "hashes (start_path ?m (tree_hash sha old) path)"
    using assms(8) m(4) by (auto simp: start_path_def hashes_def)
  then have h: "hashes (r # r # rs)" by (simp add: full hashes_def)
  have inp: "set (climb_inputs sha f ?s r rs) \<subseteq> X" "set (climb_left_inputs sha f ?s r rs) \<subseteq> X"
    using assms(11) unfolding consistency_inputs_def spec [OF m(3)] by (simp_all add: full)
  have "take f ?O = take f ?L \<and> r = ?O ! f \<and> r = ?L ! f"
  proof (rule consistency_sound [OF L(1) fit less_imp_le [OF L(2)] O assms(5) hup h _ _ _ _ inp assms(12)])
    show "climb sha f ?s r rs = Some (tree_hash sha ?L)" "climb_left sha f ?s r rs = Some (tree_hash sha ?O)"
      using c roots by simp_all
    show "set (tree_inputs sha ?L) \<subseteq> X" using tree_inputs_levels_up assms(9) by (rule subset_trans)
    show "set (tree_inputs sha ?O) \<subseteq> X" using tree_inputs_levels_up assms(10) by (rule subset_trans)
  qed
  moreover have "?O = take f ?O @ [?O ! f]" using take_Suc_conv_app_nth [of f ?O] O by simp
  moreover have "take (f + 1) ?L = take f ?L @ [?L ! f]" using take_Suc_conv_app_nth [of f ?L] L by simp
  ultimately have "?O = take (f + 1) ?L" by metis
  then have "levels_up sha t old = levels_up sha t (take ?m ls)"
    using O take_levels_up [of "f + 1" sha t ls] m(1) by simp
  moreover have "set (low_inputs sha t (take ?m ls)) \<subseteq> X"
    unfolding m(1) using low_inputs_take low_inputs_in_tree [OF assms(9)] by (rule subset_trans)
  moreover have "set (low_inputs sha t old) \<subseteq> X" by (rule low_inputs_in_tree [OF assms(10)])
  moreover have "2 ^ t dvd ?m" unfolding m(1) by simp
  ultimately show ?thesis
    using levels_up_inj [of old "take ?m ls" t sha X] assms(2,5-7,12) hashes_take [of ls ?m] by simp
qed

end
