(* ===== verification/Merkle_Properties.thy ===== *)
theory Merkle_Properties
  imports Merkle_Fold Merkle_Consistency
begin

section \<open>Merkle tree properties\<close>

text \<open>
  What the tree of services/src/merkle.rs promises, over the entries of a log: \<open>log_hash\<close> is
  the RFC's \<open>MTH\<close> and \<open>log_inputs\<close> are the inputs it hashes. The hash is any function; where a
  length matters its answers are 32 bytes long. \<open>pad_hash\<close> stands for it in the witnesses.
\<close>

definition log_hash :: "(bytes \<Rightarrow> hash) \<Rightarrow> bytes list \<Rightarrow> hash" where
  "log_hash sha es = tree_hash sha (map (leaf_hash sha) es)"

definition log_inputs :: "(bytes \<Rightarrow> hash) \<Rightarrow> bytes list \<Rightarrow> bytes list" where
  "log_inputs sha es = map (\<lambda>e. LEAF_PREFIX # e) es @ tree_inputs sha (map (leaf_hash sha) es)"

definition pad_hash :: "bytes \<Rightarrow> hash" where
  "pad_hash x = take 32 (x @ replicate 32 (char_of (0 :: nat)))"

lemma pad_hash_length: "\<forall>x. length (pad_hash x) = HASH_SIZE"
proof
  fix x
  show "length (pad_hash x) = HASH_SIZE" by (cases "length x \<le> 32") (simp_all add: pad_hash_def HASH_SIZE_def)
qed

lemma hashes_leaves: "\<forall>x. length (sha x) = HASH_SIZE \<Longrightarrow> hashes (map (leaf_hash sha) es)"
  by (simp add: hashes_def leaf_hash_def list_all_iff)

lemma leaf_inj: "\<not> clash sha X \<Longrightarrow> LEAF_PREFIX # x \<in> X \<Longrightarrow> LEAF_PREFIX # y \<in> X \<Longrightarrow>
    leaf_hash sha x = leaf_hash sha y \<Longrightarrow> x = y"
  by (auto simp: clash_def leaf_hash_def)

lemma leaves_inj:
  "\<not> clash sha X \<Longrightarrow> (\<lambda>e. LEAF_PREFIX # e) ` set es \<subseteq> X \<Longrightarrow> (\<lambda>e. LEAF_PREFIX # e) ` set ds \<subseteq> X \<Longrightarrow>
    map (leaf_hash sha) es = map (leaf_hash sha) ds \<Longrightarrow> es = ds"
proof (induction es arbitrary: ds)
  case (Cons e es)
  obtain d ds' where ds: "ds = d # ds'" using Cons.prems(4) by (cases ds) simp_all
  have "e = d" by (rule leaf_inj [OF Cons.prems(1)]) (use Cons.prems(2-4) in \<open>simp_all add: ds\<close>)
  moreover have "es = ds'" by (rule Cons.IH) (use Cons.prems in \<open>simp_all add: ds\<close>)
  ultimately show ?case by (simp add: ds)
qed simp

text \<open>The built tree, and the contract it keeps.\<close>

lemma built:
  assumes "length es \<le> 2 ^ 64"
  obtains t where "from_entries sha es = (Inr t :: 'e store_fault + merkle_tree)"
    and "tree_len t = length es" and "node_source sha (tree_node t :: 'f node_source) (map (leaf_hash sha) es)"
proof -
  obtain t where t: "from_entries sha es = (Inr t :: 'e store_fault + _)" "tree_ok sha (map (leaf_hash sha) es) t"
    using from_entries_ok [OF assms] by blast
  then show thesis using that [of t] tree_ok_len [OF t(2)] tree_source [OF t(2)] by simp
qed

lemma take_leaves: "take n (map (leaf_hash sha) es) = map (leaf_hash sha) (take n es)"
  by (simp add: take_map)

text \<open>Building the tree of a log never fails, and at every size it has had its root is the
  Merkle tree hash of the first entries.\<close>

theorem tree_roots_are_rfc:
  assumes "length es \<le> 2 ^ 64" and "n \<le> length es"
  shows "\<exists>t. from_entries sha es = (Inr t :: unit store_fault + _) \<and> tree_len t = length es \<and>
    root_at sha t n = (Inr (log_hash sha (take n es)) :: unit tree_error + _) \<and>
    tree_root sha t = (Inr (log_hash sha es) :: unit store_fault + _)"
proof -
  obtain t where t: "from_entries sha es = (Inr t :: unit store_fault + _)" "tree_len t = length es"
    and src: "node_source sha (tree_node t :: unit node_source) (map (leaf_hash sha) es)"
    by (rule built [OF assms(1)])
  have "root_at sha t n = (Inr (log_hash sha (take n es)) :: unit tree_error + _)" if "n \<le> length es" for n
    using node_source.mth_ok [OF src, of n] that t(2) by (simp add: root_at_def log_hash_def take_leaves)
  from this [OF assms(2)] this [of "length es"] show ?thesis using t by (simp add: tree_root_def)
qed

theorem tree_roots_are_rfc_witness:
  "\<exists>t. from_entries pad_hash [''a'', ''b'', ''c''] = (Inr t :: unit store_fault + _) \<and> tree_len t = length [''a'', ''b'', ''c''] \<and>
    root_at pad_hash t 2 = (Inr (log_hash pad_hash (take 2 [''a'', ''b'', ''c''])) :: unit tree_error + _) \<and>
    tree_root pad_hash t = (Inr (log_hash pad_hash [''a'', ''b'', ''c'']) :: unit store_fault + _)"
  by (rule tree_roots_are_rfc) simp_all

text \<open>The inclusion proof the tree builds for an entry is accepted against the root of its size.\<close>

theorem entry_proofs_verify:
  assumes "length es \<le> 2 ^ 64" and "i < n" and "n \<le> length es"
  shows "\<exists>t path. from_entries sha es = (Inr t :: unit store_fault + _) \<and>
    inclusion_proof sha t i n = (Inr path :: unit tree_error + _) \<and>
    verify_entry_inclusion sha i n (es ! i) path (log_hash sha (take n es))"
proof -
  obtain t where t: "from_entries sha es = (Inr t :: unit store_fault + _)" "tree_len t = length es"
    and src: "node_source sha (tree_node t :: unit node_source) (map (leaf_hash sha) es)"
    by (rule built [OF assms(1)])
  let ?ls = "map (leaf_hash sha) (take n es)"
  have "inclusion_proof sha t i n = (Inr (tree_path sha i ?ls) :: unit tree_error + _)"
    using node_source.path_of_ok [OF src assms(2)] assms(3) t(2) by (simp add: inclusion_proof_def take_leaves)
  moreover have "climb sha i (n - 1) (?ls ! i) (tree_path sha i ?ls) = Some (tree_hash sha ?ls)"
    by (rule climb_complete) (use assms in auto)
  ultimately show ?thesis
    using t(1) verify_inclusion_climb [OF assms(2)] assms
    by (simp add: verify_entry_inclusion_def log_hash_def)
qed

theorem entry_proofs_verify_witness:
  "\<exists>t path. from_entries pad_hash [''a'', ''b'', ''c''] = (Inr t :: unit store_fault + _) \<and>
    inclusion_proof pad_hash t 1 3 = (Inr path :: unit tree_error + _) \<and>
    verify_entry_inclusion pad_hash 1 3 ([''a'', ''b'', ''c''] ! 1) path (log_hash pad_hash (take 3 [''a'', ''b'', ''c'']))"
  by (rule entry_proofs_verify) simp_all

text \<open>The proof between two sizes, from any store that holds the nodes.\<close>

lemma source_growth:
  assumes src: "node_source sha node (map (leaf_hash sha) es)" and "m \<le> n" and "n \<le> length es" and "length es \<le> 2 ^ 64"
  shows "\<exists>path. proof_of sha node (length es) m n = Inr path \<and>
    verify_consistency sha m n (log_hash sha (take m es)) (log_hash sha (take n es)) path"
proof -
  consider "m = 0" | "m = n" "0 < m" | "0 < m" "m < n" using assms(2) by linarith
  then show ?thesis
  proof cases
    case 1
    then show ?thesis
      using assms(3) by (simp add: proof_of_def checked_size_def verify_consistency_def log_hash_def tree_hash.simps [of sha "[]"])
  next
    case 2
    then show ?thesis using assms(3) by (simp add: proof_of_def checked_size_def verify_consistency_def)
  next
    case 3
    let ?ls = "map (leaf_hash sha) (take n es)"
    have "proof_of sha node (length es) m n = Inr (tree_proof sha m ?ls True)"
      using node_source.proof_of_ok [OF src 3] assms(3) by (simp add: take_leaves)
    moreover have "take m ?ls = map (leaf_hash sha) (take m es)" using 3 by (simp add: take_map min_absorb1)
    ultimately show ?thesis
      using verify_consistency_complete [of m ?ls sha] 3 assms by (simp add: log_hash_def)
  qed
qed

text \<open>The consistency proof the tree builds between two of its sizes is accepted against
  the two roots.\<close>

theorem growth_proofs_verify:
  assumes "length es \<le> 2 ^ 64" and "m \<le> n" and "n \<le> length es"
  shows "\<exists>t path. from_entries sha es = (Inr t :: unit store_fault + _) \<and>
    consistency_proof sha t m n = (Inr path :: unit tree_error + _) \<and>
    verify_consistency sha m n (log_hash sha (take m es)) (log_hash sha (take n es)) path"
proof -
  obtain t where t: "from_entries sha es = (Inr t :: unit store_fault + _)" "tree_len t = length es"
    and src: "node_source sha (tree_node t :: unit node_source) (map (leaf_hash sha) es)"
    by (rule built [OF assms(1)])
  then show ?thesis using source_growth [OF src assms(2,3,1)] by (auto simp: consistency_proof_def)
qed

theorem growth_proofs_verify_witness:
  "\<exists>t path. from_entries pad_hash [''a'', ''b'', ''c''] = (Inr t :: unit store_fault + _) \<and>
    consistency_proof pad_hash t 2 3 = (Inr path :: unit tree_error + _) \<and>
    verify_consistency pad_hash 2 3 (log_hash pad_hash (take 2 [''a'', ''b'', ''c'']))
      (log_hash pad_hash (take 3 [''a'', ''b'', ''c''])) path"
  by (rule growth_proofs_verify) simp_all

text \<open>Asked beyond its size, for an entry outside the size, or backwards, the tree answers
  with the named error; otherwise it answers. No walk fails or panics.\<close>

theorem tree_errors_are_named:
  assumes "length es \<le> 2 ^ 64"
  shows "\<exists>t. from_entries sha es = (Inr t :: unit store_fault + _) \<and>
    (length es < n \<longrightarrow> root_at sha t n = (Inl (ProofFault (UnknownTreeSize n (length es))) :: unit tree_error + _)) \<and>
    (inclusion_proof sha t i n :: unit tree_error + _) =
      (if length es < n then Inl (ProofFault (UnknownTreeSize n (length es)))
       else if n \<le> i then Inl (ProofFault (LeafOutOfRange i n))
       else Inr (tree_path sha i (map (leaf_hash sha) (take n es)))) \<and>
    (consistency_proof sha t m n :: unit tree_error + _) =
      (if length es < n then Inl (ProofFault (UnknownTreeSize n (length es)))
       else if n < m then Inl (ProofFault (BackwardsConsistency m n))
       else if m = 0 \<or> m = n then Inr []
       else Inr (tree_proof sha m (map (leaf_hash sha) (take n es)) True))"
proof -
  obtain t where t: "from_entries sha es = (Inr t :: unit store_fault + _)" "tree_len t = length es"
    and src: "node_source sha (tree_node t :: unit node_source) (map (leaf_hash sha) es)"
    by (rule built [OF assms(1)])
  have "i < n \<Longrightarrow> n \<le> length es \<Longrightarrow>
      inclusion_proof sha t i n = (Inr (tree_path sha i (map (leaf_hash sha) (take n es))) :: unit tree_error + _)"
    using node_source.path_of_ok [OF src, of i n] t(2) by (simp add: inclusion_proof_def take_leaves)
  moreover have "0 < m \<Longrightarrow> m < n \<Longrightarrow> n \<le> length es \<Longrightarrow>
      consistency_proof sha t m n = (Inr (tree_proof sha m (map (leaf_hash sha) (take n es)) True) :: unit tree_error + _)"
    using node_source.proof_of_ok [OF src, of m n] t(2) by (simp add: consistency_proof_def take_leaves)
  ultimately show ?thesis
    using t by (auto simp: root_at_def mth_def inclusion_proof_def path_of_def consistency_proof_def proof_of_def checked_size_def)
qed

theorem tree_errors_are_named_witness:
  "\<exists>t. from_entries pad_hash [''a''] = (Inr t :: unit store_fault + _) \<and>
    root_at pad_hash t 2 = (Inl (ProofFault (UnknownTreeSize 2 1)) :: unit tree_error + _) \<and>
    inclusion_proof pad_hash t 3 1 = (Inl (ProofFault (LeafOutOfRange 3 1)) :: unit tree_error + _)"
proof -
  have two: "length [''a''] \<le> 2 ^ 64" by simp
  obtain t where t: "from_entries pad_hash [''a''] = (Inr t :: unit store_fault + _)"
    "root_at pad_hash t 2 = (Inl (ProofFault (UnknownTreeSize 2 1)) :: unit tree_error + _)"
    using tree_errors_are_named [OF two, where n = 2 and sha = pad_hash] by auto
  obtain u where u: "from_entries pad_hash [''a''] = (Inr u :: unit store_fault + _)"
    "inclusion_proof pad_hash u 3 1 = (Inl (ProofFault (LeafOutOfRange 3 1)) :: unit tree_error + _)"
    using tree_errors_are_named [OF two, where n = 1 and i = 3 and sha = pad_hash] by auto
  have "t = u" using t(1) u(1) by simp
  then show ?thesis using t u by blast
qed

lemma entry_in_log:
  assumes "\<forall>x. length (sha x) = HASH_SIZE" and "length es \<le> 2 ^ 64" and "hashes path"
    and "verify_entry_inclusion sha i (length es) e path (log_hash sha es)"
  shows "i < length es \<and> (e = es ! i \<or>
    clash sha (set (log_inputs sha es @ (LEAF_PREFIX # e) #
      climb_inputs sha i (length es - 1) (leaf_hash sha e) path)))"
proof -
  let ?ls = "map (leaf_hash sha) es" and ?r = "leaf_hash sha e"
  let ?X = "set (log_inputs sha es @ (LEAF_PREFIX # e) # climb_inputs sha i (length es - 1) ?r path)"
  have i: "i < length es"
    using assms(4) by (auto simp: verify_entry_inclusion_def verify_inclusion_def split: if_splits)
  have acc: "climb sha i (length es - 1) ?r path = Some (tree_hash sha ?ls)"
    using assms(4) verify_inclusion_climb [OF i] by (simp add: verify_entry_inclusion_def log_hash_def)
  have "e = es ! i" if no: "\<not> clash sha ?X"
  proof -
    have "?r = ?ls ! i"
    proof (rule climb_sound [OF _ _ _ assms(1) hashes_leaves [OF assms(1)] _ acc _ _ no])
      show "hashes (?r # path)" using assms(1,3) by (simp add: hashes_def leaf_hash_def)
    qed (use i assms(2) in \<open>auto simp: log_inputs_def\<close>)
    then show ?thesis using leaf_inj [OF no, of e "es ! i"] i by (simp add: log_inputs_def)
  qed
  then show ?thesis using i by blast
qed

text \<open>C13: An accepted inclusion proof names the entry at that position of the log with that root,
  unless two different inputs the hash maps to one value are at hand, among those the
  verification and the log hash.\<close>

theorem accepted_entry_is_in_log:
  assumes "\<forall>x. length (sha x) = HASH_SIZE" and "length es \<le> 2 ^ 64" and "hashes path"
    and "verify_entry_inclusion sha i (length es) e path (log_hash sha es)"
  shows "i < length es \<and> (e = es ! i \<or>
    clash sha (set (log_inputs sha es @ (LEAF_PREFIX # e) #
      climb_inputs sha i (length es - 1) (leaf_hash sha e) path)))"
  using assms by (rule entry_in_log)

theorem accepted_entry_is_in_log_witness:
  "verify_entry_inclusion pad_hash 1 2 ''b'' [leaf_hash pad_hash ''a''] (log_hash pad_hash [''a'', ''b'']) \<and>
   1 < length [''a'', ''b''] \<and> (''b'' = [''a'', ''b''] ! 1 \<or>
    clash pad_hash (set (log_inputs pad_hash [''a'', ''b''] @ (LEAF_PREFIX # ''b'') #
      climb_inputs pad_hash 1 (length [''a'', ''b''] - 1) (leaf_hash pad_hash ''b'') [leaf_hash pad_hash ''a''])))"
proof -
  have v: "verify_entry_inclusion pad_hash 1 (length [''a'', ''b'']) ''b'' [leaf_hash pad_hash ''a'']
      (log_hash pad_hash [''a'', ''b''])"
    by (simp add: verify_entry_inclusion_def verify_inclusion_def log_hash_def tree_hash_node split_two_Suc
        edge_up.simps numeral_2_eq_2)
  moreover have "hashes [leaf_hash pad_hash ''a'']" using pad_hash_length by (simp add: hashes_def leaf_hash_def)
  ultimately show ?thesis
    using accepted_entry_is_in_log [OF pad_hash_length _ _ v] by (simp add: numeral_2_eq_2)
qed

text \<open>C14: An accepted consistency proof between the roots of two logs shows that the shorter is a
  prefix of the longer, unless the hash clashes on inputs of the verification and the logs.\<close>

theorem accepted_growth_is_append_only:
  assumes "\<forall>x. length (sha x) = HASH_SIZE" and "length es \<le> 2 ^ 64" and "hashes path"
    and "verify_consistency sha (length old) (length es) (log_hash sha old) (log_hash sha es) path"
  shows "old = take (length old) es \<or>
    clash sha (set (log_inputs sha es @ log_inputs sha old @
      consistency_inputs sha (length old) (length es) (log_hash sha old) path))"
proof -
  let ?X = "set (log_inputs sha es @ log_inputs sha old @
      consistency_inputs sha (length old) (length es) (log_hash sha old) path)"
  let ?ls = "map (leaf_hash sha) es" and ?os = "map (leaf_hash sha) old"
  have le: "length old \<le> length es" using assms(4) by (auto simp: verify_consistency_def split: if_splits)
  have inp: "set (tree_inputs sha ?ls) \<subseteq> ?X" "set (tree_inputs sha ?os) \<subseteq> ?X"
    "set (consistency_inputs sha (length old) (length es) (log_hash sha old) path) \<subseteq> ?X"
    "(\<lambda>e. LEAF_PREFIX # e) ` set old \<subseteq> ?X" "(\<lambda>e. LEAF_PREFIX # e) ` set es \<subseteq> ?X"
    by (auto simp: log_inputs_def)
  have "old = take (length old) es" if no: "\<not> clash sha ?X"
  proof -
    consider "old = []" | "old \<noteq> []" "length old = length es" | "old \<noteq> []" "length old < length es"
      using le by linarith
    then have "?os = map (leaf_hash sha) (take (length old) es)"
    proof cases
      case 2
      then have "tree_hash sha ?os = tree_hash sha ?ls" using assms(4) by (cases "es = []") (simp_all add: verify_consistency_def log_hash_def)
      then have "?os = ?ls"
        using tree_hash_inj [OF _ _ _ assms(1) hashes_leaves hashes_leaves inp(2,1) no] 2 assms(1,2) by simp
      then show ?thesis using 2 by simp
    next
      case 3
      have "?os = take (length ?os) ?ls"
        by (rule verify_consistency_prefix [OF _ _ _ _ assms(1) hashes_leaves hashes_leaves assms(3) inp(1,2) _ no])
          (use 3 assms inp(3) in \<open>simp_all add: log_hash_def\<close>)
      then show ?thesis by (simp add: take_map)
    qed simp
    moreover have "(\<lambda>e. LEAF_PREFIX # e) ` set (take (length old) es) \<subseteq> ?X"
      using inp(5) set_take_subset by (metis image_mono subset_trans)
    ultimately show ?thesis using leaves_inj [OF no inp(4)] by blast
  qed
  then show ?thesis by blast
qed

theorem accepted_growth_is_append_only_witness:
  "verify_consistency pad_hash 1 2 (log_hash pad_hash [''a'']) (log_hash pad_hash [''a'', ''b'']) [leaf_hash pad_hash ''b''] \<and>
   ([''a''] = take (length [''a'']) [''a'', ''b''] \<or>
    clash pad_hash (set (log_inputs pad_hash [''a'', ''b''] @ log_inputs pad_hash [''a''] @
      consistency_inputs pad_hash (length [''a'']) (length [''a'', ''b'']) (log_hash pad_hash [''a'']) [leaf_hash pad_hash ''b''])))"
proof -
  have v: "verify_consistency pad_hash (length [''a'']) (length [''a'', ''b'']) (log_hash pad_hash [''a''])
      (log_hash pad_hash [''a'', ''b'']) [leaf_hash pad_hash ''b'']"
    by (simp add: verify_consistency_def log_hash_def tree_hash_node split_two_Suc is_power_of_two_def
        trailing_zeros.simps odd_up.simps edge_up.simps numeral_2_eq_2)
  moreover have "hashes [leaf_hash pad_hash ''b'']" using pad_hash_length by (simp add: hashes_def leaf_hash_def)
  ultimately show ?thesis
    using accepted_growth_is_append_only [OF pad_hash_length _ _ v] by (simp add: numeral_2_eq_2)
qed

text \<open>A fold that keeps only the right edge answers, at each size it was asked to keep and
  has reached, the root of the tree with every node; at any other size it answers nothing.\<close>

theorem fold_agrees_with_tree:
  assumes "length es \<le> 2 ^ 64"
  shows "\<exists>edge t. fold_entries sha (fold_new sha sizes) es = (Inr edge :: unit store_fault + _) \<and>
    from_entries sha es = (Inr t :: unit store_fault + _) \<and>
    fold_root_at edge n =
      (if n \<in> set sizes \<and> n \<le> length es
       then (case root_at sha t n :: unit tree_error + _ of Inr r \<Rightarrow> Some r | Inl _ \<Rightarrow> None) else None)"
proof -
  obtain t where t: "from_entries sha es = (Inr t :: unit store_fault + _)" "tree_len t = length es"
    and src: "node_source sha (tree_node t :: unit node_source) (map (leaf_hash sha) es)"
    by (rule built [OF assms])
  obtain edge where e: "fold_entries sha (fold_new sha sizes) es = (Inr edge :: unit store_fault + _)"
    "fold_ok sha (map (leaf_hash sha) es) edge" "set (rf_wanted edge) = set sizes"
    using fold_log_ok [OF assms] by blast
  have "n \<le> length es \<Longrightarrow> (root_at sha t n :: unit tree_error + _) = Inr (tree_hash sha (take n (map (leaf_hash sha) es)))"
    using node_source.mth_ok [OF src, of n] t(2) by (simp add: root_at_def)
  then have "fold_root_at edge n =
      (if n \<in> set sizes \<and> n \<le> length es
       then (case root_at sha t n :: unit tree_error + _ of Inr r \<Rightarrow> Some r | Inl _ \<Rightarrow> None) else None)"
    using e(2,3) by (simp add: fold_ok_def fold_root_at_def)
  then show ?thesis using e(1) t(1) by blast
qed

theorem fold_agrees_with_tree_witness:
  "\<exists>edge t. fold_entries pad_hash (fold_new pad_hash [3, 1]) [''a'', ''b'', ''c''] = (Inr edge :: unit store_fault + _) \<and>
    from_entries pad_hash [''a'', ''b'', ''c''] = (Inr t :: unit store_fault + _) \<and>
    fold_root_at edge 3 = (case root_at pad_hash t 3 :: unit tree_error + _ of Inr r \<Rightarrow> Some r | Inl _ \<Rightarrow> None)"
  using fold_agrees_with_tree [of "[''a'', ''b'', ''c'']" pad_hash "[3, 1]" 3] by simp

end
