(* ===== verification/Inbox_Properties.thy ===== *)
theory Inbox_Properties
  imports Inbox_Invariant Statement_Kinds Merkle_Properties
begin

section \<open>Inbox properties\<close>

text \<open>
  What a submitter may rely on: a signature says one thing, an accepted entry stays and stays
  signed, it is closed only on the sequencer's evidence, and nobody is counted against an
  address of another caller's choice.
\<close>


subsection \<open>A small inbox for the witnesses\<close>

definition demo_nonce :: string where
  "demo_nonce = to_hex (replicate 16 (char_of (1 :: nat)))"

definition demo_session :: string where
  "demo_session = to_hex (replicate 8 (char_of (2 :: nat)))"

definition demo_world :: inbox_world where
  "demo_world = \<lparr>iw_sha = pad_hash, iw_point = (\<lambda>_. True), iw_strict = (\<lambda>_ _ _. True),
     iw_envelope = (\<lambda>_. Some \<lparr>me_kind = ''New'', me_id = 1, me_account = Some 1, me_nonce = Some demo_nonce\<rparr>),
     iw_parse = (\<lambda>_. None), iw_to_vec = (\<lambda>_. [])\<rparr>"

definition demo_sent :: signed_submission where
  "demo_sent = \<lparr>ss_submission = SubCancel 1 7 (Some demo_nonce) (Some demo_session),
     ss_public_key = to_hex (replicate 32 (char_of (3 :: nat))), ss_signature = to_hex (replicate 64 (char_of (4 :: nat)))\<rparr>"

definition demo_row :: inbox_row where
  "demo_row = \<lparr>ir_id = 1, ir_received_at = 5, ir_signed = demo_sent, ir_account = 1, ir_nonce = demo_nonce,
     ir_feed_id = None, ir_sequenced_at = None, ir_feed_message = None, ir_content_checked = None\<rparr>"

definition demo_inbox0 :: inbox_state where
  "demo_inbox0 = open_inbox ''e'' (Some ''k'') [] 5000"

definition demo_inbox1 :: inbox_state where
  "demo_inbox1 = demo_inbox0\<lparr>ib_rows := [demo_row], ib_next_id := 2,
     ib_accounts := [(1, ss_public_key demo_sent)], ib_limiter := [(V4 1, 0, 1)]\<rparr>"

definition demo_mark :: mark_request where
  "demo_mark = \<lparr>mq_inbox_id = 1, mq_feed_id = 1, mq_inbox_epoch = ''e'', mq_message = ''m'',
     mq_tree_head = \<lparr>th_session = demo_session, th_timestamp = 6, th_tree_size = 1,
       th_root_hash = to_hex (leaf_hash pad_hash ''m''), th_signature = ss_signature demo_sent\<rparr>,
     mq_inclusion_path = [], mq_signature = ss_signature demo_sent\<rparr>"

definition demo_closed :: inbox_row where
  "demo_closed = demo_row\<lparr>ir_feed_id := Some 1, ir_sequenced_at := Some 9, ir_feed_message := Some ''m'',
     ir_content_checked := Some False\<rparr>"

definition demo_inbox2 :: inbox_state where
  "demo_inbox2 = demo_inbox1\<lparr>ib_rows := [demo_closed]\<rparr>"

lemma demo_texts:
  "canonical_nonce demo_nonce = Some (replicate 16 (char_of (1 :: nat)))" "canonical_session demo_session"
  "from_hex 32 (trim (ss_public_key demo_sent)) = Some (replicate 32 (char_of (3 :: nat)))"
  "from_hex 64 (ss_signature demo_sent) = Some (replicate 64 (char_of (4 :: nat)))"
  "trim (ss_signature demo_sent) = ss_signature demo_sent"
  by (simp_all add: canonical_nonce_iff demo_nonce_def NONCE_BYTES_def canonical_session_def demo_session_def
      SESSION_BYTES_def demo_sent_def trim_to_hex from_hex_to_hex)

lemma demo_validates: "validate_submission (ss_submission demo_sent) = Inr ()"
  using demo_texts(1,2) by (simp add: validate_submission_def checked_nonce_def checked_session_def demo_sent_def ok_or_def)

lemma demo_signed: "verify_account_signature (iw_point demo_world) (iw_strict demo_world) demo_sent = Inr (replicate 32 (char_of (3 :: nat)))"
proof -
  obtain st where "submission_statement (ss_submission demo_sent) = Some st" using validated_statement [OF demo_validates] by blast
  then show ?thesis using demo_texts by (simp add: verify_account_signature_def demo_world_def ok_or_def)
qed

lemma demo_submits:
  "submit (iw_point demo_world) (iw_strict demo_world) demo_inbox0 \<lparr>cl_peer = V4 1, cl_forwarded = None\<rparr> 0 5 demo_sent =
   (Inr demo_row, demo_inbox1)"
proof -
  have "checked_nonce (ss_submission demo_sent) = Inr (replicate 16 (char_of (1 :: nat)))"
    using demo_texts(1) by (simp add: checked_nonce_def demo_sent_def ok_or_def)
  then have "submit (iw_point demo_world) (iw_strict demo_world) demo_inbox0 \<lparr>cl_peer = V4 1, cl_forwarded = None\<rparr> 0 5 demo_sent =
      submit_db (iw_point demo_world) demo_inbox0 \<lparr>cl_peer = V4 1, cl_forwarded = None\<rparr> 0 5 demo_sent 1
        (replicate 32 (char_of (3 :: nat))) demo_nonce"
    by (simp add: submit_def demo_validates demo_signed) (simp add: demo_sent_def demo_nonce_def)
  also have "\<dots> = (Inr demo_row, demo_inbox1)"
    by (simp add: submit_db_def Let_def demo_inbox0_def open_inbox_def client_ip_def proxies_contain_def limiter_allow_def
        SUBMIT_WINDOW_def SUBMIT_BURST_def MAX_PENDING_def pin_or_check_account_def pinned_account_key_def
        check_account_key_def demo_row_def demo_inbox1_def demo_sent_def)
  finally show ?thesis .
qed

lemma demo_marks:
  "mark (iw_sha demo_world) (iw_point demo_world) (iw_strict demo_world) (iw_envelope demo_world) (iw_parse demo_world)
     (iw_to_vec demo_world) demo_inbox1 None 9 demo_mark = (Inr demo_closed, demo_inbox2)"
proof -
  have "length (leaf_hash pad_hash ''m'') = HASH_SIZE" using pad_hash_length by (simp add: leaf_hash_def)
  then have "from_hex HASH_SIZE (to_hex (leaf_hash pad_hash ''m'')) = Some (leaf_hash pad_hash ''m'')" by (rule from_hex_to_hex)
  moreover have "verify_entry_inclusion pad_hash 0 1 ''m'' [] (leaf_hash pad_hash ''m'')"
    by (simp add: verify_entry_inclusion_def verify_inclusion_def)
  ultimately have "mark_inclusion (iw_sha demo_world) (iw_strict demo_world) ''k'' demo_mark = Inr ()"
    using demo_texts(4) by (simp add: mark_inclusion_def demo_mark_def demo_world_def verify_tree_head_def MAX_INCLUSION_PATH_def)
  moreover have st: "ib_feed_key demo_inbox1 = Some ''k''" "ib_epoch demo_inbox1 = ''e''" "ib_rows demo_inbox1 = [demo_row]"
    and mq: "mq_inbox_epoch demo_mark = ''e''" "mq_inbox_id demo_mark = 1" "mq_feed_id demo_mark = 1" "mq_message demo_mark = ''m''"
    and row: "ir_id demo_row = 1" "ir_feed_id demo_row = None" "ss_submission (ir_signed demo_row) = SubCancel 1 7 (Some demo_nonce) (Some demo_session)"
    and env: "iw_envelope demo_world ''m'' = Some \<lparr>me_kind = ''New'', me_id = 1, me_account = Some 1, me_nonce = Some demo_nonce\<rparr>"
      "iw_parse demo_world ''m'' = None"
    by (simp_all add: demo_inbox1_def demo_inbox0_def open_inbox_def demo_mark_def demo_row_def demo_sent_def demo_world_def)
  ultimately have "judge_mark (iw_sha demo_world) (iw_strict demo_world) (iw_envelope demo_world) (iw_parse demo_world)
      (iw_to_vec demo_world) demo_inbox1 ''k'' demo_mark = Inr (demo_row, ContentNotChecked)"
    by (simp add: judge_mark_def Let_def)
  moreover have "verify_mark (iw_sha demo_world) (iw_strict demo_world) ''k'' demo_mark"
    using demo_texts(4) by (simp add: verify_mark_def demo_mark_def demo_world_def)
  ultimately show ?thesis
    by (simp add: mark_def feed_key_def mark_entry_def st mq row Let_def content_checked_def demo_inbox2_def demo_closed_def)
qed

lemma demo_inbox_runs: "inbox_run demo_world demo_inbox0 demo_inbox1" "inbox_run demo_world demo_inbox1 demo_inbox2"
  "inbox_run demo_world demo_inbox0 demo_inbox2"
proof -
  let ?e1 = "Submitted \<lparr>cl_peer = V4 1, cl_forwarded = None\<rparr> 0 5 demo_sent" and ?e2 = "Marked None 9 demo_mark"
  show r: "inbox_run demo_world demo_inbox0 demo_inbox1"
    using inbox_next [OF inbox_start, of demo_world demo_inbox0 ?e1] demo_submits by simp
  show "inbox_run demo_world demo_inbox1 demo_inbox2"
    using inbox_next [OF inbox_start, of demo_world demo_inbox1 ?e2] demo_marks by simp
  show "inbox_run demo_world demo_inbox0 demo_inbox2" using inbox_next [OF r, of ?e2] demo_marks by simp
qed

subsection \<open>The properties\<close>





text \<open>A message stands at leaf \<open>i\<close> of every log of that size and root, unless the hash clashes on the
  inputs of the log and of the climb from that leaf.\<close>

definition stands_in_logs :: "(bytes \<Rightarrow> bytes) \<Rightarrow> nat \<Rightarrow> hash \<Rightarrow> nat \<Rightarrow> bytes \<Rightarrow> hash list \<Rightarrow> bool" where
  "stands_in_logs sha leaves root_hash i m path \<longleftrightarrow>
     (\<forall>es. length es = leaves \<longrightarrow> length es \<le> 2 ^ 64 \<longrightarrow> log_hash sha es = root_hash \<longrightarrow>
       m = es ! i \<or>
       clash sha (set (log_inputs sha es @ (LEAF_PREFIX # m) #
         climb_inputs sha i (leaves - 1) (leaf_hash sha m) path)))"

lemma verified_stands:
  assumes "\<forall>x. length (sha x) = HASH_SIZE" and "hashes path" and "verify_entry_inclusion sha i leaves m path root_hash"
  shows "stands_in_logs sha leaves root_hash i m path"
  unfolding stands_in_logs_def
proof (intro allI impI)
  fix es
  assume "length es = leaves" "length es \<le> 2 ^ 64" "log_hash sha es = root_hash"
  then show "m = es ! i \<or> clash sha (set (log_inputs sha es @ (LEAF_PREFIX # m) #
         climb_inputs sha i (leaves - 1) (leaf_hash sha m) path))"
    using entry_in_log [OF assms(1) _ assms(2), of es i m] assms(3) by simp
qed

text \<open>C9: an entry that left the pending set did so on evidence: its message is signed for under a
  tree head of the pinned key, names its account and nonce, and stands at its place in every log
  with that head's root, unless the hash clashes.\<close>

theorem entries_close_on_evidence:
  assumes "inbox_run w (open_inbox epoch key proxies deadline) s" and "row \<in> set (ib_rows s)"
    and "ir_feed_id row = Some f" and "\<forall>x. length (iw_sha w x) = HASH_SIZE"
  shows "\<exists>k m (head :: tree_head) root_hash signature path. ib_feed_key s = Some k \<and> ir_feed_message row = Some m \<and>
    verify_tree_head (iw_strict w) k (th_session head) (th_timestamp head) (th_tree_size head) root_hash signature \<and>
    0 < f \<and> f \<le> th_tree_size head \<and>
    (\<exists>env. iw_envelope w m = Some env \<and> me_id env = f \<and> me_account env = Some (ir_account row) \<and>
       me_nonce env = Some (ir_nonce row)) \<and>
    stands_in_logs (iw_sha w) (th_tree_size head) root_hash (f - 1) m path"
proof -
  have "inbox_ok w s" using inbox_run_ok [OF assms(1) inbox_ok_open] by blast
  then obtain k req where k: "ib_feed_key s = Some k" "evidence w (ib_epoch s) k row req"
    using assms(2,3) by (auto simp: inbox_ok_def row_closed_well_def)
  let ?head = "mq_tree_head req" and ?m = "mq_message req"
  have f: "mq_feed_id req = f" and m: "ir_feed_message row = Some ?m" using k(2) assms(3) by (simp_all add: evidence_def)
  have "mark_inclusion (iw_sha w) (iw_strict w) k req = Inr ()" using k(2) by (simp add: evidence_def)
  then obtain root_hash signature path where inc:
    "verify_tree_head (iw_strict w) k (th_session ?head) (th_timestamp ?head) (th_tree_size ?head) root_hash signature"
    "0 < f" "f - 1 < th_tree_size ?head" "those (map (from_hex HASH_SIZE) (mq_inclusion_path req)) = Some path"
    "verify_entry_inclusion (iw_sha w) (f - 1) (th_tree_size ?head) ?m path root_hash"
    by (auto simp: mark_inclusion_def Let_def f split: option.splits if_splits)
  have "hashes path"
  proof -
    have "hashes ps" if "those (map (from_hex HASH_SIZE) ts) = Some ps" for ts ps
      using that by (induction ts arbitrary: ps) (auto simp: hashes_def split: option.splits dest: from_hex_length)
    then show ?thesis using inc(4) by blast
  qed
  then have "stands_in_logs (iw_sha w) (th_tree_size ?head) root_hash (f - 1) ?m path"
    by (rule verified_stands [OF assms(4) _ inc(5)])
  moreover have "f \<le> th_tree_size ?head" using inc(2,3) by linarith
  moreover have "\<exists>env. iw_envelope w ?m = Some env \<and> me_id env = f \<and> me_account env = Some (ir_account row) \<and>
       me_nonce env = Some (ir_nonce row)" using k(2) f by (auto simp: evidence_def)
  ultimately have "ib_feed_key s = Some k \<and> ir_feed_message row = Some ?m \<and>
    verify_tree_head (iw_strict w) k (th_session ?head) (th_timestamp ?head) (th_tree_size ?head) root_hash signature \<and>
    0 < f \<and> f \<le> th_tree_size ?head \<and>
    (\<exists>env. iw_envelope w ?m = Some env \<and> me_id env = f \<and> me_account env = Some (ir_account row) \<and>
       me_nonce env = Some (ir_nonce row)) \<and>
    stands_in_logs (iw_sha w) (th_tree_size ?head) root_hash (f - 1) ?m path"
    using k(1) m inc(1,2) by blast
  then show ?thesis by blast
qed

theorem entries_close_on_evidence_witness:
  "\<exists>k m (head :: tree_head) root_hash signature path. ib_feed_key demo_inbox2 = Some k \<and> ir_feed_message demo_closed = Some m \<and>
    verify_tree_head (iw_strict demo_world) k (th_session head) (th_timestamp head) (th_tree_size head) root_hash signature \<and>
    0 < (1 :: nat) \<and> 1 \<le> th_tree_size head \<and>
    (\<exists>env. iw_envelope demo_world m = Some env \<and> me_id env = 1 \<and> me_account env = Some (ir_account demo_closed) \<and>
       me_nonce env = Some (ir_nonce demo_closed)) \<and>
    stands_in_logs (iw_sha demo_world) (th_tree_size head) root_hash (1 - 1) m path"
proof (rule entries_close_on_evidence)
  show "inbox_run demo_world (open_inbox ''e'' (Some ''k'') [] 5000) demo_inbox2"
    using demo_inbox_runs(3) by (simp add: demo_inbox0_def)
  show "demo_closed \<in> set (ib_rows demo_inbox2)" by (simp add: demo_inbox2_def)
  show "ir_feed_id demo_closed = Some 1" by (simp add: demo_closed_def)
  show "\<forall>x. length (iw_sha demo_world x) = HASH_SIZE" using pad_hash_length by (simp add: demo_world_def)
qed



text \<open>What a client writes to the left of the address its proxy saw does not change the
  address it is counted against.\<close>

lemma forged_hops_do_not_count:
  assumes "list_ex (stops_at nets) (map (map_option canonical_ip) seen)"
  shows "client_ip \<lparr>cl_peer = peer, cl_forwarded = Some (forged @ seen)\<rparr> nets =
    client_ip \<lparr>cl_peer = peer, cl_forwarded = Some seen\<rparr> nets"
proof -
  have "list_ex (stops_at nets) (rev (map (map_option canonical_ip) seen))" using assms by simp
  from first_untrusted_stops [OF this] show ?thesis by (simp add: client_ip_def Let_def)
qed

text \<open>In any span as short as its window, the limiter lets at most two bursts of one address
  through, whatever the other addresses do.\<close>

theorem limiter_bounds_bursts:
  assumes "distinct (map fst seen)" and "list_all (\<lambda>(_, now). t \<le> now \<and> now < t + SUBMIT_WINDOW) calls"
  shows "allowed_calls ip seen calls \<le> 2 * SUBMIT_BURST"
proof -
  have "calls_left t ip seen \<le> 2 * SUBMIT_BURST" by (auto simp: calls_left_def split: option.splits)
  then show ?thesis using allowed_calls_left [OF assms, of ip] by linarith
qed

theorem limiter_bounds_bursts_witness:
  "allowed_calls (V4 1) [] (replicate 500 (V4 1, 7)) \<le> 2 * SUBMIT_BURST"
  by (rule limiter_bounds_bursts [of _ 0]) (simp_all add: SUBMIT_WINDOW_def list_all_length)

end
