(* ===== verification/Node_Table.thy ===== *)
theory Node_Table
  imports Merkle_Store Merkle_Verify
begin

section \<open>The tree on disk (services/src/feed/tree.rs)\<close>

text \<open>
  The table \<open>merkle_nodes\<close> of \<open>feed.db\<close>: one row per node, with level and index as the primary
  key, and a blob that need not be a hash. SQLite is third-party code; what is used of it is the
  meaning of the statements. A read or an insert that SQLite refuses for a reason of its own is
  the \<open>SqlFault\<close> its caller passes on. The table is the third store the walks of \<open>Merkle\<close> run on:
  \<open>node_source\<close> is interpreted on the rows an append writes.
\<close>

type_synonym node_table = "(nat \<times> nat, bytes) bmap"

datatype unreadable = SqlFault | MissingNodeRow nat nat | NotAHash nat nat nat

definition disk_node :: "node_table \<Rightarrow> unreadable node_source" where
  "disk_node rows level index =
     (case map_of rows (level, index) of
        None \<Rightarrow> Inl (StoreError (MissingNodeRow level index))
      | Some stored \<Rightarrow>
          if length stored = HASH_SIZE then Inr stored
          else Inl (StoreError (NotAHash level index (length stored))))"

text \<open>\<open>root\<close>: a tree that refuses its own size is a panic.\<close>

definition nodes_root ::
  "(bytes \<Rightarrow> hash) \<Rightarrow> 'e node_source \<Rightarrow> nat \<Rightarrow> nat \<Rightarrow> 'e store_fault + hash" where
  "nodes_root sha node leaves n =
     (case mth sha node leaves n of
        Inr root \<Rightarrow> Inr root
      | Inl (SourceFault e) \<Rightarrow> Inl e
      | Inl (ProofFault _) \<Rightarrow> Inl Panicked)"

text \<open>A plain \<open>INSERT\<close>: a row that is there already refuses the statement.\<close>

fun insert_nodes :: "node_table \<Rightarrow> made_node list \<Rightarrow> unreadable store_fault + node_table" where
  "insert_nodes rows [] = Inr rows"
| "insert_nodes rows ((level, index, h) # made) =
     (if map_of rows (level, index) \<noteq> None then Inl (StoreError SqlFault)
      else insert_nodes (bput rows (level, index) h) made)"

fun append_rows ::
  "(bytes \<Rightarrow> hash) \<Rightarrow> node_table \<Rightarrow> nat \<Rightarrow> hash list \<Rightarrow> unreadable store_fault + node_table" where
  "append_rows sha rows leaves_before [] = Inr rows"
| "append_rows sha rows leaves_before (leaf # leaves) =
     res_bind (append_nodes sha (disk_node rows) leaves_before leaf) (\<lambda>made.
     res_bind (insert_nodes rows made) (\<lambda>rows'.
     append_rows sha rows' (leaves_before + 1) leaves))"

definition MAX_NODE_LEAVES :: nat where "MAX_NODE_LEAVES = 1000"

text \<open>\<open>window\<close>: a row that is not there is left out, a row that is no hash is an error.\<close>

fun window_nodes :: "node_table \<Rightarrow> (nat \<times> nat) list \<Rightarrow> unreadable store_fault + made_node list" where
  "window_nodes rows [] = Inr []"
| "window_nodes rows ((level, index) # numbering) =
     (case map_of rows (level, index) of
        None \<Rightarrow> window_nodes rows numbering
      | Some stored \<Rightarrow>
          if length stored \<noteq> HASH_SIZE then Inl (StoreError (NotAHash level index (length stored)))
          else res_bind (window_nodes rows numbering) (\<lambda>out. Inr ((level, index, stored) # out)))"

definition disk_window :: "node_table \<Rightarrow> nat \<Rightarrow> nat \<Rightarrow> nat \<Rightarrow> unreadable store_fault + made_node list" where
  "disk_window rows leaves from_leaf count =
     (let upto = min (sat_add_u64 from_leaf (min count MAX_NODE_LEAVES)) leaves
      in window_nodes rows (concat (map appended_at [from_leaf ..< upto])))"

text \<open>One past the highest index at level 0.\<close>

definition stored_leaves :: "node_table \<Rightarrow> nat" where
  "stored_leaves rows =
     (case filter (\<lambda>((level, _), _). level = 0) rows of
        [] \<Rightarrow> 0
      | leaves \<Rightarrow> snd (fst (last leaves)) + 1)"

definition stored_nodes :: "node_table \<Rightarrow> nat" where
  "stored_nodes rows = length rows"

definition expected_nodes :: "nat \<Rightarrow> nat" where
  "expected_nodes leaves = nodes_in leaves"

subsection \<open>The rows of a log\<close>

definition table_ok :: "(bytes \<Rightarrow> hash) \<Rightarrow> hash list \<Rightarrow> node_table \<Rightarrow> bool" where
  "table_ok sha ls rows \<longleftrightarrow> length ls \<le> 2 ^ 64 \<and> bmap_ok rows \<and>
     (\<forall>level index. map_of rows (level, index) =
        (if (index + 1) * 2 ^ level \<le> length ls then Some (perfect sha ls level index) else None))"

lemma table_ok_Nil: "table_ok sha [] []"
  by (simp add: table_ok_def bmap_ok_def)


text \<open>The rows one leaf adds: the perfect subtrees that end with it.\<close>

lemma appended_above_iff:
  assumes "0 < count"
  shows "(l, i) \<in> set (appended_above level count) \<longleftrightarrow> level < l \<and> (i + 1) * 2 ^ (l - level) = count"
  using assms
proof (induction level count rule: appended_above.induct)
  case (1 level count)
  show ?case
  proof (cases "even count")
    case True
    then obtain c where c: "count = 2 * c" by (auto elim: evenE)
    with 1 have ih: "(l, i) \<in> set (appended_above (level + 1) c) \<longleftrightarrow> level + 1 < l \<and> (i + 1) * 2 ^ (l - (level + 1)) = c"
      by simp
    have step: "appended_above level count = (level + 1, c - 1) # appended_above (level + 1) c"
      using "1.prems" by (subst appended_above.simps) (simp add: c)
    have up: "(i + 1) * 2 ^ (l - level) = count \<longleftrightarrow> (i + 1) * 2 ^ (l - (level + 1)) = c" if "level < l"
      using that by (cases "l - level") (auto simp: c Suc_diff_Suc [symmetric])
    show ?thesis
    proof (cases "l = level + 1")
      case True
      then show ?thesis unfolding step using ih up "1.prems" c by auto
    next
      case False
      then show ?thesis unfolding step using ih up by auto
    qed
  next
    case False
    then have "\<not> ((i + 1) * 2 ^ (l - level) = count)" if "level < l"
      using that by (cases "l - level") auto
    moreover have "appended_above level count = []" using False by (subst appended_above.simps) simp
    ultimately show ?thesis by auto
  qed
qed

lemma appended_at_iff: "(l, i) \<in> set (appended_at n) \<longleftrightarrow> (i + 1) * 2 ^ l = n + 1"
  by (cases l) (auto simp: appended_at_def appended_above_iff)

lemma appended_at_distinct: "distinct (appended_at n)"
proof -
  have "distinct (appended_above level count)" if "0 < count" for level count
    using that
  proof (induction level count rule: appended_above.induct)
    case (1 level count)
    show ?case
    proof (cases "even count")
      case True
      then have "0 < count div 2" using "1.prems" by (auto elim!: evenE)
      then show ?thesis
        using 1 True by (subst appended_above.simps) (simp add: appended_above_iff)
    qed (subst appended_above.simps, simp)
  qed
  then show ?thesis by (simp add: appended_at_def appended_above_iff)
qed

lemma insert_nodes_ok:
  assumes "distinct (map (\<lambda>(l, i, _). (l, i)) made)" and "\<forall>(l, i, _) \<in> set made. map_of rows (l, i) = None" and "bmap_ok rows"
  shows "\<exists>rows'. insert_nodes rows made = Inr rows' \<and> bmap_ok rows' \<and>
    (\<forall>l i. map_of rows' (l, i) =
      (case map_of (map (\<lambda>(l, i, h). ((l, i), h)) made) (l, i) of Some h \<Rightarrow> Some h | None \<Rightarrow> map_of rows (l, i)))"
  using assms
proof (induction made arbitrary: rows)
  case (Cons m made)
  obtain l i h where m: "m = (l, i, h)" by (cases m)
  have "\<forall>(l', i', _) \<in> set made. (l', i') \<noteq> (l, i)" using Cons.prems(1) by (force simp: m)
  then have "\<forall>(l', i', _) \<in> set made. map_of (bput rows (l, i) h) (l', i') = None"
    using Cons.prems(2,3) by (fastforce simp: m map_of_bput)
  from Cons.IH [OF _ this] obtain rows' where r: "insert_nodes (bput rows (l, i) h) made = Inr rows'" "bmap_ok rows'"
    "\<And>l' i'. map_of rows' (l', i') =
      (case map_of (map (\<lambda>(l, i, h). ((l, i), h)) made) (l', i') of Some h \<Rightarrow> Some h | None \<Rightarrow> map_of (bput rows (l, i) h) (l', i'))"
    using Cons.prems(1,3) by (auto simp: m)
  have "map_of (map (\<lambda>(l, i, h). ((l, i), h)) made) (l, i) = None"
    using Cons.prems(1) by (force simp: m map_of_eq_None_iff)
  then have "\<forall>l' i'. map_of rows' (l', i') =
      (case map_of (map (\<lambda>(l, i, h). ((l, i), h)) (m # made)) (l', i') of Some h \<Rightarrow> Some h | None \<Rightarrow> map_of rows (l', i'))"
    using Cons.prems(3) by (auto simp: m r(3) map_of_bput split: option.splits)
  moreover have "insert_nodes rows (m # made) = Inr rows'" using Cons.prems(2) r(1) by (simp add: m)
  ultimately show ?case using r(2) by blast
qed auto

subsection \<open>The contract on the table\<close>

lemma tree_hash_length:
  assumes "\<forall>x. length (sha x) = HASH_SIZE" and "hashes ls"
  shows "length (tree_hash sha ls) = HASH_SIZE"
proof (cases "length ls < 2")
  case True
  then show ?thesis using assms by (cases ls) (auto simp: tree_hash.simps [of sha "[]"] hashes_def tree_hash_one empty_root_def)
next
  case False
  then show ?thesis using assms(1) by (simp add: tree_hash_node node_hash_def)
qed

lemma perfect_length:
  assumes "\<forall>x. length (sha x) = HASH_SIZE" and "hashes ls"
  shows "length (perfect sha ls l i) = HASH_SIZE"
  unfolding perfect_def
  by (rule tree_hash_length [OF assms(1)]) (use assms(2) in \<open>auto simp: hashes_def list_all_iff dest: in_set_takeD in_set_dropD\<close>)

lemma table_node_ok:
  assumes "table_ok sha ls rows" and "\<forall>x. length (sha x) = HASH_SIZE" and "hashes ls" and "(i + 1) * 2 ^ l \<le> length ls"
  shows "disk_node rows l i = Inr (perfect sha ls l i)"
  using assms perfect_length [OF assms(2,3)] by (simp add: disk_node_def table_ok_def)

lemma table_source:
  "table_ok sha ls rows \<Longrightarrow> \<forall>x. length (sha x) = HASH_SIZE \<Longrightarrow> hashes ls \<Longrightarrow> node_source sha (disk_node rows) ls"
  by unfold_locales (simp_all add: table_node_ok, simp add: table_ok_def)

lemma table_edge:
  assumes "table_ok sha ls rows" and "\<forall>x. length (sha x) = HASH_SIZE" and "hashes ls"
  shows "edge_source sha (disk_node rows) ls"
  by unfold_locales (use assms in \<open>simp add: table_ok_def\<close>, use table_node_ok [OF assms edge_inside] in blast)

lemma append_row_ok:
  assumes "table_ok sha ls rows" and "\<forall>x. length (sha x) = HASH_SIZE" and "hashes ls" and "length ls < 2 ^ 64"
  shows "\<exists>made rows'. append_nodes sha (disk_node rows) (length ls) leaf = Inr made \<and>
    insert_nodes rows made = Inr rows' \<and> table_ok sha (ls @ [leaf]) rows'"
proof -
  let ?xs = "ls @ [leaf]" and ?n = "length ls"
  let ?made = "map (\<lambda>(l, i). (l, i, perfect sha ?xs l i)) (appended_at ?n)"
  have made: "append_nodes sha (disk_node rows) ?n leaf = Inr ?made"
    using edge_source.append_ok [OF table_edge [OF assms(1-3)] assms(4)]
    by (simp add: appended_at_def made_above_def perfect_def)
  have "map (\<lambda>(l, i, _). (l, i)) ?made = appended_at ?n" by (rule nth_equalityI) (auto simp: case_prod_beta)
  then have d: "distinct (map (\<lambda>(l, i, _). (l, i)) ?made)" by (simp only: appended_at_distinct)
  have new: "\<forall>(l, i, _) \<in> set ?made. map_of rows (l, i) = None"
    using assms(1) by (auto simp: table_ok_def appended_at_iff)
  have m: "map (\<lambda>(l, i, h). ((l, i), h)) ?made = map (\<lambda>k. (k, perfect sha ?xs (fst k) (snd k))) (appended_at ?n)"
    by auto
  have at: "map_of (map (\<lambda>(l, i, h). ((l, i), h)) ?made) (l, i) =
      (if (i + 1) * 2 ^ l = ?n + 1 then Some (perfect sha ?xs l i) else None)" for l i
    unfolding m using appended_at_iff [of l i ?n] by (simp add: map_of_map_restrict restrict_map_def)
  obtain rows' where r: "insert_nodes rows ?made = Inr rows'" "bmap_ok rows'"
    "\<forall>l i. map_of rows' (l, i) =
      (case map_of (map (\<lambda>(l, i, h). ((l, i), h)) ?made) (l, i) of Some h \<Rightarrow> Some h | None \<Rightarrow> map_of rows (l, i))"
    using insert_nodes_ok [OF d new] assms(1) by (auto simp: table_ok_def)
  have row: "map_of rows' (l, i) = (if (i + 1) * 2 ^ l = ?n + 1 then Some (perfect sha ?xs l i) else map_of rows (l, i))" for l i
    using r(3) unfolding at by simp
  have old: "map_of rows (l, i) = (if (i + 1) * 2 ^ l \<le> ?n then Some (perfect sha ls l i) else None)" for l i
    using assms(1) by (simp add: table_ok_def)
  have "map_of rows' (l, i) = (if (i + 1) * 2 ^ l \<le> length ?xs then Some (perfect sha ?xs l i) else None)" for l i
    unfolding row old using perfect_old [of i l ls sha leaf] by auto
  then have "table_ok sha ?xs rows'" using r(2) assms(4) by (simp add: table_ok_def)
  then show ?thesis using made r(1) by blast
qed

lemma append_rows_ok:
  assumes "table_ok sha ls rows" and "\<forall>x. length (sha x) = HASH_SIZE" and "hashes (ls @ leaves)"
    and "length ls + length leaves \<le> 2 ^ 64"
  shows "\<exists>rows'. append_rows sha rows (length ls) leaves = Inr rows' \<and> table_ok sha (ls @ leaves) rows'"
  using assms
proof (induction leaves arbitrary: ls rows)
  case (Cons leaf leaves)
  have h: "hashes ls" "length ls < 2 ^ 64" using Cons.prems(3,4) by (simp_all add: hashes_def)
  obtain made rows1 where a: "append_nodes sha (disk_node rows) (length ls) leaf = Inr made"
    "insert_nodes rows made = Inr rows1" "table_ok sha (ls @ [leaf]) rows1"
    using append_row_ok [OF Cons.prems(1,2) h] by blast
  have "hashes ((ls @ [leaf]) @ leaves)" using Cons.prems(3) by simp
  from Cons.IH [OF a(3) Cons.prems(2) this] obtain rows' where
    "append_rows sha rows1 (length (ls @ [leaf])) leaves = Inr rows'" "table_ok sha ((ls @ [leaf]) @ leaves) rows'"
    using Cons.prems(4) by auto
  then show ?case using a(1,2) by auto
qed simp

lemma table_root_ok:
  assumes "table_ok sha ls rows" and "\<forall>x. length (sha x) = HASH_SIZE" and "hashes ls"
  shows "nodes_root sha (disk_node rows) (length ls) (length ls) = Inr (tree_hash sha ls)"
  using edge_source.edge_mth [OF table_edge [OF assms]] by (simp add: nodes_root_def)

subsection \<open>Counting the rows\<close>

text \<open>The nodes of a tree of \<open>n\<close> leaves, level by level.\<close>

definition tree_cells :: "nat \<Rightarrow> (nat \<times> nat) set" where
  "tree_cells n = {(l, i). (i + 1) * 2 ^ l \<le> n}"

lemma tree_cells_split: "tree_cells n = Pair 0 ` {..< n} \<union> (\<lambda>(l, i). (Suc l, i)) ` tree_cells (n div 2)"
proof -
  have up: "(i + 1) * 2 ^ Suc l \<le> n \<longleftrightarrow> (i + 1) * 2 ^ l \<le> n div 2" for l i
  proof -
    have "(i + 1) * 2 ^ Suc l = ((i + 1) * 2 ^ l) * 2" by simp
    then show ?thesis by (metis less_eq_div_iff_mult_less_eq zero_less_numeral)
  qed
  have "x \<in> tree_cells n \<longleftrightarrow> x \<in> Pair 0 ` {..< n} \<union> (\<lambda>(l, i). (Suc l, i)) ` tree_cells (n div 2)" for x
  proof (cases x)
    case (Pair l i)
    then show ?thesis using up [of i "l - 1"] by (cases l) (auto simp: tree_cells_def image_iff)
  qed
  then show ?thesis by blast
qed

lemma count_ones_le: "count_ones n \<le> n"
proof (induction n rule: less_induct)
  case (less n)
  show ?case
  proof (cases "n = 0")
    case False
    then have "count_ones (n div 2) \<le> n div 2" by (intro less.IH) simp
    then show ?thesis using False by (subst count_ones.simps) auto
  qed (simp add: count_ones.simps)
qed

lemma card_tree_cells: "finite (tree_cells n) \<and> card (tree_cells n) = nodes_in n"
proof (induction n rule: less_induct)
  case (less n)
  show ?case
  proof (cases "n = 0")
    case True
    then have "tree_cells n = {}" by (auto simp: tree_cells_def)
    then show ?thesis using True by (simp add: nodes_in_def)
  next
    case False
    then have ih: "finite (tree_cells (n div 2))" "card (tree_cells (n div 2)) = nodes_in (n div 2)" using less.IH [of "n div 2"] by simp_all
    have "inj_on (\<lambda>(l :: nat, i :: nat). (Suc l, i)) A" for A by (auto simp: inj_on_def)
    then have "card ((\<lambda>(l, i). (Suc l, i)) ` tree_cells (n div 2)) = nodes_in (n div 2)" by (simp add: card_image ih(2))
    moreover have "card (Pair (0 :: nat) ` {..< n}) = n" by (simp add: card_image inj_on_def)
    moreover have "Pair 0 ` {..< n} \<inter> (\<lambda>(l, i). (Suc l, i)) ` tree_cells (n div 2) = {}" by auto
    ultimately have "card (tree_cells n) = n + nodes_in (n div 2)"
      using ih(1) by (subst tree_cells_split) (simp add: card_Un_disjoint)
    also have "\<dots> = nodes_in n"
    proof -
      have "count_ones n = n mod 2 + count_ones (n div 2)" using False by (subst count_ones.simps) simp
      then show ?thesis using count_ones_le [of "n div 2"] div_mult_mod_eq [of n 2] unfolding nodes_in_def by linarith
    qed
    finally have "card (tree_cells n) = nodes_in n" .
    moreover have "finite (tree_cells n)" using ih(1) by (subst tree_cells_split) simp
    ultimately show ?thesis by simp
  qed
qed

lemma table_counts:
  assumes "table_ok sha ls rows"
  shows "stored_leaves rows = length ls" and "stored_nodes rows = expected_nodes (length ls)"
proof -
  have ok: "bmap_ok rows" and at: "\<And>l i. map_of rows (l, i) \<noteq> None \<longleftrightarrow> (i + 1) * 2 ^ l \<le> length ls"
    using assms by (simp_all add: table_ok_def)
  have keys: "set (map fst rows) = tree_cells (length ls)"
  proof -
    have "x \<in> set (map fst rows) \<longleftrightarrow> x \<in> tree_cells (length ls)" for x
      using at [of "fst x" "snd x"] by (cases x) (auto simp: tree_cells_def map_of_eq_None_iff)
    then show ?thesis by blast
  qed
  have srt: "sorted (map fst rows)" "distinct (map fst rows)" using ok by (auto simp: bmap_ok_def strict_sorted_iff)
  have "length rows = card (set (map fst rows))" using distinct_card [OF srt(2)] by simp
  then show "stored_nodes rows = expected_nodes (length ls)"
    using card_tree_cells [of "length ls"] by (simp only: keys stored_nodes_def expected_nodes_def)
  let ?zero = "filter (\<lambda>((level, _), _). level = 0) rows"
  have zero: "map fst ?zero = filter (\<lambda>(level, _). level = 0) (map fst rows)" by (induction rows) auto
  have z: "sorted (map fst ?zero)" "distinct (map fst ?zero)"
    unfolding zero using srt by (simp_all add: sorted_wrt_filter)
  have z3: "set (map fst ?zero) = Pair 0 ` {..< length ls}"
    unfolding zero set_filter keys by (auto simp: tree_cells_def)
  have "sorted (map (Pair (0 :: nat)) [0 ..< length ls])" by (simp add: sorted_map sorted_wrt_iff_nth_less less_eq_prod_def)
  moreover have "distinct (map (Pair (0 :: nat)) [0 ..< length ls])" by (simp add: distinct_map inj_on_def)
  ultimately have e: "map fst ?zero = map (Pair 0) [0 ..< length ls]"
    using z z3 by (intro sorted_distinct_set_unique) (auto simp: atLeast0LessThan)
  show "stored_leaves rows = length ls"
  proof (cases "ls = []")
    case True
    then show ?thesis using e by (simp add: stored_leaves_def)
  next
    case False
    then have ne: "?zero \<noteq> []" using e by (metis length_0_conv length_map length_upt minus_nat.diff_0)
    have "fst (last ?zero) = last (map (Pair 0) [0 ..< length ls])" using ne e by (metis last_map)
    then show ?thesis using ne False by (cases ?zero) (auto simp: stored_leaves_def last_map)
  qed
qed

end
