(* ===== verification/Feed.thy ===== *)
theory Feed
  imports Inbox Node_Table
begin

section \<open>The sequencer's log (services/src/feed.rs, feed/retention.rs, feed/limit.rs)\<close>

text \<open>
  The state of the sequencer and the one way into its log, \<open>sequence\<close>: every message is turned
  into bytes once, hashed into the chain and the tree, written in one transaction and only then
  published. The market generator's own state and the metrics are left out; \<open>feed_env\<close> holds
  what is not under src/: SHA-256, Ed25519 (\<open>fe_sign\<close> and \<open>fe_public\<close> of a secret key), serde.
  The clock is an argument of every operation that reads it.

  The file \<open>feed.db\<close> is the record \<open>feed_db\<close>. A write is told by its argument whether SQLite
  commits; a transaction that fails leaves the file as it was. Reads of a row that is there
  succeed. \<open>None\<close> is a panic of the process.
\<close>

record feed_env =
  fe_sha :: "bytes \<Rightarrow> bytes"
  fe_sign :: "bytes \<Rightarrow> bytes \<Rightarrow> bytes"
  fe_public :: "bytes \<Rightarrow> bytes"
  fe_point :: "bytes \<Rightarrow> bool"
  fe_strict :: "bytes \<Rightarrow> bytes \<Rightarrow> bytes \<Rightarrow> bool"
  fe_to_vec :: "order_message \<Rightarrow> bytes"
  fe_parse :: "bytes \<Rightarrow> order_message option"
  fe_envelope :: "bytes \<Rightarrow> message_envelope option"

record retention_limits =
  max_nonces :: nat
  max_accounts :: nat
  max_inbox_records :: nat
  max_memory_messages :: nat
  max_batch_messages :: nat
  max_retry_records :: nat

definition default_retention :: retention_limits where
  "default_retention =
     \<lparr>max_nonces = 1000000, max_accounts = 100000, max_inbox_records = 1000000,
      max_memory_messages = 1000000, max_batch_messages = 100000, max_retry_records = 4096\<rparr>"

definition OPENING_MESSAGES :: nat where "OPENING_MESSAGES = 4"

definition MESSAGE_WINDOW :: nat where "MESSAGE_WINDOW = 10000"

type_synonym inbox_key = "string \<times> nat"

type_synonym nonce_key = "account_id \<times> bytes"

definition message_nonce :: "order_message \<Rightarrow> nonce_key option" where
  "message_nonce msg =
     do { text \<leftarrow> msg_nonce msg; nonce \<leftarrow> canonical_nonce text; Some (msg_account msg, nonce) }"

record published =
  pb_id :: nat
  pb_json :: bytes

record checkpoint =
  ck_last_id :: nat
  ck_chain :: string
  ck_signature :: string
  ck_root :: "string option"
  ck_root_signature :: "string option"

text \<open>The text of the checkpoint row, once serde has read it.\<close>

datatype checkpoint_text = NotACheckpoint | Written checkpoint

record feed_db =
  fd_messages :: "(nat, bytes \<times> bytes option) bmap"
  fd_pairings :: "(inbox_key, nat) bmap"
  fd_accounts :: "(account_id, string) bmap"
  fd_nodes :: node_table
  fd_session :: "string option"
  fd_checkpoint :: "checkpoint_text option"

datatype storage = Memory merkle_tree | Disk feed_db nat

record signed_head =
  hd_session :: string
  hd_last_id :: nat
  hd_chain :: string
  hd_public_key :: string
  hd_signature :: string

record signed_tree_head =
  sth_session :: string
  sth_timestamp :: nat
  sth_tree_size :: nat
  sth_root_hash :: string
  sth_public_key :: string
  sth_signature :: string

type_synonym read_limiter = "(ip_addr \<times> nat \<times> nat) list"

record feed_state =
  fs_limits :: retention_limits
  fs_messages :: "published list"
  fs_chains :: "bytes list"
  fs_next_id :: nat
  fs_session :: string
  fs_storage :: storage
  fs_chain :: bytes
  fs_tree_head :: "signed_tree_head option"
  fs_key :: bytes
  fs_inbox_sequenced :: "(inbox_key, nat) bmap"
  fs_limiter :: rate_limiter
  fs_read_limiter :: read_limiter
  fs_proxies :: "proxy_net list"
  fs_operator_key :: "bytes option"
  fs_accounts :: "(account_id, bytes) bmap"
  fs_nonces :: "(nonce_key, nat) bmap"

datatype feed_error =
  LimitsNotPositive | StateOverLimits | BatchCapacity | MemoryCapacity | NonceCapacity | InboxCapacity
| NonceSpent | EntrySequenced | NotWritten "unreadable store_fault" | AccountCapacity | PinNotWritten
| Intake inbox_error | OpeningIncomplete nat | NonceIsMessage nat | OtherMessage nat | UnreadableMessage nat
| OperatorNonce | OperatorTerms operator_error | NoOperator | NotOperatorKey | OperatorRefused operator_error
| FeedBusy | NoLongerInMemory nat | StoredChain nat

definition feed_new :: "bytes \<Rightarrow> string \<Rightarrow> feed_state" where
  "feed_new key session =
     \<lparr>fs_limits = default_retention, fs_messages = [], fs_chains = [], fs_next_id = 1,
      fs_session = session, fs_storage = Memory [], fs_chain = EMPTY_CHAIN, fs_tree_head = None,
      fs_key = key, fs_inbox_sequenced = [], fs_limiter = [], fs_read_limiter = [], fs_proxies = [],
      fs_operator_key = None, fs_accounts = [], fs_nonces = []\<rparr>"

subsection \<open>What memory holds\<close>

fun storage_leaves :: "storage \<Rightarrow> nat" where
  "storage_leaves (Memory tree) = tree_len tree"
| "storage_leaves (Disk _ leaves) = leaves"

fun storage_nodes :: "storage \<Rightarrow> unreadable node_source" where
  "storage_nodes (Memory tree) = tree_node tree"
| "storage_nodes (Disk db _) = disk_node (fd_nodes db)"

fun in_memory :: "storage \<Rightarrow> bool" where
  "in_memory (Memory _) = True"
| "in_memory (Disk _ _) = False"

definition window_start :: "feed_state \<Rightarrow> nat" where
  "window_start s = (case fs_messages s of [] \<Rightarrow> fs_next_id s | m # _ \<Rightarrow> pb_id m)"

definition feed_last_id :: "feed_state \<Rightarrow> nat" where
  "feed_last_id s = (if fs_messages s = [] then 0 else pb_id (last (fs_messages s)))"

definition log_is_open :: "feed_state \<Rightarrow> bool" where
  "log_is_open s \<longleftrightarrow> fs_operator_key s = None \<or> OPENING_MESSAGES \<le> feed_last_id s"

definition window_index :: "feed_state \<Rightarrow> nat \<Rightarrow> nat option" where
  "window_index s i =
     (if i < window_start s \<or> feed_last_id s < i then None else Some (i - window_start s))"

definition stored_json :: "feed_state \<Rightarrow> nat \<Rightarrow> bytes option" where
  "stored_json s i =
     (case window_index s i of
        Some index \<Rightarrow> if index < length (fs_messages s) then Some (pb_json (fs_messages s ! index)) else None
      | None \<Rightarrow>
          (case fs_storage s of
             Memory _ \<Rightarrow> None
           | Disk db _ \<Rightarrow> map_option fst (map_of (fd_messages db) i)))"

definition stored_message :: "feed_env \<Rightarrow> feed_state \<Rightarrow> nat \<Rightarrow> order_message option" where
  "stored_message fe s i = do { json \<leftarrow> stored_json s i; fe_parse fe json }"

definition push_window :: "published \<Rightarrow> bytes \<Rightarrow> feed_state \<Rightarrow> feed_state" where
  "push_window msg chain s =
     (let full = length (fs_messages s) = MESSAGE_WINDOW
      in s\<lparr>fs_messages := (if full then tl (fs_messages s) else fs_messages s) @ [msg],
           fs_chains := (if full then tl (fs_chains s) else fs_chains s) @ [chain]\<rparr>)"

subsection \<open>Retention limits\<close>

definition retention_validate :: "retention_limits \<Rightarrow> feed_error + unit" where
  "retention_validate l =
     require (0 \<notin> set [max_nonces l, max_accounts l, max_inbox_records l, max_memory_messages l,
       max_batch_messages l, max_retry_records l]) LimitsNotPositive"

definition with_retention_limits :: "feed_state \<Rightarrow> retention_limits \<Rightarrow> feed_error + feed_state" where
  "with_retention_limits s l =
     res_bind (retention_validate l) (\<lambda>_.
     if max_nonces l < length (fs_nonces s) \<or> max_accounts l < length (fs_accounts s) \<or>
        max_inbox_records l < length (fs_inbox_sequenced s) \<or>
        in_memory (fs_storage s) \<and> max_memory_messages l < feed_last_id s
     then Inl StateOverLimits
     else Inr (s\<lparr>fs_limits := l\<rparr>))"

definition check_retention_growth :: "feed_state \<Rightarrow> nat \<Rightarrow> nat \<Rightarrow> nat \<Rightarrow> feed_error + unit" where
  "check_retention_growth s messages nonces inbox =
     (let l = fs_limits s in
      if max_batch_messages l < messages then Inl BatchCapacity
      else if in_memory (fs_storage s) \<and> max_memory_messages l - storage_leaves (fs_storage s) < messages
      then Inl MemoryCapacity
      else if max_nonces l - length (fs_nonces s) < nonces then Inl NonceCapacity
      else if max_inbox_records l - length (fs_inbox_sequenced s) < inbox then Inl InboxCapacity
      else Inr ())"

text \<open>The loop of \<open>check_retention_batch\<close>: the nonces and the entries of the batch so far.\<close>

fun check_batch_rows ::
  "feed_state \<Rightarrow> nonce_key list \<Rightarrow> inbox_key list \<Rightarrow> (inbox_key option \<times> order_message) list \<Rightarrow> feed_error + unit" where
  "check_batch_rows s nonces inbox [] = Inr ()"
| "check_batch_rows s nonces inbox ((key, msg) # batch) =
     res_bind
       (case message_nonce msg of
          None \<Rightarrow> Inr nonces
        | Some nonce \<Rightarrow>
            if map_of (fs_nonces s) nonce \<noteq> None \<or> nonce \<in> set nonces then Inl NonceSpent
            else if max_nonces (fs_limits s) - length (fs_nonces s) < length nonces + 1 then Inl NonceCapacity
            else Inr (nonce # nonces)) (\<lambda>nonces'.
     res_bind
       (case key of
          None \<Rightarrow> Inr inbox
        | Some k \<Rightarrow>
            if map_of (fs_inbox_sequenced s) k \<noteq> None \<or> k \<in> set inbox then Inl EntrySequenced
            else if max_inbox_records (fs_limits s) - length (fs_inbox_sequenced s) < length inbox + 1 then Inl InboxCapacity
            else Inr (k # inbox)) (\<lambda>inbox'.
     check_batch_rows s nonces' inbox' batch))"

definition check_retention_batch ::
  "feed_state \<Rightarrow> (inbox_key option \<times> order_message) list \<Rightarrow> feed_error + unit" where
  "check_retention_batch s batch =
     (if max_batch_messages (fs_limits s) < length batch then Inl BatchCapacity
      else if in_memory (fs_storage s) \<and>
        max_memory_messages (fs_limits s) - storage_leaves (fs_storage s) < length batch
      then Inl MemoryCapacity
      else check_batch_rows s [] [] batch)"

subsection \<open>Publishing\<close>

text \<open>The links of the chain through a batch.\<close>

fun chain_links :: "(bytes \<Rightarrow> bytes) \<Rightarrow> bytes \<Rightarrow> bytes list \<Rightarrow> bytes list" where
  "chain_links sha chain [] = []"
| "chain_links sha chain (json # jsons) =
     (let link = extend_bytes sha chain json in link # chain_links sha link jsons)"

type_synonym batch_row = "inbox_key option \<times> published \<times> bytes"

text \<open>The two inserts per message, both plain: a row that is there refuses the batch.\<close>

fun insert_rows :: "feed_db \<Rightarrow> batch_row list \<Rightarrow> unreadable store_fault + feed_db" where
  "insert_rows db [] = Inr db"
| "insert_rows db ((key, row, chain) # rows) =
     (if map_of (fd_messages db) (pb_id row) \<noteq> None then Inl (StoreError SqlFault)
      else
        let db1 = db\<lparr>fd_messages := bput (fd_messages db) (pb_id row) (pb_json row, Some chain)\<rparr>
        in case key of
             None \<Rightarrow> insert_rows db1 rows
           | Some k \<Rightarrow>
               if map_of (fd_pairings db1) k \<noteq> None then Inl (StoreError SqlFault)
               else insert_rows (db1\<lparr>fd_pairings := bput (fd_pairings db1) k (pb_id row)\<rparr>) rows)"

definition checkpoint_row :: "feed_env \<Rightarrow> bytes \<Rightarrow> string \<Rightarrow> nat \<Rightarrow> bytes \<Rightarrow> hash \<Rightarrow> checkpoint" where
  "checkpoint_row fe key session last_id chain root_hash =
     \<lparr>ck_last_id = last_id, ck_chain = to_hex chain,
      ck_signature = to_hex (sign_head (fe_sign fe) key session last_id chain),
      ck_root = Some (to_hex root_hash),
      ck_root_signature = Some (to_hex (sign_checkpoint (fe_sign fe) key session last_id chain root_hash))\<rparr>"

text \<open>The transaction: messages and pairings, the session, the nodes (a new history clears the
  table first), the checkpoint over what the rows now hold.\<close>

definition write_batch ::
  "feed_env \<Rightarrow> bool \<Rightarrow> bytes \<Rightarrow> string \<Rightarrow> feed_db \<Rightarrow> nat \<Rightarrow> batch_row list \<Rightarrow> hash list \<Rightarrow> nat \<Rightarrow> bytes \<Rightarrow>
   unreadable store_fault + feed_db" where
  "write_batch fe commits key session db leaves_before rows leaves last_id chain =
     res_bind (insert_rows db rows) (\<lambda>db1.
     let db2 = db1\<lparr>fd_session := Some session,
                   fd_nodes := (if leaves_before = 0 then [] else fd_nodes db1)\<rparr>;
         grown = leaves_before + length leaves
     in res_bind (append_rows (fe_sha fe) (fd_nodes db2) leaves_before leaves) (\<lambda>nodes.
        res_bind (nodes_root (fe_sha fe) (disk_node nodes) grown grown) (\<lambda>root_hash.
        if \<not> commits then Inl (StoreError SqlFault)
        else Inr (db2\<lparr>fd_nodes := nodes,
               fd_checkpoint := Some (Written (checkpoint_row fe key session last_id chain root_hash))\<rparr>))))"

text \<open>After the commit: the pairing, the nonce and the window, message by message.\<close>

definition publish_row :: "(inbox_key option \<times> order_message) \<times> published \<times> bytes \<Rightarrow> feed_state \<Rightarrow> feed_state" where
  "publish_row entry s =
     (case entry of ((key, msg), row, chain) \<Rightarrow>
        let s1 = (case key of None \<Rightarrow> s
                  | Some k \<Rightarrow> s\<lparr>fs_inbox_sequenced := bput (fs_inbox_sequenced s) k (msg_id msg)\<rparr>);
            s2 = (case message_nonce msg of None \<Rightarrow> s1
                  | Some nonce \<Rightarrow> s1\<lparr>fs_nonces := bput (fs_nonces s1) nonce (msg_id msg)\<rparr>)
        in push_window row chain s2)"

fun push_leaves :: "(bytes \<Rightarrow> hash) \<Rightarrow> merkle_tree \<Rightarrow> hash list \<Rightarrow> merkle_tree option" where
  "push_leaves sha tree [] = Some tree"
| "push_leaves sha tree (leaf # leaves) =
     (case push_leaf_hash sha tree leaf :: unit store_fault + nat \<times> merkle_tree of
        Inl _ \<Rightarrow> None
      | Inr (_, tree') \<Rightarrow> push_leaves sha tree' leaves)"

definition sequence ::
  "feed_env \<Rightarrow> bool \<Rightarrow> feed_state \<Rightarrow> (inbox_key option \<times> order_message) list \<Rightarrow>
   ((feed_error + unit) \<times> feed_state) option" where
  "sequence fe commits s batch =
     (if batch = [] then Some (Inr (), s)
      else case check_retention_batch s batch of
        Inl e \<Rightarrow> Some (Inl e, s)
      | Inr _ \<Rightarrow>
          let jsons = map (fe_to_vec fe \<circ> snd) batch;
              chains = chain_links (fe_sha fe) (fs_chain s) jsons;
              leaves = map (leaf_hash (fe_sha fe)) jsons;
              rows = map2 (\<lambda>(_, msg) json. \<lparr>pb_id = msg_id msg, pb_json = json\<rparr>) batch jsons;
              first_id = msg_id (snd (hd batch));
              last_id = msg_id (snd (last batch));
              written = (case fs_storage s of
                  Memory tree \<Rightarrow> Inr (fs_storage s)
                | Disk db n \<Rightarrow>
                    res_bind (write_batch fe commits (fs_key s) (fs_session s) db n
                        (map2 (\<lambda>(key, _) (row, chain). (key, row, chain)) batch (zip rows chains))
                        leaves last_id (last chains)) (\<lambda>db'. Inr (Disk db' n)))
          in case written of
               Inl Panicked \<Rightarrow> None
             | Inl (StoreError e) \<Rightarrow> Some (Inl (NotWritten (StoreError e)), s\<lparr>fs_next_id := first_id\<rparr>)
             | Inr stored \<Rightarrow>
                 let s1 = fold publish_row (zip batch (zip rows chains))
                       (s\<lparr>fs_storage := stored, fs_chain := last chains\<rparr>)
                 in case stored of
                      Memory tree \<Rightarrow>
                        do { tree' \<leftarrow> push_leaves (fe_sha fe) tree leaves;
                             Some (Inr (), s1\<lparr>fs_storage := Memory tree'\<rparr>) }
                    | Disk db n \<Rightarrow> Some (Inr (), s1\<lparr>fs_storage := Disk db (n + length leaves)\<rparr>))"

definition publish ::
  "feed_env \<Rightarrow> bool \<Rightarrow> feed_state \<Rightarrow> order_message \<Rightarrow> ((feed_error + unit) \<times> feed_state) option" where
  "publish fe commits s msg = sequence fe commits s [(None, msg)]"

definition publish_batch ::
  "feed_env \<Rightarrow> bool \<Rightarrow> feed_state \<Rightarrow> order_message list \<Rightarrow> ((feed_error + unit) \<times> feed_state) option" where
  "publish_batch fe commits s msgs = sequence fe commits s (map (Pair None) msgs)"

subsection \<open>Accounts\<close>

definition feed_pin_or_check ::
  "feed_state \<Rightarrow> bool \<Rightarrow> account_id \<Rightarrow> bytes \<Rightarrow> feed_error + feed_state" where
  "feed_pin_or_check s commits account key =
     res_bind (map_err Intake (check_account_key account (map_of (fs_accounts s) account) key)) (\<lambda>decision.
     if decision \<noteq> First then Inr s
     else if max_accounts (fs_limits s) \<le> length (fs_accounts s) then Inl AccountCapacity
     else
       let s1 = s\<lparr>fs_accounts := bput (fs_accounts s) account key\<rparr>
       in case fs_storage s of
            Memory _ \<Rightarrow> Inr s1
          | Disk db n \<Rightarrow>
              if \<not> commits \<or> map_of (fd_accounts db) account \<noteq> None then Inl PinNotWritten
              else Inr (s1\<lparr>fs_storage := Disk (db\<lparr>fd_accounts := bput (fd_accounts db) account (to_hex key)\<rparr>) n\<rparr>))"

subsection \<open>Heads, proofs and pages\<close>

definition signed_head_at :: "feed_env \<Rightarrow> feed_state \<Rightarrow> nat \<Rightarrow> bytes \<Rightarrow> signed_head" where
  "signed_head_at fe s last_id chain =
     \<lparr>hd_session = fs_session s, hd_last_id = last_id, hd_chain = to_hex chain,
      hd_public_key = to_hex (fe_public fe (fs_key s)),
      hd_signature = to_hex (sign_head (fe_sign fe) (fs_key s) (fs_session s) last_id chain)\<rparr>"

definition feed_head :: "feed_env \<Rightarrow> feed_state \<Rightarrow> signed_head" where
  "feed_head fe s = signed_head_at fe s (feed_last_id s) (fs_chain s)"

definition feed_tree_size :: "feed_state \<Rightarrow> nat" where
  "feed_tree_size s = storage_leaves (fs_storage s)"

definition feed_tree_root :: "feed_env \<Rightarrow> feed_state \<Rightarrow> unreadable store_fault + hash" where
  "feed_tree_root fe s =
     nodes_root (fe_sha fe) (storage_nodes (fs_storage s)) (storage_leaves (fs_storage s)) (feed_tree_size s)"

text \<open>A head is signed again only when the tree or the millisecond has moved, and never with an
  older timestamp.\<close>

definition feed_tree_head ::
  "feed_env \<Rightarrow> feed_state \<Rightarrow> nat \<Rightarrow> (unreadable store_fault + signed_tree_head) \<times> feed_state" where
  "feed_tree_head fe s now =
     (let n = feed_tree_size s;
          fresh = (\<lambda>timestamp.
            case feed_tree_root fe s of
              Inl e \<Rightarrow> (Inl e, s)
            | Inr root_hash \<Rightarrow>
                let head = \<lparr>sth_session = fs_session s, sth_timestamp = timestamp, sth_tree_size = n,
                      sth_root_hash = to_hex root_hash, sth_public_key = to_hex (fe_public fe (fs_key s)),
                      sth_signature = to_hex (sign_tree_head (fe_sign fe) (fs_key s) (fs_session s) timestamp n root_hash)\<rparr>
                in (Inr head, s\<lparr>fs_tree_head := Some head\<rparr>))
      in case fs_tree_head s of
           Some kept \<Rightarrow>
             if sth_tree_size kept = n \<and> now \<le> sth_timestamp kept then (Inr kept, s)
             else fresh (max now (sth_timestamp kept + 1))
         | None \<Rightarrow> fresh now)"

definition feed_inclusion_proof ::
  "feed_env \<Rightarrow> feed_state \<Rightarrow> nat \<Rightarrow> nat \<Rightarrow> unreadable tree_error + string list" where
  "feed_inclusion_proof fe s leaf_index tree_size =
     res_bind (path_of (fe_sha fe) (storage_nodes (fs_storage s)) (feed_tree_size s) leaf_index tree_size)
       (\<lambda>path. Inr (map to_hex path))"

definition feed_consistency_proof ::
  "feed_env \<Rightarrow> feed_state \<Rightarrow> nat \<Rightarrow> nat \<Rightarrow> unreadable tree_error + string list" where
  "feed_consistency_proof fe s first second =
     res_bind (proof_of (fe_sha fe) (storage_nodes (fs_storage s)) (feed_tree_size s) first second)
       (\<lambda>path. Inr (map to_hex path))"

text \<open>The rows of a page read from disk; a link that is not 32 bytes refuses the page.\<close>

fun page_rows :: "(nat \<times> bytes \<times> bytes option) list \<Rightarrow> feed_error + (published \<times> bytes) list" where
  "page_rows [] = Inr []"
| "page_rows ((i, json, chain) # rows) =
     (case chain of
        None \<Rightarrow> Inl (StoredChain i)
      | Some c \<Rightarrow>
          if length c \<noteq> 32 then Inl (StoredChain i)
          else res_bind (page_rows rows) (\<lambda>out. Inr ((\<lparr>pb_id = i, pb_json = json\<rparr>, c) # out)))"

definition page ::
  "feed_state \<Rightarrow> nat \<Rightarrow> nat \<Rightarrow> feed_error + (published list \<times> (nat \<times> bytes) option)" where
  "page s since limit =
     (let first = sat_add_u64 since 1 in
      if feed_last_id s < first then Inr ([], None)
      else
        let headed = (\<lambda>rows. (map fst rows,
              if rows = [] then None else Some (pb_id (fst (last rows)), snd (last rows))))
        in case window_index s first of
             Some index \<Rightarrow> Inr (headed (take limit (drop index (zip (fs_messages s) (fs_chains s)))))
           | None \<Rightarrow>
               (case fs_storage s of
                  Memory _ \<Rightarrow> Inl (NoLongerInMemory first)
                | Disk db _ \<Rightarrow>
                    res_bind (page_rows (take limit (filter (\<lambda>(i, _). since < i) (fd_messages db)))) (\<lambda>rows.
                    Inr (headed rows))))"

definition chain_at :: "feed_state \<Rightarrow> nat \<Rightarrow> bytes option" where
  "chain_at s i =
     (case window_index s i of
        Some index \<Rightarrow> if index < length (fs_chains s) then Some (fs_chains s ! index) else None
      | None \<Rightarrow>
          (case fs_storage s of
             Memory _ \<Rightarrow> None
           | Disk db _ \<Rightarrow>
               do { (_, chain) \<leftarrow> map_of (fd_messages db) i; c \<leftarrow> chain;
                    if length c = 32 then Some c else None }))"

end
