(* ===== verification/Wire.thy ===== *)
theory Wire
  imports Feed
begin

section \<open>Pages on the wire (services/src/wire.rs, feed/http.rs)\<close>

text \<open>
  GET /messages.ndjson: the page as bytes, one message per line, and the signed head that stands
  at its last message; and its readers, \<open>split_ndjson\<close> and \<open>read_ndjson\<close>. The head travels in
  headers of hexadecimal text; the decimal text of its number, the cache headers and the charge
  for the read are left out.
\<close>

definition newline :: char where "newline = char_of (10 :: nat)"

subsection \<open>The page\<close>

definition FEED_PAGE_LIMIT :: nat where "FEED_PAGE_LIMIT = 1000"

definition get_messages_ndjson ::
  "feed_env \<Rightarrow> feed_state \<Rightarrow> nat \<Rightarrow> nat option \<Rightarrow> feed_error + (signed_head \<times> bytes)" where
  "get_messages_ndjson fe s since limit =
     (let asked = min (case limit of None \<Rightarrow> FEED_PAGE_LIMIT | Some n \<Rightarrow> n) FEED_PAGE_LIMIT
      in res_bind (page s since asked) (\<lambda>(messages, head).
         let (last_id, chain) = (case head of None \<Rightarrow> (feed_last_id s, fs_chain s) | Some h \<Rightarrow> h)
         in Inr (signed_head_at fe s last_id chain, concat (map (\<lambda>m. pb_json m @ [newline]) messages))))"

subsection \<open>The head, read from the headers\<close>

record followed_head =
  fh_last_id :: nat
  fh_chain :: bytes
  fh_public_key :: string
  fh_signature :: bytes

definition parse_signed_head :: "signed_head \<Rightarrow> followed_head option" where
  "parse_signed_head head =
     do { chain \<leftarrow> from_hex 32 (hd_chain head);
          signature \<leftarrow> from_hex 64 (hd_signature head);
          Some \<lparr>fh_last_id = hd_last_id head, fh_chain = chain, fh_public_key = hd_public_key head, fh_signature = signature\<rparr> }"

subsection \<open>The lines\<close>

record raw_message =
  rm_id :: nat
  rm_kind :: string
  rm_bytes :: bytes

record read_message =
  rd_raw :: raw_message
  rd_parsed :: "order_message option"

datatype page_fault = PaddedLine bytes | NotAFeedMessage bytes

definition ascii_space :: "char \<Rightarrow> bool" where
  "ascii_space c \<longleftrightarrow> (of_char c :: nat) \<in> {9, 10, 12, 13, 32}"

fun split_lines :: "bytes \<Rightarrow> bytes list" where
  "split_lines [] = [[]]"
| "split_lines (c # cs) =
     (if c = newline then [] # split_lines cs
      else case split_lines cs of [] \<Rightarrow> [[c]] | line # rest \<Rightarrow> (c # line) # rest)"

definition framed_lines :: "bytes \<Rightarrow> (page_fault + bytes) list" where
  "framed_lines body =
     map (\<lambda>line. if ascii_space (hd line) \<or> ascii_space (last line) then Inl (PaddedLine line) else Inr line)
       (filter (\<lambda>line. \<not> list_all ascii_space line) (split_lines body))"

text \<open>A reader goes through the lines and stops at the first that fails.\<close>

fun read_lines :: "(bytes \<Rightarrow> page_fault + 'a) \<Rightarrow> (page_fault + bytes) list \<Rightarrow> page_fault + 'a list" where
  "read_lines f [] = Inr []"
| "read_lines f (line # lines) =
     res_bind (res_bind line f) (\<lambda>x. res_bind (read_lines f lines) (\<lambda>xs. Inr (x # xs)))"

definition raw_line :: "(bytes \<Rightarrow> message_envelope option) \<Rightarrow> bytes \<Rightarrow> page_fault + raw_message" where
  "raw_line envelope line =
     (case envelope line of
        None \<Rightarrow> Inl (NotAFeedMessage line)
      | Some read \<Rightarrow> Inr \<lparr>rm_id = me_id read, rm_kind = me_kind read, rm_bytes = line\<rparr>)"

definition split_ndjson :: "(bytes \<Rightarrow> message_envelope option) \<Rightarrow> bytes \<Rightarrow> page_fault + raw_message list" where
  "split_ndjson envelope body = read_lines (raw_line envelope) (framed_lines body)"

definition read_line ::
  "(bytes \<Rightarrow> message_envelope option) \<Rightarrow> (bytes \<Rightarrow> order_message option) \<Rightarrow> bytes \<Rightarrow> page_fault + read_message" where
  "read_line envelope parse line =
     (case parse line of
        Some msg \<Rightarrow> Inr \<lparr>rd_raw = \<lparr>rm_id = msg_id msg, rm_kind = msg_kind msg, rm_bytes = line\<rparr>, rd_parsed = Some msg\<rparr>
      | None \<Rightarrow> res_bind (raw_line envelope line) (\<lambda>raw. Inr \<lparr>rd_raw = raw, rd_parsed = None\<rparr>))"

definition read_ndjson ::
  "(bytes \<Rightarrow> message_envelope option) \<Rightarrow> (bytes \<Rightarrow> order_message option) \<Rightarrow> bytes \<Rightarrow> page_fault + read_message list" where
  "read_ndjson envelope parse body = read_lines (read_line envelope parse) (framed_lines body)"

subsection \<open>Lines read back\<close>

text \<open>What serde promises of a message's bytes: they are one line, and not padded.\<close>

definition plain_line :: "bytes \<Rightarrow> bool" where
  "plain_line line \<longleftrightarrow> line \<noteq> [] \<and> newline \<notin> set line \<and> \<not> ascii_space (hd line) \<and> \<not> ascii_space (last line)"

lemma split_line: "newline \<notin> set line \<Longrightarrow> split_lines (line @ newline # rest) = line # split_lines rest"
  by (induction line) auto

lemma split_lines_back:
  "\<forall>line \<in> set lines. newline \<notin> set line \<Longrightarrow> split_lines (concat (map (\<lambda>line. line @ [newline]) lines)) = lines @ [[]]"
  by (induction lines) (simp_all add: split_line)

lemma framed_back:
  assumes "\<forall>line \<in> set lines. plain_line line"
  shows "framed_lines (concat (map (\<lambda>line. line @ [newline]) lines)) = map Inr lines"
proof -
  have "\<not> list_all ascii_space line" if "plain_line line" for line
    using that by (cases line) (auto simp: plain_line_def)
  then have "filter (\<lambda>line. \<not> list_all ascii_space line) (lines @ [[]]) = lines" using assms by (simp add: filter_id_conv)
  moreover have "\<forall>line \<in> set lines. newline \<notin> set line" using assms by (simp add: plain_line_def)
  ultimately show ?thesis using assms by (simp add: framed_lines_def split_lines_back plain_line_def)
qed

lemma read_lines_ok: "(\<And>line. line \<in> set lines \<Longrightarrow> f line = Inr (g line)) \<Longrightarrow> read_lines f (map Inr lines) = Inr (map g lines)"
  by (induction lines) simp_all

end
