(* ===== verification/Validator.thy ===== *)
theory Validator
  imports Wire
begin

section \<open>The validator (services/src/validator.rs)\<close>

text \<open>
  A validator follows the sequencer's signed log and attests to what it saw. One poll is \<open>poll\<close>:
  the answer is any answer, its headers and lines already read. The pinned key, the cursor with
  its chain, the verdict and the count of unchecked polls are what \<open>save\<close> writes, so a process
  that starts again carries on from the same state (\<open>reopened\<close>); the migration of old files,
  logging and the sleep between polls are left out.
\<close>

definition UNCHECKED_POLLS_BEFORE_STALL :: nat where "UNCHECKED_POLLS_BEFORE_STALL = 20"

text \<open>The reason of a dispute is where it was found, the chain that was signed and the chain the
  messages give.\<close>

record validator_state =
  va_key :: bytes
  va_session :: "string option"
  va_feed_pubkey :: "string option"
  va_cursor :: nat
  va_chain :: bytes
  va_disputed :: bool
  va_reason :: "(nat \<times> bytes \<times> bytes) option"
  va_unchecked :: nat

datatype unchecked_reason =
  NoAnswer | Unreadable | NoSignedHead | ForeignKey string string | BadSignature string nat
| HeadDoesNotCover nat nat | NotNext nat nat

datatype ingest_result = Verified nat | Unchecked unchecked_reason | Disputed

definition open_validator :: "bytes \<Rightarrow> validator_state" where
  "open_validator key =
     \<lparr>va_key = key, va_session = None, va_feed_pubkey = None, va_cursor = 0, va_chain = EMPTY_CHAIN,
      va_disputed = False, va_reason = None, va_unchecked = 0\<rparr>"

definition stalled :: "validator_state \<Rightarrow> bool" where
  "stalled v \<longleftrightarrow> UNCHECKED_POLLS_BEFORE_STALL \<le> va_unchecked v"

definition validator_status :: "validator_state \<Rightarrow> attest_status" where
  "validator_status v = \<lparr>as_disputed = va_disputed v, as_stalled = stalled v\<rparr>"

record attestation =
  at_validator :: string
  at_session :: string
  at_last_id :: nat
  at_chain :: string
  at_signature :: string
  at_disputed :: bool
  at_stalled :: bool
  at_unchecked_polls :: nat

definition attest :: "(bytes \<Rightarrow> bytes) \<Rightarrow> (bytes \<Rightarrow> bytes \<Rightarrow> bytes) \<Rightarrow> validator_state \<Rightarrow> attestation" where
  "attest public sign v =
     (let session = (case va_session v of None \<Rightarrow> [] | Some s \<Rightarrow> s); status = validator_status v
      in \<lparr>at_validator = to_hex (public (va_key v)), at_session = session, at_last_id = va_cursor v,
          at_chain = to_hex (va_chain v),
          at_signature = to_hex (sign_attest sign (va_key v) session (va_cursor v) (va_chain v) status),
          at_disputed = as_disputed status, at_stalled = as_stalled status, at_unchecked_polls = va_unchecked v\<rparr>)"

definition count_unchecked :: "validator_state \<Rightarrow> unchecked_reason \<Rightarrow> ingest_result \<times> validator_state" where
  "count_unchecked v why = (Unchecked why, v\<lparr>va_unchecked := min u32_max (va_unchecked v + 1)\<rparr>)"

definition dispute :: "validator_state \<Rightarrow> nat \<times> bytes \<times> bytes \<Rightarrow> ingest_result \<times> validator_state" where
  "dispute v why = (Disputed, v\<lparr>va_disputed := True, va_reason := Some why\<rparr>)"

text \<open>The first message that does not continue the cursor.\<close>

fun first_gap :: "nat \<Rightarrow> raw_message list \<Rightarrow> (nat \<times> nat) option" where
  "first_gap expected [] = None"
| "first_gap expected (m # ms) =
     (if rm_id m \<noteq> expected then Some (expected, rm_id m) else first_gap (sat_add_u64 expected 1) ms)"

definition fold_chain :: "(bytes \<Rightarrow> bytes) \<Rightarrow> bytes \<Rightarrow> raw_message list \<Rightarrow> bytes" where
  "fold_chain sha chain messages = foldl (extend_bytes sha) chain (map rm_bytes messages)"

definition head_verifies ::
  "(bytes \<Rightarrow> bool) \<Rightarrow> (bytes \<Rightarrow> bytes \<Rightarrow> bytes \<Rightarrow> bool) \<Rightarrow> string \<Rightarrow> followed_head \<Rightarrow> bool" where
  "head_verifies point strict session head \<longleftrightarrow>
     (case from_hex 32 (fh_public_key head) of
        None \<Rightarrow> False
      | Some key \<Rightarrow> point key \<and> verify_head strict key session (fh_last_id head) (fh_chain head) (fh_signature head))"

text \<open>Past the signature: a new session is a new history, and then the messages are compared with
  what was signed over them.\<close>

definition take_session :: "validator_state \<Rightarrow> string \<Rightarrow> validator_state" where
  "take_session v session =
     (if va_session v = Some session then v
      else v\<lparr>va_session := Some session, va_cursor := 0, va_chain := EMPTY_CHAIN, va_unchecked := 0\<rparr>)"

definition compare_served ::
  "(bytes \<Rightarrow> bytes) \<Rightarrow> validator_state \<Rightarrow> followed_head \<Rightarrow> raw_message list \<Rightarrow> ingest_result \<times> validator_state" where
  "compare_served sha v head messages =
     (case first_gap (sat_add_u64 (va_cursor v) 1) messages of
        Some (expected, got) \<Rightarrow> count_unchecked v (NotNext expected got)
      | None \<Rightarrow>
          let served_to = (if messages = [] then va_cursor v else rm_id (last messages))
          in if fh_last_id head \<noteq> served_to then count_unchecked v (HeadDoesNotCover (fh_last_id head) served_to)
             else let chain = fold_chain sha (va_chain v) messages
                  in if chain \<noteq> fh_chain head then dispute v (fh_last_id head, fh_chain head, chain)
                     else (Verified served_to, v\<lparr>va_chain := chain, va_cursor := served_to, va_unchecked := 0\<rparr>))"

definition ingest ::
  "(bytes \<Rightarrow> bytes) \<Rightarrow> (bytes \<Rightarrow> bool) \<Rightarrow> (bytes \<Rightarrow> bytes \<Rightarrow> bytes \<Rightarrow> bool) \<Rightarrow> validator_state \<Rightarrow>
   string option \<Rightarrow> followed_head option \<Rightarrow> raw_message list \<Rightarrow> ingest_result \<times> validator_state" where
  "ingest sha point strict v session head messages =
     (case (session, head) of
        (Some session, Some head) \<Rightarrow>
          if va_feed_pubkey v \<noteq> None \<and> va_feed_pubkey v \<noteq> Some (fh_public_key head)
          then count_unchecked v (ForeignKey (the (va_feed_pubkey v)) (fh_public_key head))
          else if \<not> head_verifies point strict session head
          then count_unchecked v (BadSignature (fh_public_key head) (fh_last_id head))
          else compare_served sha (take_session (v\<lparr>va_feed_pubkey := Some (fh_public_key head)\<rparr>) session) head messages
      | _ \<Rightarrow> count_unchecked v NoSignedHead)"

subsection \<open>The loop\<close>

text \<open>What came back from the sequencer: nothing, or the headers with the lines or a body that
  cannot be read.\<close>

type_synonym poll_answer = "(string option \<times> followed_head option \<times> raw_message list option) option"

definition poll ::
  "(bytes \<Rightarrow> bytes) \<Rightarrow> (bytes \<Rightarrow> bool) \<Rightarrow> (bytes \<Rightarrow> bytes \<Rightarrow> bytes \<Rightarrow> bool) \<Rightarrow> validator_state \<Rightarrow>
   poll_answer \<Rightarrow> ingest_result option \<times> validator_state" where
  "poll sha point strict v answer =
     (if va_disputed v then (None, v)
      else apfst Some
        (case answer of
           None \<Rightarrow> count_unchecked v NoAnswer
         | Some (_, _, None) \<Rightarrow> count_unchecked v Unreadable
         | Some (session, head, Some messages) \<Rightarrow> ingest sha point strict v session head messages))"

definition clear_dispute :: "validator_state \<Rightarrow> validator_state" where
  "clear_dispute v =
     (if va_disputed v then v\<lparr>va_disputed := False, va_reason := None, va_unchecked := 0\<rparr> else v)"

subsection \<open>The file\<close>

text \<open>The one row of validator.db. An i64 keeps the 64 bits of a u64.\<close>

record validator_row =
  vw_session :: "string option"
  vw_feed_pubkey :: "string option"
  vw_cursor :: "64 word"
  vw_chain :: bytes
  vw_disputed :: bool
  vw_reason :: "(nat \<times> bytes \<times> bytes) option"
  vw_unchecked :: int

definition save :: "validator_state \<Rightarrow> validator_row" where
  "save v =
     \<lparr>vw_session = va_session v, vw_feed_pubkey = va_feed_pubkey v, vw_cursor = word_of_nat (va_cursor v),
      vw_chain = va_chain v, vw_disputed = va_disputed v, vw_reason = va_reason v, vw_unchecked = int (va_unchecked v)\<rparr>"

definition open_validator_db :: "bytes \<Rightarrow> validator_row option \<Rightarrow> validator_state option" where
  "open_validator_db key stored =
     (case stored of
        None \<Rightarrow> Some (open_validator key)
      | Some row \<Rightarrow>
          if length (vw_chain row) \<noteq> HASH_SIZE then None
          else Some \<lparr>va_key = key, va_session = vw_session row, va_feed_pubkey = vw_feed_pubkey row,
                     va_cursor = unat (vw_cursor row), va_chain = vw_chain row, va_disputed = vw_disputed row,
                     va_reason = vw_reason row, va_unchecked = nat (max (vw_unchecked row) 0) mod 2 ^ 32\<rparr>)"

lemma reopened:
  assumes "va_cursor v \<le> u64_max" and "length (va_chain v) = HASH_SIZE" and "va_unchecked v \<le> u32_max"
  shows "open_validator_db (va_key v) (Some (save v)) = Some v"
proof -
  have "unat (word_of_nat (va_cursor v) :: 64 word) = va_cursor v"
    using assms(1) by (simp add: u64_max_def unat_of_nat)
  then show ?thesis using assms(2,3) by (simp add: open_validator_db_def save_def u32_max_def)
qed

end
