(* ===== verification/Feed_Intake.thy ===== *)
theory Feed_Intake
  imports Feed
begin

section \<open>The ways into the log (services/src/feed/http.rs, feed/drain.rs, feed/generate.rs, feed/limit.rs)\<close>

text \<open>
  A message reaches \<open>sequence\<close> through the user's door (\<open>submit\<close>), the operator's door
  (\<open>submit_operator\<close>), the generator's burst, or the drain of the separate inbox. The two doors
  and the drain ask the same questions. The drain ends in the marks that tell the inbox what each
  of its entries became, with the proof; the record of refused marks decides when one is sent
  again. \<open>pins\<close> and \<open>commits\<close> say whether SQLite commits the account's row and the batch.
\<close>

subsection \<open>POST /order and POST /cancel\<close>

record receipt =
  rc_id :: nat
  rc_head :: signed_head

text \<open>Taking an id, publishing, and the receipt.\<close>

definition publish_next ::
  "feed_env \<Rightarrow> bool \<Rightarrow> feed_state \<Rightarrow> (nat \<Rightarrow> order_message) \<Rightarrow> ((feed_error + receipt) \<times> feed_state) option" where
  "publish_next fe commits s msg =
     (let i = fs_next_id s in
      do { (r, s') \<leftarrow> publish fe commits (s\<lparr>fs_next_id := i + 1\<rparr>) (msg i);
           Some (case r of Inl e \<Rightarrow> Inl e | Inr _ \<Rightarrow> Inr \<lparr>rc_id = i, rc_head = feed_head fe s'\<rparr>, s') })"

definition submit_locked ::
  "feed_env \<Rightarrow> bool \<Rightarrow> bool \<Rightarrow> feed_state \<Rightarrow> caller \<Rightarrow> nat \<Rightarrow> nat \<Rightarrow> submission \<Rightarrow> bytes \<Rightarrow> bytes \<Rightarrow>
   ((feed_error + receipt) \<times> feed_state) option" where
  "submit_locked fe pins commits s c instant now submission key nonce =
     (let (allowed, limiter) = limiter_allow (fs_limiter s) (client_ip c (fs_proxies s)) instant;
          s1 = s\<lparr>fs_limiter := limiter\<rparr>;
          account = account_of submission
      in if \<not> allowed then Some (Inl FeedBusy, s1)
         else if \<not> log_is_open s1 then Some (Inl (OpeningIncomplete (min (feed_last_id s1) OPENING_MESSAGES)), s1)
         else case check_session (fs_session s1) submission of
           Inl e \<Rightarrow> Some (Inl (Intake e), s1)
         | Inr _ \<Rightarrow>
             (case feed_pin_or_check s1 pins account key of
                Inl e \<Rightarrow> Some (Inl e, s1)
              | Inr s2 \<Rightarrow>
                  (case map_of (fs_nonces s2) (account, nonce) of
                     Some existing \<Rightarrow> Some (Inl (NonceIsMessage existing), s2)
                   | None \<Rightarrow>
                       (case check_retention_growth s2 1 1 0 of
                          Inl e \<Rightarrow> Some (Inl e, s2)
                        | Inr _ \<Rightarrow> publish_next fe commits s2 (\<lambda>i. message_from i now submission)))))"

definition feed_submit ::
  "feed_env \<Rightarrow> bool \<Rightarrow> bool \<Rightarrow> feed_state \<Rightarrow> caller \<Rightarrow> nat \<Rightarrow> nat \<Rightarrow> signed_submission \<Rightarrow>
   ((feed_error + receipt) \<times> feed_state) option" where
  "feed_submit fe pins commits s c instant now sent =
     (case res_bind (validate_submission (ss_submission sent)) (\<lambda>_.
           res_bind (verify_account_signature (fe_point fe) (fe_strict fe) sent) (\<lambda>key.
           res_bind (checked_nonce (ss_submission sent)) (\<lambda>nonce. Inr (key, nonce)))) of
        Inl e \<Rightarrow> Some (Inl (Intake e), s)
      | Inr (key, nonce) \<Rightarrow> submit_locked fe pins commits s c instant now (ss_submission sent) key nonce)"

subsection \<open>POST /operator\<close>

datatype operator_request =
  ReqListSymbol string f64 f64 (req_nonce: string) (req_public_key: string) string
| ReqDelistSymbol string (req_nonce: string) (req_public_key: string) string
| ReqEngineRule nat (req_nonce: string) (req_public_key: string) string

fun request_message :: "operator_request \<Rightarrow> nat \<Rightarrow> nat \<Rightarrow> order_message" where
  "request_message (ReqListSymbol symbol price_step quantity_step nonce public_key signature) i timestamp =
     ListSymbol i timestamp OPERATOR_ACCOUNT symbol price_step quantity_step (Some nonce) public_key signature"
| "request_message (ReqDelistSymbol symbol nonce public_key signature) i timestamp =
     DelistSymbol i timestamp OPERATOR_ACCOUNT symbol (Some nonce) public_key signature"
| "request_message (ReqEngineRule version nonce public_key signature) i timestamp =
     EngineRule i timestamp OPERATOR_ACCOUNT version (Some nonce) public_key signature"

definition submit_operator ::
  "feed_env \<Rightarrow> bool \<Rightarrow> feed_state \<Rightarrow> caller \<Rightarrow> nat \<Rightarrow> nat \<Rightarrow> operator_request \<Rightarrow>
   ((feed_error + receipt) \<times> feed_state) option" where
  "submit_operator fe commits s c instant now req =
     (case canonical_nonce (req_nonce req) of
        None \<Rightarrow> Some (Inl OperatorNonce, s)
      | Some nonce \<Rightarrow>
          let unsequenced = request_message req 0 0 in
          case kind_and_fields unsequenced of
            Inl e \<Rightarrow> Some (Inl (OperatorTerms e), s)
          | Inr _ \<Rightarrow>
              (case fs_operator_key s of
                 None \<Rightarrow> Some (Inl NoOperator, s)
               | Some key \<Rightarrow>
                   if from_hex 32 (trim (req_public_key req)) \<noteq> Some key then Some (Inl NotOperatorKey, s)
                   else case operator_verify (fe_strict fe) unsequenced (fs_session s) key of
                     Inl e \<Rightarrow> Some (Inl (OperatorRefused e), s)
                   | Inr _ \<Rightarrow>
                       let (allowed, limiter) = limiter_allow (fs_limiter s) (client_ip c (fs_proxies s)) instant;
                           s1 = s\<lparr>fs_limiter := limiter\<rparr>
                       in if \<not> allowed then Some (Inl FeedBusy, s1)
                          else case map_of (fs_nonces s1) (OPERATOR_ACCOUNT, nonce) of
                            Some existing \<Rightarrow> Some (Inl (NonceIsMessage existing), s1)
                          | None \<Rightarrow>
                              (case check_retention_growth s1 1 1 0 of
                                 Inl e \<Rightarrow> Some (Inl e, s1)
                               | Inr _ \<Rightarrow> publish_next fe commits s1 (\<lambda>i. request_message req i now))))"

subsection \<open>The generator's burst\<close>

text \<open>What the market generator writes is its own affair; it numbers its messages from the next
  id on. \<open>msgs\<close> are its messages before they have their id.\<close>

definition publish_burst ::
  "feed_env \<Rightarrow> bool \<Rightarrow> feed_state \<Rightarrow> (nat \<Rightarrow> order_message) list \<Rightarrow> ((feed_error + unit) \<times> feed_state) option" where
  "publish_burst fe commits s msgs =
     (if \<not> log_is_open s then Some (Inl (OpeningIncomplete (feed_last_id s)), s)
      else case check_retention_growth s (length msgs) 0 0 of
        Inl e \<Rightarrow> Some (Inl e, s)
      | Inr _ \<Rightarrow>
          let first = fs_next_id s in
          publish_batch fe commits (s\<lparr>fs_next_id := first + length msgs\<rparr>)
            (map2 (\<lambda>msg i. msg i) msgs [first ..< first + length msgs]))"

subsection \<open>Draining the inbox\<close>

type_synonym pending_mark = "nat \<times> bool \<times> mark_request"

record drain_pass =
  dp_state :: feed_state
  dp_batch :: "(inbox_key option \<times> order_message) list"
  dp_pairs :: "(nat \<times> nat \<times> bool) list"
  dp_refused :: "(nat \<times> feed_error) list"
  dp_nonces :: "(nonce_key, nat) bmap"

definition refuse_entry :: "drain_pass \<Rightarrow> nat \<Rightarrow> feed_error \<Rightarrow> drain_pass" where
  "refuse_entry p i e = p\<lparr>dp_refused := dp_refused p @ [(i, e)]\<rparr>"

definition pair_entry :: "drain_pass \<Rightarrow> nat \<Rightarrow> nat \<Rightarrow> bool \<Rightarrow> drain_pass" where
  "pair_entry p i feed_id fresh = p\<lparr>dp_pairs := dp_pairs p @ [(i, feed_id, fresh)]\<rparr>"

text \<open>A nonce that is spent: is the message under it this submission?\<close>

definition judge_spent ::
  "feed_env \<Rightarrow> drain_pass \<Rightarrow> submission \<Rightarrow> nat \<Rightarrow> bool \<Rightarrow> bool option" where
  "judge_spent fe p submission feed_id in_this_batch =
     (if in_this_batch
      then Some (list_ex (\<lambda>(_, msg). msg_id msg = feed_id \<and> message_matches (fe_to_vec fe) submission msg) (dp_batch p))
      else map_option (message_matches (fe_to_vec fe) submission) (stored_message fe (dp_state p) feed_id))"

definition drain_entry ::
  "feed_env \<Rightarrow> (account_id \<Rightarrow> bool) \<Rightarrow> (nat \<Rightarrow> nat) \<Rightarrow> string \<Rightarrow> nat \<times> signed_submission \<Rightarrow> drain_pass \<Rightarrow> drain_pass" where
  "drain_entry fe pins clock epoch entry p =
     (let (i, sent) = entry;
          submission = ss_submission sent;
          account = account_of submission
      in case map_of (fs_inbox_sequenced (dp_state p)) (epoch, i) of
           Some feed_id \<Rightarrow> pair_entry p i feed_id False
         | None \<Rightarrow>
             (case validate_submission submission of
                Inl e \<Rightarrow> refuse_entry p i (Intake e)
              | Inr _ \<Rightarrow>
             (case res_bind (map_err Intake (verify_account_signature (fe_point fe) (fe_strict fe) sent))
                (feed_pin_or_check (dp_state p) (pins account) account) of
                Inl e \<Rightarrow> refuse_entry p i e
              | Inr s1 \<Rightarrow>
             let p1 = p\<lparr>dp_state := s1\<rparr> in
             (case check_session (fs_session s1) submission of
                Inl e \<Rightarrow> refuse_entry p1 i (Intake e)
              | Inr _ \<Rightarrow>
             (case checked_nonce submission of
                Inl e \<Rightarrow> refuse_entry p1 i (Intake e)
              | Inr nonce \<Rightarrow>
             (case (case map_of (fs_nonces s1) (account, nonce) of
                      Some feed_id \<Rightarrow> Some (feed_id, False)
                    | None \<Rightarrow> map_option (\<lambda>feed_id. (feed_id, True)) (map_of (dp_nonces p1) (account, nonce))) of
                Some (feed_id, in_this_batch) \<Rightarrow>
                  (case judge_spent fe p1 submission feed_id in_this_batch of
                     Some True \<Rightarrow> pair_entry p1 i feed_id in_this_batch
                   | Some False \<Rightarrow> refuse_entry p1 i (OtherMessage feed_id)
                   | None \<Rightarrow> refuse_entry p1 i (UnreadableMessage feed_id))
              | None \<Rightarrow>
                  let proposed = length (dp_batch p1) + 1 in
                  (case check_retention_growth s1 proposed proposed proposed of
                     Inl e \<Rightarrow> refuse_entry p1 i e
                   | Inr _ \<Rightarrow>
                       let feed_id = fs_next_id s1;
                           msg = message_from feed_id (clock feed_id) submission
                       in pair_entry
                            (p1\<lparr>dp_state := s1\<lparr>fs_next_id := feed_id + 1\<rparr>,
                                dp_batch := dp_batch p1 @ [(Some (epoch, i), msg)],
                                dp_nonces := bput (dp_nonces p1) (account, nonce) feed_id\<rparr>)
                            i feed_id True)))))))"

text \<open>The mark of one pair, where the message and its proof can be shown.\<close>

definition drained_mark ::
  "feed_env \<Rightarrow> feed_state \<Rightarrow> string \<Rightarrow> signed_tree_head \<Rightarrow> bool \<Rightarrow> nat \<times> nat \<times> bool \<Rightarrow> pending_mark option" where
  "drained_mark fe s epoch head sequenced pair =
     (let (i, feed_id, fresh) = pair in
      if fresh \<and> \<not> sequenced then None
      else do {
        json \<leftarrow> stored_json s feed_id;
        leaf_index \<leftarrow> (if feed_id = 0 then None else Some (feed_id - 1));
        path \<leftarrow> result_ok (feed_inclusion_proof fe s leaf_index (sth_tree_size head));
        Some (i, fresh, signed_mark (fe_sha fe) (fe_sign fe) (fs_key s) epoch i feed_id json
          \<lparr>th_session = sth_session head, th_timestamp = sth_timestamp head, th_tree_size = sth_tree_size head,
           th_root_hash = sth_root_hash head, th_signature = sth_signature head\<rparr> path)
      })"

definition sequence_drained ::
  "feed_env \<Rightarrow> (account_id \<Rightarrow> bool) \<Rightarrow> bool \<Rightarrow> (nat \<Rightarrow> nat) \<Rightarrow> nat \<Rightarrow> feed_state \<Rightarrow> string \<Rightarrow> (nat \<times> signed_submission) list \<Rightarrow>
   ((pending_mark list \<times> (nat \<times> feed_error) list) \<times> feed_state) option" where
  "sequence_drained fe pins commits clock now s epoch due =
     (let p = fold (drain_entry fe pins clock epoch) due
            \<lparr>dp_state = s, dp_batch = [], dp_pairs = [], dp_refused = [], dp_nonces = []\<rparr>
      in do {
        (r, s1) \<leftarrow> sequence fe commits (dp_state p) (dp_batch p);
        if dp_pairs p = [] then Some (([], dp_refused p), s1)
        else case feed_tree_head fe s1 now of
          (Inl Panicked, _) \<Rightarrow> None
        | (Inl (StoreError _), s2) \<Rightarrow> Some (([], dp_refused p), s2)
        | (Inr head, s2) \<Rightarrow>
            Some ((List.map_filter (drained_mark fe s2 epoch head (r = Inr ())) (dp_pairs p), dp_refused p), s2)
      })"

end
