(* ===== verification/Feed_Log.thy ===== *)
theory Feed_Log
  imports Feed_Intake Merkle_Properties
begin

section \<open>The log behind the sequencer's state\<close>

text \<open>
  The abstract log is the list of the published bytes. Everything the sequencer holds is a view
  of it: the links of the chain, the numbered messages and their window, the rows of the file,
  the leaves and the roots of the tree, the nonces that are spent. Each view of a longer log
  extends the view of the shorter.
\<close>

subsection \<open>The chain\<close>

definition chain_of :: "(bytes \<Rightarrow> bytes) \<Rightarrow> bytes list \<Rightarrow> bytes" where
  "chain_of sha hist = foldl (extend_bytes sha) EMPTY_CHAIN hist"

definition log_links :: "(bytes \<Rightarrow> bytes) \<Rightarrow> bytes list \<Rightarrow> bytes list" where
  "log_links sha hist = chain_links sha EMPTY_CHAIN hist"

lemma chain_links_append:
  "chain_links sha c (xs @ ys) = chain_links sha c xs @ chain_links sha (foldl (extend_bytes sha) c xs) ys"
  by (induction xs arbitrary: c) (simp_all add: Let_def)

lemma length_chain_links [simp]: "length (chain_links sha c xs) = length xs"
  by (induction xs arbitrary: c) (simp_all add: Let_def)

lemma chain_links_Nil [simp]: "chain_links sha c xs = [] \<longleftrightarrow> xs = []"
  by (cases xs) (simp_all add: Let_def)

lemma last_chain_links: "xs \<noteq> [] \<Longrightarrow> last (chain_links sha c xs) = foldl (extend_bytes sha) c xs"
  by (induction xs arbitrary: c) (simp_all add: Let_def)

lemma nth_chain_links: "k < length xs \<Longrightarrow> chain_links sha c xs ! k = foldl (extend_bytes sha) c (take (k + 1) xs)"
  by (induction xs arbitrary: c k) (auto simp: Let_def nth_Cons')

lemma length_log_links [simp]: "length (log_links sha hist) = length hist"
  by (simp add: log_links_def)

lemma log_links_append: "log_links sha (hist @ xs) = log_links sha hist @ chain_links sha (chain_of sha hist) xs"
  by (simp add: log_links_def chain_of_def chain_links_append)

lemma chain_of_append: "chain_of sha (hist @ xs) = foldl (extend_bytes sha) (chain_of sha hist) xs"
  by (simp add: chain_of_def)

lemma nth_log_links: "k < length hist \<Longrightarrow> log_links sha hist ! k = chain_of sha (take (k + 1) hist)"
  by (simp add: log_links_def chain_of_def nth_chain_links)

lemma chain_of_last: "hist \<noteq> [] \<Longrightarrow> last (log_links sha hist) = chain_of sha hist"
  by (simp add: log_links_def chain_of_def last_chain_links)

lemma chain_length:
  assumes "\<forall>x. length (sha x) = HASH_SIZE"
  shows "length (chain_of sha hist) = 32"
  using assms by (cases hist rule: rev_cases) (simp_all add: chain_of_def EMPTY_CHAIN_def extend_bytes_def HASH_SIZE_def)

subsection \<open>Numbered messages\<close>

definition numbered_from :: "nat \<Rightarrow> bytes list \<Rightarrow> published list" where
  "numbered_from k hist = map2 (\<lambda>i json. \<lparr>pb_id = i, pb_json = json\<rparr>) [k ..< k + length hist] hist"

abbreviation numbered :: "bytes list \<Rightarrow> published list" where
  "numbered \<equiv> numbered_from 1"

lemma length_numbered [simp]: "length (numbered_from k hist) = length hist"
  by (simp add: numbered_from_def)

lemma numbered_append: "numbered_from k (xs @ ys) = numbered_from k xs @ numbered_from (k + length xs) ys"
proof -
  have "[k ..< k + length (xs @ ys)] = [k ..< k + length xs] @ [k + length xs ..< k + length xs + length ys]"
    using upt_add_eq_append [of k "k + length xs" "length ys"] by (simp add: add.assoc)
  then show ?thesis by (simp add: numbered_from_def)
qed

lemma nth_numbered: "j < length hist \<Longrightarrow> numbered_from k hist ! j = \<lparr>pb_id = k + j, pb_json = hist ! j\<rparr>"
  by (simp add: numbered_from_def)

lemma numbered_ids: "map pb_id (numbered_from k hist) = [k ..< k + length hist]"
  by (rule nth_equalityI) (simp_all add: nth_numbered)

lemma numbered_Cons: "numbered_from k (x # xs) = \<lparr>pb_id = k, pb_json = x\<rparr> # numbered_from (k + 1) xs"
  by (rule nth_equalityI) (auto simp: nth_numbered nth_Cons')

subsection \<open>The newest part of a list\<close>

definition newest :: "nat \<Rightarrow> 'a list \<Rightarrow> 'a list" where
  "newest w xs = drop (length xs - w) xs"

lemma length_newest [simp]: "length (newest w xs) = min w (length xs)"
  by (auto simp: newest_def)

lemma newest_snoc:
  assumes "0 < w"
  shows "newest w (xs @ [x]) = (if length (newest w xs) = w then tl (newest w xs) else newest w xs) @ [x]"
proof (cases "w \<le> length xs")
  case True
  then have "length xs + 1 - w = Suc (length xs - w)" by simp
  then show ?thesis using True assms by (simp add: newest_def drop_Suc tl_drop Suc_diff_le)
next
  case False
  then show ?thesis by (auto simp: newest_def min_def)
qed

lemma newest_Nil_iff: "0 < w \<Longrightarrow> newest w xs = [] \<longleftrightarrow> xs = []"
  by (cases xs) (auto simp: newest_def)

lemma last_newest: "0 < w \<Longrightarrow> xs \<noteq> [] \<Longrightarrow> last (newest w xs) = last xs"
  by (simp add: newest_def)

lemma nth_newest: "j < min w (length xs) \<Longrightarrow> newest w xs ! j = xs ! (length xs - min w (length xs) + j)"
  by (auto simp: newest_def min_def)

end
