(* ===== verification/Feed_Publish.thy ===== *)
theory Feed_Publish
  imports Feed_Log
begin

section \<open>What publishing a batch does\<close>

text \<open>
  The invariant \<open>feed_ok\<close> ties the sequencer's state to its log, and \<open>sequence\<close> is its one step:
  a batch numbered from the next id on is published as a whole, or nothing of it is.
\<close>

subsection \<open>The maps after a batch\<close>

fun pair_rows :: "(inbox_key, nat) bmap \<Rightarrow> (inbox_key option \<times> order_message) list \<Rightarrow> nat \<Rightarrow> (inbox_key, nat) bmap" where
  "pair_rows m [] k = m"
| "pair_rows m ((key, _) # batch) k = pair_rows (case key of None \<Rightarrow> m | Some x \<Rightarrow> bput m x k) batch (k + 1)"

fun nonce_rows :: "(nonce_key, nat) bmap \<Rightarrow> (inbox_key option \<times> order_message) list \<Rightarrow> nat \<Rightarrow> (nonce_key, nat) bmap" where
  "nonce_rows m [] k = m"
| "nonce_rows m ((_, msg) # batch) k =
     nonce_rows (case message_nonce msg of None \<Rightarrow> m | Some x \<Rightarrow> bput m x k) batch (k + 1)"

text \<open>What the signature scheme promises: a signature verifies under its own key.\<close>

definition signing_ok :: "feed_env \<Rightarrow> bytes \<Rightarrow> bool" where
  "signing_ok fe key \<longleftrightarrow> (\<forall>msg. length (fe_sign fe key msg) = 64 \<and> fe_strict fe (fe_public fe key) msg (fe_sign fe key msg))"

definition numbered_batch :: "nat \<Rightarrow> (inbox_key option \<times> order_message) list \<Rightarrow> bool" where
  "numbered_batch k batch \<longleftrightarrow> map (msg_id \<circ> snd) batch = [k ..< k + length batch]"

lemma numbered_batch_Cons: "numbered_batch k (e # batch) \<longleftrightarrow> msg_id (snd e) = k \<and> numbered_batch (k + 1) batch"
  using upt_conv_Cons [of k "k + length (e # batch)"] by (simp add: numbered_batch_def del: upt_Suc)

definition batch_keys :: "(inbox_key option \<times> order_message) list \<Rightarrow> inbox_key list" where
  "batch_keys batch = List.map_filter fst batch"

definition batch_nonces :: "(inbox_key option \<times> order_message) list \<Rightarrow> nonce_key list" where
  "batch_nonces batch = List.map_filter (\<lambda>e. message_nonce (snd e)) batch"

lemma batch_keys_simps [simp]: "batch_keys [] = []"
  "batch_keys (e # batch) = (case fst e of None \<Rightarrow> batch_keys batch | Some x \<Rightarrow> x # batch_keys batch)"
  by (simp_all add: batch_keys_def List.map_filter_simps split: option.split)

lemma batch_nonces_simps [simp]: "batch_nonces [] = []"
  "batch_nonces (e # batch) = (case message_nonce (snd e) of None \<Rightarrow> batch_nonces batch | Some x \<Rightarrow> x # batch_nonces batch)"
  by (simp_all add: batch_nonces_def List.map_filter_simps split: option.split)

definition rows_of :: "(bytes \<Rightarrow> bytes) \<Rightarrow> nat \<Rightarrow> bytes \<Rightarrow> bytes list \<Rightarrow> (nat \<times> bytes \<times> bytes option) list" where
  "rows_of sha k c js = map2 (\<lambda>p link. (pb_id p, pb_json p, Some link)) (numbered_from k js) (chain_links sha c js)"

lemma length_rows_of [simp]: "length (rows_of sha k c js) = length js"
  by (simp add: rows_of_def)

lemma rows_of_Cons: "rows_of sha k c (j # js) = (k, j, Some (extend_bytes sha c j)) # rows_of sha (k + 1) (extend_bytes sha c j) js"
  by (simp add: rows_of_def numbered_Cons Let_def)

lemma rows_of_Nil [simp]: "rows_of sha k c [] = []"
  by (simp add: rows_of_def)

lemma rows_of_append: "rows_of sha k c (xs @ ys) = rows_of sha k c xs @ rows_of sha (k + length xs) (foldl (extend_bytes sha) c xs) ys"
  by (simp add: rows_of_def numbered_append chain_links_append)

lemma nth_rows_of:
  "j < length js \<Longrightarrow> rows_of sha k c js ! j = (k + j, js ! j, Some (foldl (extend_bytes sha) c (take (j + 1) js)))"
  by (simp add: rows_of_def nth_numbered nth_chain_links)

lemma rows_of_keys: "map fst (rows_of sha k c js) = [k ..< k + length js]"
proof -
  have "map fst (rows_of sha k c js) = map pb_id (numbered_from k js)"
    by (rule nth_equalityI) (simp_all add: rows_of_def)
  then show ?thesis by (simp only: numbered_ids)
qed

lemma rows_of_ok [simp]: "bmap_ok (rows_of sha k c js)"
  by (simp add: bmap_ok_def rows_of_keys sorted_wrt_upt)

lemma bput_append: "(\<forall>e \<in> set m. fst e < k) \<Longrightarrow> bput m k v = m @ [(k, v)]"
  by (induction m) auto

lemma insert_rows_ok:
  assumes "\<forall>e \<in> set (fd_messages db). fst e < k" and "numbered_batch k batch" and "length js = length batch"
    and "distinct (batch_keys batch)" and "\<forall>x \<in> set (batch_keys batch). map_of (fd_pairings db) x = None"
  shows "insert_rows db (map2 (\<lambda>(key, _) (row, chain). (key, row, chain)) batch (zip (numbered_from k js) (chain_links sha c js))) =
    Inr (db\<lparr>fd_messages := fd_messages db @ rows_of sha k c js, fd_pairings := pair_rows (fd_pairings db) batch k\<rparr>)"
  using assms
proof (induction batch arbitrary: db k js c)
  case Nil
  then show ?case by (simp add: numbered_from_def)
next
  case (Cons e batch)
  obtain key msg where e: "e = (key, msg)" by (cases e)
  obtain j js' where js: "js = j # js'" using Cons.prems(3) by (cases js) simp_all
  let ?link = "extend_bytes sha c j"
  have free: "map_of (fd_messages db) k = None" using Cons.prems(1) by (auto simp: map_of_eq_None_iff)
  have put: "bput (fd_messages db) k (j, Some ?link) = fd_messages db @ [(k, j, Some ?link)]"
    by (rule bput_append [OF Cons.prems(1)])
  have nb: "msg_id msg = k" "numbered_batch (k + 1) batch" using Cons.prems(2) by (simp_all add: numbered_batch_Cons e)
  define db1 where "db1 = db\<lparr>fd_messages := fd_messages db @ [(k, j, Some ?link)],
      fd_pairings := (case key of None \<Rightarrow> fd_pairings db | Some x \<Rightarrow> bput (fd_pairings db) x k)\<rparr>"
  have "insert_rows db1 (map2 (\<lambda>(key, _) (row, chain). (key, row, chain)) batch
        (zip (numbered_from (k + 1) js') (chain_links sha ?link js'))) =
      Inr (db1\<lparr>fd_messages := fd_messages db1 @ rows_of sha (k + 1) ?link js', fd_pairings := pair_rows (fd_pairings db1) batch (k + 1)\<rparr>)"
  proof (rule Cons.IH)
    show "\<forall>e \<in> set (fd_messages db1). fst e < k + 1" using Cons.prems(1) by (auto simp: db1_def)
    show "numbered_batch (k + 1) batch" by (rule nb(2))
    show "length js' = length batch" using Cons.prems(3) by (simp add: js)
    show "distinct (batch_keys batch)" using Cons.prems(4) by (simp add: e split: option.splits)
    show "\<forall>x \<in> set (batch_keys batch). map_of (fd_pairings db1) x = None"
      using Cons.prems(4,5) by (auto simp: db1_def e split: option.splits)
  qed
  then have ih: "insert_rows db1 (map2 (\<lambda>(key, _) (row, chain). (key, row, chain)) batch
        (zip (numbered_from (k + 1) js') (chain_links sha ?link js'))) =
      Inr (db\<lparr>fd_messages := fd_messages db @ rows_of sha k c js, fd_pairings := pair_rows (fd_pairings db) (e # batch) k\<rparr>)"
    by (simp add: db1_def js rows_of_Cons e)
  show ?case
  proof (cases key)
    case None
    then show ?thesis using ih free put by (simp add: js e numbered_Cons Let_def db1_def)
  next
    case (Some x)
    have "map_of (fd_pairings db) x = None" using Cons.prems(5) Some by (simp add: e)
    then show ?thesis using Some ih free put by (simp add: js e numbered_Cons Let_def db1_def)
  qed
qed

lemma publish_rows_ok:
  assumes "fs_messages s = newest MESSAGE_WINDOW P" and "fs_chains s = newest MESSAGE_WINDOW C" and "length P = length C"
    and "numbered_batch k batch" and "length js = length batch"
  shows "fold publish_row (zip batch (zip (numbered_from k js) (chain_links sha c js))) s =
    s\<lparr>fs_messages := newest MESSAGE_WINDOW (P @ numbered_from k js),
      fs_chains := newest MESSAGE_WINDOW (C @ chain_links sha c js),
      fs_inbox_sequenced := pair_rows (fs_inbox_sequenced s) batch k,
      fs_nonces := nonce_rows (fs_nonces s) batch k\<rparr>"
  using assms
proof (induction batch arbitrary: s P C k js c)
  case Nil
  then show ?case by (simp add: numbered_from_def)
next
  case (Cons e batch)
  obtain key msg where e: "e = (key, msg)" by (cases e)
  obtain j js' where js: "js = j # js'" using Cons.prems(5) by (cases js) simp_all
  let ?link = "extend_bytes sha c j" and ?row = "\<lparr>pb_id = k, pb_json = j\<rparr>"
  have nb: "msg_id msg = k" "numbered_batch (k + 1) batch" using Cons.prems(4) by (simp_all add: numbered_batch_Cons e)
  have w: "0 < MESSAGE_WINDOW" by (simp add: MESSAGE_WINDOW_def)
  have len: "length (fs_messages s) = MESSAGE_WINDOW \<longleftrightarrow> length (fs_chains s) = MESSAGE_WINDOW"
    using Cons.prems(1-3) by simp
  define s1 where "s1 = publish_row ((key, msg), ?row, ?link) s"
  have s1: "s1 = s\<lparr>fs_messages := newest MESSAGE_WINDOW (P @ [?row]), fs_chains := newest MESSAGE_WINDOW (C @ [?link]),
      fs_inbox_sequenced := (case key of None \<Rightarrow> fs_inbox_sequenced s | Some x \<Rightarrow> bput (fs_inbox_sequenced s) x k),
      fs_nonces := (case message_nonce msg of None \<Rightarrow> fs_nonces s | Some x \<Rightarrow> bput (fs_nonces s) x k)\<rparr>"
    using Cons.prems(1,2) len
    by (simp add: s1_def publish_row_def push_window_def newest_snoc [OF w] nb(1) Let_def split: option.splits)
  have "fold publish_row (zip batch (zip (numbered_from (k + 1) js') (chain_links sha ?link js'))) s1 =
    s1\<lparr>fs_messages := newest MESSAGE_WINDOW ((P @ [?row]) @ numbered_from (k + 1) js'),
      fs_chains := newest MESSAGE_WINDOW ((C @ [?link]) @ chain_links sha ?link js'),
      fs_inbox_sequenced := pair_rows (fs_inbox_sequenced s1) batch (k + 1),
      fs_nonces := nonce_rows (fs_nonces s1) batch (k + 1)\<rparr>"
    by (rule Cons.IH) (use Cons.prems nb(2) in \<open>simp_all add: s1 js\<close>)
  then show ?case
    by (simp add: js e numbered_Cons Let_def s1_def [symmetric]) (simp add: s1)
qed

subsection \<open>The invariant\<close>

text \<open>What serde promises: a message's envelope reads back out of its bytes.\<close>

definition serde_ok :: "feed_env \<Rightarrow> bool" where
  "serde_ok fe \<longleftrightarrow> (\<forall>m. \<exists>env. fe_envelope fe (fe_to_vec fe m) = Some env \<and>
     me_id env = msg_id m \<and> me_account env = Some (msg_account m) \<and> me_nonce env = msg_nonce m)"

text \<open>The nonce an entry of the log spends.\<close>

definition entry_nonce :: "feed_env \<Rightarrow> bytes \<Rightarrow> nonce_key option" where
  "entry_nonce fe json =
     do { env \<leftarrow> fe_envelope fe json; account \<leftarrow> me_account env; text \<leftarrow> me_nonce env;
          nonce \<leftarrow> canonical_nonce text; Some (account, nonce) }"

lemma entry_nonce_message: "serde_ok fe \<Longrightarrow> entry_nonce fe (fe_to_vec fe m) = message_nonce m"
proof -
  assume "serde_ok fe"
  then obtain env where "fe_envelope fe (fe_to_vec fe m) = Some env" "me_account env = Some (msg_account m)"
    "me_nonce env = msg_nonce m" by (auto simp: serde_ok_def)
  then show ?thesis by (simp add: entry_nonce_def message_nonce_def)
qed

definition nonces_ok :: "feed_env \<Rightarrow> (nonce_key, nat) bmap \<Rightarrow> bytes list \<Rightarrow> bool" where
  "nonces_ok fe m hist \<longleftrightarrow> bmap_ok m \<and>
     (\<forall>x i. map_of m x = Some i \<longleftrightarrow> 0 < i \<and> i \<le> length hist \<and> entry_nonce fe (hist ! (i - 1)) = Some x)"

definition file_ok :: "feed_env \<Rightarrow> feed_state \<Rightarrow> feed_db \<Rightarrow> bytes list \<Rightarrow> bool" where
  "file_ok fe s db hist \<longleftrightarrow>
     fd_messages db = rows_of (fe_sha fe) 1 EMPTY_CHAIN hist \<and>
     fd_pairings db = fs_inbox_sequenced s \<and>
     fd_accounts db = map (\<lambda>(a, k). (a, to_hex k)) (fs_accounts s) \<and>
     (if hist = [] then fd_checkpoint db = None
      else table_ok (fe_sha fe) (map (leaf_hash (fe_sha fe)) hist) (fd_nodes db) \<and>
        fd_session db = Some (fs_session s) \<and>
        fd_checkpoint db = Some (Written (checkpoint_row fe (fs_key s) (fs_session s) (length hist)
          (chain_of (fe_sha fe) hist) (log_hash (fe_sha fe) hist))))"

definition storage_ok :: "feed_env \<Rightarrow> feed_state \<Rightarrow> bytes list \<Rightarrow> bool" where
  "storage_ok fe s hist \<longleftrightarrow>
     (case fs_storage s of
        Memory tree \<Rightarrow> tree_ok (fe_sha fe) (map (leaf_hash (fe_sha fe)) hist) tree
      | Disk db n \<Rightarrow> n = length hist \<and> file_ok fe s db hist)"

definition tree_head_ok :: "feed_env \<Rightarrow> feed_state \<Rightarrow> bytes list \<Rightarrow> signed_tree_head \<Rightarrow> bool" where
  "tree_head_ok fe s hist head \<longleftrightarrow> sth_tree_size head \<le> length hist \<and> sth_session head = fs_session s \<and>
     sth_root_hash head = to_hex (log_hash (fe_sha fe) (take (sth_tree_size head) hist)) \<and>
     sth_public_key head = to_hex (fe_public fe (fs_key s)) \<and>
     sth_signature head = to_hex (sign_tree_head (fe_sign fe) (fs_key s) (fs_session s) (sth_timestamp head)
       (sth_tree_size head) (log_hash (fe_sha fe) (take (sth_tree_size head) hist)))"

definition feed_ok :: "feed_env \<Rightarrow> feed_state \<Rightarrow> bytes list \<Rightarrow> bool" where
  "feed_ok fe s hist \<longleftrightarrow> length hist \<le> 2 ^ 63 \<and>
     fs_next_id s = length hist + 1 \<and>
     fs_chain s = chain_of (fe_sha fe) hist \<and>
     fs_messages s = newest MESSAGE_WINDOW (numbered hist) \<and>
     fs_chains s = newest MESSAGE_WINDOW (log_links (fe_sha fe) hist) \<and>
     storage_ok fe s hist \<and>
     nonces_ok fe (fs_nonces s) hist \<and>
     bmap_ok (fs_inbox_sequenced s) \<and> (\<forall>x i. map_of (fs_inbox_sequenced s) x = Some i \<longrightarrow> 0 < i \<and> i \<le> length hist) \<and>
     bmap_ok (fs_accounts s) \<and> (\<forall>a k. map_of (fs_accounts s) a = Some k \<longrightarrow> length k = 32 \<and> fe_point fe k) \<and>
     (\<forall>head. fs_tree_head s = Some head \<longrightarrow> tree_head_ok fe s hist head)"

lemma feed_last_id_ok: "feed_ok fe s hist \<Longrightarrow> feed_last_id s = length hist"
proof -
  assume ok: "feed_ok fe s hist"
  then have m: "fs_messages s = newest MESSAGE_WINDOW (numbered hist)" by (simp add: feed_ok_def)
  have w: "0 < MESSAGE_WINDOW" by (simp add: MESSAGE_WINDOW_def)
  show ?thesis
  proof (cases hist rule: rev_cases)
    case (snoc js j)
    then have ne: "numbered hist \<noteq> []" by (metis length_numbered length_0_conv snoc_eq_iff_butlast)
    then have "pb_id (last (numbered hist)) = length hist" using snoc by (simp add: last_conv_nth nth_numbered)
    then show ?thesis using ne newest_Nil_iff [OF w, of "numbered hist"] last_newest [OF w, of "numbered hist"] by (simp add: feed_last_id_def m)
  qed (simp add: feed_last_id_def m numbered_from_def newest_def)
qed

subsection \<open>A batch\<close>

lemma push_leaves_ok:
  assumes "tree_ok sha ls tree" and "length ls + length leaves \<le> 2 ^ 64"
  shows "\<exists>tree'. push_leaves sha tree leaves = Some tree' \<and> tree_ok sha (ls @ leaves) tree'"
  using assms
proof (induction leaves arbitrary: ls tree)
  case (Cons leaf leaves)
  obtain t where t: "push_leaf_hash sha tree leaf = (Inr (length ls, t) :: unit store_fault + _)" "tree_ok sha (ls @ [leaf]) t"
    using push_ok [OF Cons.prems(1)] Cons.prems(2) by fastforce
  show ?case using Cons.IH [OF t(2)] Cons.prems(2) t(1) by simp
qed simp

lemma pair_rows_get:
  assumes "map_of (pair_rows m batch k) x = Some i"
  shows "map_of m x = Some i \<or> k \<le> i \<and> i < k + length batch"
  using assms
proof (induction batch arbitrary: m k)
  case (Cons e batch)
  obtain key msg where e: "e = (key, msg)" by (cases e)
  show ?case using Cons.IH [of _ "k + 1"] Cons.prems
    by (cases key) (fastforce simp: e split: if_splits)+
qed simp

lemma pair_rows_ok: "bmap_ok m \<Longrightarrow> bmap_ok (pair_rows m batch k)"
  by (induction m batch k rule: pair_rows.induct) (auto split: option.splits)

lemma nonce_rows_ok: "bmap_ok m \<Longrightarrow> bmap_ok (nonce_rows m batch k)"
  by (induction m batch k rule: nonce_rows.induct) (auto split: option.splits)

text \<open>The nonces of a batch whose nonces are new and its own.\<close>

lemma nonces_after:
  assumes "serde_ok fe" and "nonces_ok fe m hist"
    and "distinct (batch_nonces batch)"
    and "\<forall>x \<in> set (batch_nonces batch). map_of m x = None"
  shows "nonces_ok fe (nonce_rows m batch (length hist + 1)) (hist @ map (fe_to_vec fe \<circ> snd) batch)"
  using assms(2-)
proof (induction batch arbitrary: m hist)
  case (Cons e batch)
  obtain key msg where e: "e = (key, msg)" by (cases e)
  let ?j = "fe_to_vec fe msg"
  define m' where "m' = (case message_nonce msg of None \<Rightarrow> m | Some x \<Rightarrow> bput m x (Suc (length hist)))"
  have j: "entry_nonce fe ?j = message_nonce msg" by (rule entry_nonce_message [OF assms(1)])
  have "map_of m' x = Some i \<longleftrightarrow> 0 < i \<and> i \<le> length (hist @ [?j]) \<and> entry_nonce fe ((hist @ [?j]) ! (i - 1)) = Some x" for x i
  proof -
    have old: "map_of m x = Some i \<longleftrightarrow> 0 < i \<and> i \<le> length hist \<and> entry_nonce fe (hist ! (i - 1)) = Some x"
      using Cons.prems(1) unfolding nonces_ok_def by blast
    show ?thesis
    proof (cases "i = length hist + 1")
      case True
      have "map_of m x \<noteq> Some i" using True old by simp
      moreover have "map_of m' x = Some i \<longleftrightarrow> map_of m x = Some i \<or> message_nonce msg = Some x"
        using True by (auto simp: m'_def split: option.splits)
      ultimately show ?thesis using True j by auto
    next
      case False
      have "map_of m' x = Some i \<longleftrightarrow> map_of m x = Some i"
        using False Cons.prems(3) by (auto simp: m'_def e split: option.splits)
      moreover have "(hist @ [?j]) ! (i - 1) = hist ! (i - 1)" if "0 < i" "i \<le> length hist"
        using that by (cases i) (simp_all add: nth_append)
      ultimately show ?thesis using False old by auto
    qed
  qed
  moreover have "bmap_ok m'" using Cons.prems(1) by (auto simp: m'_def nonces_ok_def split: option.splits)
  ultimately have ok: "nonces_ok fe m' (hist @ [?j])" unfolding nonces_ok_def by blast
  have "nonces_ok fe (nonce_rows m' batch (length (hist @ [?j]) + 1)) ((hist @ [?j]) @ map (fe_to_vec fe \<circ> snd) batch)"
  proof (rule Cons.IH [OF ok])
    show "distinct (batch_nonces batch)"
      using Cons.prems(2) by (simp add: e split: option.splits)
    show "\<forall>x \<in> set (batch_nonces batch). map_of m' x = None"
      using Cons.prems(2,3) by (auto simp: m'_def e split: option.splits)
  qed
  then show ?case by (simp add: e m'_def comp_def)
qed simp

lemma check_batch_fresh:
  assumes "check_batch_rows s nonces inbox batch = Inr ()"
  shows "distinct (batch_nonces batch)" and "\<forall>x \<in> set (batch_nonces batch). map_of (fs_nonces s) x = None \<and> x \<notin> set nonces"
    and "distinct (batch_keys batch)" and "\<forall>x \<in> set (batch_keys batch). map_of (fs_inbox_sequenced s) x = None \<and> x \<notin> set inbox"
proof -
  have "distinct (batch_nonces batch) \<and> (\<forall>x \<in> set (batch_nonces batch). map_of (fs_nonces s) x = None \<and> x \<notin> set nonces) \<and>
    distinct (batch_keys batch) \<and> (\<forall>x \<in> set (batch_keys batch). map_of (fs_inbox_sequenced s) x = None \<and> x \<notin> set inbox)"
    using assms
  proof (induction batch arbitrary: nonces inbox)
    case (Cons e batch)
    obtain key msg where e: "e = (key, msg)" by (cases e)
    obtain nonces' inbox' where c: "check_batch_rows s nonces' inbox' batch = Inr ()"
      and n: "case message_nonce msg of None \<Rightarrow> nonces' = nonces
        | Some x \<Rightarrow> nonces' = x # nonces \<and> map_of (fs_nonces s) x = None \<and> x \<notin> set nonces"
      and i: "case key of None \<Rightarrow> inbox' = inbox
        | Some x \<Rightarrow> inbox' = x # inbox \<and> map_of (fs_inbox_sequenced s) x = None \<and> x \<notin> set inbox"
      using Cons.prems by (auto simp: e split: option.splits if_splits)
    from Cons.IH [OF c] n i show ?case by (auto simp: e split: option.splits)
  qed simp
  then show "distinct (batch_nonces batch)" and "\<forall>x \<in> set (batch_nonces batch). map_of (fs_nonces s) x = None \<and> x \<notin> set nonces"
    and "distinct (batch_keys batch)" and "\<forall>x \<in> set (batch_keys batch). map_of (fs_inbox_sequenced s) x = None \<and> x \<notin> set inbox"
    by blast+
qed

lemma batch_rows_numbered:
  assumes "numbered_batch k batch" and "length js = length batch"
  shows "map2 (\<lambda>(_, msg) json. \<lparr>pb_id = msg_id msg, pb_json = json\<rparr>) batch js = numbered_from k js"
proof (rule nth_equalityI)
  fix i
  assume "i < length (map2 (\<lambda>(_, msg) json. \<lparr>pb_id = msg_id msg, pb_json = json\<rparr>) batch js)"
  then have i: "i < length batch" "i < length js" by auto
  have "map (msg_id \<circ> snd) batch ! i = [k ..< k + length batch] ! i" using assms(1) by (simp add: numbered_batch_def)
  then have "msg_id (snd (batch ! i)) = k + i" using i by simp
  then show "map2 (\<lambda>(_, msg) json. \<lparr>pb_id = msg_id msg, pb_json = json\<rparr>) batch js ! i = numbered_from k js ! i"
    using i by (simp add: nth_numbered case_prod_beta)
qed (use assms(2) in simp)

lemma batch_ends:
  assumes "numbered_batch k batch" and "batch \<noteq> []"
  shows "msg_id (snd (hd batch)) = k" and "msg_id (snd (last batch)) = k + length batch - 1"
proof -
  have m: "map (msg_id \<circ> snd) batch = [k ..< k + length batch]" using assms(1) by (simp add: numbered_batch_def)
  have "hd (map (msg_id \<circ> snd) batch) = k" unfolding m using assms(2) by simp
  then show "msg_id (snd (hd batch)) = k" using assms(2) by (simp add: hd_map)
  have "last (map (msg_id \<circ> snd) batch) = k + length batch - 1" unfolding m using assms(2) by (simp add: last_upt)
  then show "msg_id (snd (last batch)) = k + length batch - 1" using assms(2) by (simp add: last_map)
qed

lemma write_batch_ok:
  assumes "file_ok fe s db hist" and "\<forall>x. length (fe_sha fe x) = HASH_SIZE"
    and "numbered_batch (length hist + 1) batch" and "length js = length batch"
    and "distinct (batch_keys batch)" and "\<forall>x \<in> set (batch_keys batch). map_of (fs_inbox_sequenced s) x = None"
    and "length hist + length batch \<le> 2 ^ 63"
  shows "\<exists>nodes. table_ok (fe_sha fe) (map (leaf_hash (fe_sha fe)) (hist @ js)) nodes \<and>
    write_batch fe commits (fs_key s) (fs_session s) db (length hist)
      (map2 (\<lambda>(key, _) (row, chain). (key, row, chain)) batch
        (zip (numbered_from (length hist + 1) js) (chain_links (fe_sha fe) (chain_of (fe_sha fe) hist) js)))
      (map (leaf_hash (fe_sha fe)) js) (length (hist @ js)) (chain_of (fe_sha fe) (hist @ js)) =
    (if \<not> commits then Inl (StoreError SqlFault)
     else Inr (db\<lparr>fd_messages := rows_of (fe_sha fe) 1 EMPTY_CHAIN (hist @ js),
       fd_pairings := pair_rows (fs_inbox_sequenced s) batch (length hist + 1), fd_session := Some (fs_session s),
       fd_nodes := nodes,
       fd_checkpoint := Some (Written (checkpoint_row fe (fs_key s) (fs_session s) (length (hist @ js))
         (chain_of (fe_sha fe) (hist @ js)) (log_hash (fe_sha fe) (hist @ js))))\<rparr>))"
proof -
  let ?sha = "fe_sha fe" and ?k = "length hist + 1"
  let ?rows = "map2 (\<lambda>(key, _) (row, chain). (key, row, chain)) batch
        (zip (numbered_from ?k js) (chain_links ?sha (chain_of ?sha hist) js))"
  have db: "fd_messages db = rows_of ?sha 1 EMPTY_CHAIN hist" "fd_pairings db = fs_inbox_sequenced s"
    using assms(1) by (simp_all add: file_ok_def)
  have "\<forall>e \<in> set (fd_messages db). fst e < ?k"
    using rows_of_keys [of ?sha 1 EMPTY_CHAIN hist] by (metis db(1) atLeastLessThan_iff image_eqI list.set_map set_upt add.commute)
  then have ins: "insert_rows db ?rows = Inr (db\<lparr>fd_messages := rows_of ?sha 1 EMPTY_CHAIN (hist @ js),
      fd_pairings := pair_rows (fs_inbox_sequenced s) batch ?k\<rparr>)"
    using insert_rows_ok [of db ?k batch js ?sha "chain_of ?sha hist"] assms(3-6) db
    by (simp add: rows_of_append chain_of_def add.commute)
  let ?old = "if length hist = 0 then [] else fd_nodes db"
  have old: "table_ok ?sha (map (leaf_hash ?sha) hist) ?old"
    using assms(1) table_ok_Nil by (cases hist) (simp_all add: file_ok_def)
  have h: "hashes (map (leaf_hash ?sha) (hist @ js))" using assms(2) by (rule hashes_leaves)
  obtain nodes where n: "append_rows ?sha ?old (length hist) (map (leaf_hash ?sha) js) = Inr nodes"
    "table_ok ?sha (map (leaf_hash ?sha) (hist @ js)) nodes"
    using append_rows_ok [OF old assms(2), of "map (leaf_hash ?sha) js"] h assms(4,7) by auto
  have root: "nodes_root ?sha (disk_node nodes) (length hist + length js) (length hist + length js) = Inr (log_hash ?sha (hist @ js))"
    using table_root_ok [OF n(2) assms(2) h] by (simp add: log_hash_def)
  show ?thesis
    by (rule exI [of _ nodes], rule conjI [OF n(2)], cases "hist = []") (use ins n(1) root in \<open>simp_all add: write_batch_def Let_def\<close>)
qed

text \<open>A publication: the batch is checked, and then either written and published as a whole, or
  the ids it took are given back.\<close>

definition feed_kept :: "feed_state \<Rightarrow> feed_state \<Rightarrow> bool" where
  "feed_kept s s' \<longleftrightarrow> fs_limits s' = fs_limits s \<and> fs_session s' = fs_session s \<and> fs_key s' = fs_key s \<and>
     fs_accounts s' = fs_accounts s \<and> fs_limiter s' = fs_limiter s \<and> fs_tree_head s' = fs_tree_head s \<and>
     fs_operator_key s' = fs_operator_key s \<and> fs_proxies s' = fs_proxies s \<and>
     in_memory (fs_storage s') = in_memory (fs_storage s)"

lemma sequence_ok:
  assumes ok: "feed_ok fe (s\<lparr>fs_next_id := length hist + 1\<rparr>) hist" and "serde_ok fe"
    and "\<forall>x. length (fe_sha fe x) = HASH_SIZE" and "numbered_batch (length hist + 1) batch" and "batch \<noteq> []"
    and "fs_next_id s = length hist + 1 + length batch" and "length hist + length batch \<le> 2 ^ 63"
    and "check_retention_batch s batch = Inr ()"
  defines "js \<equiv> map (fe_to_vec fe \<circ> snd) batch"
  shows "if \<not> commits \<and> \<not> in_memory (fs_storage s)
    then sequence fe commits s batch = Some (Inl (NotWritten (StoreError SqlFault)), s\<lparr>fs_next_id := length hist + 1\<rparr>)
    else \<exists>s'. sequence fe commits s batch = Some (Inr (), s') \<and> feed_ok fe s' (hist @ js) \<and> feed_kept s s' \<and>
      fs_inbox_sequenced s' = pair_rows (fs_inbox_sequenced s) batch (length hist + 1)"
proof -
  let ?sha = "fe_sha fe" and ?k = "length hist + 1"
  let ?links = "chain_links ?sha (chain_of ?sha hist) js"
  have len: "length js = length batch" and ne: "js \<noteq> []" using assms(5) by (simp_all add: js_def)
  have chain: "fs_chain s = chain_of ?sha hist" and win: "fs_messages s = newest MESSAGE_WINDOW (numbered hist)"
    "fs_chains s = newest MESSAGE_WINDOW (log_links ?sha hist)"
    using ok by (simp_all add: feed_ok_def)
  have rows: "map2 (\<lambda>(_, msg) json. \<lparr>pb_id = msg_id msg, pb_json = json\<rparr>) batch js = numbered_from ?k js"
    by (rule batch_rows_numbered [OF assms(4) len])
  have lastc: "last ?links = chain_of ?sha (hist @ js)" using ne by (simp add: last_chain_links chain_of_append)
  have ends: "msg_id (snd (hd batch)) = ?k" "msg_id (snd (last batch)) = length (hist @ js)"
    using batch_ends [OF assms(4,5)] len by simp_all
  have "check_batch_rows s [] [] batch = Inr ()" using assms(8) by (simp add: check_retention_batch_def split: if_splits)
  note fresh = check_batch_fresh [OF this]
  have nonces: "nonces_ok fe (nonce_rows (fs_nonces s) batch ?k) (hist @ js)"
    unfolding js_def by (rule nonces_after [OF assms(2) _ fresh(1)]) (use ok fresh(2) in \<open>auto simp: feed_ok_def\<close>)
  define pub where "pub stored = s\<lparr>fs_storage := stored, fs_chain := chain_of ?sha (hist @ js),
      fs_messages := newest MESSAGE_WINDOW (numbered (hist @ js)), fs_chains := newest MESSAGE_WINDOW (log_links ?sha (hist @ js)),
      fs_inbox_sequenced := pair_rows (fs_inbox_sequenced s) batch ?k, fs_nonces := nonce_rows (fs_nonces s) batch ?k\<rparr>" for stored
  have fold: "fold publish_row (zip batch (zip (numbered_from ?k js) ?links))
      (s\<lparr>fs_storage := stored, fs_chain := last ?links\<rparr>) = pub stored" for stored
    using publish_rows_ok [of "s\<lparr>fs_storage := stored, fs_chain := last ?links\<rparr>" "numbered hist" "log_links ?sha hist" ?k batch js ?sha "chain_of ?sha hist"]
      win assms(4) len
    by (simp add: pub_def lastc numbered_append log_links_append)
  have pubok: "feed_ok fe (pub stored) (hist @ js)" if "storage_ok fe (pub stored) (hist @ js)" for stored
  proof -
    have "0 < i \<and> i \<le> length (hist @ js)" if "map_of (pair_rows (fs_inbox_sequenced s) batch ?k) x = Some i" for x i
      using pair_rows_get [OF that] ok len unfolding feed_ok_def by fastforce
    moreover have "tree_head_ok fe (pub stored) (hist @ js) head" if "fs_tree_head s = Some head" for head
    proof -
      have "tree_head_ok fe s hist head" using ok that by (simp add: feed_ok_def tree_head_ok_def)
      then show ?thesis by (simp add: tree_head_ok_def pub_def)
    qed
    ultimately show ?thesis
      using ok assms(6,7) nonces \<open>storage_ok fe (pub stored) (hist @ js)\<close> len pair_rows_ok [of "fs_inbox_sequenced s" batch ?k]
      unfolding feed_ok_def by (simp add: pub_def)
  qed
  show ?thesis
  proof (cases "fs_storage s")
    case (Memory tree)
    then have "tree_ok ?sha (map (leaf_hash ?sha) hist) tree" using ok by (simp add: feed_ok_def storage_ok_def)
    then obtain tree' where t: "push_leaves ?sha tree (map (leaf_hash ?sha) js) = Some tree'"
      "tree_ok ?sha (map (leaf_hash ?sha) (hist @ js)) tree'"
      using push_leaves_ok [of ?sha "map (leaf_hash ?sha) hist" tree "map (leaf_hash ?sha) js"] assms(7) len by auto
    have "sequence fe commits s batch = Some (Inr (), pub (Memory tree'))"
      using assms(5,8) t(1) fold [of "Memory tree"]
      by (simp add: sequence_def Let_def js_def [symmetric] chain rows Memory) (simp add: pub_def)
    moreover have "storage_ok fe (pub (Memory tree')) (hist @ js)" using t(2) by (simp add: storage_ok_def pub_def)
    ultimately show ?thesis using pubok Memory by (auto simp: feed_kept_def pub_def)
  next
    case (Disk db n)
    then have n: "n = length hist" and fl: "file_ok fe s db hist" using ok by (simp_all add: feed_ok_def storage_ok_def file_ok_def)
    obtain nodes where nodes: "table_ok ?sha (map (leaf_hash ?sha) (hist @ js)) nodes"
      and w: "write_batch fe commits (fs_key s) (fs_session s) db (length hist)
        (map2 (\<lambda>(key, _) (row, chain). (key, row, chain)) batch (zip (numbered_from ?k js) ?links))
        (map (leaf_hash ?sha) js) (length (hist @ js)) (chain_of ?sha (hist @ js)) =
        (if \<not> commits then Inl (StoreError SqlFault)
         else Inr (db\<lparr>fd_messages := rows_of ?sha 1 EMPTY_CHAIN (hist @ js),
           fd_pairings := pair_rows (fs_inbox_sequenced s) batch ?k, fd_session := Some (fs_session s),
           fd_nodes := nodes,
           fd_checkpoint := Some (Written (checkpoint_row fe (fs_key s) (fs_session s) (length (hist @ js))
             (chain_of ?sha (hist @ js)) (log_hash ?sha (hist @ js))))\<rparr>))" (is "_ = (if _ then _ else Inr ?db')")
      using write_batch_ok [OF fl assms(3,4) len fresh(3) _ assms(7)] fresh(4) by blast
    have "sequence fe commits s batch =
        (if \<not> commits then Some (Inl (NotWritten (StoreError SqlFault)), s\<lparr>fs_next_id := ?k\<rparr>)
         else Some (Inr (), pub (Disk ?db' (length (hist @ js)))))"
      using assms(5,8) w fold [of "Disk ?db' n"]
      by (simp add: sequence_def Let_def js_def [symmetric] chain rows Disk n lastc ends) (simp add: pub_def js_def)
    moreover have "storage_ok fe (pub (Disk ?db' (length (hist @ js)))) (hist @ js)"
      using fl nodes ne by (simp add: storage_ok_def pub_def file_ok_def)
    ultimately show ?thesis using pubok Disk by (auto simp: feed_kept_def pub_def)
  qed
qed

end
