(* ===== verification/Feed_Run.thy ===== *)
theory Feed_Run
  imports Feed_Publish
begin

section \<open>The sequencer at work\<close>

text \<open>
  Every way into the log keeps \<open>feed_ok\<close>, and the log behind the state only grows. The one thing
  the sequencer has to be given is that the inbox lists an entry once: \<open>repeated_entry_loses_ids\<close>
  is what happens otherwise.
\<close>

subsection \<open>Room\<close>

lemma check_batch_rows_ok:
  assumes "distinct (batch_nonces batch)" and "\<forall>x \<in> set (batch_nonces batch). map_of (fs_nonces s) x = None \<and> x \<notin> set nonces"
    and "distinct (batch_keys batch)" and "\<forall>x \<in> set (batch_keys batch). map_of (fs_inbox_sequenced s) x = None \<and> x \<notin> set inbox"
    and "length nonces + length (batch_nonces batch) \<le> max_nonces (fs_limits s) - length (fs_nonces s)"
    and "length inbox + length (batch_keys batch) \<le> max_inbox_records (fs_limits s) - length (fs_inbox_sequenced s)"
  shows "check_batch_rows s nonces inbox batch = Inr ()"
  using assms
proof (induction batch arbitrary: nonces inbox)
  case (Cons e batch)
  obtain key msg where e: "e = (key, msg)" by (cases e)
  let ?n = "case message_nonce msg of None \<Rightarrow> nonces | Some x \<Rightarrow> x # nonces"
  let ?i = "case key of None \<Rightarrow> inbox | Some x \<Rightarrow> x # inbox"
  have "check_batch_rows s ?n ?i batch = Inr ()"
    by (rule Cons.IH) (use Cons.prems in \<open>auto simp: e split: option.splits\<close>)
  then show ?case using Cons.prems by (auto simp: e split: option.splits)
qed simp

lemma growth_batch:
  assumes "check_retention_growth s m n i = Inr ()" and "length batch \<le> m"
    and "length (batch_nonces batch) \<le> n" and "length (batch_keys batch) \<le> i"
    and "distinct (batch_nonces batch)" and "\<forall>x \<in> set (batch_nonces batch). map_of (fs_nonces s) x = None"
    and "distinct (batch_keys batch)" and "\<forall>x \<in> set (batch_keys batch). map_of (fs_inbox_sequenced s) x = None"
  shows "check_retention_batch s batch = Inr ()"
proof -
  have g: "m \<le> max_batch_messages (fs_limits s)"
    "in_memory (fs_storage s) \<Longrightarrow> m \<le> max_memory_messages (fs_limits s) - storage_leaves (fs_storage s)"
    "n \<le> max_nonces (fs_limits s) - length (fs_nonces s)" "i \<le> max_inbox_records (fs_limits s) - length (fs_inbox_sequenced s)"
    using assms(1) by (auto simp: check_retention_growth_def Let_def split: if_splits)
  have "check_batch_rows s [] [] batch = Inr ()" by (rule check_batch_rows_ok) (use assms g in auto)
  then show ?thesis using g(1,2) assms(2) by (auto simp: check_retention_batch_def)
qed

lemma growth_next_id [simp]: "check_retention_growth (s\<lparr>fs_next_id := i\<rparr>) = check_retention_growth s"
  by (intro ext) (simp add: check_retention_growth_def Let_def)

lemma batch_keys_None [simp]: "batch_keys (map (Pair None) msgs) = []"
  by (induction msgs) auto

subsection \<open>One message\<close>

lemma publish_next_ok:
  assumes ok: "feed_ok fe s hist" and "serde_ok fe" and "\<forall>x. length (fe_sha fe x) = HASH_SIZE"
    and "check_retention_growth s 1 1 0 = Inr ()" and "\<forall>i. msg_id (msg i) = i"
    and "\<forall>i x. message_nonce (msg i) = Some x \<longrightarrow> map_of (fs_nonces s) x = None" and "length hist < 2 ^ 63"
  defines "json \<equiv> fe_to_vec fe (msg (length hist + 1))"
  shows "if \<not> commits \<and> \<not> in_memory (fs_storage s)
    then publish_next fe commits s msg = Some (Inl (NotWritten (StoreError SqlFault)), s)
    else \<exists>s'. publish_next fe commits s msg = Some (Inr \<lparr>rc_id = length hist + 1,
        rc_head = signed_head_at fe s' (length hist + 1) (chain_of (fe_sha fe) (hist @ [json]))\<rparr>, s') \<and>
      feed_ok fe s' (hist @ [json]) \<and> feed_kept s s' \<and> fs_inbox_sequenced s' = fs_inbox_sequenced s"
proof -
  let ?k = "length hist + 1" and ?s = "s\<lparr>fs_next_id := length hist + 1 + 1\<rparr>" and ?batch = "[(None :: inbox_key option, msg (length hist + 1))]"
  have nid: "fs_next_id s = ?k" using ok by (simp add: feed_ok_def)
  have s: "s\<lparr>fs_next_id := ?k\<rparr> = s" using nid by simp
  have room: "check_retention_batch ?s ?batch = Inr ()"
    by (rule growth_batch [of ?s 1 1 0]) (use assms(4,6) in \<open>auto split: option.splits\<close>)
  have seq: "if \<not> commits \<and> \<not> in_memory (fs_storage ?s)
    then sequence fe commits ?s ?batch = Some (Inl (NotWritten (StoreError SqlFault)), ?s\<lparr>fs_next_id := ?k\<rparr>)
    else \<exists>s'. sequence fe commits ?s ?batch = Some (Inr (), s') \<and> feed_ok fe s' (hist @ map (fe_to_vec fe \<circ> snd) ?batch) \<and> feed_kept ?s s' \<and>
      fs_inbox_sequenced s' = pair_rows (fs_inbox_sequenced ?s) ?batch ?k"
    by (rule sequence_ok) (use ok assms(2,3,5,7) room s in \<open>auto simp: numbered_batch_def\<close>)
  show ?thesis
  proof (cases "\<not> commits \<and> \<not> in_memory (fs_storage s)")
    case True
    then show ?thesis using seq s by (simp add: publish_next_def publish_def nid)
  next
    case False
    then obtain s' where s': "sequence fe commits ?s ?batch = Some (Inr (), s')" "feed_ok fe s' (hist @ [json])" "feed_kept ?s s'"
      "fs_inbox_sequenced s' = fs_inbox_sequenced s"
      using seq by (auto simp: json_def)
    have "feed_head fe s' = signed_head_at fe s' ?k (chain_of (fe_sha fe) (hist @ [json]))"
      using feed_last_id_ok [OF s'(2)] s'(2) by (simp add: feed_head_def feed_ok_def)
    moreover have "feed_kept s s'" using s'(3) by (simp add: feed_kept_def)
    ultimately show ?thesis using False s' by (auto simp: publish_next_def publish_def nid)
  qed
qed

lemma feed_ok_limiter [simp]: "feed_ok fe (s\<lparr>fs_limiter := l\<rparr>) hist = feed_ok fe s hist"
  by (auto simp: feed_ok_def storage_ok_def file_ok_def tree_head_ok_def split: storage.splits)

lemma bput_hex: "map (\<lambda>(a, k). (a, to_hex k)) (bput m a key) = bput (map (\<lambda>(a, k). (a, to_hex k)) m) a (to_hex key)"
  by (induction m a key rule: bput.induct) auto

lemma map_of_hex: "map_of (map (\<lambda>(a, k). (a, to_hex k)) m) a = map_option to_hex (map_of m a)"
  by (induction m) auto

text \<open>Pinning an account touches nothing the log depends on.\<close>

lemma feed_pin_ok:
  assumes "feed_pin_or_check s pins account key = Inr s'" and "feed_ok fe s hist" and "length key = 32 \<and> fe_point fe key"
  shows "feed_ok fe s' hist \<and> map_of (fs_accounts s') account = Some key \<and>
    fs_limits s' = fs_limits s \<and> fs_session s' = fs_session s \<and> fs_key s' = fs_key s \<and>
    fs_nonces s' = fs_nonces s \<and> fs_inbox_sequenced s' = fs_inbox_sequenced s \<and>
    in_memory (fs_storage s') = in_memory (fs_storage s) \<and> storage_leaves (fs_storage s') = storage_leaves (fs_storage s) \<and>
    fs_next_id s' = fs_next_id s \<and> fs_messages s' = fs_messages s"
proof (cases "map_of (fs_accounts s) account")
  case None
  let ?acc = "bput (fs_accounts s) account key"
  show ?thesis
  proof (cases "fs_storage s")
    case (Memory tree)
    then have "s' = s\<lparr>fs_accounts := ?acc\<rparr>"
      using assms(1) None by (auto simp: feed_pin_or_check_def check_account_key_def Let_def split: if_splits)
    then show ?thesis using assms(2,3) Memory by (auto simp: feed_ok_def storage_ok_def tree_head_ok_def split: if_splits)
  next
    case (Disk db n)
    then have s': "s' = s\<lparr>fs_accounts := ?acc, fs_storage := Disk (db\<lparr>fd_accounts := bput (fd_accounts db) account (to_hex key)\<rparr>) n\<rparr>"
      using assms(1) None by (auto simp: feed_pin_or_check_def check_account_key_def Let_def split: if_splits)
    show ?thesis using assms(2,3) Disk by (auto simp: s' feed_ok_def storage_ok_def file_ok_def tree_head_ok_def bput_hex)
  qed
next
  case (Some known)
  then have "s' = s" "known = key"
    using assms(1) by (auto simp: feed_pin_or_check_def check_account_key_def split: if_splits)
  then show ?thesis using assms(2) Some by simp
qed

subsection \<open>What every operation keeps\<close>

definition feed_still :: "feed_state \<Rightarrow> feed_state \<Rightarrow> bool" where
  "feed_still s s' \<longleftrightarrow> fs_limits s' = fs_limits s \<and> fs_session s' = fs_session s \<and> fs_key s' = fs_key s \<and>
     fs_operator_key s' = fs_operator_key s \<and> in_memory (fs_storage s') = in_memory (fs_storage s) \<and>
     map_of (fs_accounts s) \<subseteq>\<^sub>m map_of (fs_accounts s') \<and>
     map_of (fs_inbox_sequenced s) \<subseteq>\<^sub>m map_of (fs_inbox_sequenced s')"

lemma feed_still_refl [simp]: "feed_still s s"
  by (simp add: feed_still_def)

lemma feed_still_trans: "feed_still s t \<Longrightarrow> feed_still t u \<Longrightarrow> feed_still s u"
  unfolding feed_still_def by (auto intro: map_le_trans)

lemma kept_still:
  "feed_kept s s' \<Longrightarrow> map_of (fs_inbox_sequenced s) \<subseteq>\<^sub>m map_of (fs_inbox_sequenced s') \<Longrightarrow> feed_still s s'"
  by (simp add: feed_kept_def feed_still_def)

lemma limiter_still [simp]: "feed_still (s\<lparr>fs_limiter := l\<rparr>) s' = feed_still s s'"
  by (simp add: feed_still_def)

lemma next_id_still [simp]: "feed_still (s\<lparr>fs_next_id := i\<rparr>) s' = feed_still s s'" "feed_still s (s\<lparr>fs_next_id := i\<rparr>)"
  by (simp_all add: feed_still_def)

lemma pin_still:
  assumes "feed_pin_or_check s pins account key = Inr s'"
  shows "feed_still s s'"
proof (cases "map_of (fs_accounts s) account")
  case None
  then have "fs_accounts s' = bput (fs_accounts s) account key \<and> fs_limits s' = fs_limits s \<and> fs_session s' = fs_session s \<and>
      fs_key s' = fs_key s \<and> fs_operator_key s' = fs_operator_key s \<and> fs_inbox_sequenced s' = fs_inbox_sequenced s \<and>
      in_memory (fs_storage s') = in_memory (fs_storage s)"
    using assms by (auto simp: feed_pin_or_check_def check_account_key_def Let_def split: storage.splits if_splits)
  then show ?thesis using None by (auto simp: feed_still_def map_le_def)
next
  case (Some known)
  then have "s' = s" using assms by (auto simp: feed_pin_or_check_def check_account_key_def split: if_splits)
  then show ?thesis by simp
qed

text \<open>The entries of a log: each is a message as serde wrote it, with its place as its id and
  a nonce that can be keyed.\<close>

definition nonce_fine :: "order_message \<Rightarrow> bool" where
  "nonce_fine msg \<longleftrightarrow> msg_nonce msg = None \<or> message_nonce msg \<noteq> None"

definition entries_ok :: "feed_env \<Rightarrow> nat \<Rightarrow> bytes list \<Rightarrow> bool" where
  "entries_ok fe k js \<longleftrightarrow> (\<forall>i < length js. \<exists>msg. js ! i = fe_to_vec fe msg \<and> msg_id msg = k + i \<and> nonce_fine msg)"

lemma entries_ok_Nil [simp]: "entries_ok fe k []"
  by (simp add: entries_ok_def)

lemma entries_ok_append: "entries_ok fe k (xs @ ys) \<longleftrightarrow> entries_ok fe k xs \<and> entries_ok fe (k + length xs) ys"
proof -
  have "(\<forall>i < length xs + n. P i) \<longleftrightarrow> (\<forall>i < length xs. P i) \<and> (\<forall>i < n. P (length xs + i))" (is "?l \<longleftrightarrow> ?r") for P and n :: nat
  proof
    assume r: ?r
    show ?l
    proof (intro allI impI)
      fix i assume "i < length xs + n"
      then show "P i" using r by (cases "i < length xs") (auto dest: spec [of _ "i - length xs"])
    qed
  qed auto
  from this [of "length ys"] show ?thesis by (simp add: entries_ok_def nth_append add.assoc)
qed

lemma batch_entries_ok:
  assumes "numbered_batch k batch" and "\<And>e. e \<in> set batch \<Longrightarrow> nonce_fine (snd e)"
  shows "entries_ok fe k (map (fe_to_vec fe \<circ> snd) batch)"
proof -
  have "msg_id (snd (batch ! i)) = k + i" if "i < length batch" for i
  proof -
    have "map (msg_id \<circ> snd) batch ! i = [k ..< k + length batch] ! i" using assms(1) by (simp add: numbered_batch_def)
    then show ?thesis using that by simp
  qed
  moreover have "nonce_fine (snd (batch ! i))" if "i < length batch" for i using assms(2) that by simp
  ultimately show ?thesis by (auto simp: entries_ok_def)
qed

text \<open>One step of the sequencer: it never panics, what it refuses it does not publish, and what
  it publishes goes to the end of the log.\<close>

definition feed_step_ok ::
  "feed_env \<Rightarrow> feed_state \<Rightarrow> bytes list \<Rightarrow> nat \<Rightarrow> ((feed_error + 'a) \<times> feed_state) option \<Rightarrow> bool" where
  "feed_step_ok fe s hist n outcome \<longleftrightarrow>
     (\<exists>r s' js. outcome = Some (r, s') \<and> feed_ok fe s' (hist @ js) \<and> feed_still s s' \<and>
        entries_ok fe (length hist + 1) js \<and> (case r of Inl _ \<Rightarrow> js = [] | Inr _ \<Rightarrow> length js = n))"

lemma step_refused: "feed_ok fe s' hist \<Longrightarrow> feed_still s s' \<Longrightarrow> feed_step_ok fe s hist n (Some (Inl e, s'))"
  unfolding feed_step_ok_def by (intro exI [of _ "Inl e"] exI [of _ s'] exI [of _ "[]"]) simp

lemma step_from: "feed_step_ok fe t hist n outcome \<Longrightarrow> feed_still s t \<Longrightarrow> feed_step_ok fe s hist n outcome"
  unfolding feed_step_ok_def using feed_still_trans by blast

lemma publish_next_step:
  assumes "feed_ok fe s hist" and "serde_ok fe" and "\<forall>x. length (fe_sha fe x) = HASH_SIZE"
    and "check_retention_growth s 1 1 0 = Inr ()" and "\<forall>i. msg_id (msg i) = i"
    and "\<forall>i x. message_nonce (msg i) = Some x \<longrightarrow> map_of (fs_nonces s) x = None" and "length hist < 2 ^ 63"
    and "\<forall>i. nonce_fine (msg i)"
  shows "feed_step_ok fe s hist 1 (publish_next fe commits s msg)"
proof (cases "\<not> commits \<and> \<not> in_memory (fs_storage s)")
  case True
  then show ?thesis using publish_next_ok [OF assms(1-7), of commits] assms(1) by (auto intro: step_refused)
next
  case False
  let ?json = "fe_to_vec fe (msg (length hist + 1))"
  obtain s' where s': "publish_next fe commits s msg = Some (Inr \<lparr>rc_id = length hist + 1,
        rc_head = signed_head_at fe s' (length hist + 1) (chain_of (fe_sha fe) (hist @ [?json]))\<rparr>, s')"
      "feed_ok fe s' (hist @ [?json])" "feed_kept s s'" "fs_inbox_sequenced s' = fs_inbox_sequenced s"
    using publish_next_ok [OF assms(1-7), of commits] False by auto
  then have "feed_still s s'" by (simp add: kept_still)
  moreover have "entries_ok fe (length hist + 1) [?json]" using assms(5,8) by (auto simp: entries_ok_def)
  ultimately show ?thesis using s'(1,2) unfolding feed_step_ok_def by force
qed

subsection \<open>The two doors\<close>

lemma verified_key:
  assumes "verify_account_signature point strict sent = Inr key"
  shows "length key = 32 \<and> point key"
  using assms by (auto simp: verify_account_signature_def ok_or_def from_hex_def split: option.splits if_splits dest: hex_pairs_length)

lemma message_from_id [simp]: "msg_id (message_from i t sub) = i"
  by (cases sub) simp_all

lemma message_from_account [simp]: "msg_account (message_from i t sub) = account_of sub"
  by (cases sub) simp_all

lemma message_from_nonce [simp]: "msg_nonce (message_from i t sub) = nonce_of sub"
  by (cases sub) simp_all

lemma checked_message_nonce: "checked_nonce sub = Inr nonce \<Longrightarrow> message_nonce (message_from i t sub) = Some (account_of sub, nonce)"
  by (auto simp: checked_nonce_def message_nonce_def ok_or_def split: option.splits)

lemma request_message_simps [simp]: "msg_id (request_message req i t) = i" "msg_account (request_message req i t) = OPERATOR_ACCOUNT"
  "msg_nonce (request_message req i t) = Some (req_nonce req)"
  by (cases req; simp)+

lemma submit_locked_step:
  assumes ok: "feed_ok fe s hist" and serde: "serde_ok fe" and sha: "\<forall>x. length (fe_sha fe x) = HASH_SIZE"
    and nonce: "checked_nonce sub = Inr nonce" and key: "length key = 32 \<and> fe_point fe key" and room: "length hist < 2 ^ 63"
  shows "feed_step_ok fe s hist 1 (submit_locked fe pins commits s c instant now sub key nonce)"
proof -
  obtain allowed limiter where l: "limiter_allow (fs_limiter s) (client_ip c (fs_proxies s)) instant = (allowed, limiter)"
    by (cases "limiter_allow (fs_limiter s) (client_ip c (fs_proxies s)) instant")
  define s1 where "s1 = s\<lparr>fs_limiter := limiter\<rparr>"
  have s1: "feed_ok fe s1 hist" "feed_still s s1" using ok by (simp_all add: s1_def) (simp add: feed_still_def)
  have out: "feed_step_ok fe s hist 1 (Some (Inl e :: feed_error + receipt, s1))" for e using s1 by (rule step_refused)
  show ?thesis
  proof (cases "allowed \<and> log_is_open s1 \<and> check_session (fs_session s1) sub = Inr ()")
    case False
    then show ?thesis using out by (auto simp: submit_locked_def l s1_def [symmetric] Let_def split: sum.split)
  next
    case True
    show ?thesis
    proof (cases "feed_pin_or_check s1 pins (account_of sub) key")
      case (Inl e)
      then show ?thesis using out True by (simp add: submit_locked_def l s1_def [symmetric] Let_def)
    next
      case (Inr s2)
      have s2: "feed_ok fe s2 hist" "feed_still s1 s2" using feed_pin_ok [OF Inr s1(1) key] pin_still [OF Inr] by blast+
      have still: "feed_still s s2" using s1(2) s2(2) by (rule feed_still_trans)
      have out: "feed_step_ok fe s hist 1 (Some (Inl e :: feed_error + receipt, s2))" for e using s2(1) still by (rule step_refused)
      show ?thesis
      proof (cases "map_of (fs_nonces s2) (account_of sub, nonce) = None \<and> check_retention_growth s2 1 1 0 = Inr ()")
        case False
        then show ?thesis using out True Inr
          by (auto simp: submit_locked_def l s1_def [symmetric] Let_def split: option.split sum.split)
      next
        case fresh: True
        have "feed_step_ok fe s2 hist 1 (publish_next fe commits s2 (\<lambda>i. message_from i now sub))"
          by (rule publish_next_step) (use s2 serde sha fresh room nonce in \<open>auto simp: checked_message_nonce nonce_fine_def\<close>)
        then have "feed_step_ok fe s hist 1 (publish_next fe commits s2 (\<lambda>i. message_from i now sub))"
          using still by (rule step_from)
        then show ?thesis using True Inr fresh by (simp add: submit_locked_def l s1_def [symmetric] Let_def)
      qed
    qed
  qed
qed

lemma feed_submit_step:
  assumes "feed_ok fe s hist" and "serde_ok fe" and "\<forall>x. length (fe_sha fe x) = HASH_SIZE" and "length hist < 2 ^ 63"
  shows "feed_step_ok fe s hist 1 (feed_submit fe pins commits s c instant now sent)"
proof (cases "res_bind (validate_submission (ss_submission sent)) (\<lambda>_.
           res_bind (verify_account_signature (fe_point fe) (fe_strict fe) sent) (\<lambda>key.
           res_bind (checked_nonce (ss_submission sent)) (\<lambda>nonce. Inr (key, nonce))))")
  case (Inl e)
  then show ?thesis using assms(1) by (simp add: feed_submit_def step_refused)
next
  case (Inr kn)
  obtain key nonce where kn: "kn = (key, nonce)" by (cases kn)
  then have "checked_nonce (ss_submission sent) = Inr nonce" "verify_account_signature (fe_point fe) (fe_strict fe) sent = Inr key"
    using Inr by auto
  then show ?thesis using submit_locked_step [OF assms(1-3) _ verified_key [of "fe_point fe" "fe_strict fe" sent key] assms(4)] Inr by (simp add: feed_submit_def kn)
qed

lemma submit_operator_step:
  assumes ok: "feed_ok fe s hist" and "serde_ok fe" and "\<forall>x. length (fe_sha fe x) = HASH_SIZE" and "length hist < 2 ^ 63"
  shows "feed_step_ok fe s hist 1 (submit_operator fe commits s c instant now req)"
proof -
  obtain allowed limiter where l: "limiter_allow (fs_limiter s) (client_ip c (fs_proxies s)) instant = (allowed, limiter)"
    by (cases "limiter_allow (fs_limiter s) (client_ip c (fs_proxies s)) instant")
  define s1 where "s1 = s\<lparr>fs_limiter := limiter\<rparr>"
  have s1: "feed_ok fe s1 hist" "feed_still s s1" using ok by (simp_all add: s1_def) (simp add: feed_still_def)
  have out: "feed_step_ok fe s hist 1 (Some (Inl e :: feed_error + receipt, s1))"
    "feed_step_ok fe s hist 1 (Some (Inl e :: feed_error + receipt, s))" for e
    using s1 ok by (auto intro: step_refused)
  have step: "feed_step_ok fe s hist 1 (publish_next fe commits s1 (\<lambda>i. request_message req i now))"
    if "canonical_nonce (req_nonce req) = Some nonce" "map_of (fs_nonces s1) (OPERATOR_ACCOUNT, nonce) = None"
      "check_retention_growth s1 1 1 0 = Inr ()" for nonce
    using publish_next_step [OF s1(1) assms(2,3) that(3), of "\<lambda>i. request_message req i now"] that(1,2) assms(4) s1(2)
    by (auto simp: message_nonce_def nonce_fine_def intro: step_from)
  show ?thesis
    using out step
    by (auto simp: submit_operator_def l s1_def [symmetric] Let_def split: option.split sum.split)
qed

subsection \<open>The burst\<close>

definition burst_ok :: "(nat \<Rightarrow> order_message) list \<Rightarrow> bool" where
  "burst_ok msgs \<longleftrightarrow> (\<forall>msg \<in> set msgs. \<forall>i. msg_id (msg i) = i \<and> msg_nonce (msg i) = None)"

lemma batch_nonces_None: "(\<And>m. m \<in> set msgs \<Longrightarrow> message_nonce m = None) \<Longrightarrow> batch_nonces (map (Pair None) msgs) = []"
  by (induction msgs) auto

lemma burst_messages:
  fixes k :: nat
  assumes "burst_ok msgs"
  defines "batch \<equiv> map (Pair (None :: inbox_key option)) (map2 (\<lambda>msg i. msg i) msgs [k ..< k + length msgs])"
  shows "numbered_batch k batch" and "length batch = length msgs" and "batch_nonces batch = []"
    and "\<And>e. e \<in> set batch \<Longrightarrow> nonce_fine (snd e)"
proof -
  let ?out = "map2 (\<lambda>msg i. msg i) msgs [k ..< k + length msgs]"
  have at: "?out ! j = (msgs ! j) (k + j)" if "j < length msgs" for j using that by simp
  show "length batch = length msgs" by (simp add: batch_def)
  then show "numbered_batch k batch"
    using assms(1) unfolding numbered_batch_def
    by (intro nth_equalityI) (simp_all add: batch_def burst_ok_def)
  have none: "msg_nonce m = None" if out: "m \<in> set ?out" for m
  proof -
    obtain f i where "(f, i) \<in> set (zip msgs [k ..< k + length msgs])" "m = f i" using out by (auto simp del: upt_Suc)
    then have "f \<in> set msgs" "m = f i" by (auto dest: set_zip_leftD)
    then show ?thesis using assms(1) by (simp add: burst_ok_def)
  qed
  then show "batch_nonces batch = []"
    unfolding batch_def by (intro batch_nonces_None) (simp add: message_nonce_def)
  show "nonce_fine (snd e)" if "e \<in> set batch" for e
  proof -
    obtain m where "e = (None, m)" "m \<in> set ?out" using \<open>e \<in> set batch\<close> unfolding batch_def by (auto simp only: set_map [of "Pair None"] image_iff)
    then show ?thesis using none by (simp add: nonce_fine_def)
  qed
qed

lemma check_growth_publish:
  assumes "check_retention_growth s n 0 0 = Inr ()" and "length batch = n" and "batch_nonces batch = []" and "batch_keys batch = []"
  shows "check_retention_batch s batch = Inr ()"
  by (rule growth_batch [OF assms(1)]) (use assms in simp_all)

lemma publish_burst_step:
  assumes ok: "feed_ok fe s hist" and serde: "serde_ok fe" and sha: "\<forall>x. length (fe_sha fe x) = HASH_SIZE"
    and msgs: "burst_ok msgs" and room: "length hist + length msgs \<le> 2 ^ 63"
  shows "feed_step_ok fe s hist (length msgs) (publish_burst fe commits s msgs)"
proof (cases "log_is_open s \<and> check_retention_growth s (length msgs) 0 0 = Inr () \<and> msgs \<noteq> []")
  case False
  have nid: "fs_next_id s = Suc (length hist)" using ok by (simp add: feed_ok_def)
  then have same: "s\<lparr>fs_next_id := Suc (length hist)\<rparr> = s" by simp
  have "feed_step_ok fe s hist 0 (Some (Inr () :: feed_error + unit, s))"
    using ok unfolding feed_step_ok_def by force
  then show ?thesis using False ok
    by (auto simp: publish_burst_def publish_batch_def sequence_def Let_def step_refused nid same split: sum.splits)
next
  case True
  let ?k = "length hist + 1"
  define batch :: "(inbox_key option \<times> order_message) list"
    where "batch = map (Pair None) (map2 (\<lambda>msg i. msg i) msgs [?k ..< ?k + length msgs])"
  note b = burst_messages [OF msgs, where k = ?k, folded batch_def]
  let ?s = "s\<lparr>fs_next_id := ?k + length msgs\<rparr>"
  have nid: "fs_next_id s = ?k" using ok by (simp add: feed_ok_def)
  have same: "s\<lparr>fs_next_id := ?k\<rparr> = s" using nid by simp
  have keys: "batch_keys batch = []" unfolding batch_def by (rule batch_keys_None)
  have ne: "batch \<noteq> []" using True b(2) by auto
  have burst: "publish_burst fe commits s msgs = sequence fe commits ?s batch"
    using True by (simp add: publish_burst_def publish_batch_def Let_def nid batch_def)
  have "check_retention_batch ?s batch = Inr ()"
    by (rule check_growth_publish [of _ "length msgs"]) (use True b keys in simp_all)
  note seq = sequence_ok [where fe = fe and s = ?s and hist = hist and batch = batch and commits = commits, OF _ serde sha b(1) ne _ _ this]
  have pairs: "pair_rows m batch j = m" for m j
  proof -
    have "pair_rows m (map (Pair None) ms) j = m" for ms :: "order_message list" by (induction ms arbitrary: j) simp_all
    then show ?thesis unfolding batch_def by blast
  qed
  show ?thesis
  proof (cases "\<not> commits \<and> \<not> in_memory (fs_storage s)")
    case True
    then show ?thesis using seq ok same b(2) room burst by (simp add: step_refused)
  next
    case False
    then obtain s' where s': "sequence fe commits ?s batch = Some (Inr (), s')"
      "feed_ok fe s' (hist @ map (fe_to_vec fe \<circ> snd) batch)" "feed_kept ?s s'" "fs_inbox_sequenced s' = fs_inbox_sequenced ?s"
      using seq ok same b(2) room pairs by auto
    have "feed_still s s'" using kept_still [OF s'(3)] s'(4) by simp
    moreover have "entries_ok fe ?k (map (fe_to_vec fe \<circ> snd) batch)"
      by (rule batch_entries_ok [OF b(1)]) (use b(4) in blast)
    ultimately show ?thesis using s'(1,2) b(2) unfolding burst feed_step_ok_def
      by (intro exI [of _ "Inr ()"] exI [of _ s'] exI [of _ "map (fe_to_vec fe \<circ> snd) batch"]) simp
  qed
qed

subsection \<open>The signed tree head\<close>

lemma feed_source:
  assumes "feed_ok fe s hist" and "\<forall>x. length (fe_sha fe x) = HASH_SIZE"
  shows "node_source (fe_sha fe) (storage_nodes (fs_storage s)) (map (leaf_hash (fe_sha fe)) hist)"
proof (cases "fs_storage s")
  case (Memory tree)
  then show ?thesis using assms(1) tree_source by (auto simp: feed_ok_def storage_ok_def)
next
  case (Disk db n)
  show ?thesis
  proof (cases "hist = []")
    case True
    then show ?thesis by unfold_locales simp_all
  next
    case False
    then have "table_ok (fe_sha fe) (map (leaf_hash (fe_sha fe)) hist) (fd_nodes db)"
      using assms(1) Disk by (simp add: feed_ok_def storage_ok_def file_ok_def)
    then show ?thesis using table_source [OF _ assms(2) hashes_leaves [OF assms(2)]] Disk by simp
  qed
qed

lemma feed_tree_size_ok: "feed_ok fe s hist \<Longrightarrow> storage_leaves (fs_storage s) = length hist"
  by (auto simp: feed_ok_def storage_ok_def dest: tree_ok_len split: storage.splits)

lemma feed_root_ok:
  assumes "feed_ok fe s hist" and "\<forall>x. length (fe_sha fe x) = HASH_SIZE"
  shows "feed_tree_root fe s = Inr (log_hash (fe_sha fe) hist)"
  using node_source.mth_ok [OF feed_source [OF assms], of "length hist"] feed_tree_size_ok [OF assms(1)]
  by (simp add: feed_tree_root_def nodes_root_def feed_tree_size_def log_hash_def)

lemma feed_tree_head_ok:
  assumes "feed_ok fe s hist" and "\<forall>x. length (fe_sha fe x) = HASH_SIZE"
  shows "\<exists>(head :: signed_tree_head) s'. feed_tree_head fe s now = (Inr head, s') \<and> feed_ok fe s' hist \<and> feed_still s s' \<and>
    tree_head_ok fe s' hist head \<and> sth_tree_size head = length hist \<and> now \<le> sth_timestamp head \<and>
    fs_tree_head s' = Some head \<and> fs_storage s' = fs_storage s \<and> fs_messages s' = fs_messages s \<and>
    (\<forall>kept. fs_tree_head s = Some kept \<longrightarrow> kept = head \<or> sth_timestamp kept < sth_timestamp head)"
proof -
  define fresh :: "nat \<Rightarrow> signed_tree_head" where "fresh t = \<lparr>sth_session = fs_session s, sth_timestamp = t, sth_tree_size = length hist,
      sth_root_hash = to_hex (log_hash (fe_sha fe) hist), sth_public_key = to_hex (fe_public fe (fs_key s)),
      sth_signature = to_hex (sign_tree_head (fe_sign fe) (fs_key s) (fs_session s) t (length hist) (log_hash (fe_sha fe) hist))\<rparr>" for t
  have n: "feed_tree_size s = length hist" using feed_tree_size_ok [OF assms(1)] by (simp add: feed_tree_size_def)
  have ok: "tree_head_ok fe (s\<lparr>fs_tree_head := x\<rparr>) hist (fresh t)" for t x by (simp add: tree_head_ok_def fresh_def)
  have s': "feed_ok fe (s\<lparr>fs_tree_head := Some (fresh t)\<rparr>) hist" "feed_still s (s\<lparr>fs_tree_head := Some (fresh t)\<rparr>)" for t
    using assms(1) ok by (auto simp: feed_ok_def storage_ok_def file_ok_def feed_still_def split: storage.splits)
  have sign: "fs_tree_head s = None \<Longrightarrow> feed_tree_head fe s now = (Inr (fresh now), s\<lparr>fs_tree_head := Some (fresh now)\<rparr>)"
    "\<And>kept. fs_tree_head s = Some kept \<Longrightarrow> \<not> (sth_tree_size kept = length hist \<and> now \<le> sth_timestamp kept) \<Longrightarrow>
      feed_tree_head fe s now = (Inr (fresh (max now (sth_timestamp kept + 1))),
        s\<lparr>fs_tree_head := Some (fresh (max now (sth_timestamp kept + 1)))\<rparr>)"
    by (auto simp: feed_tree_head_def n feed_root_ok [OF assms] fresh_def Let_def)
  show ?thesis
  proof (cases "fs_tree_head s")
    case None
    then show ?thesis using sign(1) s' ok by (auto simp: fresh_def)
  next
    case (Some kept)
    show ?thesis
    proof (cases "sth_tree_size kept = length hist \<and> now \<le> sth_timestamp kept")
      case True
      then have "feed_tree_head fe s now = (Inr kept, s)" using Some by (simp add: feed_tree_head_def n)
      then show ?thesis using True Some assms(1) by (auto simp: feed_ok_def)
    next
      case False
      let ?t = "max now (sth_timestamp kept + 1)"
      have "sth_timestamp (fresh ?t) = ?t" "sth_tree_size (fresh ?t) = length hist" by (simp_all add: fresh_def)
      then show ?thesis using sign(2) [OF Some False] s' [of ?t] ok [of _ ?t] Some by auto
    qed
  qed
qed

end
