(* ===== verification/Feed_Drain.thy ===== *)
theory Feed_Drain
  imports Feed_Run
begin

section \<open>One pass over the inbox\<close>

text \<open>
  The loop of \<open>sequence_drained\<close> collects a batch and the pairs of entry and message to be marked.
  Its invariant \<open>pass_ok\<close> says that the batch can be published once the loop is over, and that
  every pair names a message of the log or of the batch; where the page lists every entry once,
  a pass is one more step of the sequencer.
\<close>

subsection \<open>The invariant of the loop\<close>

definition pair_ok :: "feed_env \<Rightarrow> bytes list \<Rightarrow> (nat \<Rightarrow> submission set) \<Rightarrow>
    (inbox_key option \<times> order_message) list \<Rightarrow> nat \<times> nat \<times> bool \<Rightarrow> bool" where
  "pair_ok fe hist sent batch pair \<longleftrightarrow>
     (case pair of (i, feed_id, fresh) \<Rightarrow>
        if fresh
        then \<exists>(key, msg) \<in> set batch. msg_id msg = feed_id \<and>
          (\<exists>sub \<in> sent i. message_matches (fe_to_vec fe) sub msg)
        else 0 < feed_id \<and> feed_id \<le> length hist)"

definition pass_ok :: "feed_env \<Rightarrow> string \<Rightarrow> bytes list \<Rightarrow> (nat \<Rightarrow> submission set) \<Rightarrow> drain_pass \<Rightarrow> bool" where
  "pass_ok fe epoch hist sent p \<longleftrightarrow>
     (let s = dp_state p; batch = dp_batch p in
      feed_ok fe (s\<lparr>fs_next_id := length hist + 1\<rparr>) hist \<and>
      fs_next_id s = length hist + 1 + length batch \<and>
      numbered_batch (length hist + 1) batch \<and>
      length (batch_keys batch) = length batch \<and> length (batch_nonces batch) = length batch \<and>
      distinct (batch_keys batch) \<and>
      (\<forall>x \<in> set (batch_keys batch). fst x = epoch \<and> sent (snd x) \<noteq> {} \<and> map_of (fs_inbox_sequenced s) x = None) \<and>
      distinct (batch_nonces batch) \<and> (\<forall>x \<in> set (batch_nonces batch). map_of (fs_nonces s) x = None) \<and>
      bmap_ok (dp_nonces p) \<and> dom (map_of (dp_nonces p)) = set (batch_nonces batch) \<and>
      (batch = [] \<or> check_retention_growth s (length batch) (length batch) (length batch) = Inr ()) \<and>
      (\<forall>pair \<in> set (dp_pairs p). pair_ok fe hist sent batch pair))"

lemma numbered_batch_snoc: "numbered_batch k (batch @ [e]) \<longleftrightarrow> numbered_batch k batch \<and> msg_id (snd e) = k + length batch"
  by (simp add: numbered_batch_def)

lemma batch_keys_append: "batch_keys (xs @ ys) = batch_keys xs @ batch_keys ys"
  by (induction xs) (auto split: option.splits)

lemma batch_nonces_append: "batch_nonces (xs @ ys) = batch_nonces xs @ batch_nonces ys"
  by (induction xs) (auto split: option.splits)

lemma pin_next_id:
  "feed_pin_or_check (s\<lparr>fs_next_id := k\<rparr>) pins account key =
   res_bind (feed_pin_or_check s pins account key) (\<lambda>s'. Inr (s'\<lparr>fs_next_id := k\<rparr>))"
  by (simp add: feed_pin_or_check_def check_account_key_def Let_def split: storage.split option.split)

lemma pin_state:
  "feed_pin_or_check s pins account key = Inr s' \<Longrightarrow>
   feed_pin_or_check (s\<lparr>fs_next_id := k\<rparr>) pins account key = Inr (s'\<lparr>fs_next_id := k\<rparr>)"
  by (simp add: pin_next_id)

lemma growth_pin:
  assumes "feed_pin_or_check s pins account key = Inr s'" and "feed_ok fe (s\<lparr>fs_next_id := k\<rparr>) hist"
    and "length key = 32 \<and> fe_point fe key"
  shows "check_retention_growth s' m n i = check_retention_growth s m n i"
  using feed_pin_ok [OF pin_state [OF assms(1)] assms(2,3)] by (simp add: check_retention_growth_def Let_def)

lemma pass_pinned:
  assumes "pass_ok fe epoch hist sent p" and "feed_pin_or_check (dp_state p) pins account key = Inr s'"
    and "length key = 32 \<and> fe_point fe key"
  shows "pass_ok fe epoch hist sent (p\<lparr>dp_state := s'\<rparr>)"
proof -
  let ?k = "length hist + 1"
  have ok: "feed_ok fe (dp_state p\<lparr>fs_next_id := ?k\<rparr>) hist" using assms(1) by (simp add: pass_ok_def Let_def)
  have same: "fs_next_id s' = fs_next_id (dp_state p)"
    using assms(2) by (auto simp: feed_pin_or_check_def Let_def split: storage.splits if_splits)
  note k = feed_pin_ok [OF pin_state [OF assms(2), of ?k] ok assms(3)]
  have "fs_nonces s' = fs_nonces (dp_state p)" "fs_inbox_sequenced s' = fs_inbox_sequenced (dp_state p)"
    "feed_ok fe (s'\<lparr>fs_next_id := ?k\<rparr>) hist" using k by simp_all
  then show ?thesis using assms(1) same unfolding pass_ok_def Let_def
    by (simp add: growth_pin [OF assms(2) ok assms(3)])
qed

lemma pair_more:
  "pair_ok fe hist sent batch pair \<Longrightarrow> (\<And>i. sent i \<subseteq> sent' i) \<Longrightarrow> pair_ok fe hist sent' (batch @ extra) pair"
  by (cases pair) (fastforce simp: pair_ok_def split: if_splits)

lemma pass_sent:
  assumes "pass_ok fe epoch hist sent p" and "\<And>i. sent i \<subseteq> sent' i"
  shows "pass_ok fe epoch hist sent' p"
proof -
  have "\<forall>pair \<in> set (dp_pairs p). pair_ok fe hist sent' (dp_batch p) pair"
    using assms(1) pair_more [where extra = "[]", OF _ assms(2)] by (simp add: pass_ok_def Let_def)
  moreover have "sent' (snd x) \<noteq> {}" if "x \<in> set (batch_keys (dp_batch p))" for x
    using assms(1) assms(2) [of "snd x"] that by (auto simp: pass_ok_def Let_def)
  ultimately show ?thesis using assms(1) by (simp add: pass_ok_def Let_def)
qed

lemma pass_refused: "pass_ok fe epoch hist sent p \<Longrightarrow> pass_ok fe epoch hist sent (refuse_entry p i e)"
  by (simp add: pass_ok_def refuse_entry_def Let_def)

lemma pass_paired:
  assumes "pass_ok fe epoch hist sent p" and "pair_ok fe hist sent (dp_batch p) (i, feed_id, fresh)"
  shows "pass_ok fe epoch hist sent (pair_entry p i feed_id fresh)"
  using assms by (auto simp: pass_ok_def pair_entry_def Let_def)

text \<open>An id the sequencer remembers, for a pairing or a nonce, is that of a message of the log.\<close>

lemma pass_known_id:
  assumes "pass_ok fe epoch hist sent p"
    and "map_of (fs_inbox_sequenced (dp_state p)) x = Some i \<or> map_of (fs_nonces (dp_state p)) y = Some i"
  shows "0 < i \<and> i \<le> length hist"
proof -
  have "feed_ok fe (dp_state p\<lparr>fs_next_id := length hist + 1\<rparr>) hist" using assms(1) by (simp add: pass_ok_def Let_def)
  then have "\<forall>x i. map_of (fs_inbox_sequenced (dp_state p)) x = Some i \<longrightarrow> 0 < i \<and> i \<le> length hist"
    "\<forall>y i. map_of (fs_nonces (dp_state p)) y = Some i \<longrightarrow> 0 < i \<and> i \<le> length hist"
    by (simp_all add: feed_ok_def nonces_ok_def)
  then show ?thesis using assms(2) by blast
qed

text \<open>A message that joins the batch.\<close>

lemma matches_own: "validate_submission sub = Inr () \<Longrightarrow> message_matches v sub (message_from i t sub)"
  by (cases sub) (auto simp: validate_submission_def message_matches_def grid_form_def Let_def split: option.splits sum.splits if_splits)

lemma pass_joined:
  fixes t :: nat
  assumes valid: "validate_submission sub = Inr ()" and ok: "pass_ok fe epoch hist sent p" and key: "map_of (fs_inbox_sequenced (dp_state p)) (epoch, i) = None"
    and new: "sent i = {}" and nonce: "checked_nonce sub = Inr nonce"
    and fresh: "map_of (fs_nonces (dp_state p)) (account_of sub, nonce) = None" "map_of (dp_nonces p) (account_of sub, nonce) = None"
    and room: "check_retention_growth (dp_state p) (length (dp_batch p) + 1) (length (dp_batch p) + 1) (length (dp_batch p) + 1) = Inr ()"
  defines "s \<equiv> dp_state p"
  defines "msg \<equiv> message_from (fs_next_id s) t sub"
  shows "pass_ok fe epoch hist (sent(i := {sub})) (pair_entry
    (p\<lparr>dp_state := s\<lparr>fs_next_id := fs_next_id s + 1\<rparr>, dp_batch := dp_batch p @ [(Some (epoch, i), msg)],
       dp_nonces := bput (dp_nonces p) (account_of sub, nonce) (fs_next_id s)\<rparr>) i (fs_next_id s) True)"
proof -
  let ?p = "p\<lparr>dp_state := s\<lparr>fs_next_id := fs_next_id s + 1\<rparr>, dp_batch := dp_batch p @ [(Some (epoch, i), msg)],
       dp_nonces := bput (dp_nonces p) (account_of sub, nonce) (fs_next_id s)\<rparr>"
  let ?sent = "sent(i := {sub})"
  have grown: "pass_ok fe epoch hist ?sent p" by (rule pass_sent [OF ok]) (use new in simp)
  have n: "message_nonce msg = Some (account_of sub, nonce)" unfolding msg_def by (rule checked_message_nonce [OF nonce])
  have fk: "(epoch, i) \<notin> set (batch_keys (dp_batch p))"
    using ok new unfolding pass_ok_def Let_def by force
  have fn: "(account_of sub, nonce) \<notin> set (batch_nonces (dp_batch p))"
    using ok fresh(2) by (auto simp: pass_ok_def Let_def)
  let ?e = "(Some (epoch, i), msg)"
  have keys: "batch_keys (dp_batch p @ [?e]) = batch_keys (dp_batch p) @ [(epoch, i)]" by (simp add: batch_keys_append)
  have nonces: "batch_nonces (dp_batch p @ [?e]) = batch_nonces (dp_batch p) @ [(account_of sub, nonce)]"
    by (simp add: batch_nonces_append n)
  have pairs: "\<forall>pair \<in> set (dp_pairs p). pair_ok fe hist ?sent (dp_batch p @ [?e]) pair"
    using grown pair_more unfolding pass_ok_def Let_def by blast
  have "numbered_batch (length hist + 1) (dp_batch p @ [?e])"
    using ok by (simp add: numbered_batch_snoc msg_def s_def pass_ok_def Let_def)
  moreover have "dom (map_of (bput (dp_nonces p) (account_of sub, nonce) (fs_next_id s))) = set (batch_nonces (dp_batch p @ [?e]))"
    using ok unfolding nonces by (auto simp: pass_ok_def Let_def)
  moreover have "bmap_ok (bput (dp_nonces p) (account_of sub, nonce) (fs_next_id s))"
    using ok by (simp add: pass_ok_def Let_def)
  ultimately have "pass_ok fe epoch hist ?sent ?p"
    using grown room fk fn fresh(1) key pairs unfolding pass_ok_def Let_def s_def [symmetric]
    by (simp add: keys nonces)
  then show ?thesis by (rule pass_paired) (auto simp: pair_ok_def msg_def matches_own [OF valid])
qed

subsection \<open>The loop\<close>

lemma drain_entry_ok:
  assumes ok: "pass_ok fe epoch hist sent p" and new: "sent (fst entry) = {}"
  defines "sent' \<equiv> sent(fst entry := {ss_submission (snd entry)})"
  shows "pass_ok fe epoch hist sent' (drain_entry fe pins clock epoch entry p) \<and>
    feed_still (dp_state p) (dp_state (drain_entry fe pins clock epoch entry p))"
proof -
  obtain i sg where entry: "entry = (i, sg)" by (cases entry)
  let ?sub = "ss_submission sg" and ?out = "drain_entry fe pins clock epoch entry p"
  let ?acc = "account_of ?sub"
  have grown: "pass_ok fe epoch hist sent' p" by (rule pass_sent [OF ok]) (use new in \<open>simp add: sent'_def\<close>)
  have refuse: "pass_ok fe epoch hist sent' (refuse_entry q j e) \<and> feed_still (dp_state p) (dp_state (refuse_entry q j e))"
    if "pass_ok fe epoch hist sent' q" "feed_still (dp_state p) (dp_state q)" for q j e
    using that pass_refused by (simp add: refuse_entry_def)
  show ?thesis
  proof (cases "map_of (fs_inbox_sequenced (dp_state p)) (epoch, i)")
    case (Some feed_id)
    then have "0 < feed_id \<and> feed_id \<le> length hist" using pass_known_id [OF ok] by blast
    then have "pass_ok fe epoch hist sent' (pair_entry p i feed_id False)"
      by (intro pass_paired [OF grown]) (simp add: pair_ok_def)
    then show ?thesis using Some by (simp add: drain_entry_def entry Let_def pair_entry_def)
  next
    case key: None
    show ?thesis
    proof (cases "validate_submission ?sub")
      case (Inl e)
      then show ?thesis using key refuse [OF grown] by (simp add: drain_entry_def entry Let_def)
    next
      case valid: (Inr u)
      show ?thesis
      proof (cases "res_bind (map_err Intake (verify_account_signature (fe_point fe) (fe_strict fe) sg))
                (feed_pin_or_check (dp_state p) (pins ?acc) ?acc)")
        case (Inl e)
        then show ?thesis using key valid refuse [OF grown] by (simp add: drain_entry_def entry Let_def)
      next
        case (Inr s1)
        then obtain k where pin: "feed_pin_or_check (dp_state p) (pins ?acc) ?acc k = Inr s1"
          and v: "verify_account_signature (fe_point fe) (fe_strict fe) sg = Inr k" by (cases "verify_account_signature (fe_point fe) (fe_strict fe) sg") auto
        note k = verified_key [OF v]
        define p1 where "p1 = p\<lparr>dp_state := s1\<rparr>"
        have p1: "pass_ok fe epoch hist sent' p1" "feed_still (dp_state p) (dp_state p1)"
          using pass_pinned [OF grown pin k] pin_still [OF pin] by (simp_all add: p1_def)
        have ok1: "pass_ok fe epoch hist sent p1" using pass_pinned [OF ok pin k] by (simp add: p1_def)
        have key1: "map_of (fs_inbox_sequenced (dp_state p1)) (epoch, i) = None"
          using key feed_pin_ok [OF pin_state [OF pin, of "length hist + 1"], of fe hist] ok k by (simp add: p1_def pass_ok_def Let_def)
        define tail where "tail nonce = (case (case map_of (fs_nonces s1) (?acc, nonce) of
              Some feed_id \<Rightarrow> Some (feed_id, False)
            | None \<Rightarrow> map_option (\<lambda>feed_id. (feed_id, True)) (map_of (dp_nonces p1) (?acc, nonce))) of
            Some (feed_id, in_this_batch) \<Rightarrow>
              (case judge_spent fe p1 ?sub feed_id in_this_batch of
                 Some True \<Rightarrow> pair_entry p1 i feed_id in_this_batch
               | Some False \<Rightarrow> refuse_entry p1 i (OtherMessage feed_id)
               | None \<Rightarrow> refuse_entry p1 i (UnreadableMessage feed_id))
          | None \<Rightarrow>
              let proposed = length (dp_batch p1) + 1 in
              (case check_retention_growth s1 proposed proposed proposed of
                 Inl e \<Rightarrow> refuse_entry p1 i e
               | Inr _ \<Rightarrow>
                   let feed_id = fs_next_id s1; msg = message_from feed_id (clock feed_id) ?sub
                   in pair_entry (p1\<lparr>dp_state := s1\<lparr>fs_next_id := feed_id + 1\<rparr>,
                          dp_batch := dp_batch p1 @ [(Some (epoch, i), msg)],
                          dp_nonces := bput (dp_nonces p1) (?acc, nonce) feed_id\<rparr>) i feed_id True))" for nonce
        have out: "?out = (case check_session (fs_session s1) ?sub of Inl e \<Rightarrow> refuse_entry p1 i (Intake e)
            | Inr _ \<Rightarrow> (case checked_nonce ?sub of Inl e \<Rightarrow> refuse_entry p1 i (Intake e) | Inr nonce \<Rightarrow> tail nonce))"
          by (simp only: drain_entry_def entry Let_def prod.case key option.case valid sum.case Inr p1_def tail_def)
        have "pass_ok fe epoch hist sent' (tail nonce) \<and> feed_still (dp_state p) (dp_state (tail nonce))"
          if nonce: "checked_nonce ?sub = Inr nonce" for nonce
        proof (cases "case map_of (fs_nonces s1) (?acc, nonce) of
              Some feed_id \<Rightarrow> Some (feed_id, False)
            | None \<Rightarrow> map_option (\<lambda>feed_id. (feed_id, True)) (map_of (dp_nonces p1) (?acc, nonce))")
          case spent: (Some x)
          obtain feed_id here where x: "x = (feed_id, here)" by (cases x)
          show ?thesis
          proof (cases "judge_spent fe p1 ?sub feed_id here = Some True")
            case True
            have "pair_ok fe hist sent' (dp_batch p1) (i, feed_id, here)"
            proof (cases here)
              case True
              then show ?thesis using \<open>judge_spent fe p1 ?sub feed_id here = Some True\<close>
                by (auto simp: pair_ok_def judge_spent_def list_ex_iff sent'_def entry)
            next
              case False
              then have "map_of (fs_nonces (dp_state p1)) (?acc, nonce) = Some feed_id"
                using spent by (auto simp: p1_def x split: option.splits)
              then have "0 < feed_id \<and> feed_id \<le> length hist" using pass_known_id [OF ok1] by blast
              then show ?thesis using False by (simp add: pair_ok_def)
            qed
            then have "pass_ok fe epoch hist sent' (pair_entry p1 i feed_id here)" by (rule pass_paired [OF p1(1)])
            then show ?thesis using True spent p1(2) by (simp add: tail_def x pair_entry_def)
          next
            case False
            then show ?thesis using spent refuse [OF p1] by (auto simp: tail_def x split: option.split bool.split)
          qed
        next
          case None
          then have fresh: "map_of (fs_nonces (dp_state p1)) (?acc, nonce) = None" "map_of (dp_nonces p1) (?acc, nonce) = None"
            by (auto simp: p1_def split: option.splits)
          show ?thesis
          proof (cases "check_retention_growth s1 (length (dp_batch p1) + 1) (length (dp_batch p1) + 1) (length (dp_batch p1) + 1)")
            case (Inl e)
            then show ?thesis using None refuse [OF p1] by (simp add: tail_def Let_def)
          next
            case room: (Inr v)
            have s1: "dp_state p1 = s1" by (simp add: p1_def)
            note joined = pass_joined [OF _ ok1 key1, where t = "clock (fs_next_id s1)", OF _ _ nonce fresh]
            have "tail nonce = pair_entry (p1\<lparr>dp_state := s1\<lparr>fs_next_id := fs_next_id s1 + 1\<rparr>,
                dp_batch := dp_batch p1 @ [(Some (epoch, i), message_from (fs_next_id s1) (clock (fs_next_id s1)) ?sub)],
                dp_nonces := bput (dp_nonces p1) (?acc, nonce) (fs_next_id s1)\<rparr>) i (fs_next_id s1) True"
              using None room by (simp add: tail_def Let_def)
            then show ?thesis using joined valid new room p1(2)
              by (simp add: entry s1 sent'_def pair_entry_def feed_still_def)
          qed
        qed
        then show ?thesis using out refuse [OF p1] by (auto split: sum.split)
      qed
    qed
  qed
qed

definition sent_in :: "(nat \<times> signed_submission) list \<Rightarrow> nat \<Rightarrow> submission set" where
  "sent_in due i = (\<lambda>e. ss_submission (snd e)) ` {e \<in> set due. fst e = i}"

lemma drain_fold_ok:
  assumes "pass_ok fe epoch hist sent p" and "distinct (map fst due)" and "\<forall>e \<in> set due. sent (fst e) = {}"
  shows "pass_ok fe epoch hist (\<lambda>i. sent i \<union> sent_in due i) (fold (drain_entry fe pins clock epoch) due p) \<and>
    feed_still (dp_state p) (dp_state (fold (drain_entry fe pins clock epoch) due p))"
  using assms
proof (induction due arbitrary: p sent)
  case (Cons e due)
  let ?p = "drain_entry fe pins clock epoch e p" and ?sent = "sent(fst e := {ss_submission (snd e)})"
  have step: "pass_ok fe epoch hist ?sent ?p" "feed_still (dp_state p) (dp_state ?p)"
    using drain_entry_ok [OF Cons.prems(1)] Cons.prems(3) by simp_all
  have other: "\<forall>d \<in> set due. ?sent (fst d) = {}" using Cons.prems(2,3) by (auto simp: image_iff)
  have "pass_ok fe epoch hist (\<lambda>i. ?sent i \<union> sent_in due i) (fold (drain_entry fe pins clock epoch) due ?p)"
    and still: "feed_still (dp_state ?p) (dp_state (fold (drain_entry fe pins clock epoch) due ?p))"
    using Cons.IH [OF step(1) _ other] Cons.prems(2) by simp_all
  moreover have "(\<lambda>i. ?sent i \<union> sent_in due i) = (\<lambda>i. sent i \<union> sent_in (e # due) i)"
    using Cons.prems(3) by (auto simp: sent_in_def fun_eq_iff)
  ultimately show ?case using feed_still_trans [OF step(2) still] by simp
qed (simp add: sent_in_def)

lemma pass_start:
  assumes "feed_ok fe s hist"
  shows "pass_ok fe epoch hist (\<lambda>_. {}) \<lparr>dp_state = s, dp_batch = [], dp_pairs = [], dp_refused = [], dp_nonces = []\<rparr>"
proof -
  have nid: "fs_next_id s = Suc (length hist)" using assms by (simp add: feed_ok_def)
  then have same: "s\<lparr>fs_next_id := Suc (length hist)\<rparr> = s" by simp
  show ?thesis using assms nid by (simp add: pass_ok_def Let_def numbered_batch_def bmap_ok_def same)
qed

text \<open>A batch the loop leaves is one \<open>sequence\<close> takes.\<close>

lemma pass_batch_ok:
  assumes "pass_ok fe epoch hist sent p" and "dp_batch p \<noteq> []"
  shows "check_retention_batch (dp_state p) (dp_batch p) = Inr ()"
  by (rule growth_batch [of _ "length (dp_batch p)" "length (dp_batch p)" "length (dp_batch p)"])
    (use assms in \<open>auto simp: pass_ok_def Let_def\<close>)

lemma pass_batch_size:
  assumes "pass_ok fe epoch hist sent p" and "\<And>i. sent i \<noteq> {} \<Longrightarrow> i \<in> set ids"
  shows "length (dp_batch p) \<le> length ids"
proof -
  let ?keys = "batch_keys (dp_batch p)"
  have k: "length ?keys = length (dp_batch p)" "distinct ?keys" "\<forall>x \<in> set ?keys. fst x = epoch \<and> snd x \<in> set ids"
    using assms by (auto simp: pass_ok_def Let_def)
  have "x \<in> Pair epoch ` set ids" if "x \<in> set ?keys" for x
  proof (rule image_eqI)
    show "x = (epoch, snd x)" "snd x \<in> set ids" using k(3) that by (auto simp: prod_eq_iff)
  qed
  then have "set ?keys \<subseteq> Pair epoch ` set ids" by blast
  then have "card (set ?keys) \<le> card (Pair epoch ` set ids)" by (intro card_mono) simp
  also have "\<dots> \<le> length ids" using card_image_le [of "set ids" "Pair epoch"] card_length [of ids] by simp
  finally show ?thesis using k(1) distinct_card [OF k(2)] by simp
qed

subsection \<open>What is stored\<close>


lemma map_of_rows:
  "map_of (rows_of sha 1 EMPTY_CHAIN hist) i =
   (if 0 < i \<and> i \<le> length hist then Some (hist ! (i - 1), Some (chain_of sha (take i hist))) else None)"
proof (cases "0 < i \<and> i \<le> length hist")
  case True
  let ?rows = "rows_of sha 1 EMPTY_CHAIN hist"
  have "?rows ! (i - 1) = (i, hist ! (i - 1), Some (chain_of sha (take i hist)))"
    using True nth_rows_of [of "i - 1" hist sha 1 EMPTY_CHAIN] by (cases i) (simp_all add: chain_of_def)
  then have "(i, hist ! (i - 1), Some (chain_of sha (take i hist))) \<in> set ?rows"
    using True by (metis length_rows_of nth_mem diff_less less_le_trans zero_less_one)
  moreover have "distinct (map fst ?rows)" by (simp add: rows_of_keys del: upt_Suc)
  ultimately show ?thesis using True by simp
next
  case False
  then have "i \<notin> set (map fst (rows_of sha 1 EMPTY_CHAIN hist))" by (auto simp only: rows_of_keys set_upt atLeastLessThan_iff)
  then have "map_of (rows_of sha 1 EMPTY_CHAIN hist) i = None" by (simp add: map_of_eq_None_iff)
  then show ?thesis using False by simp
qed

lemma stored_json_ok:
  assumes ok: "feed_ok fe s hist"
  shows "stored_json s i =
    (if 0 < i \<and> i \<le> length hist \<and> (in_memory (fs_storage s) \<longrightarrow> length hist < i + MESSAGE_WINDOW)
     then Some (hist ! (i - 1)) else None)"
proof -
  let ?w = "min MESSAGE_WINDOW (length hist)"
  have msgs: "fs_messages s = newest MESSAGE_WINDOW (numbered hist)" and nid: "fs_next_id s = length hist + 1"
    using ok by (simp_all add: feed_ok_def)
  have w: "0 < MESSAGE_WINDOW" by (simp add: MESSAGE_WINDOW_def)
  have len: "length (fs_messages s) = ?w" by (simp add: msgs newest_def min_def)
  have at: "fs_messages s ! j = \<lparr>pb_id = length hist - ?w + j + 1, pb_json = hist ! (length hist - ?w + j)\<rparr>" if "j < ?w" for j
  proof -
    have "length hist - ?w + j < length hist" using that by auto
    from nth_numbered [OF this, of 1] show ?thesis
      using that nth_newest [of j MESSAGE_WINDOW "numbered hist"] by (simp add: msgs)
  qed
  have start: "window_start s = length hist - ?w + 1"
  proof (cases "hist = []")
    case True
    then show ?thesis using nid by (simp add: window_start_def msgs numbered_from_def newest_def)
  next
    case False
    then have "?w \<noteq> 0" using w by (simp add: min_def)
    then have "fs_messages s \<noteq> []" using len by (metis list.size(3))
    then show ?thesis using at [of 0] False w by (cases "fs_messages s") (auto simp: window_start_def)
  qed
  have lid: "feed_last_id s = length hist" by (rule feed_last_id_ok [OF ok])
  show ?thesis
  proof (cases "length hist - ?w < i \<and> i \<le> length hist")
    case True
    then have "window_index s i = Some (i - (length hist - ?w + 1))" by (simp add: window_index_def start lid)
    moreover have "i - (length hist - ?w + 1) < ?w" using True by auto
    ultimately show ?thesis using True at [of "i - (length hist - ?w + 1)"] len
      by (auto simp: stored_json_def)
  next
    case False
    then have out: "window_index s i = None" by (auto simp: window_index_def start lid)
    show ?thesis
    proof (cases "fs_storage s")
      case (Memory t)
      then show ?thesis using False out by (auto simp: stored_json_def min_def split: if_splits)
    next
      case (Disk db n)
      then have db: "fd_messages db = rows_of (fe_sha fe) 1 EMPTY_CHAIN hist"
        using ok by (simp add: feed_ok_def storage_ok_def file_ok_def)
      have "map_of (rows_of (fe_sha fe) 1 EMPTY_CHAIN hist) i =
          (if 0 < i \<and> i \<le> length hist then Some (hist ! (i - 1), Some (chain_of (fe_sha fe) (take i hist))) else None)"
        by (rule map_of_rows)
      then show ?thesis using out Disk db by (simp add: stored_json_def)
    qed
  qed
qed

end
