(* ===== verification/Feed_Marks.thy ===== *)
theory Feed_Marks
  imports Feed_Drain
begin

section \<open>The marks of a pass\<close>

text \<open>
  What \<open>sequence_drained\<close> hands back: the log with the batch at its end, and for each pair it can
  show, a signed mark with the stored bytes, the head of the whole log and the path to it.
\<close>

subsection \<open>Paths\<close>

lemma tree_path_length:
  assumes "length ls \<le> 2 ^ d" and "length ls \<le> 2 ^ 64"
  shows "length (tree_path sha m ls) \<le> d"
  using assms
proof (induction d arbitrary: m ls)
  case 0
  then show ?case by (simp add: tree_path.simps)
next
  case (Suc d)
  show ?case
  proof (cases "length ls < 2")
    case True
    then show ?thesis by (simp add: tree_path.simps)
  next
    case False
    then obtain j where j: "split_point (length ls) = 2 ^ j" "2 ^ j < length ls" "length ls \<le> 2 * 2 ^ j"
      using split_point_spec [of "length ls"] Suc.prems(2) by (auto simp: not_less)
    have "(2 :: nat) ^ j < 2 ^ Suc d" using j(2) Suc.prems(1) by linarith
    then have "j < Suc d" by (rule power_less_imp_less_exp [rotated]) simp
    then have "j \<le> d" by simp
    then have k: "(2 :: nat) ^ j \<le> 2 ^ d" by (simp add: power_increasing)
    have "length (take (2 ^ j) ls) \<le> 2 ^ d" "length (drop (2 ^ j) ls) \<le> 2 ^ d" using k j(2,3) unfolding length_take length_drop by linarith+
    then have "length (tree_path sha m (take (2 ^ j) ls)) \<le> d" "length (tree_path sha (m - 2 ^ j) (drop (2 ^ j) ls)) \<le> d"
      using Suc.prems(2) by (intro Suc.IH; simp)+
    then show ?thesis using False by (subst tree_path.simps) (simp add: j(1) Let_def)
  qed
qed

lemma tree_path_hashes:
  assumes "\<forall>x. length (sha x) = HASH_SIZE" and "hashes ls"
  shows "hashes (tree_path sha m ls)"
  using assms
proof (induction sha m ls rule: tree_path.induct)
  case (1 sha m ls)
  show ?case
  proof (cases "length ls < 2")
    case True
    then show ?thesis by (simp add: tree_path.simps hashes_def)
  next
    case False
    have h: "hashes (take k ls)" "hashes (drop k ls)" for k
      using "1.prems"(2) by (auto simp: hashes_def list_all_iff dest: in_set_takeD in_set_dropD)
    have "length (tree_hash sha (take k ls)) = HASH_SIZE" "length (tree_hash sha (drop k ls)) = HASH_SIZE" for k
      using tree_hash_length [OF "1.prems"(1)] h by blast+
    then show ?thesis
      using False "1.IH" "1.prems"(1) h
      by (subst tree_path.simps) (auto simp: hashes_def Let_def)
  qed
qed

lemma hex_path:
  "hashes path \<Longrightarrow> those (map (from_hex HASH_SIZE) (map to_hex path)) = Some path"
  by (induction path) (simp_all add: hashes_def from_hex_to_hex)

subsection \<open>One mark\<close>

text \<open>What the mark of an entry says, over the log: the entry, its message's bytes, the signed
  head of the whole log, and the message's path in it.\<close>

definition mark_of :: "feed_env \<Rightarrow> feed_state \<Rightarrow> bytes list \<Rightarrow> nat \<Rightarrow> string \<Rightarrow> nat \<Rightarrow> nat \<Rightarrow> mark_request" where
  "mark_of fe s hist timestamp epoch i feed_id =
     signed_mark (fe_sha fe) (fe_sign fe) (fs_key s) epoch i feed_id (hist ! (feed_id - 1))
       \<lparr>th_session = fs_session s, th_timestamp = timestamp, th_tree_size = length hist,
        th_root_hash = to_hex (log_hash (fe_sha fe) hist),
        th_signature = to_hex (sign_tree_head (fe_sign fe) (fs_key s) (fs_session s) timestamp (length hist)
          (log_hash (fe_sha fe) hist))\<rparr>
       (map to_hex (tree_path (fe_sha fe) (feed_id - 1) (map (leaf_hash (fe_sha fe)) hist)))"

lemma feed_path_ok:
  assumes "feed_ok fe s hist" and "\<forall>x. length (fe_sha fe x) = HASH_SIZE" and "i < n" and "n \<le> length hist"
  shows "feed_inclusion_proof fe s i n = Inr (map to_hex (tree_path (fe_sha fe) i (map (leaf_hash (fe_sha fe)) (take n hist))))"
  using node_source.path_of_ok [OF feed_source [OF assms(1,2)] assms(3)] assms(4) feed_tree_size_ok [OF assms(1)]
  by (simp add: feed_inclusion_proof_def feed_tree_size_def take_map)

lemma drained_mark_ok:
  assumes ok: "feed_ok fe s hist" and sha: "\<forall>x. length (fe_sha fe x) = HASH_SIZE"
    and head: "tree_head_ok fe s hist head" "sth_tree_size head = length hist"
    and inside: "fresh \<and> \<not> sequenced \<or> 0 < feed_id \<and> feed_id \<le> length hist"
  shows "drained_mark fe s epoch head sequenced (i, feed_id, fresh) =
    (if fresh \<and> \<not> sequenced \<or> in_memory (fs_storage s) \<and> feed_id + MESSAGE_WINDOW \<le> length hist then None
     else Some (i, fresh, mark_of fe s hist (sth_timestamp head) epoch i feed_id))"
proof (cases "fresh \<and> \<not> sequenced")
  case True
  then show ?thesis by (simp add: drained_mark_def)
next
  case False
  then have id: "0 < feed_id" "feed_id \<le> length hist" using inside by blast+
  have path: "feed_inclusion_proof fe s (feed_id - 1) (length hist) =
      Inr (map to_hex (tree_path (fe_sha fe) (feed_id - 1) (map (leaf_hash (fe_sha fe)) hist)))"
    using feed_path_ok [OF ok sha, of "feed_id - 1" "length hist"] id by simp
  have root: "sth_root_hash head = to_hex (log_hash (fe_sha fe) hist)" "sth_session head = fs_session s"
    "sth_signature head = to_hex (sign_tree_head (fe_sign fe) (fs_key s) (fs_session s) (sth_timestamp head)
      (length hist) (log_hash (fe_sha fe) hist))"
    using head by (simp_all add: tree_head_ok_def)
  show ?thesis using id False path
    by (auto simp: drained_mark_def stored_json_ok [OF ok] root head(2) mark_of_def not_le)
qed

subsection \<open>A whole pass\<close>

lemma pair_rows_keep:
  assumes "distinct (batch_keys batch)" and "\<forall>x \<in> set (batch_keys batch). map_of m x = None"
  shows "map_of m \<subseteq>\<^sub>m map_of (pair_rows m batch k)"
  using assms
proof (induction m batch k rule: pair_rows.induct)
  case (2 m key msg batch k)
  let ?m = "case key of None \<Rightarrow> m | Some x \<Rightarrow> bput m x k"
  have "map_of ?m \<subseteq>\<^sub>m map_of (pair_rows ?m batch (k + 1))"
    by (rule "2.IH") (use "2.prems" in \<open>auto split: option.splits\<close>)
  moreover have "map_of m \<subseteq>\<^sub>m map_of ?m"
    using "2.prems"(2) by (auto simp: map_le_def split: option.splits)
  ultimately show ?case using map_le_trans by (auto simp del: fun_upd_apply)
qed simp

lemma all_nonces:
  assumes "length (batch_nonces batch) = length batch" and "e \<in> set batch"
  shows "nonce_fine (snd e)"
proof -
  have short: "length (batch_nonces b) \<le> length b" for b by (induction b) (auto split: option.splits)
  show ?thesis
    using assms
  proof (induction batch)
    case (Cons x batch)
    then show ?case using short [of batch] by (auto simp: nonce_fine_def split: option.splits)
  qed simp
qed

lemma pass_published:
  assumes pass: "pass_ok fe epoch hist sent p" and serde: "serde_ok fe" and sha: "\<forall>x. length (fe_sha fe x) = HASH_SIZE"
    and room: "length hist + length (dp_batch p) \<le> 2 ^ 63"
  shows "\<exists>r s1 js. sequence fe commits (dp_state p) (dp_batch p) = Some (r, s1) \<and> feed_ok fe s1 (hist @ js) \<and>
    feed_still (dp_state p) s1 \<and> js = (if r = Inr () then map (fe_to_vec fe \<circ> snd) (dp_batch p) else [])"
proof (cases "dp_batch p = []")
  case True
  then have nid: "fs_next_id (dp_state p) = Suc (length hist)" and ok: "feed_ok fe (dp_state p\<lparr>fs_next_id := Suc (length hist)\<rparr>) hist"
    using pass by (simp_all add: pass_ok_def Let_def)
  have same: "dp_state p\<lparr>fs_next_id := Suc (length hist)\<rparr> = dp_state p" using nid by simp
  show ?thesis using True ok unfolding same by (simp add: sequence_def)
next
  case False
  let ?s = "dp_state p" and ?batch = "dp_batch p" and ?k = "length hist + 1"
  have p: "feed_ok fe (?s\<lparr>fs_next_id := ?k\<rparr>) hist" "numbered_batch ?k ?batch" "fs_next_id ?s = ?k + length ?batch"
    "distinct (batch_keys ?batch)" "\<forall>x \<in> set (batch_keys ?batch). map_of (fs_inbox_sequenced ?s) x = None"
    using pass by (simp_all add: pass_ok_def Let_def)
  note seq = sequence_ok [where fe = fe and s = ?s and hist = hist and batch = ?batch and commits = commits,
      OF p(1) serde sha p(2) False p(3) room pass_batch_ok [OF pass False]]
  show ?thesis
  proof (cases "\<not> commits \<and> \<not> in_memory (fs_storage ?s)")
    case True
    then show ?thesis using seq p(1) by simp
  next
    case False
    then obtain s' where s': "sequence fe commits ?s ?batch = Some (Inr (), s')" "feed_ok fe s' (hist @ map (fe_to_vec fe \<circ> snd) ?batch)"
      "feed_kept ?s s'" "fs_inbox_sequenced s' = pair_rows (fs_inbox_sequenced ?s) ?batch ?k"
      using seq by auto
    have "feed_still ?s s'" by (rule kept_still [OF s'(3)]) (use s'(4) pair_rows_keep [OF p(4,5)] in simp)
    then show ?thesis using s'(1,2) by simp
  qed
qed

definition mark_sound ::
  "feed_env \<Rightarrow> feed_state \<Rightarrow> bytes list \<Rightarrow> string \<Rightarrow> (nat \<times> signed_submission) list \<Rightarrow> pending_mark \<Rightarrow> bool" where
  "mark_sound fe s hist epoch due m \<longleftrightarrow>
     (case m of (i, fresh, mq) \<Rightarrow>
        \<exists>feed_id t. 0 < feed_id \<and> feed_id \<le> length hist \<and> mq = mark_of fe s hist t epoch i feed_id \<and>
          (fresh \<longrightarrow> (\<exists>msg. msg_id msg = feed_id \<and> hist ! (feed_id - 1) = fe_to_vec fe msg \<and>
             (\<exists>sub \<in> sent_in due i. message_matches (fe_to_vec fe) sub msg))))"

lemma pair_in_log:
  assumes pass: "pass_ok fe epoch hist sent p" and "pair \<in> set (dp_pairs p)" and pair: "pair = (i, feed_id, fresh)"
    and js: "fresh \<longrightarrow> js = map (fe_to_vec fe \<circ> snd) (dp_batch p)"
  shows "0 < feed_id \<and> feed_id \<le> length (hist @ js) \<and>
    (fresh \<longrightarrow> (\<exists>msg. msg_id msg = feed_id \<and> (hist @ js) ! (feed_id - 1) = fe_to_vec fe msg \<and>
      (\<exists>sub \<in> sent i. message_matches (fe_to_vec fe) sub msg)))"
proof -
  have ok: "pair_ok fe hist sent (dp_batch p) (i, feed_id, fresh)" and nb: "numbered_batch (length hist + 1) (dp_batch p)"
    using assms(1,2) pair by (simp_all add: pass_ok_def Let_def)
  show ?thesis
  proof (cases fresh)
    case True
    then obtain key msg sub where m: "(key, msg) \<in> set (dp_batch p)" "msg_id msg = feed_id" "sub \<in> sent i"
      "message_matches (fe_to_vec fe) sub msg"
      using ok by (auto simp: pair_ok_def)
    then obtain j where j: "j < length (dp_batch p)" "dp_batch p ! j = (key, msg)" by (auto simp: in_set_conv_nth)
    have "map (msg_id \<circ> snd) (dp_batch p) ! j = [length hist + 1 ..< length hist + 1 + length (dp_batch p)] ! j"
      using nb by (simp add: numbered_batch_def)
    then have "feed_id = length hist + 1 + j" using j m(2) by (simp del: upt_Suc)
    moreover have "js ! j = fe_to_vec fe msg" "length js = length (dp_batch p)" using js True j by simp_all
    ultimately show ?thesis using j(1) m(2-4) by (auto simp: nth_append)
  next
    case False
    then show ?thesis using ok by (auto simp: pair_ok_def)
  qed
qed

lemma sequence_drained_ok:
  assumes ok: "feed_ok fe s hist" and serde: "serde_ok fe" and sha: "\<forall>x. length (fe_sha fe x) = HASH_SIZE"
    and once: "distinct (map fst due)" and room: "length hist + length due \<le> 2 ^ 63"
  shows "\<exists>marks refused s' js. sequence_drained fe pins commits clock now s epoch due = Some ((marks, refused), s') \<and>
    feed_ok fe s' (hist @ js) \<and> feed_still s s' \<and> length js \<le> length due \<and> entries_ok fe (length hist + 1) js \<and>
    (\<forall>m \<in> set marks. mark_sound fe s' (hist @ js) epoch due m)"
proof -
  define p where "p = fold (drain_entry fe pins clock epoch) due \<lparr>dp_state = s, dp_batch = [], dp_pairs = [], dp_refused = [], dp_nonces = []\<rparr>"
  have pass: "pass_ok fe epoch hist (sent_in due) p" "feed_still s (dp_state p)"
    using drain_fold_ok [OF pass_start [OF ok] once] by (simp_all add: p_def)
  have size: "length (dp_batch p) \<le> length due"
    using pass_batch_size [OF pass(1), of "map fst due"] by (force simp: sent_in_def)
  obtain r s1 js where seq: "sequence fe commits (dp_state p) (dp_batch p) = Some (r, s1)" and s1: "feed_ok fe s1 (hist @ js)"
    "feed_still (dp_state p) s1" and js: "js = (if r = Inr () then map (fe_to_vec fe \<circ> snd) (dp_batch p) else [])"
    using pass_published [OF pass(1) serde sha] size room by fastforce
  have still: "feed_still s s1" using pass(2) s1(2) by (rule feed_still_trans)
  have "entries_ok fe (length hist + 1) (map (fe_to_vec fe \<circ> snd) (dp_batch p))"
    using pass(1) all_nonces by (intro batch_entries_ok) (auto simp: pass_ok_def Let_def)
  then have ljs: "length js \<le> length due" "entries_ok fe (length hist + 1) js" using js size by simp_all
  show ?thesis
  proof (cases "dp_pairs p = []")
    case True
    then have "sequence_drained fe pins commits clock now s epoch due = Some (([], dp_refused p), s1)"
      using seq by (simp add: sequence_drained_def p_def [symmetric] Let_def)
    then show ?thesis using s1(1) still ljs by (metis empty_iff list.set(1))
  next
    case False
    obtain head s2 where head: "feed_tree_head fe s1 now = (Inr head, s2)" and s2: "feed_ok fe s2 (hist @ js)" "feed_still s1 s2"
      "tree_head_ok fe s2 (hist @ js) head" "sth_tree_size head = length (hist @ js)"
      using feed_tree_head_ok [OF s1(1) sha] by blast
    define marks where "marks = List.map_filter (drained_mark fe s2 epoch head (r = Inr ())) (dp_pairs p)"
    have out: "sequence_drained fe pins commits clock now s epoch due = Some ((marks, dp_refused p), s2)"
      using seq False head by (simp add: sequence_drained_def p_def [symmetric] Let_def marks_def)
    have sound: "mark_sound fe s2 (hist @ js) epoch due m" if m: "m \<in> set marks" for m
    proof -
      obtain pair where pair: "pair \<in> set (dp_pairs p)" "drained_mark fe s2 epoch head (r = Inr ()) pair = Some m"
        using m by (auto simp: marks_def map_filter_def)
      obtain i feed_id fresh where e: "pair = (i, feed_id, fresh)" by (cases pair)
      show ?thesis
      proof (cases "fresh \<and> r \<noteq> Inr ()")
        case True
        then show ?thesis using pair(2) by (simp add: e drained_mark_def)
      next
        case False
        then have "fresh \<longrightarrow> js = map (fe_to_vec fe \<circ> snd) (dp_batch p)" using js by simp
        note lg = pair_in_log [OF pass(1) pair(1) e this]
        have "m = (i, fresh, mark_of fe s2 (hist @ js) (sth_timestamp head) epoch i feed_id)"
          using pair(2) drained_mark_ok [OF s2(1) sha s2(3,4), of fresh "r = Inr ()" feed_id epoch i] lg False
          by (auto simp: e split: if_splits)
        then show ?thesis using lg unfolding mark_sound_def by blast
      qed
    qed
    show ?thesis using out s2(1) feed_still_trans [OF still s2(2)] ljs sound by blast
  qed
qed

end
