(* ===== verification/Feed_Inbox.thy ===== *)
theory Feed_Inbox
  imports Feed_Marks Inbox_Invariant
begin

section \<open>The sequencer and the inbox together\<close>

text \<open>
  The drain reads the inbox's pending page, and sends its marks back. With one hash, one
  signature scheme and one serde on both sides, the marks of \<open>sequence_drained\<close> pass every
  question of \<open>judge_mark\<close>. What is asked of the world: a signature made with a key verifies under
  it and is 64 bytes long, and bytes that read back as a message were written from it.
\<close>

definition world_of :: "feed_env \<Rightarrow> inbox_world" where
  "world_of fe = \<lparr>iw_sha = fe_sha fe, iw_point = fe_point fe, iw_strict = fe_strict fe, iw_envelope = fe_envelope fe,
     iw_parse = fe_parse fe, iw_to_vec = fe_to_vec fe\<rparr>"

definition reads_back :: "feed_env \<Rightarrow> bool" where
  "reads_back fe \<longleftrightarrow> (\<forall>m m'. fe_parse fe (fe_to_vec fe m) = Some m' \<longrightarrow> m' = m)"

lemma grid_form_who: "grid_form m = Some m' \<Longrightarrow> msg_account m' = msg_account m \<and> msg_nonce m' = msg_nonce m \<and> msg_id m' = msg_id m"
  by (auto simp: grid_form_def bind_eq_Some_conv split: order_message.splits)

lemma same_bytes_who:
  assumes "serde_ok fe" and "fe_to_vec fe a = fe_to_vec fe b"
  shows "msg_account a = msg_account b \<and> msg_nonce a = msg_nonce b"
proof -
  obtain ea where "fe_envelope fe (fe_to_vec fe a) = Some ea" "me_account ea = Some (msg_account a)" "me_nonce ea = msg_nonce a"
    using assms(1) unfolding serde_ok_def by blast
  moreover obtain eb where "fe_envelope fe (fe_to_vec fe b) = Some eb" "me_account eb = Some (msg_account b)" "me_nonce eb = msg_nonce b"
    using assms(1) unfolding serde_ok_def by blast
  ultimately show ?thesis using assms(2) by simp
qed

lemma matches_who:
  assumes "serde_ok fe" and "message_matches (fe_to_vec fe) sub msg"
  shows "msg_account msg = account_of sub \<and> msg_nonce msg = nonce_of sub"
proof -
  obtain t a b where "grid_form (message_from (msg_id msg) t sub) = Some a" "grid_form msg = Some b" "fe_to_vec fe a = fe_to_vec fe b"
    using assms(2) by (auto simp: message_matches_def Let_def split: order_message.splits option.splits)
  with grid_form_who [of _ a] grid_form_who [of msg b] same_bytes_who [OF assms(1), of a b] show ?thesis by auto
qed

lemma log_hash_length:
  assumes "\<forall>x. length (sha x) = HASH_SIZE"
  shows "length (log_hash sha es) = HASH_SIZE"
  unfolding log_hash_def by (rule tree_hash_length [OF assms hashes_leaves [OF assms]])

lemma mark_verifies:
  assumes "signing_ok fe (fs_key s)"
  shows "verify_mark (fe_sha fe) (fe_strict fe) (fe_public fe (fs_key s)) (mark_of fe s hist t epoch i feed_id)"
  using assms by (simp add: verify_mark_def mark_of_def signed_mark_def signing_ok_def from_hex_to_hex)

lemma mark_included:
  assumes sign: "signing_ok fe (fs_key s)" and sha: "\<forall>x. length (fe_sha fe x) = HASH_SIZE"
    and id: "0 < feed_id" "feed_id \<le> length hist" and fits: "length hist \<le> 2 ^ 63"
  shows "mark_inclusion (fe_sha fe) (fe_strict fe) (fe_public fe (fs_key s)) (mark_of fe s hist t epoch i feed_id) = Inr ()"
proof -
  let ?sha = "fe_sha fe" and ?ls = "map (leaf_hash (fe_sha fe)) hist"
  let ?path = "tree_path ?sha (feed_id - 1) ?ls"
  have h: "hashes ?ls" by (rule hashes_leaves [OF sha])
  have len: "length ?ls \<le> 2 ^ 64" using fits by simp
  have "length ?path \<le> 64" by (rule tree_path_length) (use len in simp_all)
  moreover have "those (map (from_hex HASH_SIZE) (map to_hex ?path)) = Some ?path"
    by (rule hex_path [OF tree_path_hashes [OF sha h]])
  moreover have "climb ?sha (feed_id - 1) (length hist - 1) (?ls ! (feed_id - 1)) ?path = Some (tree_hash ?sha ?ls)"
    by (rule climb_complete) (use id len in auto)
  then have "verify_entry_inclusion ?sha (feed_id - 1) (length hist) (hist ! (feed_id - 1)) ?path (log_hash ?sha hist)"
    using id verify_inclusion_climb [of "feed_id - 1" "length hist" ?sha "?ls ! (feed_id - 1)" ?path "tree_hash ?sha ?ls"]
    by (simp add: verify_entry_inclusion_def log_hash_def)
  moreover have "from_hex HASH_SIZE (to_hex (log_hash ?sha hist)) = Some (log_hash ?sha hist)"
    by (rule from_hex_to_hex [OF log_hash_length [OF sha]])
  ultimately show ?thesis
    using sign id by (simp add: mark_inclusion_def mark_of_def signed_mark_def Let_def signing_ok_def from_hex_to_hex
        verify_tree_head_def sign_tree_head_def MAX_INCLUSION_PATH_def)
qed

text \<open>The mark of an entry whose message is in the log closes it.\<close>

lemma mark_closes:
  fixes s :: feed_state and t now :: nat
  assumes sign: "signing_ok fe (fs_key s)" and sha: "\<forall>x. length (fe_sha fe x) = HASH_SIZE" and serde: "serde_ok fe" "reads_back fe"
    and id: "0 < feed_id" "feed_id \<le> length hist" and fits: "length hist \<le> 2 ^ 63"
    and msg: "msg_id msg = feed_id" "hist ! (feed_id - 1) = fe_to_vec fe msg"
      "message_matches (fe_to_vec fe) (ss_submission (ir_signed row)) msg"
    and key: "ib_feed_key ib = Some (fe_public fe (fs_key s))"
    and row: "find (\<lambda>row. ir_id row = i) (ib_rows ib) = Some row" "is_pending row"
  defines "mq \<equiv> mark_of fe s hist t (ib_epoch ib) i feed_id"
  defines "row' \<equiv> row\<lparr>ir_feed_id := Some feed_id, ir_sequenced_at := Some now, ir_feed_message := Some (fe_to_vec fe msg),
      ir_content_checked := Some (fe_parse fe (fe_to_vec fe msg) \<noteq> None)\<rparr>"
  shows "mark (fe_sha fe) (fe_point fe) (fe_strict fe) (fe_envelope fe) (fe_parse fe) (fe_to_vec fe) ib served now mq =
    (Inr row', ib\<lparr>ib_rows := map (\<lambda>r. if ir_id r = i then row' else r) (ib_rows ib)\<rparr>)"
proof -
  let ?sub = "ss_submission (ir_signed row)" and ?key = "fe_public fe (fs_key s)"
  obtain env where env: "fe_envelope fe (fe_to_vec fe msg) = Some env" "me_id env = feed_id"
    "me_account env = Some (msg_account msg)" "me_nonce env = msg_nonce msg"
    using serde(1) msg(1) unfolding serde_ok_def by blast
  have who: "msg_account msg = account_of ?sub" "msg_nonce msg = nonce_of ?sub" using matches_who [OF serde(1) msg(3)] by simp_all
  have mq: "mq_inbox_epoch mq = ib_epoch ib" "mq_inbox_id mq = i" "mq_feed_id mq = feed_id" "mq_message mq = fe_to_vec fe msg"
    using msg(2) by (simp_all add: mq_def mark_of_def signed_mark_def)
  have inc: "mark_inclusion (fe_sha fe) (fe_strict fe) ?key mq = Inr ()"
    unfolding mq_def by (rule mark_included [OF sign sha id fits])
  have parse: "m' = msg" if "fe_parse fe (fe_to_vec fe msg) = Some m'" for m' using that serde(2) by (simp add: reads_back_def)
  have pend: "ir_feed_id row = None" using row(2) by (simp add: is_pending_def)
  have judge: "judge_mark (fe_sha fe) (fe_strict fe) (fe_envelope fe) (fe_parse fe) (fe_to_vec fe) ib ?key mq =
      Inr (row, if fe_parse fe (fe_to_vec fe msg) \<noteq> None then Confirmed else ContentNotChecked)"
    using row(1) msg(3) parse
    by (cases "fe_parse fe (fe_to_vec fe msg)") (simp_all add: judge_mark_def mq inc env who pend Let_def)
  have "verify_mark (fe_sha fe) (fe_strict fe) ?key mq" unfolding mq_def by (rule mark_verifies [OF sign])
  then show ?thesis
    by (simp add: mark_def feed_key_def key mark_entry_def judge pend mq Let_def row'_def content_checked_def)
qed

end
