(* ===== verification/Feed_Restart.thy ===== *)
theory Feed_Restart
  imports Feed
begin

section \<open>Opening feed.db again (services/src/feed.rs, feed/tree.rs)\<close>

text \<open>
  \<open>with_db\<close>: one pass over the stored messages, the verdict on the signed checkpoint, the tree
  kept, built on or built again, and the state that follows. The name of a new session is an
  argument, as the random bytes behind it are; the generator's prices and open orders are left
  out, and so are the reports. The result comes with the file, which a rebuild changes. \<open>None\<close>
  is a panic.
\<close>

datatype restart_error =
  RestartLimits feed_error | TooManyAccounts nat | TooManyPairings nat | IdGap nat nat | NotAMessage nat
| OtherIdInside nat nat | NonceNotKeyed nat | TooManyNonces | NonceTwice nat nat | NoCheckpoint nat | NoSession
| CheckpointUnreadable | CheckpointChainText | CheckpointSignatureText | NotSignedHere | OtherHistory nat nat
| RootText | RootSignatureText | RootNotSigned | RootHalf | BadLink nat | RebuildGap nat | RebuildNodes unreadable
| RebuildMoved | RebuildNotWritten | TreeUnreadable unreadable | OtherRoot hash hash | PinNotKey account_id

subsection \<open>The pass over the messages\<close>

record restart_pass =
  rp_messages :: "published list"
  rp_chains :: "bytes list"
  rp_nonces :: "(nonce_key, nat) bmap"
  rp_chain :: bytes
  rp_chain_at_stored :: bytes
  rp_first_bad_link :: "nat option"
  rp_count :: nat

text \<open>The nonce a row spends.\<close>

definition row_nonce ::
  "retention_limits \<Rightarrow> message_envelope \<Rightarrow> nat \<Rightarrow> (nonce_key, nat) bmap \<Rightarrow> restart_error + (nonce_key, nat) bmap" where
  "row_nonce limits env i nonces =
     (case me_nonce env of
        None \<Rightarrow> Inr nonces
      | Some text \<Rightarrow>
          (case (me_account env, canonical_nonce text) of
             (Some account, Some nonce) \<Rightarrow>
               (case map_of nonces (account, nonce) of
                  Some first \<Rightarrow> Inl (NonceTwice first i)
                | None \<Rightarrow>
                    if max_nonces limits \<le> length nonces then Inl TooManyNonces
                    else Inr (bput nonces (account, nonce) i))
           | _ \<Rightarrow> Inl (NonceNotKeyed i)))"

definition read_row ::
  "feed_env \<Rightarrow> retention_limits \<Rightarrow> nat \<Rightarrow> nat \<times> bytes \<times> bytes option \<Rightarrow> restart_pass \<Rightarrow> restart_error + restart_pass" where
  "read_row fe limits have_leaves row p =
     (case row of (i, json, stored) \<Rightarrow>
        let count = rp_count p + 1 in
        if i \<noteq> count then Inl (IdGap count i)
        else
          let chain = extend_bytes (fe_sha fe) (rp_chain p) json in
          case fe_envelope fe json of
            None \<Rightarrow> Inl (NotAMessage count)
          | Some env \<Rightarrow>
              if me_id env \<noteq> i then Inl (OtherIdInside i (me_id env))
              else
                res_bind (row_nonce limits env i (rp_nonces p)) (\<lambda>nonces.
                let full = length (rp_messages p) = MESSAGE_WINDOW in
                Inr \<lparr>rp_messages = (if full then tl (rp_messages p) else rp_messages p) @ [\<lparr>pb_id = i, pb_json = json\<rparr>],
                     rp_chains = (if full then tl (rp_chains p) else rp_chains p) @ [chain],
                     rp_nonces = nonces,
                     rp_chain = chain,
                     rp_chain_at_stored = (if count = have_leaves then chain else rp_chain_at_stored p),
                     rp_first_bad_link =
                       (if rp_first_bad_link p = None \<and> stored \<noteq> Some chain then Some i else rp_first_bad_link p),
                     rp_count = count\<rparr>))"

fun read_rows ::
  "feed_env \<Rightarrow> retention_limits \<Rightarrow> nat \<Rightarrow> (nat \<times> bytes \<times> bytes option) list \<Rightarrow> restart_pass \<Rightarrow> restart_error + restart_pass" where
  "read_rows fe limits have_leaves [] p = Inr p"
| "read_rows fe limits have_leaves (row # rows) p =
     res_bind (read_row fe limits have_leaves row p) (read_rows fe limits have_leaves rows)"

definition restart_begin :: restart_pass where
  "restart_begin = \<lparr>rp_messages = [], rp_chains = [], rp_nonces = [], rp_chain = EMPTY_CHAIN,
     rp_chain_at_stored = EMPTY_CHAIN, rp_first_bad_link = None, rp_count = 0\<rparr>"

subsection \<open>The session and the checkpoint\<close>

text \<open>The signed root, where the checkpoint has one.\<close>

definition root_half ::
  "feed_env \<Rightarrow> bytes \<Rightarrow> string \<Rightarrow> checkpoint \<Rightarrow> bytes \<Rightarrow> restart_error + hash option" where
  "root_half fe key session cp signed_chain =
     (case (ck_root cp, ck_root_signature cp) of
        (None, None) \<Rightarrow> Inr None
      | (Some root_hex, Some sig_hex) \<Rightarrow>
          res_bind (ok_or RootText (from_hex 32 root_hex)) (\<lambda>root_hash.
          res_bind (ok_or RootSignatureText (from_hex 64 sig_hex)) (\<lambda>signature.
          if verify_checkpoint (fe_strict fe) (fe_public fe key) session (ck_last_id cp) signed_chain root_hash signature
          then Inr (Some root_hash) else Inl RootNotSigned))
      | _ \<Rightarrow> Inl RootHalf)"

definition history_verdict ::
  "feed_env \<Rightarrow> bytes \<Rightarrow> string \<Rightarrow> feed_db \<Rightarrow> nat \<Rightarrow> bytes \<Rightarrow> restart_error + string \<times> hash option" where
  "history_verdict fe key new_session db count chain =
     (case fd_checkpoint db of
        None \<Rightarrow> if count = 0 then Inr (new_session, None) else Inl (NoCheckpoint count)
      | Some stored \<Rightarrow>
          res_bind (ok_or NoSession (fd_session db)) (\<lambda>session.
          case stored of
            NotACheckpoint \<Rightarrow> Inl CheckpointUnreadable
          | Written cp \<Rightarrow>
              res_bind (ok_or CheckpointChainText (from_hex 32 (ck_chain cp))) (\<lambda>signed_chain.
              res_bind (ok_or CheckpointSignatureText (from_hex 64 (ck_signature cp))) (\<lambda>signature.
              if \<not> verify_head (fe_strict fe) (fe_public fe key) session (ck_last_id cp) signed_chain signature
              then Inl NotSignedHere
              else if ck_last_id cp \<noteq> count \<or> signed_chain \<noteq> chain then Inl (OtherHistory (ck_last_id cp) count)
              else res_bind (root_half fe key session cp signed_chain) (\<lambda>signed_root. Inr (session, signed_root))))))"

subsection \<open>The tree\<close>

text \<open>The rows the rebuild adds, one message at a time from leaf \<open>n\<close> on.\<close>

fun rebuild_rows ::
  "(bytes \<Rightarrow> bytes) \<Rightarrow> node_table \<Rightarrow> nat \<Rightarrow> bytes \<Rightarrow> (nat \<times> bytes \<times> bytes option) list \<Rightarrow>
   restart_error store_fault + node_table \<times> nat \<times> bytes" where
  "rebuild_rows sha nodes n chain [] = Inr (nodes, n, chain)"
| "rebuild_rows sha nodes n chain ((i, json, _) # rows) =
     (if i \<noteq> n + 1 then Inl (StoreError (RebuildGap (n + 1)))
      else case append_rows sha nodes n [leaf_hash sha json] of
        Inl Panicked \<Rightarrow> Inl Panicked
      | Inl (StoreError e) \<Rightarrow> Inl (StoreError (RebuildNodes e))
      | Inr nodes' \<Rightarrow> rebuild_rows sha nodes' (n + 1) (extend_bytes sha chain json) rows)"

definition rebuild ::
  "(bytes \<Rightarrow> bytes) \<Rightarrow> bool \<Rightarrow> feed_db \<Rightarrow> nat \<Rightarrow> nat \<Rightarrow> bytes \<Rightarrow> bytes \<Rightarrow> restart_error store_fault + feed_db" where
  "rebuild sha commits db from until chain_from chain_upto =
     (case rebuild_rows sha (if from = 0 then [] else fd_nodes db) from chain_from
             (filter (\<lambda>(i, _). from < i) (fd_messages db)) of
        Inl e \<Rightarrow> Inl e
      | Inr (nodes, n, chain) \<Rightarrow>
          if n \<noteq> until \<or> chain \<noteq> chain_upto then Inl (StoreError RebuildMoved)
          else if \<not> commits then Inl (StoreError RebuildNotWritten)
          else Inr (db\<lparr>fd_nodes := nodes\<rparr>))"

definition restart_tree ::
  "feed_env \<Rightarrow> bool \<Rightarrow> feed_db \<Rightarrow> hash option \<Rightarrow> restart_pass \<Rightarrow> restart_error store_fault + feed_db" where
  "restart_tree fe commits db signed_root p =
     (let leaves = stored_leaves (fd_nodes db);
          keeps = signed_root \<noteq> None \<and> leaves \<le> rp_count p \<and> stored_nodes (fd_nodes db) = expected_nodes leaves;
          from = (if keeps then leaves else 0)
      in if from < rp_count p
         then rebuild (fe_sha fe) commits db from (rp_count p) (if keeps then rp_chain_at_stored p else EMPTY_CHAIN) (rp_chain p)
         else Inr db)"

text \<open>The root over the right edge, against the signed one.\<close>

definition check_root :: "feed_env \<Rightarrow> feed_db \<Rightarrow> nat \<Rightarrow> hash option \<Rightarrow> restart_error store_fault + unit" where
  "check_root fe db count signed_root =
     (case signed_root of
        None \<Rightarrow> Inr ()
      | Some wanted \<Rightarrow>
          (case nodes_root (fe_sha fe) (disk_node (fd_nodes db)) count count of
             Inl Panicked \<Rightarrow> Inl Panicked
           | Inl (StoreError e) \<Rightarrow> Inl (StoreError (TreeUnreadable e))
           | Inr built \<Rightarrow> require (built = wanted) (StoreError (OtherRoot built wanted))))"

subsection \<open>The state\<close>

fun read_pins :: "feed_env \<Rightarrow> (account_id \<times> string) list \<Rightarrow> (account_id, bytes) bmap \<Rightarrow> restart_error + (account_id, bytes) bmap" where
  "read_pins fe [] accounts = Inr accounts"
| "read_pins fe ((account, hex) # pins) accounts =
     (case from_hex 32 hex of
        Some key \<Rightarrow> if fe_point fe key then read_pins fe pins (bput accounts account key) else Inl (PinNotKey account)
      | None \<Rightarrow> Inl (PinNotKey account))"

definition restart_state ::
  "bytes \<Rightarrow> retention_limits \<Rightarrow> string \<Rightarrow> restart_pass \<Rightarrow> (account_id, bytes) bmap \<Rightarrow> feed_db \<Rightarrow> feed_state" where
  "restart_state key limits session p accounts db =
     (feed_new key session)\<lparr>fs_limits := limits, fs_chain := rp_chain p, fs_chains := rp_chains p,
        fs_messages := rp_messages p, fs_nonces := rp_nonces p, fs_next_id := rp_count p + 1,
        fs_accounts := accounts, fs_inbox_sequenced := fd_pairings db, fs_storage := Disk db (rp_count p)\<rparr>"

definition with_db ::
  "feed_env \<Rightarrow> bytes \<Rightarrow> retention_limits \<Rightarrow> string \<Rightarrow> bool \<Rightarrow> feed_db \<Rightarrow> ((restart_error + feed_state) \<times> feed_db) option" where
  "with_db fe key limits new_session commits db =
     (case res_bind (map_err RestartLimits (retention_validate limits)) (\<lambda>_.
           if max_accounts limits < length (fd_accounts db) then Inl (TooManyAccounts (length (fd_accounts db)))
           else if max_inbox_records limits < length (fd_pairings db) then Inl (TooManyPairings (length (fd_pairings db)))
           else res_bind (read_rows fe limits (stored_leaves (fd_nodes db)) (fd_messages db) restart_begin) (\<lambda>p.
             res_bind (history_verdict fe key new_session db (rp_count p) (rp_chain p)) (\<lambda>(session, signed_root).
             case rp_first_bad_link p of
               Some i \<Rightarrow> Inl (BadLink i)
             | None \<Rightarrow> Inr (p, session, signed_root)))) of
        Inl e \<Rightarrow> Some (Inl e, db)
      | Inr (p, session, signed_root) \<Rightarrow>
          (case restart_tree fe commits db signed_root p of
             Inl Panicked \<Rightarrow> None
           | Inl (StoreError e) \<Rightarrow> Some (Inl e, db)
           | Inr db1 \<Rightarrow>
               (case check_root fe db1 (rp_count p) signed_root of
                  Inl Panicked \<Rightarrow> None
                | Inl (StoreError e) \<Rightarrow> Some (Inl e, db1)
                | Inr _ \<Rightarrow>
                    (case read_pins fe (fd_accounts db1) [] of
                       Inl e \<Rightarrow> Some (Inl e, db1)
                     | Inr accounts \<Rightarrow> Some (Inr (restart_state key limits session p accounts db1), db1)))))"

definition empty_feed_db :: feed_db where
  "empty_feed_db = \<lparr>fd_messages = [], fd_pairings = [], fd_accounts = [], fd_nodes = [], fd_session = None, fd_checkpoint = None\<rparr>"

end
