(* ===== verification/Feed_Recovery.thy ===== *)
theory Feed_Recovery
  imports Feed_Run Feed_Restart
begin

section \<open>What a restart of the sequencer makes of its file\<close>

text \<open>
  The pass over the rows is characterised once, by the log it has read, and used in both
  directions: a file the sequencer wrote opens to the state it was written from, and a file that
  opens holds a history the sequencer's key has signed.
\<close>

subsection \<open>The nonces of a log\<close>

definition log_nonces :: "feed_env \<Rightarrow> bytes list \<Rightarrow> nonce_key list" where
  "log_nonces fe hist = List.map_filter (entry_nonce fe) hist"

lemma log_nonces_simps [simp]: "log_nonces fe [] = []"
  "log_nonces fe (xs @ [x]) = log_nonces fe xs @ (case entry_nonce fe x of None \<Rightarrow> [] | Some n \<Rightarrow> [n])"
  by (auto simp: log_nonces_def List.map_filter_def split: option.split)

lemma log_nonces_append: "log_nonces fe (xs @ ys) = log_nonces fe xs @ log_nonces fe ys"
  by (simp add: log_nonces_def List.map_filter_def)

lemma set_log_nonces: "x \<in> set (log_nonces fe hist) \<longleftrightarrow> (\<exists>i. 0 < i \<and> i \<le> length hist \<and> entry_nonce fe (hist ! (i - 1)) = Some x)"
proof -
  have "x \<in> set (log_nonces fe hist) \<longleftrightarrow> (\<exists>j < length hist. entry_nonce fe (hist ! j) = Some x)"
    by (force simp: log_nonces_def List.map_filter_def in_set_conv_nth image_iff)
  also have "\<dots> \<longleftrightarrow> (\<exists>i. 0 < i \<and> i \<le> length hist \<and> entry_nonce fe (hist ! (i - 1)) = Some x)"
    by (metis Suc_le_eq Suc_pred diff_Suc_1 zero_less_Suc)
  finally show ?thesis .
qed

lemma nonces_okD:
  "nonces_ok fe m hist \<Longrightarrow> map_of m x = Some i \<longleftrightarrow> 0 < i \<and> i \<le> length hist \<and> entry_nonce fe (hist ! (i - 1)) = Some x"
  unfolding nonces_ok_def by blast

lemma nonces_dom: "nonces_ok fe m hist \<Longrightarrow> dom (map_of m) = set (log_nonces fe hist)"
  unfolding nonces_ok_def by (auto simp: set_log_nonces)

text \<open>A map with these nonces and no repetition is the sequencer's map.\<close>

lemma nonces_distinct:
  assumes "nonces_ok fe m hist"
  shows "distinct (log_nonces fe hist)"
proof -
  have once: "i = j" if "i < length hist" "j < length hist" "entry_nonce fe (hist ! i) = Some x" "entry_nonce fe (hist ! j) = Some x" for i j x
  proof -
    have "map_of m x = Some (i + 1)" "map_of m x = Some (j + 1)" using nonces_okD [OF assms] that by simp_all
    then show ?thesis by simp
  qed
  have "distinct (log_nonces fe xs)"
    if "\<And>i j x. i < length xs \<Longrightarrow> j < length xs \<Longrightarrow> entry_nonce fe (xs ! i) = Some x \<Longrightarrow> entry_nonce fe (xs ! j) = Some x \<Longrightarrow> i = j" for xs
    using that
  proof (induction xs rule: rev_induct)
    case (snoc y ys)
    have "distinct (log_nonces fe ys)"
      by (rule snoc.IH) (use snoc.prems in \<open>auto simp: nth_append less_Suc_eq split: if_splits\<close>)
    moreover have "x \<notin> set (log_nonces fe ys)" if x: "entry_nonce fe y = Some x" for x
    proof
      assume "x \<in> set (log_nonces fe ys)"
      then obtain i where "0 < i" "i \<le> length ys" "entry_nonce fe (ys ! (i - 1)) = Some x" by (auto simp: set_log_nonces)
      moreover from this have "i - 1 < length ys" by linarith
      ultimately show False using snoc.prems [of "i - 1" "length ys" x] x by (auto simp: nth_append)
    qed
    ultimately show ?case by (auto split: option.split)
  qed simp
  then show ?thesis using once by blast
qed

lemma nonces_count: "nonces_ok fe m hist \<Longrightarrow> length m = length (log_nonces fe hist)"
proof -
  assume ok: "nonces_ok fe m hist"
  then have d: "distinct (map fst m)" by (auto simp: nonces_ok_def bmap_ok_def strict_sorted_iff)
  have "set (map fst m) = set (log_nonces fe hist)" using nonces_dom [OF ok] by (simp add: dom_map_of_conv_image_fst)
  then have "card (set (map fst m)) = card (set (log_nonces fe hist))" by simp
  then show ?thesis using distinct_card [OF d] distinct_card [OF nonces_distinct [OF ok]] by simp
qed

subsection \<open>The pass\<close>

definition pass_reads :: "feed_env \<Rightarrow> nat \<Rightarrow> bytes list \<Rightarrow> restart_pass \<Rightarrow> bool" where
  "pass_reads fe have_leaves hist p \<longleftrightarrow>
     rp_messages p = newest MESSAGE_WINDOW (numbered hist) \<and>
     rp_chains p = newest MESSAGE_WINDOW (log_links (fe_sha fe) hist) \<and>
     rp_chain p = chain_of (fe_sha fe) hist \<and> rp_count p = length hist \<and> nonces_ok fe (rp_nonces p) hist \<and>
     rp_chain_at_stored p = (if 0 < have_leaves \<and> have_leaves \<le> length hist then chain_of (fe_sha fe) (take have_leaves hist) else EMPTY_CHAIN)"

lemma pass_reads_start: "pass_reads fe have_leaves [] restart_begin"
proof -
  have "nonces_ok fe [] []" unfolding nonces_ok_def by (auto simp: bmap_ok_def)
  then show ?thesis by (simp add: pass_reads_def restart_begin_def newest_def numbered_from_def log_links_def chain_of_def)
qed

lemma put_new:
  fixes m :: "('k :: linorder, nat) bmap"
  assumes "\<And>x. map_of m x \<noteq> Some k"
  shows "(\<forall>x i. map_of (bput m y k) x = Some i \<longleftrightarrow> map_of m x = Some i \<or> i = k \<and> y = x) \<longleftrightarrow> map_of m y = None"
proof
  assume "\<forall>x i. map_of (bput m y k) x = Some i \<longleftrightarrow> map_of m x = Some i \<or> i = k \<and> y = x"
  then have "map_of (bput m y k) y = Some i" if "map_of m y = Some i" for i using that by blast
  then show "map_of m y = None" using assms [of y] by (cases "map_of m y") auto
next
  assume "map_of m y = None"
  then show "\<forall>x i. map_of (bput m y k) x = Some i \<longleftrightarrow> map_of m x = Some i \<or> i = k \<and> y = x" by (auto split: if_splits)
qed

lemma nonces_ok_snoc:
  assumes "nonces_ok fe m hist"
  shows "nonces_ok fe (case entry_nonce fe json of None \<Rightarrow> m | Some x \<Rightarrow> bput m x (length hist + 1)) (hist @ [json]) \<longleftrightarrow>
    (\<forall>x. entry_nonce fe json = Some x \<longrightarrow> map_of m x = None)"
proof -
  have m: "bmap_ok m" "map_of m x = Some i \<longleftrightarrow> 0 < i \<and> i \<le> length hist \<and> entry_nonce fe (hist ! (i - 1)) = Some x" for x i
    using assms nonces_okD [OF assms] unfolding nonces_ok_def by blast+
  have old: "(hist @ [json]) ! (i - 1) = hist ! (i - 1)" if "0 < i" "i \<le> length hist" for i
    using that by (cases i) (simp_all add: nth_append)
  have iff: "(0 < i \<and> i \<le> length (hist @ [json]) \<and> entry_nonce fe ((hist @ [json]) ! (i - 1)) = Some x) \<longleftrightarrow>
      map_of m x = Some i \<or> i = length hist + 1 \<and> entry_nonce fe json = Some x" for x i
    using old [of i] m(2) [of x i] by (cases "i = length hist + 1") auto
  have new: "map_of m x \<noteq> Some (length hist + 1)" for x using m(2) [of x "length hist + 1"] by simp
  show ?thesis
  proof (cases "entry_nonce fe json")
    case None
    then show ?thesis using m(1) unfolding nonces_ok_def iff by simp
  next
    case (Some y)
    have "(\<forall>x i. map_of (bput m y (length hist + 1)) x = Some i \<longleftrightarrow> map_of m x = Some i \<or> i = length hist + 1 \<and> y = x) \<longleftrightarrow> map_of m y = None"
      using new by (rule put_new)
    then show ?thesis using m(1) unfolding nonces_ok_def iff Some by simp
  qed
qed

text \<open>One row: it is accepted exactly when it is the next message of the history.\<close>

definition row_fits :: "feed_env \<Rightarrow> retention_limits \<Rightarrow> bytes list \<Rightarrow> nat \<times> bytes \<times> bytes option \<Rightarrow> restart_pass \<Rightarrow> bool" where
  "row_fits fe limits hist row p \<longleftrightarrow>
     (case row of (i, json, stored) \<Rightarrow> i = length hist + 1 \<and>
        (\<exists>env. fe_envelope fe json = Some env \<and> me_id env = i \<and> (me_nonce env = None \<or> entry_nonce fe json \<noteq> None)) \<and>
        (\<forall>x. entry_nonce fe json = Some x \<longrightarrow> map_of (rp_nonces p) x = None \<and> length (rp_nonces p) < max_nonces limits))"

lemma row_nonce_ok:
  assumes "fe_envelope fe json = Some env"
  shows "row_nonce limits env i nonces = Inr nonces' \<longleftrightarrow>
    (me_nonce env = None \<or> entry_nonce fe json \<noteq> None) \<and>
    (\<forall>x. entry_nonce fe json = Some x \<longrightarrow> map_of nonces x = None \<and> length nonces < max_nonces limits) \<and>
    nonces' = (case entry_nonce fe json of None \<Rightarrow> nonces | Some x \<Rightarrow> bput nonces x i)"
proof (cases "me_nonce env")
  case None
  then show ?thesis using assms by (auto simp: row_nonce_def entry_nonce_def)
next
  case (Some said)
  show ?thesis
  proof (cases "me_account env = None \<or> canonical_nonce said = None")
    case True
    then have "entry_nonce fe json = None" using assms Some by (auto simp: entry_nonce_def)
    then show ?thesis using True Some by (auto simp: row_nonce_def split: option.splits)
  next
    case False
    then obtain account nonce where an: "me_account env = Some account" "canonical_nonce said = Some nonce" by auto
    then have e: "entry_nonce fe json = Some (account, nonce)" using assms Some by (simp add: entry_nonce_def)
    show ?thesis unfolding e by (auto simp: row_nonce_def Some an split: option.splits)
  qed
qed

lemma read_row_ok:
  assumes reads: "pass_reads fe have_leaves hist p"
  shows "(\<exists>p'. read_row fe limits have_leaves row p = Inr p') \<longleftrightarrow> row_fits fe limits hist row p"
    and "read_row fe limits have_leaves row p = Inr p' \<Longrightarrow> pass_reads fe have_leaves (hist @ [fst (snd row)]) p' \<and>
      rp_first_bad_link p' = (if rp_first_bad_link p = None \<and> snd (snd row) \<noteq> Some (chain_of (fe_sha fe) (hist @ [fst (snd row)]))
        then Some (length hist + 1) else rp_first_bad_link p)"
proof -
  obtain i json stored where row: "row = (i, json, stored)" by (cases row)
  have p: "rp_messages p = newest MESSAGE_WINDOW (numbered hist)" "rp_chains p = newest MESSAGE_WINDOW (log_links (fe_sha fe) hist)"
    "rp_chain p = chain_of (fe_sha fe) hist" "rp_count p = length hist" "nonces_ok fe (rp_nonces p) hist"
    "rp_chain_at_stored p = (if 0 < have_leaves \<and> have_leaves \<le> length hist then chain_of (fe_sha fe) (take have_leaves hist) else EMPTY_CHAIN)"
    using reads by (simp_all add: pass_reads_def)
  show "(\<exists>p'. read_row fe limits have_leaves row p = Inr p') \<longleftrightarrow> row_fits fe limits hist row p"
  proof (cases "fe_envelope fe json")
    case None
    then show ?thesis by (simp add: read_row_def row_fits_def row Let_def p(4))
  next
    case (Some env)
    note rn = row_nonce_ok [OF Some]
    show ?thesis using Some by (auto simp: read_row_def row_fits_def row Let_def p(4) rn)
  qed
  assume r: "read_row fe limits have_leaves row p = Inr p'"
  then obtain env nonces where env: "fe_envelope fe json = Some env" and i: "i = length hist + 1"
    and rn: "row_nonce limits env i (rp_nonces p) = Inr nonces"
    and p': "p' = \<lparr>rp_messages = (if length (rp_messages p) = MESSAGE_WINDOW then tl (rp_messages p) else rp_messages p) @ [\<lparr>pb_id = i, pb_json = json\<rparr>],
           rp_chains = (if length (rp_messages p) = MESSAGE_WINDOW then tl (rp_chains p) else rp_chains p) @ [extend_bytes (fe_sha fe) (rp_chain p) json],
           rp_nonces = nonces, rp_chain = extend_bytes (fe_sha fe) (rp_chain p) json,
           rp_chain_at_stored = (if rp_count p + 1 = have_leaves then extend_bytes (fe_sha fe) (rp_chain p) json else rp_chain_at_stored p),
           rp_first_bad_link = (if rp_first_bad_link p = None \<and> stored \<noteq> Some (extend_bytes (fe_sha fe) (rp_chain p) json) then Some i else rp_first_bad_link p),
           rp_count = rp_count p + 1\<rparr>"
    by (auto simp: read_row_def row Let_def p(4) split: option.splits if_splits)
  have w: "0 < MESSAGE_WINDOW" by (simp add: MESSAGE_WINDOW_def)
  have chain: "extend_bytes (fe_sha fe) (rp_chain p) json = chain_of (fe_sha fe) (hist @ [json])" by (simp add: p(3) chain_of_append)
  have msgs: "newest MESSAGE_WINDOW (numbered (hist @ [json])) =
      (if length (rp_messages p) = MESSAGE_WINDOW then tl (rp_messages p) else rp_messages p) @ [\<lparr>pb_id = i, pb_json = json\<rparr>]"
  proof -
    have "numbered (hist @ [json]) = numbered hist @ [\<lparr>pb_id = i, pb_json = json\<rparr>]"
      unfolding numbered_append by (simp add: numbered_Cons i) (simp add: numbered_from_def)
    then show ?thesis by (simp only: newest_snoc [OF w] p(1))
  qed
  have links: "newest MESSAGE_WINDOW (log_links (fe_sha fe) (hist @ [json])) =
      (if length (rp_messages p) = MESSAGE_WINDOW then tl (rp_chains p) else rp_chains p) @ [chain_of (fe_sha fe) (hist @ [json])]"
  proof -
    have "length (rp_messages p) = length (rp_chains p)" by (simp add: p(1,2) newest_def)
    then show ?thesis by (simp add: log_links_append newest_snoc [OF w] p(2) chain_of_append Let_def)
  qed
  have "nonces_ok fe nonces (hist @ [json])"
    using rn nonces_ok_snoc [OF p(5), of json] unfolding row_nonce_ok [OF env] i by simp
  then have "pass_reads fe have_leaves (hist @ [json]) p'"
    by (simp add: pass_reads_def p' msgs [unfolded One_nat_def] links chain p(4,6))
  then show "pass_reads fe have_leaves (hist @ [fst (snd row)]) p' \<and>
      rp_first_bad_link p' = (if rp_first_bad_link p = None \<and> snd (snd row) \<noteq> Some (chain_of (fe_sha fe) (hist @ [fst (snd row)]))
        then Some (length hist + 1) else rp_first_bad_link p)"
    by (simp add: row p' chain i)
qed

subsection \<open>All the rows\<close>

definition row_json :: "nat \<times> bytes \<times> bytes option \<Rightarrow> bytes" where
  "row_json row = fst (snd row)"

lemma read_rows_sound:
  assumes "pass_reads fe have_leaves hist p" and "read_rows fe limits have_leaves rows p = Inr p'"
  shows "pass_reads fe have_leaves (hist @ map row_json rows) p' \<and>
    (rp_first_bad_link p' = None \<longleftrightarrow> rp_first_bad_link p = None \<and>
       rows = rows_of (fe_sha fe) (length hist + 1) (chain_of (fe_sha fe) hist) (map row_json rows))"
  using assms
proof (induction rows arbitrary: hist p)
  case (Cons row rows)
  obtain p1 where p1: "read_row fe limits have_leaves row p = Inr p1" "read_rows fe limits have_leaves rows p1 = Inr p'"
    using Cons.prems(2) by auto
  let ?json = "row_json row"
  have step: "pass_reads fe have_leaves (hist @ [?json]) p1"
    "rp_first_bad_link p1 = (if rp_first_bad_link p = None \<and> snd (snd row) \<noteq> Some (chain_of (fe_sha fe) (hist @ [?json]))
      then Some (length hist + 1) else rp_first_bad_link p)"
    using read_row_ok(2) [OF Cons.prems(1) p1(1)] by (simp_all add: row_json_def)
  have "row_fits fe limits hist row p" using read_row_ok(1) [OF Cons.prems(1), of limits row] p1(1) by blast
  then have row: "fst row = length hist + 1" by (auto simp: row_fits_def)
  have chain: "chain_of (fe_sha fe) (hist @ [?json]) = extend_bytes (fe_sha fe) (chain_of (fe_sha fe) hist) ?json"
    by (simp add: chain_of_append)
  have "row = (length hist + 1, ?json, Some (chain_of (fe_sha fe) (hist @ [?json]))) \<longleftrightarrow>
      snd (snd row) = Some (chain_of (fe_sha fe) (hist @ [?json]))"
    using row by (cases row) (simp add: row_json_def)
  then show ?case
    using Cons.IH [OF step(1) p1(2)] step(2)
    by (cases "rp_first_bad_link p") (auto simp add: rows_of_Cons chain)
qed simp

lemma take_plus_one: "k < length xs \<Longrightarrow> take (k + 1) xs = take k xs @ [xs ! k]"
  by (simp add: take_Suc_conv_app_nth)

lemma read_rows_complete:
  assumes serde: "serde_ok fe" and entries: "entries_ok fe 1 hist" and nonces: "nonces_ok fe m hist" "length m \<le> max_nonces limits"
    and "pass_reads fe have_leaves (take k hist) p" and "k \<le> length hist"
  shows "\<exists>p'. read_rows fe limits have_leaves (rows_of (fe_sha fe) (k + 1) (chain_of (fe_sha fe) (take k hist)) (drop k hist)) p = Inr p'"
  using assms(5,6)
proof (induction "length hist - k" arbitrary: k p)
  case 0
  then show ?case by simp
next
  case (Suc n)
  then have k: "k < length hist" by simp
  let ?json = "hist ! k" and ?sha = "fe_sha fe"
  have drop: "drop k hist = ?json # drop (k + 1) hist" using k by (simp add: Cons_nth_drop_Suc)
  have chain: "extend_bytes ?sha (chain_of ?sha (take k hist)) ?json = chain_of ?sha (take (k + 1) hist)"
    using k by (simp add: take_Suc_conv_app_nth chain_of_append)
  let ?row = "(k + 1, ?json, Some (chain_of ?sha (take (k + 1) hist)))"
  obtain msg where msg: "?json = fe_to_vec fe msg" "msg_id msg = k + 1" "nonce_fine msg" using entries k by (auto simp: entries_ok_def)
  obtain env where env: "fe_envelope fe ?json = Some env" "me_id env = k + 1" "me_nonce env = msg_nonce msg"
    using serde msg(1,2) unfolding serde_ok_def by metis
  have en: "entry_nonce fe ?json = message_nonce msg" unfolding msg(1) by (rule entry_nonce_message [OF serde])
  have reads: "nonces_ok fe (rp_nonces p) (take k hist)" using Suc.prems(1) by (simp add: pass_reads_def)
  have split: "log_nonces fe hist = log_nonces fe (take k hist) @ log_nonces fe (?json # drop (k + 1) hist)"
    using log_nonces_append [of fe "take k hist" "drop k hist"] unfolding append_take_drop_id by (simp only: drop)
  have fresh: "map_of (rp_nonces p) x = None \<and> length (rp_nonces p) < max_nonces limits" if x: "entry_nonce fe ?json = Some x" for x
  proof
    have here: "x \<in> set (log_nonces fe (?json # drop (k + 1) hist))" using x by (simp add: log_nonces_def List.map_filter_simps)
    then have "x \<notin> set (log_nonces fe (take k hist))" using nonces_distinct [OF nonces(1)] split by auto
    then show "map_of (rp_nonces p) x = None" using nonces_dom [OF reads] by auto
    have "0 < length (log_nonces fe (?json # drop (k + 1) hist))" using here by auto
    then show "length (rp_nonces p) < max_nonces limits"
      using nonces_count [OF reads] nonces_count [OF nonces(1)] nonces(2) arg_cong [OF split, of length] unfolding length_append by linarith
  qed
  have "row_fits fe limits (take k hist) ?row p"
    using k env msg(3) en fresh by (auto simp: row_fits_def nonce_fine_def)
  then obtain p1 where p1: "read_row fe limits have_leaves ?row p = Inr p1" using read_row_ok(1) [OF Suc.prems(1)] by blast
  have reads1: "pass_reads fe have_leaves (take (k + 1) hist) p1"
    using read_row_ok(2) [OF Suc.prems(1) p1] k by (simp add: take_Suc_conv_app_nth)
  have n: "n = length hist - (k + 1)" and k1: "k + 1 \<le> length hist" using Suc.hyps(2) k by simp_all
  obtain p' where
    "read_rows fe limits have_leaves (rows_of ?sha (k + 1 + 1) (chain_of ?sha (take (k + 1) hist)) (drop (k + 1) hist)) p1 = Inr p'"
    using Suc.hyps(1) [OF n reads1 k1] by blast
  then show ?case using p1 by (simp add: drop rows_of_Cons chain)
qed

text \<open>So the pass over a log's own rows ends where the log ends, and finds no bad link.\<close>

lemma read_log_ok:
  assumes "serde_ok fe" and "entries_ok fe 1 hist" and "nonces_ok fe m hist" and "length m \<le> max_nonces limits"
  shows "\<exists>p. read_rows fe limits have_leaves (rows_of (fe_sha fe) 1 EMPTY_CHAIN hist) restart_begin = Inr p \<and>
    pass_reads fe have_leaves hist p \<and> rp_first_bad_link p = None"
proof -
  let ?rows = "rows_of (fe_sha fe) 1 EMPTY_CHAIN hist"
  have "chain_of (fe_sha fe) [] = EMPTY_CHAIN" by (simp add: chain_of_def)
  then obtain p where p: "read_rows fe limits have_leaves ?rows restart_begin = Inr p"
    using read_rows_complete [OF assms, of have_leaves 0 restart_begin] pass_reads_start by auto
  have "map row_json ?rows = hist" by (rule nth_equalityI) (simp_all add: nth_rows_of row_json_def)
  then show ?thesis using read_rows_sound [OF pass_reads_start p] p by (simp add: restart_begin_def chain_of_def)
qed

subsection \<open>A file the sequencer wrote\<close>

lemma read_pins_ok:
  assumes "\<forall>(a, k) \<in> set accounts. length k = 32 \<and> fe_point fe k"
  shows "read_pins fe (map (\<lambda>(a, k). (a, to_hex k)) accounts) m = Inr (foldl (\<lambda>m e. bput m (fst e) (snd e)) m accounts)"
  using assms by (induction accounts arbitrary: m) (auto simp: from_hex_to_hex)

lemma honest_pins:
  assumes "feed_ok fe s hist"
  shows "read_pins fe (map (\<lambda>(a, k). (a, to_hex k)) (fs_accounts s)) [] = Inr (fs_accounts s)"
proof -
  have ok: "bmap_ok (fs_accounts s)" and fine: "\<forall>a k. map_of (fs_accounts s) a = Some k \<longrightarrow> length k = 32 \<and> fe_point fe k"
    using assms by (simp_all add: feed_ok_def)
  have "\<forall>(a, k) \<in> set (fs_accounts s). length k = 32 \<and> fe_point fe k"
    using fine bmap_ok_distinct [OF ok] by (auto simp: map_of_eq_Some_iff)
  then show ?thesis using read_pins_ok bcollect_id [OF ok] by (simp add: bcollect_def)
qed

text \<open>What the verdict on the file is, once its messages are read.\<close>

definition signed_of :: "feed_env \<Rightarrow> bytes list \<Rightarrow> hash option" where
  "signed_of fe hist = (if hist = [] then None else Some (log_hash (fe_sha fe) hist))"

lemma honest_verdict:
  assumes fl: "file_ok fe s db hist" and sign: "signing_ok fe (fs_key s)" and sha: "\<forall>x. length (fe_sha fe x) = HASH_SIZE"
  shows "history_verdict fe (fs_key s) new_session db (length hist) (chain_of (fe_sha fe) hist) =
    Inr (if hist = [] then new_session else fs_session s, signed_of fe hist)"
proof (cases "hist = []")
  case True
  then show ?thesis using fl by (simp add: file_ok_def history_verdict_def signed_of_def)
next
  case False
  let ?cp = "checkpoint_row fe (fs_key s) (fs_session s) (length hist) (chain_of (fe_sha fe) hist) (log_hash (fe_sha fe) hist)"
  have db: "fd_session db = Some (fs_session s)" "fd_checkpoint db = Some (Written ?cp)"
    using fl False by (simp_all add: file_ok_def)
  have hex: "from_hex 32 (to_hex (chain_of (fe_sha fe) hist)) = Some (chain_of (fe_sha fe) hist)"
    "from_hex 32 (to_hex (tree_hash (fe_sha fe) (map (leaf_hash (fe_sha fe)) hist))) = Some (tree_hash (fe_sha fe) (map (leaf_hash (fe_sha fe)) hist))"
    using chain_length [OF sha] tree_hash_length [OF sha hashes_leaves [OF sha]]
    by (simp_all add: from_hex_to_hex HASH_SIZE_def)
  have sigs: "from_hex 64 (to_hex (fe_sign fe (fs_key s) m)) = Some (fe_sign fe (fs_key s) m)"
    "fe_strict fe (fe_public fe (fs_key s)) m (fe_sign fe (fs_key s) m)" for m
    using sign by (simp_all add: signing_ok_def from_hex_to_hex)
  show ?thesis using False
    by (simp add: history_verdict_def db ok_or_def checkpoint_row_def hex sigs verify_head_def sign_head_def root_half_def
        log_hash_def verify_checkpoint_def sign_checkpoint_def signed_of_def)
qed

lemma honest_tree:
  assumes fl: "file_ok fe s db hist" and sha: "\<forall>x. length (fe_sha fe x) = HASH_SIZE" and p: "rp_count p = length hist"
  shows "restart_tree fe commits db (signed_of fe hist) p = Inr db"
    and "check_root fe db (length hist) (signed_of fe hist) = Inr ()"
proof -
  have both: "restart_tree fe commits db (signed_of fe hist) p = Inr db \<and> check_root fe db (length hist) (signed_of fe hist) = Inr ()"
  proof (cases "hist = []")
    case True
    then show ?thesis by (simp add: restart_tree_def check_root_def signed_of_def p Let_def)
  next
    case False
    then have t: "table_ok (fe_sha fe) (map (leaf_hash (fe_sha fe)) hist) (fd_nodes db)" using fl by (simp add: file_ok_def)
    have root: "nodes_root (fe_sha fe) (disk_node (fd_nodes db)) (length hist) (length hist) = Inr (log_hash (fe_sha fe) hist)"
      using table_root_ok [OF t sha hashes_leaves [OF sha]] by (simp add: log_hash_def)
    show ?thesis using False table_counts [OF t] root
      by (simp add: restart_tree_def check_root_def signed_of_def p Let_def)
  qed
  then show "restart_tree fe commits db (signed_of fe hist) p = Inr db" "check_root fe db (length hist) (signed_of fe hist) = Inr ()"
    by blast+
qed

lemma nonces_same: "nonces_ok fe m hist \<Longrightarrow> nonces_ok fe m' hist \<Longrightarrow> m = m'"
proof (rule bm.entries_ext)
  assume ok: "nonces_ok fe m hist" "nonces_ok fe m' hist"
  show "map_of m = map_of m'"
  proof
    fix x
    have "map_of m x = Some i \<longleftrightarrow> map_of m' x = Some i" for i using nonces_okD [OF ok(1)] nonces_okD [OF ok(2)] by blast
    then show "map_of m x = map_of m' x" by (metis option.exhaust)
  qed
qed (simp_all add: nonces_ok_def)

text \<open>The state that comes back, which is the state before but for what a process keeps to
  itself: its limiters, its configuration and the head it last signed.\<close>

definition revived :: "feed_state \<Rightarrow> retention_limits \<Rightarrow> string \<Rightarrow> feed_state" where
  "revived s limits session =
     s\<lparr>fs_limits := limits, fs_session := session, fs_tree_head := None, fs_limiter := [], fs_read_limiter := [],
       fs_proxies := [], fs_operator_key := None\<rparr>"

lemma restart_honest:
  fixes new_session :: string
  assumes ok: "feed_ok fe s hist" and disk: "fs_storage s = Disk db n" and serde: "serde_ok fe" and sha: "\<forall>x. length (fe_sha fe x) = HASH_SIZE"
    and entries: "entries_ok fe 1 hist" and sign: "signing_ok fe (fs_key s)"
    and limits: "retention_validate limits = Inr ()" "length (fs_nonces s) \<le> max_nonces limits"
      "length (fs_accounts s) \<le> max_accounts limits" "length (fs_inbox_sequenced s) \<le> max_inbox_records limits"
  defines "s' \<equiv> revived s limits (if hist = [] then new_session else fs_session s)"
  shows "with_db fe (fs_key s) limits new_session commits db = Some (Inr s', db) \<and> feed_ok fe s' hist"
proof -
  have fl: "file_ok fe s db hist" and n: "n = length hist" using ok disk by (simp_all add: feed_ok_def storage_ok_def)
  have db: "fd_messages db = rows_of (fe_sha fe) 1 EMPTY_CHAIN hist" "fd_pairings db = fs_inbox_sequenced s"
    "fd_accounts db = map (\<lambda>(a, k). (a, to_hex k)) (fs_accounts s)" using fl by (simp_all add: file_ok_def)
  have nonces: "nonces_ok fe (fs_nonces s) hist" using ok by (simp add: feed_ok_def)
  obtain p where p: "read_rows fe limits (stored_leaves (fd_nodes db)) (fd_messages db) restart_begin = Inr p"
    "pass_reads fe (stored_leaves (fd_nodes db)) hist p" "rp_first_bad_link p = None"
    using read_log_ok [OF serde entries nonces limits(2)] db(1) by metis
  have pr: "rp_messages p = fs_messages s" "rp_chains p = fs_chains s" "rp_chain p = fs_chain s" "rp_count p = length hist"
    "fs_chain s = chain_of (fe_sha fe) hist" "fs_next_id s = Suc (length hist)"
    using p(2) ok by (simp_all add: pass_reads_def feed_ok_def)
  have pn: "rp_nonces p = fs_nonces s" using p(2) nonces nonces_same by (auto simp: pass_reads_def)
  have pins: "read_pins fe (fd_accounts db) [] = Inr (fs_accounts s)" using honest_pins [OF ok] by (simp add: db(3))
  have "restart_state (fs_key s) limits (if hist = [] then new_session else fs_session s) p (fs_accounts s) db = s'"
    by (simp add: restart_state_def feed_new_def s'_def revived_def pr pn db(2) disk n)
  then have "with_db fe (fs_key s) limits new_session commits db = Some (Inr s', db)"
    using limits honest_verdict [OF fl sign sha, of new_session] honest_tree [OF fl sha pr(4)] pins
    by (simp add: with_db_def db(2,3) p(1,3) pr(3,4,5))
  moreover have "feed_ok fe s' hist"
    using ok disk by (auto simp: s'_def revived_def feed_ok_def storage_ok_def file_ok_def)
  ultimately show ?thesis by blast
qed

subsection \<open>A file that opens\<close>

text \<open>The inputs the hash sees along a chain. Two logs of one length with the same chain are the
  same log, unless two of these inputs clash.\<close>

definition chain_inputs :: "(bytes \<Rightarrow> bytes) \<Rightarrow> bytes list \<Rightarrow> bytes set" where
  "chain_inputs sha hist = (\<lambda>k. chain_of sha (take k hist) @ hist ! k) ` {..< length hist}"

lemma chain_inputs_snoc: "chain_inputs sha (hist @ [j]) = insert (chain_of sha hist @ j) (chain_inputs sha hist)"
proof -
  have "(\<lambda>k. chain_of sha (take k (hist @ [j])) @ (hist @ [j]) ! k) ` {..< length hist} = chain_inputs sha hist"
    unfolding chain_inputs_def by (rule image_cong) (simp_all add: nth_append)
  then show ?thesis by (simp add: chain_inputs_def lessThan_Suc)
qed

lemma same_chain_same_log:
  assumes "\<not> clash sha X" and "\<forall>x. length (sha x) = HASH_SIZE"
    and "chain_inputs sha xs \<subseteq> X" and "chain_inputs sha ys \<subseteq> X"
    and "length xs = length ys" and "chain_of sha xs = chain_of sha ys"
  shows "xs = ys"
  using assms(3-)
proof (induction xs arbitrary: ys rule: rev_induct)
  case (snoc x xs)
  then obtain y ys' where ys: "ys = ys' @ [y]" by (cases ys rule: rev_cases) simp_all
  have "sha (chain_of sha xs @ x) = sha (chain_of sha ys' @ y)"
    using snoc.prems(4) by (simp add: ys chain_of_append extend_bytes_def)
  moreover have "chain_of sha xs @ x \<in> X" "chain_of sha ys' @ y \<in> X"
    using snoc.prems(1,2) by (simp_all add: ys chain_inputs_snoc)
  ultimately have "chain_of sha xs @ x = chain_of sha ys' @ y" using assms(1) by (auto simp: clash_def)
  then have "chain_of sha xs = chain_of sha ys'" "x = y" using chain_length [OF assms(2)] by simp_all
  then show ?case using snoc by (simp add: ys chain_inputs_snoc)
qed simp

lemma rebuild_keeps: "rebuild sha commits db from n c1 c2 = Inr db' \<Longrightarrow> db' = db\<lparr>fd_nodes := fd_nodes db'\<rparr>"
  by (auto simp: rebuild_def split: sum.splits prod.splits if_splits)

lemma tree_keeps: "restart_tree fe commits db signed_root p = Inr db' \<Longrightarrow> db' = db\<lparr>fd_nodes := fd_nodes db'\<rparr>"
  by (auto simp: restart_tree_def Let_def split: if_splits dest: rebuild_keeps)

text \<open>Everything an open file has been checked for.\<close>

definition file_signed :: "feed_env \<Rightarrow> bytes \<Rightarrow> feed_db \<Rightarrow> string \<Rightarrow> bytes list \<Rightarrow> hash option \<Rightarrow> bool" where
  "file_signed fe key db session hist signed_root \<longleftrightarrow>
     (\<exists>cp signature. fd_checkpoint db = Some (Written cp) \<and> fd_session db = Some session \<and> ck_last_id cp = length hist \<and>
        from_hex 32 (ck_chain cp) = Some (chain_of (fe_sha fe) hist) \<and> from_hex 64 (ck_signature cp) = Some signature \<and>
        verify_head (fe_strict fe) (fe_public fe key) session (length hist) (chain_of (fe_sha fe) hist) signature \<and>
        root_half fe key session cp (chain_of (fe_sha fe) hist) = Inr signed_root)"

lemma verdict_sound:
  assumes "history_verdict fe key new_session db count chain = Inr (session, signed_root)"
    and "count = length hist" and "chain = chain_of (fe_sha fe) hist"
  shows "fd_checkpoint db = None \<and> hist = [] \<and> session = new_session \<and> signed_root = None \<or>
    file_signed fe key db session hist signed_root"
  using assms by (auto simp: history_verdict_def file_signed_def ok_or_def split: option.splits checkpoint_text.splits if_splits)

lemma restart_sound:
  assumes "with_db fe key limits new_session commits db = Some (Inr s, db')"
  defines "hist \<equiv> map row_json (fd_messages db)"
  shows "fd_messages db = rows_of (fe_sha fe) 1 EMPTY_CHAIN hist \<and> db' = db\<lparr>fd_nodes := fd_nodes db'\<rparr> \<and>
    (\<exists>signed_root. (fd_checkpoint db = None \<and> hist = [] \<and> fs_session s = new_session \<and> signed_root = None \<or>
        file_signed fe key db (fs_session s) hist signed_root) \<and>
      (\<forall>r. signed_root = Some r \<longrightarrow>
        nodes_root (fe_sha fe) (disk_node (fd_nodes db')) (length hist) (length hist) = Inr r)) \<and>
    fs_key s = key \<and> fs_next_id s = length hist + 1 \<and> fs_chain s = chain_of (fe_sha fe) hist \<and>
    fs_messages s = newest MESSAGE_WINDOW (numbered hist) \<and> nonces_ok fe (fs_nonces s) hist \<and>
    fs_inbox_sequenced s = fd_pairings db \<and> fs_storage s = Disk db' (length hist)"
proof -
  obtain p session signed_root accounts where
    p: "read_rows fe limits (stored_leaves (fd_nodes db)) (fd_messages db) restart_begin = Inr p"
    and v: "history_verdict fe key new_session db (rp_count p) (rp_chain p) = Inr (session, signed_root)"
    and bad: "rp_first_bad_link p = None" and t: "restart_tree fe commits db signed_root p = Inr db'"
    and r: "check_root fe db' (rp_count p) signed_root = Inr ()"
    and s: "s = restart_state key limits session p accounts db'"
    using assms(1) by (auto simp: with_db_def split: sum.splits if_splits option.splits store_fault.splits)
  note rd = read_rows_sound [OF pass_reads_start p, folded hist_def]
  have reads: "pass_reads fe (stored_leaves (fd_nodes db)) hist p" and rows: "fd_messages db = rows_of (fe_sha fe) 1 EMPTY_CHAIN hist"
    using rd bad by (simp_all add: chain_of_def)
  have pr: "rp_count p = length hist" "rp_chain p = chain_of (fe_sha fe) hist" "rp_messages p = newest MESSAGE_WINDOW (numbered hist)"
    "nonces_ok fe (rp_nonces p) hist"
    using reads by (simp_all add: pass_reads_def)
  have db': "db' = db\<lparr>fd_nodes := fd_nodes db'\<rparr>" by (rule tree_keeps [OF t])
  then have "fd_pairings db' = fd_pairings db" by (metis feed_db.select_convs(2) feed_db.surjective feed_db.update_convs(4))
  moreover have "\<forall>r. signed_root = Some r \<longrightarrow> nodes_root (fe_sha fe) (disk_node (fd_nodes db')) (length hist) (length hist) = Inr r"
    using r by (auto simp: check_root_def pr(1) split: sum.splits store_fault.splits)
  moreover note verdict_sound [OF v pr(1,2)]
  ultimately show ?thesis using rows db' pr unfolding s
    by (simp add: restart_state_def feed_new_def) blast
qed

end
