(* ===== verification/Feed_Life.thy ===== *)
theory Feed_Life
  imports Feed_Inbox Feed_Recovery
begin

section \<open>The life of a sequencer\<close>

text \<open>
  Whatever reaches a sequencer is an event: a user's or the operator's request, the generator's
  burst, a page of the inbox, a question for the head, or a restart from its own file. A life is
  a run of events, and along a life the log behind the state is only extended.
\<close>

datatype feed_event =
  UserAsked bool bool caller nat nat signed_submission
| OperatorAsked bool caller nat nat operator_request
| BurstMade bool "(nat \<Rightarrow> order_message) list"
| InboxDrained "account_id \<Rightarrow> bool" bool "nat \<Rightarrow> nat" nat string "(nat \<times> signed_submission) list"
| HeadAsked nat
| Restarted retention_limits string bool "bytes option" "proxy_net list"

text \<open>The builders \<open>start_feed\<close> applies to a state before it serves.\<close>

definition configured :: "bytes option \<Rightarrow> proxy_net list \<Rightarrow> feed_state \<Rightarrow> feed_state" where
  "configured operator_key proxies s = s\<lparr>fs_operator_key := operator_key, fs_proxies := proxies\<rparr>"

text \<open>The state after an event; \<open>None\<close> is a panic, or a start that was refused. A sequencer that
  keeps its log in memory does not come back.\<close>

fun feed_step :: "feed_env \<Rightarrow> feed_state \<Rightarrow> feed_event \<Rightarrow> feed_state option" where
  "feed_step fe s (UserAsked pins commits c instant now sent) = map_option snd (feed_submit fe pins commits s c instant now sent)"
| "feed_step fe s (OperatorAsked commits c instant now req) = map_option snd (submit_operator fe commits s c instant now req)"
| "feed_step fe s (BurstMade commits msgs) = map_option snd (publish_burst fe commits s msgs)"
| "feed_step fe s (InboxDrained pins commits clock now epoch due) =
     map_option snd (sequence_drained fe pins commits clock now s epoch due)"
| "feed_step fe s (HeadAsked now) =
     (case feed_tree_head fe s now of (Inl Panicked, _) \<Rightarrow> None | (_, s') \<Rightarrow> Some s')"
| "feed_step fe s (Restarted limits new_session commits operator_key proxies) =
     (case fs_storage s of
        Memory _ \<Rightarrow> None
      | Disk db _ \<Rightarrow>
          (case with_db fe (fs_key s) limits new_session commits db of
             Some (Inr s', _) \<Rightarrow> Some (configured operator_key proxies s')
           | _ \<Rightarrow> None))"

text \<open>What is asked of an event: the generator numbers its messages and gives them no nonce, a
  page lists an entry once, and the limits of a restart have room for the file.\<close>

fun event_fine :: "feed_state \<Rightarrow> feed_event \<Rightarrow> bool" where
  "event_fine s (BurstMade commits msgs) \<longleftrightarrow> burst_ok msgs"
| "event_fine s (InboxDrained pins commits clock now epoch due) \<longleftrightarrow> distinct (map fst due)"
| "event_fine s (Restarted limits new_session commits operator_key proxies) \<longleftrightarrow>
     \<not> in_memory (fs_storage s) \<and> retention_validate limits = Inr () \<and> length (fs_nonces s) \<le> max_nonces limits \<and>
     length (fs_accounts s) \<le> max_accounts limits \<and> length (fs_inbox_sequenced s) \<le> max_inbox_records limits"
| "event_fine s _ \<longleftrightarrow> True"

fun event_size :: "feed_event \<Rightarrow> nat" where
  "event_size (UserAsked _ _ _ _ _ _) = 1"
| "event_size (OperatorAsked _ _ _ _ _) = 1"
| "event_size (BurstMade _ msgs) = length msgs"
| "event_size (InboxDrained _ _ _ _ _ due) = length due"
| "event_size (HeadAsked _) = 0"
| "event_size (Restarted _ _ _ _ _) = 0"

inductive feed_life :: "feed_env \<Rightarrow> feed_state \<Rightarrow> nat \<Rightarrow> feed_state \<Rightarrow> bool" for fe s where
  life_start: "feed_life fe s 0 s"
| life_step: "feed_life fe s n t \<Longrightarrow> event_fine t ev \<Longrightarrow> feed_step fe t ev = Some u \<Longrightarrow> feed_life fe s (n + event_size ev) u"

inductive_cases life_stepE: "feed_life fe s n t"

text \<open>A life begins in memory, or with an empty file.\<close>

definition feed_started :: "feed_env \<Rightarrow> feed_state \<Rightarrow> bool" where
  "feed_started fe s \<longleftrightarrow>
     (\<exists>operator_key proxies s0. s = configured operator_key proxies s0 \<and>
        ((\<exists>key session. s0 = feed_new key session) \<or>
         (\<exists>key limits new_session commits db. with_db fe key limits new_session commits empty_feed_db = Some (Inr s0, db))))"

subsection \<open>One event\<close>

definition log_ok :: "feed_env \<Rightarrow> feed_state \<Rightarrow> bytes list \<Rightarrow> bool" where
  "log_ok fe s hist \<longleftrightarrow> feed_ok fe s hist \<and> entries_ok fe 1 hist \<and> signing_ok fe (fs_key s)"

definition same_log :: "feed_state \<Rightarrow> bytes list \<Rightarrow> feed_state \<Rightarrow> bool" where
  "same_log s hist s' \<longleftrightarrow> fs_key s' = fs_key s \<and> in_memory (fs_storage s') = in_memory (fs_storage s) \<and>
     (hist = [] \<or> fs_session s' = fs_session s)"

lemma same_log_refl [simp]: "same_log s hist s"
  by (simp add: same_log_def)

lemma same_log_trans: "same_log s hist t \<Longrightarrow> same_log t (hist @ js) u \<Longrightarrow> same_log s hist u"
  by (auto simp: same_log_def)

lemma still_same_log: "feed_still s s' \<Longrightarrow> same_log s hist s'"
  by (simp add: feed_still_def same_log_def)

lemma configured_ok [simp]: "feed_ok fe (configured operator_key proxies s) hist = feed_ok fe s hist"
  by (auto simp: configured_def feed_ok_def storage_ok_def file_ok_def tree_head_ok_def split: storage.splits)

lemma configured_simps [simp]: "fs_key (configured k p s) = fs_key s" "fs_session (configured k p s) = fs_session s"
  "fs_storage (configured k p s) = fs_storage s" "fs_nonces (configured k p s) = fs_nonces s"
  by (simp_all add: configured_def)

lemma step_grown:
  assumes "feed_step_ok fe s hist n (outcome :: ((feed_error + 'a) \<times> feed_state) option)" and "log_ok fe s hist"
  shows "\<exists>s' js. map_option snd outcome = Some s' \<and> log_ok fe s' (hist @ js) \<and> same_log s hist s' \<and> length js \<le> n"
proof -
  obtain r s' js where "outcome = Some (r, s')" "feed_ok fe s' (hist @ js)" "feed_still s s'" "entries_ok fe (length hist + 1) js"
    "case r of Inl (_ :: feed_error) \<Rightarrow> js = [] | Inr (_ :: 'a) \<Rightarrow> length js = n"
    using assms(1) unfolding feed_step_ok_def by blast
  moreover from this have "length js \<le> n" by (auto split: sum.splits)
  moreover have "signing_ok fe (fs_key s')" using assms(2) \<open>feed_still s s'\<close> by (simp add: log_ok_def feed_still_def)
  moreover have "entries_ok fe 1 (hist @ js)"
    using assms(2) \<open>entries_ok fe (length hist + 1) js\<close> by (simp add: log_ok_def entries_ok_append)
  ultimately show ?thesis using still_same_log by (auto simp: log_ok_def)
qed

lemma life_step_ok:
  assumes log: "log_ok fe s hist" and serde: "serde_ok fe" and sha: "\<forall>x. length (fe_sha fe x) = HASH_SIZE"
    and fine: "event_fine s ev" and room: "length hist + event_size ev \<le> 2 ^ 63"
  shows "\<exists>s' js. feed_step fe s ev = Some s' \<and> log_ok fe s' (hist @ js) \<and> same_log s hist s' \<and> length js \<le> event_size ev"
proof -
  have ok: "feed_ok fe s hist" and entries: "entries_ok fe 1 hist" and sign: "signing_ok fe (fs_key s)"
    using log by (simp_all add: log_ok_def)
  show ?thesis
  proof (cases ev)
    case (UserAsked pins commits c instant now sent)
    then show ?thesis using step_grown [OF feed_submit_step [OF ok serde sha] log] room by simp
  next
    case (OperatorAsked commits c instant now req)
    then show ?thesis using step_grown [OF submit_operator_step [OF ok serde sha] log] room by simp
  next
    case (BurstMade commits msgs)
    then show ?thesis using step_grown [OF publish_burst_step [OF ok serde sha] log] fine room by simp
  next
    case (InboxDrained pins commits clock now epoch due)
    then obtain marks refused s' js where s': "sequence_drained fe pins commits clock now s epoch due = Some ((marks, refused), s')"
      "feed_ok fe s' (hist @ js)" "feed_still s s'" "length js \<le> length due" "entries_ok fe (length hist + 1) js"
      using sequence_drained_ok [OF ok serde sha] fine room by fastforce
    moreover have "entries_ok fe 1 (hist @ js)" using entries s'(5) by (simp add: entries_ok_append)
    moreover have "signing_ok fe (fs_key s')" using sign s'(3) by (simp add: feed_still_def)
    ultimately show ?thesis using InboxDrained still_same_log [OF s'(3)] by (auto simp: log_ok_def)
  next
    case (HeadAsked now)
    obtain head s' where s': "feed_tree_head fe s now = (Inr head, s')" "feed_ok fe s' hist" "feed_still s s'"
      using feed_tree_head_ok [OF ok sha, of now] by blast
    moreover have "signing_ok fe (fs_key s')" using sign s'(3) by (simp add: feed_still_def)
    ultimately show ?thesis
      using HeadAsked entries still_same_log [OF s'(3)] by (intro exI [of _ s'] exI [of _ "[]"]) (simp add: log_ok_def)
  next
    case (Restarted limits new_session commits operator_key proxies)
    then have "\<not> in_memory (fs_storage s)" using fine by simp
    then obtain db n where disk: "fs_storage s = Disk db n" by (cases "fs_storage s") simp_all
    let ?s = "revived s limits (if hist = [] then new_session else fs_session s)"
    have "with_db fe (fs_key s) limits new_session commits db = Some (Inr ?s, db)" "feed_ok fe ?s hist"
      using restart_honest [OF ok disk serde sha entries sign] fine Restarted by simp_all
    then show ?thesis
      using Restarted disk entries sign
      by (intro exI [of _ "configured operator_key proxies ?s"] exI [of _ "[]"]) (simp add: log_ok_def same_log_def revived_def)
  qed
qed

subsection \<open>A life\<close>

lemma started_ok:
  assumes "feed_started fe s" and "signing_ok fe (fs_key s)"
  shows "log_ok fe s []"
proof -
  have empty: "feed_ok fe (feed_new key session) []" for key session
    by (simp add: feed_ok_def feed_new_def chain_of_def newest_def numbered_from_def log_links_def storage_ok_def tree_ok_Nil nonces_ok_def)
      (auto simp: nonces_ok_def)
  obtain operator_key proxies s0 where s: "s = configured operator_key proxies s0"
    "(\<exists>key session. s0 = feed_new key session) \<or>
     (\<exists>key limits new_session commits db. with_db fe key limits new_session commits empty_feed_db = Some (Inr s0, db))"
    using assms(1) unfolding feed_started_def by blast
  have "feed_ok fe s0 []"
  proof (cases "\<exists>key session. s0 = feed_new key session")
    case True
    then show ?thesis using empty by blast
  next
    case False
    then obtain key limits new_session commits db where w: "with_db fe key limits new_session commits empty_feed_db = Some (Inr s0, db)"
      using s(2) by blast
    have "s0 = (feed_new key new_session)\<lparr>fs_limits := limits, fs_storage := Disk empty_feed_db 0\<rparr>"
      using w by (auto simp: with_db_def empty_feed_db_def restart_begin_def history_verdict_def restart_tree_def check_root_def
          restart_state_def feed_new_def Let_def split: sum.splits if_splits)
    then show ?thesis using empty [of key new_session]
      by (auto simp: feed_ok_def storage_ok_def file_ok_def empty_feed_db_def feed_new_def)
  qed
  then show ?thesis using assms(2) by (simp add: log_ok_def s(1))
qed

lemma feed_life_ok:
  assumes "feed_life fe s n t" and "log_ok fe s hist" and "serde_ok fe" and "\<forall>x. length (fe_sha fe x) = HASH_SIZE"
    and "length hist + n \<le> 2 ^ 63"
  shows "\<exists>js. log_ok fe t (hist @ js) \<and> same_log s hist t \<and> length js \<le> n"
  using assms(1,5)
proof (induction rule: feed_life.induct)
  case life_start
  then show ?case using assms(2) by (intro exI [of _ "[]"]) simp
next
  case (life_step n t ev u)
  then obtain js where t: "log_ok fe t (hist @ js)" "same_log s hist t" "length js \<le> n" by auto
  obtain ks where u: "log_ok fe u ((hist @ js) @ ks)" "same_log t (hist @ js) u" "length ks \<le> event_size ev"
    using life_step_ok [OF t(1) assms(3,4) life_step.hyps(2)] life_step.hyps(3) life_step.prems t(3) by fastforce
  show ?case
    using t(3) u same_log_trans [OF t(2) u(2)] by (intro exI [of _ "js @ ks"]) simp
qed

end
