(* ===== verification/Feed_Views.thy ===== *)
theory Feed_Views
  imports Feed_Life
begin

section \<open>What a client of the sequencer sees\<close>

text \<open>
  The head, the root, the proofs, the pages and the single links a sequencer answers with are
  views of the log behind its state. A page read from the window and a page read from the file
  are one page.
\<close>

subsection \<open>Heads and proofs\<close>

lemma feed_head_ok: "feed_ok fe s hist \<Longrightarrow> feed_head fe s = signed_head_at fe s (length hist) (chain_of (fe_sha fe) hist)"
  using feed_last_id_ok [of fe s hist] by (simp add: feed_head_def) (simp add: feed_ok_def)

lemma feed_growth_ok:
  assumes ok: "feed_ok fe s hist" and "\<forall>x. length (fe_sha fe x) = HASH_SIZE" and "m \<le> n" and "n \<le> length hist"
  shows "\<exists>path. feed_consistency_proof fe s m n = Inr (map to_hex path) \<and>
    verify_consistency (fe_sha fe) m n (log_hash (fe_sha fe) (take m hist)) (log_hash (fe_sha fe) (take n hist)) path"
proof -
  have "length hist \<le> 2 ^ 64" using ok by (simp add: feed_ok_def)
  then show ?thesis
    using source_growth [OF feed_source [OF assms(1,2)] assms(3,4)] feed_tree_size_ok [OF ok]
    by (auto simp: feed_consistency_proof_def feed_tree_size_def)
qed

lemma feed_member_ok:
  assumes ok: "feed_ok fe s hist" and sha: "\<forall>x. length (fe_sha fe x) = HASH_SIZE" and "i < length hist"
  shows "\<exists>path. feed_inclusion_proof fe s i (length hist) = Inr (map to_hex path) \<and>
    verify_entry_inclusion (fe_sha fe) i (length hist) (hist ! i) path (log_hash (fe_sha fe) hist)"
proof -
  let ?ls = "map (leaf_hash (fe_sha fe)) hist"
  have "climb (fe_sha fe) i (length hist - 1) (?ls ! i) (tree_path (fe_sha fe) i ?ls) = Some (tree_hash (fe_sha fe) ?ls)"
    by (rule climb_complete) (use assms(3) ok in \<open>auto simp: feed_ok_def\<close>)
  then have "verify_entry_inclusion (fe_sha fe) i (length hist) (hist ! i) (tree_path (fe_sha fe) i ?ls) (log_hash (fe_sha fe) hist)"
    using verify_inclusion_climb [OF assms(3)] assms(3) by (simp add: verify_entry_inclusion_def log_hash_def)
  then show ?thesis using feed_path_ok [OF ok sha assms(3)] by auto
qed

subsection \<open>Pages\<close>

text \<open>The rows of the log after \<open>since\<close>, and the page of them a client is owed.\<close>

definition linked :: "(bytes \<Rightarrow> bytes) \<Rightarrow> bytes list \<Rightarrow> (published \<times> bytes) list" where
  "linked sha hist = zip (numbered hist) (log_links sha hist)"

definition page_of :: "(bytes \<Rightarrow> bytes) \<Rightarrow> bytes list \<Rightarrow> nat \<Rightarrow> nat \<Rightarrow> published list \<times> (nat \<times> bytes) option" where
  "page_of sha hist since limit =
     (let rows = take limit (drop since hist)
      in (numbered_from (since + 1) rows,
          if rows = [] then None else Some (since + length rows, chain_of sha (take since hist @ rows))))"

lemma length_linked [simp]: "length (linked sha hist) = length hist"
  by (simp add: linked_def)

lemma nth_linked: "j < length hist \<Longrightarrow> linked sha hist ! j = (\<lparr>pb_id = j + 1, pb_json = hist ! j\<rparr>, chain_of sha (take (j + 1) hist))"
  by (simp add: linked_def nth_numbered nth_log_links)

definition headed_rows :: "(published \<times> bytes) list \<Rightarrow> published list \<times> (nat \<times> bytes) option" where
  "headed_rows rows = (map fst rows, if rows = [] then None else Some (pb_id (fst (last rows)), snd (last rows)))"

lemma headed_page: "headed_rows (take limit (drop since (linked sha hist))) = page_of sha hist since limit"
proof -
  let ?rows = "take limit (drop since (linked sha hist))" and ?js = "take limit (drop since hist)"
  have len: "length ?rows = length ?js" by simp
  have at: "?rows ! k = (\<lparr>pb_id = since + k + 1, pb_json = ?js ! k\<rparr>, chain_of sha (take (since + k + 1) hist))" if "k < length ?js" for k
    using that by (auto simp: nth_linked add.commute)
  have "map fst ?rows = numbered_from (since + 1) ?js"
  proof (rule nth_equalityI)
    fix k
    assume "k < length (map fst ?rows)"
    then have k: "k < length ?js" using len by simp
    then show "map fst ?rows ! k = numbered_from (since + 1) ?js ! k" using at [OF k] nth_numbered [OF k] len by simp
  qed (simp add: len)
  moreover have "last ?rows = (\<lparr>pb_id = since + length ?js, pb_json = last ?js\<rparr>, chain_of sha (take since hist @ ?js))" if "?rows \<noteq> []"
  proof -
    have k: "length ?js - 1 < length ?js" using that len by (cases ?js) auto
    then have "?js \<noteq> []" by (cases ?js) simp_all
    moreover have "take (since + length ?js) hist = take since hist @ ?js"
      by (simp add: take_add [symmetric] min_def)
    ultimately show ?thesis using at [OF k] that len k by (simp add: last_conv_nth)
  qed
  moreover have "?rows = [] \<longleftrightarrow> ?js = []" using len by (metis length_0_conv)
  ultimately show ?thesis by (simp add: headed_rows_def page_of_def Let_def)
qed

lemma window_rows:
  assumes ok: "feed_ok fe s hist"
  shows "zip (fs_messages s) (fs_chains s) = drop (length hist - MESSAGE_WINDOW) (linked (fe_sha fe) hist)"
    and "window_index s i = (if length hist - MESSAGE_WINDOW < i \<and> i \<le> length hist then Some (i - (length hist - MESSAGE_WINDOW) - 1) else None)"
proof -
  let ?k = "length hist - MESSAGE_WINDOW"
  have w: "0 < MESSAGE_WINDOW" by (simp add: MESSAGE_WINDOW_def)
  have s: "fs_messages s = newest MESSAGE_WINDOW (numbered hist)" "fs_chains s = newest MESSAGE_WINDOW (log_links (fe_sha fe) hist)"
    "fs_next_id s = length hist + 1"
    using ok by (simp_all add: feed_ok_def)
  then show "zip (fs_messages s) (fs_chains s) = drop ?k (linked (fe_sha fe) hist)"
    by (simp add: newest_def linked_def drop_zip)
  have lid: "feed_last_id s = length hist" by (rule feed_last_id_ok [OF ok])
  have start: "window_start s = ?k + 1"
  proof (cases "hist = []")
    case True
    then show ?thesis using s by (simp add: window_start_def numbered_from_def newest_def)
  next
    case False
    then have k: "?k < length hist" using w by simp
    have m: "fs_messages s = drop ?k (numbered hist)" using s(1) by (simp add: newest_def)
    then have "hd (fs_messages s) = numbered hist ! ?k" using k by (simp add: hd_drop_conv_nth)
    moreover have "fs_messages s \<noteq> []" using k m by simp
    ultimately show ?thesis using nth_numbered [OF k, of 1] by (cases "fs_messages s") (simp_all add: window_start_def)
  qed
  show "window_index s i = (if ?k < i \<and> i \<le> length hist then Some (i - ?k - 1) else None)"
    by (auto simp: window_index_def start lid)
qed

lemma page_rows_ok:
  assumes "\<And>c. c \<in> set cs \<Longrightarrow> length c = 32" and "length cs = length ps"
  shows "page_rows (map2 (\<lambda>p c. (pb_id p, pb_json p, Some c)) ps cs) = Inr (zip ps cs)"
  using assms(2,1)
proof (induction cs ps rule: list_induct2)
  case (Cons c cs p ps)
  have p: "\<lparr>pb_id = pb_id p, pb_json = pb_json p\<rparr> = p" by simp
  show ?case using Cons by (simp del: published.surjective add: p)
qed simp

lemma filter_rows: "filter (\<lambda>(i, _). since < i) (rows_of sha 1 EMPTY_CHAIN hist) = drop since (rows_of sha 1 EMPTY_CHAIN hist)"
proof -
  let ?rows = "rows_of sha 1 EMPTY_CHAIN hist"
  have ids: "fst (?rows ! j) = j + 1" if "j < length hist" for j using nth_rows_of [OF that, of sha 1 EMPTY_CHAIN] by simp
  have "filter (\<lambda>(i, _). since < i) (take since ?rows) = []"
    by (auto simp: filter_empty_conv in_set_conv_nth ids [unfolded One_nat_def] dest!: arg_cong [where f = fst])
  moreover have "filter (\<lambda>(i, _). since < i) (drop since ?rows) = drop since ?rows"
    by (auto simp: filter_id_conv in_set_conv_nth ids [unfolded One_nat_def] dest!: arg_cong [where f = fst])
  ultimately show ?thesis by (metis append_Nil append_take_drop_id filter_append)
qed

lemma page_ok:
  assumes ok: "feed_ok fe s hist" and sha: "\<forall>x. length (fe_sha fe x) = HASH_SIZE"
    and held: "in_memory (fs_storage s) \<longrightarrow> length hist \<le> since + MESSAGE_WINDOW"
  shows "page s since limit = Inr (page_of (fe_sha fe) hist since limit)"
proof (cases "since < length hist")
  case False
  then have "length hist < sat_add_u64 since 1"
    using ok by (auto simp: feed_ok_def sat_add_u64_def u64_max_def min_def)
  then show ?thesis using False feed_last_id_ok [OF ok] by (simp add: page_def Let_def page_of_def numbered_from_def)
next
  case True
  let ?k = "length hist - MESSAGE_WINDOW"
  have sat: "sat_add_u64 since 1 = since + 1" using True ok by (auto simp: feed_ok_def sat_add_u64_def u64_max_def min_def)
  then have page: "page s since limit = (case window_index s (since + 1) of
      Some index \<Rightarrow> Inr (headed_rows (take limit (drop index (zip (fs_messages s) (fs_chains s)))))
    | None \<Rightarrow> (case fs_storage s of Memory _ \<Rightarrow> Inl (NoLongerInMemory (since + 1))
        | Disk db _ \<Rightarrow> res_bind (page_rows (take limit (filter (\<lambda>(i, _). since < i) (fd_messages db)))) (\<lambda>rows. Inr (headed_rows rows))))"
    using True unfolding page_def Let_def headed_rows_def feed_last_id_ok [OF ok] sat by simp
  show ?thesis
  proof (cases "?k \<le> since")
    case inside: True
    then have "window_index s (since + 1) = Some (since - ?k)" using True by (simp add: window_rows(2) [OF ok])
    moreover have "drop (since - ?k) (drop ?k (linked (fe_sha fe) hist)) = drop since (linked (fe_sha fe) hist)" using inside by simp
    ultimately show ?thesis using headed_page by (simp add: page window_rows(1) [OF ok])
  next
    case False
    then have "window_index s (since + 1) = None" by (simp add: window_rows(2) [OF ok])
    obtain db n where disk: "fs_storage s = Disk db n" using held False by (cases "fs_storage s") auto
    then have db: "fd_messages db = rows_of (fe_sha fe) 1 EMPTY_CHAIN hist" using ok by (simp add: feed_ok_def storage_ok_def file_ok_def)
    have "length c = 32" if "c \<in> set (log_links (fe_sha fe) hist)" for c
      using that chain_length [OF sha] by (auto simp: in_set_conv_nth nth_log_links)
    then have "page_rows (take limit (drop since (rows_of (fe_sha fe) 1 EMPTY_CHAIN hist))) = Inr (take limit (drop since (linked (fe_sha fe) hist)))"
      using page_rows_ok [of "take limit (drop since (log_links (fe_sha fe) hist))" "take limit (drop since (numbered hist))"]
      by (auto simp: rows_of_def linked_def log_links_def take_map drop_map take_zip drop_zip dest!: in_set_takeD in_set_dropD)
    then show ?thesis using \<open>window_index s (since + 1) = None\<close> headed_page by (simp add: page disk db filter_rows [unfolded One_nat_def])
  qed
qed

lemma chain_at_ok:
  assumes ok: "feed_ok fe s hist" and sha: "\<forall>x. length (fe_sha fe x) = HASH_SIZE"
  shows "chain_at s i = (if 0 < i \<and> i \<le> length hist \<and> (in_memory (fs_storage s) \<longrightarrow> length hist < i + MESSAGE_WINDOW)
    then Some (chain_of (fe_sha fe) (take i hist)) else None)"
proof (cases "length hist - MESSAGE_WINDOW < i \<and> i \<le> length hist")
  case True
  let ?k = "length hist - MESSAGE_WINDOW"
  have j: "i - ?k - 1 < length (fs_chains s)" "fs_chains s ! (i - ?k - 1) = chain_of (fe_sha fe) (take i hist)"
    using ok True nth_log_links [of "i - 1" hist "fe_sha fe"] by (auto simp: feed_ok_def newest_def min_def)
  then show ?thesis using True by (auto simp: chain_at_def window_rows(2) [OF ok])
next
  case False
  then have out: "window_index s i = None" by (auto simp: window_rows(2) [OF ok])
  show ?thesis
  proof (cases "fs_storage s")
    case (Memory t)
    then show ?thesis using False out by (auto simp: chain_at_def)
  next
    case (Disk db n)
    then have "fd_messages db = rows_of (fe_sha fe) 1 EMPTY_CHAIN hist" using ok by (simp add: feed_ok_def storage_ok_def file_ok_def)
    then show ?thesis using False out Disk chain_length [OF sha] by (simp add: chain_at_def map_of_rows [unfolded One_nat_def])
  qed
qed

end
