(* ===== verification/Validator_Run.thy ===== *)
theory Validator_Run
  imports Validator Feed_Views
begin

section \<open>What a validator's word is worth\<close>

text \<open>
  The step relation of a validator that is given any answers at all, and its invariant: the
  cursor stands where the pinned key signed, over messages that were served, and a verdict keeps
  its evidence. Then the answers of the sequencer itself, and the two running side by side.
\<close>

subsection \<open>Any answers\<close>

fun answer_size :: "poll_answer \<Rightarrow> nat" where
  "answer_size (Some (_, _, Some messages)) = length messages"
| "answer_size _ = 0"

inductive validator_run ::
  "(bytes \<Rightarrow> bytes) \<Rightarrow> (bytes \<Rightarrow> bool) \<Rightarrow> (bytes \<Rightarrow> bytes \<Rightarrow> bytes \<Rightarrow> bool) \<Rightarrow> validator_state \<Rightarrow> nat \<Rightarrow> validator_state \<Rightarrow> bool"
  for sha point strict v where
  vr_start: "validator_run sha point strict v 0 v"
| vr_poll: "validator_run sha point strict v n u \<Longrightarrow>
    validator_run sha point strict v (n + answer_size answer) (snd (poll sha point strict u answer))"
| vr_clear: "validator_run sha point strict v n u \<Longrightarrow> validator_run sha point strict v n (clear_dispute u)"

lemma first_gap_none:
  assumes "first_gap expected ms = None" and "expected + length ms \<le> u64_max + 1"
  shows "map rm_id ms = [expected ..< expected + length ms]"
  using assms
proof (induction expected ms rule: first_gap.induct)
  case (2 expected m ms)
  then show ?case
  proof (cases ms)
    case (Cons m' ms')
    then have "sat_add_u64 expected 1 = expected + 1" using "2.prems"(2) by (simp add: sat_add_u64_def)
    then show ?thesis using 2 upt_conv_Cons [of expected "expected + length (m # ms)"] by (simp split: if_splits del: upt_Suc)
  qed (auto split: if_splits)
qed simp

definition signed_by_pinned ::
  "(bytes \<Rightarrow> bool) \<Rightarrow> (bytes \<Rightarrow> bytes \<Rightarrow> bytes \<Rightarrow> bool) \<Rightarrow> validator_state \<Rightarrow> nat \<Rightarrow> bytes \<Rightarrow> bool" where
  "signed_by_pinned point strict v i chain \<longleftrightarrow>
     (\<exists>hex key session signature. va_feed_pubkey v = Some hex \<and> from_hex 32 hex = Some key \<and> point key \<and>
        va_session v = Some session \<and> verify_head strict key session i chain signature)"

definition backed :: "(bytes \<Rightarrow> bytes) \<Rightarrow> (bytes \<Rightarrow> bool) \<Rightarrow> (bytes \<Rightarrow> bytes \<Rightarrow> bytes \<Rightarrow> bool) \<Rightarrow> validator_state \<Rightarrow> bool" where
  "backed sha point strict v \<longleftrightarrow>
     (\<exists>js. length js = va_cursor v \<and> va_chain v = chain_of sha js) \<and>
     (0 < va_cursor v \<longrightarrow> signed_by_pinned point strict v (va_cursor v) (va_chain v)) \<and>
     (va_disputed v \<longrightarrow> (\<exists>i chain js. va_reason v = Some (i, chain, chain_of sha js) \<and> length js = i \<and> chain \<noteq> chain_of sha js \<and>
        signed_by_pinned point strict v i chain))"

lemma backed_open: "backed sha point strict (open_validator key)"
  by (simp add: backed_def open_validator_def chain_of_def)

lemma backed_counted: "backed sha point strict v \<Longrightarrow> backed sha point strict (snd (count_unchecked v why))"
  by (simp add: backed_def count_unchecked_def signed_by_pinned_def)

lemma chain_of_fold: "fold_chain sha (chain_of sha js) ms = chain_of sha (js @ map rm_bytes ms)"
  by (simp add: fold_chain_def chain_of_append)

lemma compare_served_backed:
  assumes "backed sha point strict v" and "\<not> va_disputed v" and "va_cursor v + length ms \<le> u64_max"
    and "signed_by_pinned point strict v (fh_last_id head) (fh_chain head)"
  shows "backed sha point strict (snd (compare_served sha v head ms)) \<and> va_cursor (snd (compare_served sha v head ms)) \<le> va_cursor v + length ms"
proof -
  obtain js where js: "length js = va_cursor v" "va_chain v = chain_of sha js" using assms(1) by (auto simp: backed_def)
  show ?thesis
  proof (cases "first_gap (sat_add_u64 (va_cursor v) 1) ms = None \<and> fh_last_id head = (if ms = [] then va_cursor v else rm_id (last ms))")
    case False
    then obtain why where "compare_served sha v head ms = count_unchecked v why"
      unfolding compare_served_def Let_def by (cases "first_gap (sat_add_u64 (va_cursor v) 1) ms") (fastforce split: if_splits)+
    then show ?thesis using backed_counted [OF assms(1)] by (simp add: count_unchecked_def)
  next
    case True
    have served: "(if ms = [] then va_cursor v else rm_id (last ms)) = va_cursor v + length ms"
    proof (cases ms rule: rev_cases)
      case (snoc ms' m)
      then have e: "sat_add_u64 (va_cursor v) 1 = va_cursor v + 1" using assms(3) by (simp add: sat_add_u64_def)
      have "map rm_id ms = [va_cursor v + 1 ..< va_cursor v + 1 + length ms]"
        using True first_gap_none [of "va_cursor v + 1" ms] assms(3) e by simp
      then have "last (map rm_id ms) = va_cursor v + length ms" using snoc by (simp add: last_upt)
      then show ?thesis using snoc by (simp add: last_map)
    qed simp
    have chain: "fold_chain sha (va_chain v) ms = chain_of sha (js @ map rm_bytes ms)" by (simp add: js(2) chain_of_fold)
    have "length (js @ map rm_bytes ms) = va_cursor v + length ms" by (simp add: js(1))
    then show ?thesis
      using True assms served chain js
      by (cases "chain_of sha (js @ map rm_bytes ms) = fh_chain head")
        (auto simp: compare_served_def Let_def dispute_def backed_def signed_by_pinned_def intro!: exI [of _ "js @ map rm_bytes ms"])
  qed
qed

lemma ingest_backed:
  assumes "backed sha point strict v" and "\<not> va_disputed v" and "va_cursor v + length ms \<le> u64_max"
  shows "backed sha point strict (snd (ingest sha point strict v session head ms)) \<and>
    va_cursor (snd (ingest sha point strict v session head ms)) \<le> va_cursor v + length ms"
proof (cases "\<exists>s h. session = Some s \<and> head = Some h \<and> (va_feed_pubkey v = None \<or> va_feed_pubkey v = Some (fh_public_key h)) \<and> head_verifies point strict s h")
  case False
  then show ?thesis using backed_counted [OF assms(1)]
    by (auto simp: ingest_def count_unchecked_def split: option.split)
next
  case True
  then obtain s h where sh: "session = Some s" "head = Some h" "va_feed_pubkey v = None \<or> va_feed_pubkey v = Some (fh_public_key h)"
    "head_verifies point strict s h" by blast
  let ?u = "take_session (v\<lparr>va_feed_pubkey := Some (fh_public_key h)\<rparr>) s"
  have kept: "signed_by_pinned point strict (v\<lparr>va_feed_pubkey := Some (fh_public_key h)\<rparr>) i c = signed_by_pinned point strict v i c"
    if "va_feed_pubkey v = Some (fh_public_key h)" for i c using that by (simp add: signed_by_pinned_def)
  have "signed_by_pinned point strict v i c \<Longrightarrow> va_feed_pubkey v = Some (fh_public_key h)" for i c
    using sh(3) by (auto simp: signed_by_pinned_def)
  then have u: "backed sha point strict ?u" "\<not> va_disputed ?u" "va_cursor ?u \<le> va_cursor v"
    using assms(1,2) kept by (auto simp: take_session_def backed_def chain_of_def)
  have "signed_by_pinned point strict ?u (fh_last_id h) (fh_chain h)"
    using sh(4) by (auto simp: signed_by_pinned_def take_session_def head_verifies_def split: option.splits)
  then have "backed sha point strict (snd (compare_served sha ?u h ms)) \<and> va_cursor (snd (compare_served sha ?u h ms)) \<le> va_cursor ?u + length ms"
    using compare_served_backed [OF u(1,2)] assms(3) u(3) by simp
  moreover have "ingest sha point strict v session head ms = compare_served sha ?u h ms"
    using sh by (auto simp: ingest_def)
  ultimately show ?thesis using u(3) by simp
qed

lemma poll_backed:
  assumes "backed sha point strict v" and "va_cursor v + answer_size answer \<le> u64_max"
  shows "backed sha point strict (snd (poll sha point strict v answer)) \<and>
    va_cursor (snd (poll sha point strict v answer)) \<le> va_cursor v + answer_size answer"
proof (cases "va_disputed v")
  case False
  consider "answer = None" | session head where "answer = Some (session, head, None)"
    | session head ms where "answer = Some (session, head, Some ms)" by (metis not_None_eq prod_cases3)
  then show ?thesis
  proof cases
    case 3
    then show ?thesis using False ingest_backed [OF assms(1) False] assms(2) by (simp add: poll_def)
  qed (use False backed_counted [OF assms(1)] in \<open>simp_all add: poll_def count_unchecked_def\<close>)
qed (use assms in \<open>simp add: poll_def\<close>)

lemma run_backed:
  assumes "validator_run sha point strict (open_validator key) n v" and "n \<le> u64_max"
  shows "backed sha point strict v \<and> va_cursor v \<le> n \<and> va_key v = key"
  using assms
proof (induction rule: validator_run.induct)
  case vr_start
  then show ?case using backed_open by (simp add: open_validator_def)
next
  case (vr_poll n u answer)
  then have u: "backed sha point strict u" "va_cursor u \<le> n" "va_key u = key" by simp_all
  have "va_key (snd (poll sha point strict u answer)) = key"
    using u(3) by (auto simp: poll_def ingest_def compare_served_def count_unchecked_def dispute_def take_session_def Let_def split: option.split)
  then show ?case using poll_backed [OF u(1), of answer] u(2) vr_poll.prems by simp
next
  case (vr_clear n u)
  then show ?case by (auto simp: clear_dispute_def backed_def signed_by_pinned_def)
qed

subsection \<open>The sequencer's own answers\<close>

definition served_answer :: "feed_env \<Rightarrow> feed_state \<Rightarrow> nat \<Rightarrow> poll_answer" where
  "served_answer fe s since =
     (case get_messages_ndjson fe s since None of
        Inl _ \<Rightarrow> Some (None, None, None)
      | Inr (head, body) \<Rightarrow>
          Some (Some (hd_session head), parse_signed_head head, result_ok (split_ndjson (fe_envelope fe) body)))"

definition serde_lines :: "feed_env \<Rightarrow> bool" where
  "serde_lines fe \<longleftrightarrow> (\<forall>m. plain_line (fe_to_vec fe m))"

text \<open>The lines of a page, read back: they are the messages after \<open>since\<close> with their ids.\<close>

lemma lines_of_page:
  assumes "serde_ok fe" and "serde_lines fe" and "entries_ok fe (since + 1) js"
  shows "\<exists>ms. split_ndjson (fe_envelope fe) (concat (map (\<lambda>m. pb_json m @ [newline]) (numbered_from (since + 1) js))) = Inr ms \<and>
    map rm_id ms = [since + 1 ..< since + 1 + length js] \<and> map rm_bytes ms = js"
proof -
  have jsons: "map (\<lambda>m. pb_json m @ [newline]) (numbered_from (since + 1) js) = map (\<lambda>j. j @ [newline]) js"
    by (rule nth_equalityI) (simp_all add: nth_numbered)
  define g where "g j = (case fe_envelope fe j of None \<Rightarrow> undefined | Some read \<Rightarrow> \<lparr>rm_id = me_id read, rm_kind = me_kind read, rm_bytes = j\<rparr>)" for j
  have entry: "\<exists>read. fe_envelope fe (js ! i) = Some read \<and> me_id read = since + 1 + i" if "i < length js" for i
    using assms(1,3) that unfolding entries_ok_def serde_ok_def by metis
  have plain: "plain_line j" and read: "raw_line (fe_envelope fe) j = Inr (g j)" if j: "j \<in> set js" for j
  proof -
    obtain i where i: "i < length js" "j = js ! i" using j by (auto simp: in_set_conv_nth)
    then show "plain_line j" using assms(2,3) unfolding entries_ok_def serde_lines_def by metis
    show "raw_line (fe_envelope fe) j = Inr (g j)" using entry [OF i(1)] i(2) by (auto simp: raw_line_def g_def)
  qed
  have "framed_lines (concat (map (\<lambda>j. j @ [newline]) js)) = map Inr js" by (rule framed_back) (use plain in blast)
  then have "split_ndjson (fe_envelope fe) (concat (map (\<lambda>j. j @ [newline]) js)) = Inr (map g js)"
    using read_lines_ok [of js "raw_line (fe_envelope fe)" g] read by (simp add: split_ndjson_def)
  moreover have "map rm_id (map g js) = [since + 1 ..< since + 1 + length js]"
  proof (rule nth_equalityI)
    fix i assume "i < length (map rm_id (map g js))"
    then show "map rm_id (map g js) ! i = [since + 1 ..< since + 1 + length js] ! i" using entry [of i] by (auto simp: g_def simp del: upt_Suc)
  qed (simp del: upt_Suc)
  moreover have "map rm_bytes (map g js) = js"
  proof (rule nth_equalityI)
    fix i assume "i < length (map rm_bytes (map g js))"
    then show "map rm_bytes (map g js) ! i = js ! i" using entry [of i] by (auto simp: g_def)
  qed simp
  ultimately show ?thesis unfolding jsons by blast
qed

lemma entries_drop: "entries_ok fe 1 hist \<Longrightarrow> entries_ok fe (since + 1) (take limit (drop since hist))"
  by (auto simp: entries_ok_def)

lemma get_messages_ok:
  assumes log: "log_ok fe s hist" and sha: "\<forall>x. length (fe_sha fe x) = HASH_SIZE" and since: "since \<le> length hist"
    and disk: "in_memory (fs_storage s) \<longrightarrow> length hist \<le> since + MESSAGE_WINDOW"
  defines "js \<equiv> take FEED_PAGE_LIMIT (drop since hist)"
  shows "get_messages_ndjson fe s since None = Inr (signed_head_at fe s (since + length js) (chain_of (fe_sha fe) (take since hist @ js)),
    concat (map (\<lambda>m. pb_json m @ [newline]) (numbered_from (since + 1) js)))"
proof -
  have ok: "feed_ok fe s hist" using log by (simp add: log_ok_def)
  have page: "page s since FEED_PAGE_LIMIT = Inr (page_of (fe_sha fe) hist since FEED_PAGE_LIMIT)" by (rule page_ok [OF ok sha disk])
  show ?thesis
  proof (cases "js = []")
    case True
    then have "since = length hist" using since by (auto simp: js_def FEED_PAGE_LIMIT_def)
    then show ?thesis using page True ok feed_last_id_ok [OF ok]
      by (simp add: get_messages_ndjson_def page_of_def js_def Let_def feed_ok_def)
  next
    case False
    then show ?thesis using page by (simp add: get_messages_ndjson_def page_of_def js_def [symmetric] Let_def)
  qed
qed

text \<open>The key a validator can pin.\<close>

definition public_ok :: "feed_env \<Rightarrow> bytes \<Rightarrow> bool" where
  "public_ok fe key \<longleftrightarrow> length (fe_public fe key) = 32 \<and> fe_point fe (fe_public fe key)"

lemma served_answer_ok:
  assumes log: "log_ok fe s hist" and serde: "serde_ok fe" "serde_lines fe" and sha: "\<forall>x. length (fe_sha fe x) = HASH_SIZE"
    and public: "public_ok fe (fs_key s)" and since: "since \<le> length hist"
    and disk: "in_memory (fs_storage s) \<longrightarrow> length hist \<le> since + MESSAGE_WINDOW"
  defines "js \<equiv> take FEED_PAGE_LIMIT (drop since hist)"
  shows "\<exists>head ms. served_answer fe s since = Some (Some (fs_session s), Some head, Some ms) \<and>
    fh_last_id head = since + length js \<and> fh_chain head = chain_of (fe_sha fe) (take since hist @ js) \<and>
    fh_public_key head = to_hex (fe_public fe (fs_key s)) \<and> head_verifies (fe_point fe) (fe_strict fe) (fs_session s) head \<and>
    map rm_id ms = [since + 1 ..< since + 1 + length js] \<and> map rm_bytes ms = js"
proof -
  have entries: "entries_ok fe (since + 1) js" unfolding js_def by (rule entries_drop) (use log in \<open>simp add: log_ok_def\<close>)
  obtain ms where ms: "split_ndjson (fe_envelope fe) (concat (map (\<lambda>m. pb_json m @ [newline]) (numbered_from (since + 1) js))) = Inr ms"
    "map rm_id ms = [since + 1 ..< since + 1 + length js]" "map rm_bytes ms = js"
    using lines_of_page [OF serde entries] by blast
  let ?chain = "chain_of (fe_sha fe) (take since hist @ js)" and ?i = "since + length js"
  let ?sig = "sign_head (fe_sign fe) (fs_key s) (fs_session s) ?i ?chain"
  let ?head = "\<lparr>fh_last_id = ?i, fh_chain = ?chain, fh_public_key = to_hex (fe_public fe (fs_key s)), fh_signature = ?sig\<rparr>"
  have sign: "length ?sig = 64" "fe_strict fe (fe_public fe (fs_key s)) (head_statement (fs_session s) ?i ?chain) ?sig"
    using log by (simp_all add: log_ok_def signing_ok_def sign_head_def)
  have "parse_signed_head (signed_head_at fe s ?i ?chain) = Some ?head"
    using chain_length [OF sha] sign(1) by (simp add: parse_signed_head_def signed_head_at_def from_hex_to_hex)
  then have "served_answer fe s since = Some (Some (fs_session s), Some ?head, Some ms)"
    using get_messages_ok [OF log sha since disk, folded js_def] ms(1) by (simp add: served_answer_def result_ok_def signed_head_at_def)
  moreover have "head_verifies (fe_point fe) (fe_strict fe) (fs_session s) ?head"
    using public sign(2) by (simp add: head_verifies_def public_ok_def from_hex_to_hex verify_head_def)
  ultimately show ?thesis using ms(2,3) by (intro exI [of _ ?head] exI [of _ ms]) simp
qed

subsection \<open>Side by side\<close>

inductive watched :: "feed_env \<Rightarrow> feed_state \<Rightarrow> bytes \<Rightarrow> nat \<Rightarrow> feed_state \<Rightarrow> validator_state \<Rightarrow> bool" for fe s0 key where
  watch_start: "watched fe s0 key 0 s0 (open_validator key)"
| watch_feed: "watched fe s0 key n s v \<Longrightarrow> event_fine s ev \<Longrightarrow> feed_step fe s ev = Some s' \<Longrightarrow> watched fe s0 key (n + event_size ev) s' v"
| watch_poll: "watched fe s0 key n s v \<Longrightarrow>
    watched fe s0 key n s (snd (poll (fe_sha fe) (fe_point fe) (fe_strict fe) v (served_answer fe s (va_cursor v))))"
| watch_lost: "watched fe s0 key n s v \<Longrightarrow> watched fe s0 key n s (snd (poll (fe_sha fe) (fe_point fe) (fe_strict fe) v None))"

definition in_step :: "feed_env \<Rightarrow> feed_state \<Rightarrow> bytes list \<Rightarrow> validator_state \<Rightarrow> bool" where
  "in_step fe s hist v \<longleftrightarrow> \<not> va_disputed v \<and> va_cursor v \<le> length hist \<and>
     va_chain v = chain_of (fe_sha fe) (take (va_cursor v) hist) \<and> (0 < va_cursor v \<longrightarrow> va_session v = Some (fs_session s)) \<and>
     (va_feed_pubkey v = None \<or> va_feed_pubkey v = Some (to_hex (fe_public fe (fs_key s))))"

lemma no_gap: "map rm_id ms = [e ..< e + length ms] \<Longrightarrow> e + length ms \<le> u64_max + 1 \<Longrightarrow> first_gap e ms = None"
proof (induction e ms rule: first_gap.induct)
  case (2 e m ms)
  then have id: "rm_id m = e" "map rm_id ms = [Suc e ..< Suc e + length ms]"
    using upt_conv_Cons [of e "e + length (m # ms)"] by (simp_all del: upt_Suc)
  show ?case
  proof (cases "ms = []")
    case False
    then have "sat_add_u64 e 1 = e + 1" using "2.prems"(2) by (cases ms) (simp_all add: sat_add_u64_def)
    then show ?thesis using 2 id by simp
  qed (simp add: id)
qed simp

lemma poll_in_step:
  assumes step: "in_step fe s hist v" and log: "log_ok fe s hist" and serde: "serde_ok fe" "serde_lines fe"
    and sha: "\<forall>x. length (fe_sha fe x) = HASH_SIZE" and public: "public_ok fe (fs_key s)"
    and disk: "in_memory (fs_storage s) \<longrightarrow> length hist \<le> va_cursor v + MESSAGE_WINDOW"
  shows "\<exists>v'. poll (fe_sha fe) (fe_point fe) (fe_strict fe) v (served_answer fe s (va_cursor v)) =
      (Some (Verified (min (length hist) (va_cursor v + FEED_PAGE_LIMIT))), v') \<and> in_step fe s hist v' \<and>
    va_cursor v' = min (length hist) (va_cursor v + FEED_PAGE_LIMIT) \<and> va_unchecked v' = 0 \<and> va_session v' = Some (fs_session s) \<and> va_key v' = va_key v"
proof -
  let ?c = "va_cursor v" and ?js = "take FEED_PAGE_LIMIT (drop (va_cursor v) hist)"
  have c: "?c \<le> length hist" "va_chain v = chain_of (fe_sha fe) (take ?c hist)" "\<not> va_disputed v" using step by (simp_all add: in_step_def)
  obtain head ms where a: "served_answer fe s ?c = Some (Some (fs_session s), Some head, Some ms)"
    "fh_last_id head = ?c + length ?js" "fh_chain head = chain_of (fe_sha fe) (take ?c hist @ ?js)"
    "fh_public_key head = to_hex (fe_public fe (fs_key s))" "head_verifies (fe_point fe) (fe_strict fe) (fs_session s) head"
    "map rm_id ms = [?c + 1 ..< ?c + 1 + length ?js]" "map rm_bytes ms = ?js"
    using served_answer_ok [OF log serde sha public c(1) disk] by blast
  define u where "u = take_session (v\<lparr>va_feed_pubkey := Some (fh_public_key head)\<rparr>) (fs_session s)"
  have u: "va_cursor u = ?c" "va_chain u = va_chain v" "\<not> va_disputed u" "va_session u = Some (fs_session s)"
    "va_feed_pubkey u = Some (to_hex (fe_public fe (fs_key s)))" "va_key u = va_key v"
    using step a(4) by (auto simp: u_def take_session_def in_step_def chain_of_def)
  have len: "length ms = length ?js" using a(7) by (metis length_map)
  have few: "?c + 1 + length ?js \<le> u64_max" using log c(1) by (auto simp: log_ok_def feed_ok_def u64_max_def)
  have "sat_add_u64 ?c 1 = ?c + 1" using few by (simp add: sat_add_u64_def)
  moreover have "first_gap (?c + 1) ms = None" by (rule no_gap) (use a(6) len few in simp_all)
  moreover have "(if ms = [] then ?c else rm_id (last ms)) = ?c + length ?js"
  proof (cases "ms = []")
    case False
    then have "0 < length ms" by simp
    then have "?c + 1 < ?c + 1 + length ?js" unfolding len by linarith
    from last_upt [OF this] have "last (map rm_id ms) = ?c + length ?js" unfolding a(6) by simp
    then show ?thesis using False by (simp add: last_map)
  qed (use len in simp)
  moreover have "fold_chain (fe_sha fe) (va_chain v) ms = chain_of (fe_sha fe) (take ?c hist @ ?js)"
    unfolding c(2) chain_of_fold a(7) ..
  ultimately have served: "compare_served (fe_sha fe) u head ms =
      (Verified (?c + length ?js), u\<lparr>va_chain := chain_of (fe_sha fe) (take ?c hist @ ?js), va_cursor := ?c + length ?js, va_unchecked := 0\<rparr>)"
    unfolding compare_served_def u(1,2) Let_def a(2,3) by simp
  have "ingest (fe_sha fe) (fe_point fe) (fe_strict fe) v (Some (fs_session s)) (Some head) ms = compare_served (fe_sha fe) u head ms"
    using step a(4,5) by (auto simp: ingest_def in_step_def u_def)
  moreover have reached: "?c + length ?js = min (length hist) (?c + FEED_PAGE_LIMIT)" "take ?c hist @ ?js = take (?c + length ?js) hist"
    using c(1) by (auto simp: min_def take_add [symmetric])
  ultimately show ?thesis
    using served a(1) c(3) u unfolding reached by (simp add: poll_def in_step_def)
qed

lemma watched_in_step:
  assumes "watched fe s0 key n s v" and "feed_started fe s0" and "serde_ok fe" and "serde_lines fe"
    and "\<forall>x. length (fe_sha fe x) = HASH_SIZE" and "signing_ok fe (fs_key s0)" and "public_ok fe (fs_key s0)"
    and "\<not> in_memory (fs_storage s0)" and "n \<le> 2 ^ 63"
  shows "\<exists>hist. log_ok fe s hist \<and> length hist \<le> n \<and> in_step fe s hist v \<and> fs_key s = fs_key s0 \<and> \<not> in_memory (fs_storage s)"
  using assms(1,9)
proof (induction rule: watched.induct)
  case watch_start
  then show ?case using started_ok [OF assms(2,6)] assms(8)
    by (intro exI [of _ "[]"]) (simp add: in_step_def open_validator_def chain_of_def)
next
  case (watch_feed n s v ev s')
  then obtain hist where h: "log_ok fe s hist" "length hist \<le> n" "in_step fe s hist v" "fs_key s = fs_key s0" "\<not> in_memory (fs_storage s)"
    by auto
  obtain js where js: "log_ok fe s' (hist @ js)" "same_log s hist s'" "length js \<le> event_size ev"
    using life_step_ok [OF h(1) assms(3,5) watch_feed.hyps(2)] watch_feed.hyps(3) watch_feed.prems h(2) by fastforce
  have "0 < va_cursor v \<Longrightarrow> fs_session s' = fs_session s" using h(3) js(2) by (auto simp: in_step_def same_log_def)
  then show ?case using h js by (intro exI [of _ "hist @ js"]) (auto simp: in_step_def same_log_def)
next
  case (watch_poll n s v)
  then obtain hist where h: "log_ok fe s hist" "length hist \<le> n" "in_step fe s hist v" "fs_key s = fs_key s0" "\<not> in_memory (fs_storage s)"
    by auto
  have "public_ok fe (fs_key s)" using assms(7) h(4) by simp
  then obtain v' where "snd (poll (fe_sha fe) (fe_point fe) (fe_strict fe) v (served_answer fe s (va_cursor v))) = v'" "in_step fe s hist v'"
    using poll_in_step [OF h(3,1) assms(3,4,5)] h(5) by fastforce
  then show ?case using h by auto
next
  case (watch_lost n s v)
  then show ?case by (auto simp: poll_def count_unchecked_def in_step_def)
qed

end
