(* ===== verification/Feed_Demo.thy ===== *)
theory Feed_Demo
  imports Validator_Run Inbox_Properties
begin

section \<open>A small sequencer\<close>

text \<open>
  One environment and one published submission, in memory and on disk, for the witnesses of the
  sequencer's properties. Its serde writes a message's id, account and nonce and reads them back.
\<close>

definition bar :: char where "bar = CHR ''|''"

definition demo_bytes :: "order_message \<Rightarrow> bytes" where
  "demo_bytes m = replicate (msg_id m) CHR ''i'' @ bar # replicate (msg_account m) CHR ''a'' @ bar #
     (case msg_nonce m of None \<Rightarrow> [] | Some n \<Rightarrow> bar # to_hex n)"

definition demo_envelope :: "bytes \<Rightarrow> message_envelope option" where
  "demo_envelope bs =
     (let i = takeWhile (\<lambda>c. c \<noteq> bar) bs; r = drop (length i + 1) bs;
          a = takeWhile (\<lambda>c. c \<noteq> bar) r; t = drop (length a + 1) r
      in Some \<lparr>me_kind = ''Cancel'', me_id = length i, me_account = Some (length a),
           me_nonce = (case t of [] \<Rightarrow> None | _ # n \<Rightarrow> from_hex (length n div 2) n)\<rparr>)"

definition demo_feed :: feed_env where
  "demo_feed = \<lparr>fe_sha = pad_hash, fe_sign = (\<lambda>_ _. replicate 64 (char_of (5 :: nat))),
     fe_public = (\<lambda>_. replicate 32 (char_of (6 :: nat))), fe_point = (\<lambda>_. True), fe_strict = (\<lambda>_ _ _. True),
     fe_to_vec = demo_bytes, fe_parse = (\<lambda>_. None), fe_envelope = demo_envelope\<rparr>"

lemma takeWhile_to_bar: "bar \<notin> set xs \<Longrightarrow> takeWhile (\<lambda>c. c \<noteq> bar) (xs @ bar # ys) = xs"
  by (induction xs) auto

lemma demo_serde: "serde_ok demo_feed" "reads_back demo_feed" "signing_ok demo_feed key" "\<forall>x. length (fe_sha demo_feed x) = HASH_SIZE"
proof -
  have "\<exists>env. demo_envelope (demo_bytes m) = Some env \<and> me_id env = msg_id m \<and> me_account env = Some (msg_account m) \<and>
    me_nonce env = msg_nonce m" for m
    by (auto simp: demo_envelope_def demo_bytes_def Let_def takeWhile_to_bar bar_def [symmetric] from_hex_to_hex [OF refl] split: option.split)
      (simp_all add: bar_def takeWhile_to_bar [unfolded bar_def] from_hex_to_hex [OF refl])
  then show "serde_ok demo_feed" by (simp add: serde_ok_def demo_feed_def)
qed (simp_all add: demo_feed_def reads_back_def signing_ok_def pad_hash_length)

lemma hex_is_plain: "c \<in> set (to_hex bs) \<Longrightarrow> \<not> ascii_space c"
proof -
  have digit: "\<not> ascii_space (hex_digit d)" if "d < 16" for d
    using that by (simp add: ascii_space_def hex_digit_code)
  have "(of_char b :: nat) div 16 < 16" for b by (simp add: less_mult_imp_div_less)
  then show "\<not> ascii_space c" if "c \<in> set (to_hex bs)" using that digit by (auto simp: to_hex_def)
qed

lemma demo_lines: "serde_lines demo_feed" "public_ok demo_feed key"
proof -
  have bar: "\<not> ascii_space bar" by (simp add: bar_def ascii_space_def)
  have nl: "ascii_space newline" by (simp add: newline_def ascii_space_def)
  have letters: "\<not> ascii_space CHR ''i''" "\<not> ascii_space CHR ''a''" by (simp_all add: ascii_space_def)
  have "\<not> ascii_space c" if "c \<in> set (demo_bytes m)" for c m
    using that bar letters hex_is_plain by (auto simp: demo_bytes_def split: option.splits if_splits)
  moreover have "demo_bytes m \<noteq> []" for m by (simp add: demo_bytes_def)
  ultimately have "plain_line (demo_bytes m)" for m
    using nl unfolding plain_line_def by (metis hd_in_set last_in_set)
  then show "serde_lines demo_feed" by (simp add: serde_lines_def demo_feed_def)
qed (simp add: public_ok_def demo_feed_def)

definition demo_start :: "storage \<Rightarrow> feed_state" where
  "demo_start st = (feed_new ''k'' demo_session)\<lparr>fs_storage := st\<rparr>"

abbreviation demo_file :: storage where
  "demo_file \<equiv> Disk empty_feed_db 0"

lemma demo_started: "st = Memory [] \<or> st = demo_file \<Longrightarrow> feed_started demo_feed (demo_start st)"
proof -
  have same: "demo_start st = configured None [] (demo_start st)" for st by (simp add: demo_start_def configured_def feed_new_def)
  have mem: "demo_start (Memory []) = feed_new ''k'' demo_session" by (simp add: demo_start_def feed_new_def)
  have "with_db demo_feed ''k'' default_retention demo_session True empty_feed_db = Some (Inr (demo_start demo_file), empty_feed_db)"
    by (simp add: with_db_def empty_feed_db_def restart_begin_def history_verdict_def restart_tree_def check_root_def
        restart_state_def demo_start_def feed_new_def Let_def retention_validate_def default_retention_def require_def)
  then show "feed_started demo_feed (demo_start st)" if "st = Memory [] \<or> st = demo_file"
    using that same mem unfolding feed_started_def by metis
qed

abbreviation demo_caller :: caller where
  "demo_caller \<equiv> \<lparr>cl_peer = V4 1, cl_forwarded = None\<rparr>"

text \<open>What a restart with the default limits has room for.\<close>

definition roomy :: "feed_state \<Rightarrow> bool" where
  "roomy s \<longleftrightarrow> length (fs_nonces s) \<le> 1 \<and> length (fs_accounts s) \<le> 1 \<and> fs_inbox_sequenced s = []"

lemma demo_reaches_log:
  assumes "st = Memory [] \<or> st = demo_file"
  defines "msg \<equiv> \<lambda>i. message_from i 5 (ss_submission demo_sent)"
  obtains s2 where "\<And>commits. feed_submit demo_feed True commits (demo_start st) demo_caller 0 5 demo_sent = publish_next demo_feed commits s2 msg"
    and "feed_ok demo_feed s2 []" and "check_retention_growth s2 1 1 0 = Inr ()" and "fs_nonces s2 = []" and "fs_inbox_sequenced s2 = []"
    and "in_memory (fs_storage s2) = in_memory st" and "length (fs_accounts s2) \<le> 1"
proof -
  let ?key = "replicate 32 (char_of (3 :: nat))" and ?nonce = "replicate 16 (char_of (1 :: nat))"
  have ok: "feed_ok demo_feed (demo_start st) []" using started_ok [OF demo_started [OF assms(1)]] demo_serde(3) by (simp add: log_ok_def)
  obtain lim where l: "limiter_allow (fs_limiter (demo_start st)) (client_ip demo_caller (fs_proxies (demo_start st))) 0 = (True, lim)"
    by (simp add: demo_start_def feed_new_def client_ip_def proxies_contain_def limiter_allow_def SUBMIT_WINDOW_def SUBMIT_BURST_def)
  define s1 where "s1 = (demo_start st)\<lparr>fs_limiter := lim\<rparr>"
  have s1: "feed_ok demo_feed s1 []" "fs_nonces s1 = []" "fs_limits s1 = default_retention" "fs_inbox_sequenced s1 = []" "fs_accounts s1 = []"
    "fs_operator_key s1 = None" "fs_session s1 = demo_session" "fs_storage s1 = st"
    using ok by (simp_all add: s1_def) (simp_all add: demo_start_def feed_new_def)
  have who: "account_of (ss_submission demo_sent) = 1" by (simp add: demo_sent_def)
  obtain s2 where s2: "feed_pin_or_check s1 True 1 ?key = Inr s2"
    using assms(1) s1 by (auto simp: feed_pin_or_check_def check_account_key_def Let_def default_retention_def empty_feed_db_def)
  have ok2: "feed_ok demo_feed s2 []" "fs_limits s2 = default_retention" "fs_nonces s2 = []" "fs_inbox_sequenced s2 = []"
    "in_memory (fs_storage s2) = in_memory st" "storage_leaves (fs_storage s2) = 0"
    using feed_pin_ok [OF s2 s1(1)] s1 feed_tree_size_ok [OF s1(1)] by (simp_all add: demo_feed_def)
  have room: "check_retention_growth s2 1 1 0 = Inr ()" by (simp add: check_retention_growth_def ok2 default_retention_def)
  have "checked_nonce (ss_submission demo_sent) = Inr ?nonce"
    using demo_texts(1) by (simp add: checked_nonce_def demo_sent_def ok_or_def)
  moreover have "verify_account_signature (fe_point demo_feed) (fe_strict demo_feed) demo_sent = Inr ?key"
    using demo_signed by (simp add: demo_world_def demo_feed_def)
  moreover have "check_session demo_session (ss_submission demo_sent) = Inr ()"
    using demo_texts(2) by (simp add: check_session_def checked_session_def demo_sent_def)
  moreover have "log_is_open s1" using s1 by (simp add: log_is_open_def)
  ultimately have "feed_submit demo_feed True commits (demo_start st) demo_caller 0 5 demo_sent = publish_next demo_feed commits s2 msg" for commits
    using s2 s1 room ok2(3) by (simp add: feed_submit_def submit_locked_def demo_validates l s1_def [symmetric] who msg_def Let_def)
  moreover have "length (fs_accounts s2) \<le> 1"
    using s2 s1(5,8) assms(1) by (auto simp: feed_pin_or_check_def check_account_key_def Let_def split: if_splits storage.splits)
  ultimately show thesis using that ok2 room by blast
qed

lemma demo_accepted:
  assumes "st = Memory [] \<or> st = demo_file"
  shows "\<exists>rc s. feed_submit demo_feed True True (demo_start st) demo_caller 0 5 demo_sent = Some (Inr rc, s) \<and> rc_id rc = 1 \<and>
    feed_last_id s = 1 \<and> in_memory (fs_storage s) = in_memory st \<and> roomy s"
proof -
  let ?msg = "\<lambda>i. message_from i 5 (ss_submission demo_sent)"
  obtain s2 where s2: "feed_submit demo_feed True True (demo_start st) demo_caller 0 5 demo_sent = publish_next demo_feed True s2 ?msg"
    "feed_ok demo_feed s2 []" "check_retention_growth s2 1 1 0 = Inr ()" "fs_nonces s2 = []" "fs_inbox_sequenced s2 = []"
    "in_memory (fs_storage s2) = in_memory st" "length (fs_accounts s2) \<le> 1"
    using demo_reaches_log [OF assms] by metis
  obtain s3 where s3: "publish_next demo_feed True s2 ?msg = Some (Inr \<lparr>rc_id = 1,
        rc_head = signed_head_at demo_feed s3 1 (chain_of (fe_sha demo_feed) [fe_to_vec demo_feed (?msg 1)])\<rparr>, s3)"
      "feed_ok demo_feed s3 [fe_to_vec demo_feed (?msg 1)]" "feed_kept s2 s3" "fs_inbox_sequenced s3 = []"
    using publish_next_ok [OF s2(2) demo_serde(1,4) s2(3), where msg = ?msg and commits = True] by (auto simp: s2)
  have "nonces_ok demo_feed (fs_nonces s3) [fe_to_vec demo_feed (?msg 1)]" using s3(2) unfolding feed_ok_def by blast
  from nonces_count [OF this] have "length (fs_nonces s3) \<le> 1" by (simp add: log_nonces_def map_filter_def)
  then show ?thesis using s2 s3 feed_last_id_ok [OF s3(2)] by (auto simp: feed_kept_def roomy_def)
qed

text \<open>The same request when SQLite does not commit.\<close>

lemma demo_unwritten:
  "\<exists>u. feed_submit demo_feed True False (demo_start demo_file) demo_caller 0 5 demo_sent = Some (Inl (NotWritten (StoreError SqlFault)), u)"
proof -
  let ?msg = "\<lambda>i. message_from i 5 (ss_submission demo_sent)"
  obtain s2 where s2: "feed_submit demo_feed True False (demo_start demo_file) demo_caller 0 5 demo_sent = publish_next demo_feed False s2 ?msg"
    "feed_ok demo_feed s2 []" "check_retention_growth s2 1 1 0 = Inr ()" "fs_nonces s2 = []" "in_memory (fs_storage s2) = in_memory demo_file"
    by (rule demo_reaches_log [of demo_file]) auto
  then show ?thesis
    using publish_next_ok [OF s2(2) demo_serde(1,4) s2(3), where msg = ?msg and commits = False] by auto
qed

end
