(* ===== verification/Feed_Properties.thy ===== *)
theory Feed_Properties
  imports Feed_Demo
begin

section \<open>Sequencer properties\<close>

text \<open>
  What the sequencer of services/src/feed.rs promises along every life, whatever requests,
  bursts, inbox pages and restarts it is made of. Asked of the world: the hash answers 32 bytes,
  serde reads back the id, the account and the nonce it wrote, and the sequencer's own signatures
  verify. A life's number counts the messages it was offered; 2^63 is where SQLite's ids end.
\<close>

definition serves :: "feed_env \<Rightarrow> feed_state \<Rightarrow> bytes list \<Rightarrow> bool" where
  "serves fe s hist \<longleftrightarrow>
     feed_head fe s = signed_head_at fe s (length hist) (chain_of (fe_sha fe) hist) \<and>
     feed_tree_root fe s = Inr (log_hash (fe_sha fe) hist) \<and>
     (\<forall>i < length hist. \<exists>path. feed_inclusion_proof fe s i (length hist) = Inr (map to_hex path) \<and>
        verify_entry_inclusion (fe_sha fe) i (length hist) (hist ! i) path (log_hash (fe_sha fe) hist)) \<and>
     (\<forall>i json. stored_json s i = Some json \<longrightarrow> 0 < i \<and> i \<le> length hist \<and> json = hist ! (i - 1))"

lemma serves_log:
  assumes "feed_ok fe s hist" and "\<forall>x. length (fe_sha fe x) = HASH_SIZE"
  shows "serves fe s hist"
  using feed_head_ok [OF assms(1)] feed_root_ok [OF assms] feed_member_ok [OF assms] stored_json_ok [OF assms(1)]
  by (auto simp: serves_def split: if_splits)

lemma life_log:
  assumes "feed_started fe s0" and "serde_ok fe" and "\<forall>x. length (fe_sha fe x) = HASH_SIZE"
    and "signing_ok fe (fs_key s0)" and "feed_life fe s0 n s" and "n \<le> 2 ^ 63"
  shows "\<exists>hist. log_ok fe s hist \<and> length hist \<le> n \<and> fs_key s = fs_key s0"
  using feed_life_ok [OF assms(5) started_ok [OF assms(1,4)] assms(2,3)] assms(6) by (auto simp: same_log_def)

text \<open>C6: The log of a sequencer is append-only through restarts: what it serves at any moment is one
  list of messages, and what it serves later is that list with messages added at its end, which
  its own consistency proof shows to anyone holding the two roots.\<close>

theorem log_is_append_only:
  assumes "feed_started fe s0" and "serde_ok fe" and "\<forall>x. length (fe_sha fe x) = HASH_SIZE" and "signing_ok fe (fs_key s0)"
    and "feed_life fe s0 m s1" and "feed_life fe s1 n s2" and "m + n \<le> 2 ^ 63"
  shows "\<exists>hist added. serves fe s1 hist \<and> serves fe s2 (hist @ added) \<and> fs_key s2 = fs_key s1 \<and>
    (hist \<noteq> [] \<longrightarrow> fs_session s2 = fs_session s1) \<and>
    (\<exists>path. feed_consistency_proof fe s2 (length hist) (length (hist @ added)) = Inr (map to_hex path) \<and>
       verify_consistency (fe_sha fe) (length hist) (length (hist @ added)) (log_hash (fe_sha fe) hist)
         (log_hash (fe_sha fe) (hist @ added)) path)"
proof -
  obtain hist where h: "log_ok fe s1 hist" "length hist \<le> m" using life_log [OF assms(1-5)] assms(7) by auto
  then obtain added where a: "log_ok fe s2 (hist @ added)" "same_log s1 hist s2"
    using feed_life_ok [OF assms(6) h(1) assms(2,3)] assms(7) by auto
  have ok: "feed_ok fe s1 hist" "feed_ok fe s2 (hist @ added)" using h(1) a(1) by (simp_all add: log_ok_def)
  have "\<exists>path. feed_consistency_proof fe s2 (length hist) (length (hist @ added)) = Inr (map to_hex path) \<and>
       verify_consistency (fe_sha fe) (length hist) (length (hist @ added)) (log_hash (fe_sha fe) hist)
         (log_hash (fe_sha fe) (hist @ added)) path"
    using feed_growth_ok [OF ok(2) assms(3), of "length hist" "length (hist @ added)"] by simp
  then show ?thesis
    using serves_log [OF ok(1) assms(3)] serves_log [OF ok(2) assms(3)] a(2) unfolding same_log_def by blast
qed

lemma demo_lives:
  assumes "st = Memory [] \<or> st = demo_file"
  obtains rc s where "feed_life demo_feed (demo_start st) 1 s" and "feed_last_id s = 1" and "rc_id rc = 1"
    and "feed_submit demo_feed True True (demo_start st) demo_caller 0 5 demo_sent = Some (Inr rc, s)"
    and "in_memory (fs_storage s) = in_memory st" and "roomy s"
proof -
  obtain rc s where s: "feed_submit demo_feed True True (demo_start st) demo_caller 0 5 demo_sent = Some (Inr rc, s)"
    "rc_id rc = 1" "feed_last_id s = 1" "in_memory (fs_storage s) = in_memory st" "roomy s"
    using demo_accepted [OF assms] by blast
  have "feed_life demo_feed (demo_start st) (0 + event_size (UserAsked True True demo_caller 0 5 demo_sent)) s"
    by (rule life_step [OF life_start]) (use s(1) in simp_all)
  then show thesis using that s by simp
qed

theorem log_is_append_only_witness:
  "\<exists>s2 hist added. feed_last_id s2 = 1 \<and> serves demo_feed (demo_start demo_file) hist \<and> serves demo_feed s2 (hist @ added) \<and>
    (\<exists>path. feed_consistency_proof demo_feed s2 (length hist) (length (hist @ added)) = Inr (map to_hex path))"
proof -
  obtain rc s2 where s2: "feed_life demo_feed (demo_start demo_file) 1 s2" "feed_last_id s2 = 1" by (rule demo_lives [of demo_file]) simp
  have room: "0 + 1 \<le> (2 ^ 63 :: nat)" by simp
  show ?thesis
    using log_is_append_only [OF demo_started demo_serde(1,4,3) life_start s2(1) room] s2(2) by blast
qed



lemma submit_accepted:
  assumes "feed_submit fe pins commits s c instant now sent = Some (Inr rc, u)"
  obtains key nonce s1 s2 where "verify_account_signature (fe_point fe) (fe_strict fe) sent = Inr key"
    and "checked_nonce (ss_submission sent) = Inr nonce" and "check_session (fs_session s) (ss_submission sent) = Inr ()"
    and "s1 = s\<lparr>fs_limiter := fs_limiter s1\<rparr>" and "feed_pin_or_check s1 pins (account_of (ss_submission sent)) key = Inr s2"
    and "map_of (fs_nonces s2) (account_of (ss_submission sent), nonce) = None" and "check_retention_growth s2 1 1 0 = Inr ()"
    and "publish_next fe commits s2 (\<lambda>i. message_from i now (ss_submission sent)) = Some (Inr rc, u)"
proof -
  let ?sub = "ss_submission sent"
  obtain key nonce where k: "verify_account_signature (fe_point fe) (fe_strict fe) sent = Inr key" "checked_nonce ?sub = Inr nonce"
    "submit_locked fe pins commits s c instant now ?sub key nonce = Some (Inr rc, u)"
    using assms by (auto simp: feed_submit_def split: sum.splits prod.splits)
  obtain allowed limiter where l: "limiter_allow (fs_limiter s) (client_ip c (fs_proxies s)) instant = (allowed, limiter)" by fastforce
  define s1 where "s1 = s\<lparr>fs_limiter := limiter\<rparr>"
  obtain s2 where s2: "check_session (fs_session s) ?sub = Inr ()" "feed_pin_or_check s1 pins (account_of ?sub) key = Inr s2"
    "map_of (fs_nonces s2) (account_of ?sub, nonce) = None" "check_retention_growth s2 1 1 0 = Inr ()"
    "publish_next fe commits s2 (\<lambda>i. message_from i now ?sub) = Some (Inr rc, u)"
    using k(3) by (auto simp: submit_locked_def l s1_def [symmetric] Let_def split: if_splits sum.splits option.splits)
      (auto simp: s1_def)
  show thesis by (rule that [OF k(1,2) s2(1) _ s2(2-5)]) (simp add: s1_def)
qed

lemma accepted_log:
  assumes "feed_submit fe pins commits s c instant now sent = Some (Inr rc, u)" and "feed_ok fe s hist" and "serde_ok fe"
    and "\<forall>x. length (fe_sha fe x) = HASH_SIZE" and "length hist < 2 ^ 63"
  obtains key nonce where "verify_account_signature (fe_point fe) (fe_strict fe) sent = Inr key"
    and "checked_nonce (ss_submission sent) = Inr nonce" and "map_of (fs_nonces s) (account_of (ss_submission sent), nonce) = None"
    and "rc = \<lparr>rc_id = length hist + 1, rc_head = feed_head fe u\<rparr>"
    and "feed_ok fe u (hist @ [fe_to_vec fe (message_from (length hist + 1) now (ss_submission sent))])"
    and "feed_still s u" and "map_of (fs_accounts u) (account_of (ss_submission sent)) = Some key"
proof -
  let ?sub = "ss_submission sent"
  obtain key nonce s1 s2 where a: "verify_account_signature (fe_point fe) (fe_strict fe) sent = Inr key"
    "checked_nonce ?sub = Inr nonce" "check_session (fs_session s) ?sub = Inr ()"
    "s1 = s\<lparr>fs_limiter := fs_limiter s1\<rparr>" "feed_pin_or_check s1 pins (account_of ?sub) key = Inr s2"
    "map_of (fs_nonces s2) (account_of ?sub, nonce) = None" "check_retention_growth s2 1 1 0 = Inr ()"
    "publish_next fe commits s2 (\<lambda>i. message_from i now ?sub) = Some (Inr rc, u)"
    using submit_accepted [OF assms(1)] by metis
  have "feed_ok fe (s\<lparr>fs_limiter := fs_limiter s1\<rparr>) hist" "feed_still s (s\<lparr>fs_limiter := fs_limiter s1\<rparr>)"
    using assms(2) by (simp_all add: feed_still_def)
  then have s1: "feed_ok fe s1 hist" "feed_still s s1" unfolding a(4) [symmetric] by blast+
  have same: "fs_nonces s1 = fs_nonces s" by (subst a(4)) simp
  note pin = feed_pin_ok [OF a(5) s1(1) verified_key [OF a(1)]]
  have s2: "feed_ok fe s2 hist" "feed_still s s2" using pin feed_still_trans [OF s1(2) pin_still [OF a(5)]] by blast+
  let ?msg = "\<lambda>i. message_from i now ?sub"
  have "\<forall>i x. message_nonce (?msg i) = Some x \<longrightarrow> map_of (fs_nonces s2) x = None"
    using checked_message_nonce [OF a(2)] a(6) by simp
  note pub = publish_next_ok [OF s2(1) assms(3,4) a(7), where msg = ?msg and commits = commits, OF _ this assms(5)]
  have u: "rc = \<lparr>rc_id = length hist + 1, rc_head = signed_head_at fe u (length hist + 1)
        (chain_of (fe_sha fe) (hist @ [fe_to_vec fe (?msg (length hist + 1))]))\<rparr>"
    "feed_ok fe u (hist @ [fe_to_vec fe (?msg (length hist + 1))])" "feed_kept s2 u" "fs_inbox_sequenced u = fs_inbox_sequenced s2"
    using pub a(8) by (auto split: if_splits)
  then have still: "feed_still s2 u" by (intro kept_still) simp_all
  have head: "rc = \<lparr>rc_id = length hist + 1, rc_head = feed_head fe u\<rparr>" using u(1) feed_head_ok [OF u(2)] by simp
  have acc: "map_of (fs_accounts u) (account_of ?sub) = Some key" using pin u(3) by (simp add: feed_kept_def)
  have fresh: "map_of (fs_nonces s) (account_of ?sub, nonce) = None" using a(6) pin same by simp
  show thesis by (rule that [OF a(1,2) fresh head u(2) feed_still_trans [OF s2(2) still] acc])
qed

text \<open>C19: A receipt is worth what it says: the user's message is in the log, byte for byte, at
  the id of the receipt, which is the next one, under the key pinned for its account; the receipt carries
  the head signed over the log that ends with it, and the nonce, free before, is spent by it.\<close>

theorem receipts_name_messages:
  assumes "feed_started fe s0" and "serde_ok fe" and "\<forall>x. length (fe_sha fe x) = HASH_SIZE" and "signing_ok fe (fs_key s0)"
    and "feed_life fe s0 n s" and "n < 2 ^ 63"
    and "feed_submit fe pins commits s c instant now sent = Some (Inr rc, u)"
  defines "sub \<equiv> ss_submission sent"
  shows "rc_id rc = feed_last_id s + 1 \<and> stored_json u (rc_id rc) = Some (fe_to_vec fe (message_from (rc_id rc) now sub)) \<and>
    rc_head rc = feed_head fe u \<and> hd_last_id (rc_head rc) = rc_id rc \<and>
    (\<exists>chain signature. hd_chain (rc_head rc) = to_hex chain \<and> hd_signature (rc_head rc) = to_hex signature \<and>
       chain = extend_bytes (fe_sha fe) (fs_chain s) (fe_to_vec fe (message_from (rc_id rc) now sub)) \<and>
       verify_head (fe_strict fe) (fe_public fe (fs_key s)) (fs_session s) (rc_id rc) chain signature) \<and>
    (\<exists>key nonce. verify_account_signature (fe_point fe) (fe_strict fe) sent = Inr key \<and>
       map_of (fs_accounts u) (account_of sub) = Some key \<and> checked_nonce sub = Inr nonce \<and>
       map_of (fs_nonces s) (account_of sub, nonce) = None \<and> map_of (fs_nonces u) (account_of sub, nonce) = Some (rc_id rc))"
proof -
  obtain hist where h: "feed_ok fe s hist" "length hist \<le> n" "fs_key s = fs_key s0"
    using life_log [OF assms(1-5)] assms(6) by (auto simp: log_ok_def)
  have room: "length hist < 2 ^ 63" using h(2) assms(6) by simp
  let ?i = "length hist + 1"
  let ?json = "fe_to_vec fe (message_from ?i now sub)"
  obtain key nonce where a: "verify_account_signature (fe_point fe) (fe_strict fe) sent = Inr key" "checked_nonce sub = Inr nonce"
    "map_of (fs_nonces s) (account_of sub, nonce) = None" "rc = \<lparr>rc_id = ?i, rc_head = feed_head fe u\<rparr>"
    "feed_ok fe u (hist @ [?json])" "feed_still s u" "map_of (fs_accounts u) (account_of sub) = Some key"
    using accepted_log [OF assms(7) h(1) assms(2,3) room] unfolding sub_def by metis
  have stored: "stored_json u ?i = Some ?json" using stored_json_ok [OF a(5), of ?i] by (simp add: MESSAGE_WINDOW_def)
  have "entry_nonce fe ?json = Some (account_of sub, nonce)"
    using entry_nonce_message [OF assms(2)] checked_message_nonce [OF a(2)] by simp
  moreover have "nonces_ok fe (fs_nonces u) (hist @ [?json])" using a(5) unfolding feed_ok_def by blast
  ultimately have spent: "map_of (fs_nonces u) (account_of sub, nonce) = Some ?i" by (simp add: nonces_okD)
  let ?chain = "chain_of (fe_sha fe) (hist @ [?json])"
  have who: "fs_key u = fs_key s" "fs_session u = fs_session s" using a(6) by (simp_all add: feed_still_def)
  have "signing_ok fe (fs_key s)" using assms(4) h(3) by simp
  then have signed_head: "verify_head (fe_strict fe) (fe_public fe (fs_key s)) (fs_session s) ?i ?chain (sign_head (fe_sign fe) (fs_key s) (fs_session s) ?i ?chain)"
    by (simp add: signing_ok_def verify_head_def sign_head_def)
  have head: "feed_head fe u = signed_head_at fe u ?i ?chain" using feed_head_ok [OF a(5)] by simp
  have chain: "?chain = extend_bytes (fe_sha fe) (fs_chain s) ?json" using h(1) by (simp add: chain_of_append feed_ok_def)
  show ?thesis
    unfolding a(4) receipt.simps feed_last_id_ok [OF h(1)]
    using stored head signed_head chain a(1-3,7) spent who by (simp add: signed_head_at_def)
qed

theorem receipts_name_messages_witness:
  "\<exists>rc u. feed_submit demo_feed True True (demo_start demo_file) demo_caller 0 5 demo_sent = Some (Inr rc, u) \<and>
    rc_id rc = feed_last_id (demo_start demo_file) + 1 \<and>
    stored_json u (rc_id rc) = Some (demo_bytes (message_from (rc_id rc) 5 (ss_submission demo_sent)))"
proof -
  obtain rc u where u: "feed_submit demo_feed True True (demo_start demo_file) demo_caller 0 5 demo_sent = Some (Inr rc, u)"
    by (rule demo_lives [of demo_file]) simp_all
  have "0 < (2 ^ 63 :: nat)" by simp
  then show ?thesis
    using receipts_name_messages [OF demo_started demo_serde(1,4,3) life_start _ u] u by (auto simp: demo_feed_def)
qed

text \<open>C7: A nonce is spent once, whichever door its message came through: no two messages of the log
  carry one account's nonce, and a signed submission under a spent nonce is not accepted again,
  ever after, restarts included.\<close>

theorem nonces_are_spent_once:
  assumes "feed_started fe s0" and "serde_ok fe" and "\<forall>x. length (fe_sha fe x) = HASH_SIZE" and "signing_ok fe (fs_key s0)"
    and "feed_life fe s0 m s" and "feed_life fe s n t" and "m + n < 2 ^ 63"
    and "stored_json s i = Some a" and "entry_nonce fe a = Some (account, nonce)"
  shows "(stored_json t j = Some b \<and> entry_nonce fe b = Some (account, nonce) \<longrightarrow> j = i) \<and>
    (account_of (ss_submission sent) = account \<and> checked_nonce (ss_submission sent) = Inr nonce \<longrightarrow>
       (\<exists>e t'. feed_submit fe pins commits t c instant now sent = Some (Inl e, t')))"
proof -
  obtain hist where h: "log_ok fe s hist" "length hist \<le> m" using life_log [OF assms(1-5)] assms(7) by auto
  then obtain js where t: "log_ok fe t (hist @ js)" "length js \<le> n"
    using feed_life_ok [OF assms(6) h(1) assms(2,3)] assms(7) by auto
  have ok: "feed_ok fe s hist" "feed_ok fe t (hist @ js)" using h(1) t(1) by (simp_all add: log_ok_def)
  have room: "length (hist @ js) < 2 ^ 63" using h(2) t(2) assms(7) by simp
  have i: "0 < i" "i \<le> length hist" "hist ! (i - 1) = a" using stored_json_ok [OF ok(1), of i] assms(8) by (auto split: if_splits)
  have "nonces_ok fe (fs_nonces t) (hist @ js)" using ok(2) unfolding feed_ok_def by blast
  note spent = nonces_okD [OF this]
  have there: "map_of (fs_nonces t) (account, nonce) = Some i"
    using i assms(9) by (auto simp: spent nth_append)
  have "j = i" if "stored_json t j = Some b" "entry_nonce fe b = Some (account, nonce)"
  proof -
    have "map_of (fs_nonces t) (account, nonce) = Some j"
      using stored_json_ok [OF ok(2), of j] that by (auto simp: spent split: if_splits)
    then show ?thesis using there by simp
  qed
  moreover have "\<exists>e t'. feed_submit fe pins commits t c instant now sent = Some (Inl e, t')"
    if who: "account_of (ss_submission sent) = account" "checked_nonce (ss_submission sent) = Inr nonce"
  proof -
    obtain r t' where r: "feed_submit fe pins commits t c instant now sent = Some (r, t')"
      using feed_submit_step [OF ok(2) assms(2,3) room] unfolding feed_step_ok_def by blast
    show ?thesis
    proof (cases r)
      case (Inr rc)
      obtain nonce' where "checked_nonce (ss_submission sent) = Inr nonce'"
        "map_of (fs_nonces t) (account_of (ss_submission sent), nonce') = None"
        using accepted_log [OF r [unfolded Inr] ok(2) assms(2,3) room] by metis
      then show ?thesis using who there by simp
    qed (use r in simp)
  qed
  ultimately show ?thesis by blast
qed

theorem nonces_are_spent_once_witness:
  "\<exists>s. feed_last_id s = 1 \<and> feed_life demo_feed (demo_start demo_file) 1 s \<and>
    (\<exists>e t'. feed_submit demo_feed True True s demo_caller 9 9 demo_sent = Some (Inl e, t'))"
proof -
  obtain rc s where s: "feed_life demo_feed (demo_start demo_file) 1 s" "feed_last_id s = 1" "rc_id rc = 1"
    and sub: "feed_submit demo_feed True True (demo_start demo_file) demo_caller 0 5 demo_sent = Some (Inr rc, s)"
    by (rule demo_lives [of demo_file]) simp_all
  let ?nonce = "replicate 16 (char_of (1 :: nat))" and ?msg = "message_from 1 5 (ss_submission demo_sent)"
  have start: "feed_ok demo_feed (demo_start demo_file) []"
    using started_ok [OF demo_started demo_serde(3), of demo_file] by (simp add: log_ok_def)
  have room: "length ([] :: bytes list) < 2 ^ 63" "1 + 0 < (2 ^ 63 :: nat)" by simp_all
  have n: "checked_nonce (ss_submission demo_sent) = Inr ?nonce"
    using demo_texts(1) by (simp add: checked_nonce_def demo_sent_def ok_or_def)
  have "feed_ok demo_feed s [fe_to_vec demo_feed ?msg]"
    by (rule accepted_log [OF sub start demo_serde(1,4) room(1)]) simp
  then have "stored_json s 1 = Some (fe_to_vec demo_feed ?msg)" using stored_json_ok [of demo_feed s _ 1] by (simp add: MESSAGE_WINDOW_def)
  moreover have "entry_nonce demo_feed (fe_to_vec demo_feed ?msg) = Some (account_of (ss_submission demo_sent), ?nonce)"
    using entry_nonce_message [OF demo_serde(1)] checked_message_nonce [OF n] by simp
  ultimately show ?thesis
    using nonces_are_spent_once [OF demo_started demo_serde(1,4,3) s(1) life_start room(2)] s(1,2) n by blast
qed

text \<open>C27: What is refused leaves no trace in the log: after a request or a burst that ends in an error,
  a failed write included, the head, the root, the stored messages, the next id and the spent
  nonces are what they were.\<close>

theorem refusals_publish_nothing:
  assumes "feed_started fe s0" and "serde_ok fe" and "\<forall>x. length (fe_sha fe x) = HASH_SIZE" and "signing_ok fe (fs_key s0)"
    and "feed_life fe s0 n s" and "n + length msgs < 2 ^ 63" and "burst_ok msgs"
    and "feed_submit fe pins commits s c instant now sent = Some (Inl e, u) \<or>
      submit_operator fe commits s c instant now req = Some (Inl e, u) \<or> publish_burst fe commits s msgs = Some (Inl e, u)"
  shows "feed_head fe u = feed_head fe s \<and> feed_tree_root fe u = feed_tree_root fe s \<and> stored_json u i = stored_json s i \<and>
    fs_next_id u = fs_next_id s \<and> fs_nonces u = fs_nonces s"
proof -
  obtain hist where h: "feed_ok fe s hist" "length hist \<le> n" using life_log [OF assms(1-5)] assms(6) by (auto simp: log_ok_def)
  have room: "length hist < 2 ^ 63" "length hist + length msgs \<le> 2 ^ 63" using h(2) assms(6) by simp_all
  have step: "feed_ok fe u hist \<and> feed_still s u"
    if "feed_step_ok fe s hist k outcome" "outcome = Some (Inl e, u)" for k and outcome :: "((feed_error + 'a) \<times> feed_state) option"
    using that unfolding feed_step_ok_def by auto
  have u: "feed_ok fe u hist" "feed_still s u"
    using assms(8) step [OF feed_submit_step [OF h(1) assms(2,3) room(1)]] step [OF submit_operator_step [OF h(1) assms(2,3) room(1)]]
      step [OF publish_burst_step [OF h(1) assms(2,3,7) room(2)]] by blast+
  have "fs_nonces u = fs_nonces s" using nonces_same [of fe "fs_nonces u" hist "fs_nonces s"] h(1) u(1) unfolding feed_ok_def by blast
  moreover have "fs_next_id u = fs_next_id s" using h(1) u(1) by (simp add: feed_ok_def)
  moreover have "feed_head fe u = feed_head fe s"
    using feed_head_ok [OF h(1)] feed_head_ok [OF u(1)] u(2) by (simp add: signed_head_at_def feed_still_def)
  ultimately show ?thesis
    using feed_root_ok [OF h(1) assms(3)] feed_root_ok [OF u(1) assms(3)] stored_json_ok [OF h(1), of i] stored_json_ok [OF u(1), of i] u(2)
    by (simp add: feed_still_def)
qed

theorem refusals_publish_nothing_witness:
  "\<exists>u. feed_submit demo_feed True False (demo_start demo_file) demo_caller 0 5 demo_sent = Some (Inl (NotWritten (StoreError SqlFault)), u) \<and>
    feed_head demo_feed u = feed_head demo_feed (demo_start demo_file) \<and> fs_next_id u = fs_next_id (demo_start demo_file)"
proof -
  obtain u where u: "feed_submit demo_feed True False (demo_start demo_file) demo_caller 0 5 demo_sent = Some (Inl (NotWritten (StoreError SqlFault)), u)"
    using demo_unwritten by blast
  have "0 + length ([] :: (nat \<Rightarrow> order_message) list) < 2 ^ 63" "burst_ok []" by (simp_all add: burst_ok_def)
  then show ?thesis
    using refusals_publish_nothing [OF demo_started demo_serde(1,4,3) life_start, of demo_file "[]"] u by blast
qed


lemma demo_on_disk:
  obtains s db leaves where "feed_life demo_feed (demo_start demo_file) 1 s" and "feed_last_id s = 1" and "fs_storage s = Disk db leaves" and "roomy s"
proof -
  obtain rc s where s: "feed_life demo_feed (demo_start demo_file) 1 s" "feed_last_id s = 1"
    "in_memory (fs_storage s) = in_memory demo_file" "roomy s"
    by (rule demo_lives [of demo_file]) simp_all
  then show thesis using that by (cases "fs_storage s") simp_all
qed



text \<open>C17: A file whose messages were edited does not open: whoever changes, drops, adds or reorders
  messages of a sequencer's file and keeps its checkpoint, which only the key can sign again, gets a file
  the sequencer refuses, unless the hash clashes on the links of the two chains.\<close>

theorem edited_file_is_refused:
  assumes "feed_started fe s0" and "serde_ok fe" and "\<forall>x. length (fe_sha fe x) = HASH_SIZE" and "signing_ok fe (fs_key s0)"
    and "feed_life fe s0 n s" and "n \<le> 2 ^ 63" and "fs_storage s = Disk db leaves"
    and "fd_checkpoint edited = fd_checkpoint db" and "fd_messages edited \<noteq> fd_messages db"
    and "with_db fe key limits new_session commits edited = Some (r, file)"
  shows "(\<exists>e. r = Inl e) \<or>
    clash (fe_sha fe) (chain_inputs (fe_sha fe) (map row_json (fd_messages db)) \<union> chain_inputs (fe_sha fe) (map row_json (fd_messages edited)))"
proof (cases r)
  case (Inr u)
  let ?sha = "fe_sha fe" and ?js = "map row_json (fd_messages edited)"
  obtain hist where h: "feed_ok fe s hist" using life_log [OF assms(1-6)] by (auto simp: log_ok_def)
  then have db: "fd_messages db = rows_of ?sha 1 EMPTY_CHAIN hist" "fd_checkpoint db = (if hist = [] then None
      else Some (Written (checkpoint_row fe (fs_key s) (fs_session s) (length hist) (chain_of ?sha hist) (log_hash ?sha hist))))"
    using assms(7) by (auto simp: feed_ok_def storage_ok_def file_ok_def)
  have hist: "map row_json (fd_messages db) = hist"
    by (rule nth_equalityI) (simp_all add: db(1) nth_rows_of row_json_def del: One_nat_def)
  have e: "fd_messages edited = rows_of ?sha 1 EMPTY_CHAIN ?js"
    "fd_checkpoint edited = None \<and> ?js = [] \<or> (\<exists>cp. fd_checkpoint edited = Some (Written cp) \<and> ck_last_id cp = length ?js \<and>
        from_hex 32 (ck_chain cp) = Some (chain_of ?sha ?js))"
    using restart_sound [OF assms(10) [unfolded Inr]] unfolding file_signed_def by blast+
  have hex: "from_hex 32 (to_hex (chain_of ?sha hist)) = Some (chain_of ?sha hist)"
    by (rule from_hex_to_hex [OF chain_length [OF assms(3)]])
  have same: "length hist = length ?js \<and> chain_of ?sha hist = chain_of ?sha ?js"
    using e(2) db(2) hex by (auto simp: assms(8) checkpoint_row_def split: if_splits)
  have "hist \<noteq> ?js" using assms(9) db(1) e(1) by metis
  then have "clash ?sha (chain_inputs ?sha hist \<union> chain_inputs ?sha ?js)"
    using same_chain_same_log [OF _ assms(3), of "chain_inputs ?sha hist \<union> chain_inputs ?sha ?js" hist ?js] same by blast
  then show ?thesis using hist by simp
qed simp

theorem edited_file_is_refused_witness:
  "\<exists>db r file. fd_messages db \<noteq> [] \<and>
    with_db demo_feed ''k'' default_retention demo_session True (db\<lparr>fd_messages := []\<rparr>) = Some (r, file) \<and>
    ((\<exists>e. r = Inl e) \<or> clash pad_hash (chain_inputs pad_hash (map row_json (fd_messages db)) \<union> chain_inputs pad_hash []))"
proof -
  obtain s db leaves where s: "feed_life demo_feed (demo_start demo_file) 1 s" "feed_last_id s = 1" "fs_storage s = Disk db leaves" "roomy s"
    by (rule demo_on_disk)
  have one: "1 \<le> (2 ^ 63 :: nat)" by simp
  obtain hist where h: "feed_ok demo_feed s hist"
    using life_log [OF demo_started demo_serde(1,4,3) s(1) one] by (auto simp: log_ok_def)
  have len: "length hist = 1" using feed_last_id_ok [OF h] s(2) by metis
  then have ne: "hist \<noteq> []" by auto
  have fl: "file_ok demo_feed s db hist" using h s(3) by (simp add: feed_ok_def storage_ok_def)
  have db: "length (fd_messages db) = 1" "length (fd_accounts db) \<le> 1" "fd_pairings db = []" "fd_session db = Some (fs_session s)"
    "fd_checkpoint db = Some (Written (checkpoint_row demo_feed (fs_key s) (fs_session s) (length hist)
       (chain_of (fe_sha demo_feed) hist) (log_hash (fe_sha demo_feed) hist)))"
    using fl ne len s(4) by (simp_all add: file_ok_def roomy_def)
  have hex: "from_hex 32 (to_hex (chain_of (fe_sha demo_feed) hist)) = Some (chain_of (fe_sha demo_feed) hist)"
    "from_hex 64 (to_hex (replicate 64 (char_of (5 :: nat)))) = Some (replicate 64 (char_of (5 :: nat)))"
    using chain_length [OF demo_serde(4)] by (simp_all add: from_hex_to_hex)
  have v: "history_verdict demo_feed ''k'' demo_session (db\<lparr>fd_messages := []\<rparr>) 0 EMPTY_CHAIN = Inl (OtherHistory 1 0)"
    by (simp add: history_verdict_def db(4,5) checkpoint_row_def hex(1) ok_or_def len)
      (simp add: hex(2) sign_head_def verify_head_def demo_feed_def)
  obtain f where w: "with_db demo_feed ''k'' default_retention demo_session True (db\<lparr>fd_messages := []\<rparr>) = Some (Inl (OtherHistory 1 0), f)"
    using db(2,3) v by (simp add: with_db_def restart_begin_def retention_validate_def require_def default_retention_def)
  have sha: "fe_sha demo_feed = pad_hash" by (simp add: demo_feed_def)
  have "fd_messages (db\<lparr>fd_messages := []\<rparr>) \<noteq> fd_messages db" using db(1) by auto
  from edited_file_is_refused [OF demo_started demo_serde(1,4,3) s(1) one s(3) _ this w]
  have "(\<exists>e. Inl (OtherHistory 1 0) = (Inl e :: restart_error + feed_state)) \<or>
      clash pad_hash (chain_inputs pad_hash (map row_json (fd_messages db)) \<union> chain_inputs pad_hash [])"
    unfolding sha by simp
  moreover have "fd_messages db \<noteq> []" using db(1) by auto
  ultimately show ?thesis using w by blast
qed

end
