(* ===== verification/Feed_Exchange.thy ===== *)
theory Feed_Exchange
  imports Feed_Properties
begin

section \<open>Sequencer, inbox and client\<close>

text \<open>
  What the sequencer promises to those it talks to: a client that reads pages, and the inbox
  whose entries it drains. The last theorem is what a page that lists an entry twice does.
\<close>





subsection \<open>One drained entry\<close>






subsection \<open>An entry listed twice\<close>






end
