(* ===== verification/Validator_Properties.thy ===== *)
theory Validator_Properties
  imports Feed_Properties
begin

section \<open>Validator properties\<close>

text \<open>
  What an attestation, a dispute and silence mean. The number of a run is that of the messages it
  was offered; below 2^64 a message number never saturates.
\<close>


text \<open>A sequencer key that signs everything, and two histories of one message each.\<close>

definition last_hash :: "bytes \<Rightarrow> hash" where
  "last_hash x = pad_hash (rev x)"

definition forked_head :: "string \<Rightarrow> followed_head" where
  "forked_head message =
     \<lparr>fh_last_id = 1, fh_chain = chain_of last_hash [message], fh_public_key = to_hex (replicate 32 (char_of (6 :: nat))), fh_signature = []\<rparr>"

definition forked_answer :: "string \<Rightarrow> string \<Rightarrow> string \<Rightarrow> poll_answer" where
  "forked_answer session vouched served = Some (Some session, Some (forked_head vouched), Some [\<lparr>rm_id = 1, rm_kind = ''New'', rm_bytes = served\<rparr>])"

abbreviation poll_any :: "validator_state \<Rightarrow> poll_answer \<Rightarrow> ingest_result option \<times> validator_state" where
  "poll_any \<equiv> poll last_hash (\<lambda>_. True) (\<lambda>_ _ _. True)"

abbreviation run_any :: "validator_state \<Rightarrow> nat \<Rightarrow> validator_state \<Rightarrow> bool" where
  "run_any \<equiv> validator_run last_hash (\<lambda>_. True) (\<lambda>_ _ _. True)"

lemma forked_chains: "chain_of last_hash [''b''] \<noteq> chain_of last_hash [''a'']"
  by (simp add: chain_of_def extend_bytes_def last_hash_def pad_hash_def)

text \<open>A validator that may take up the session: fresh, or at position 0 or in another session.\<close>

lemma forked_poll:
  assumes "va_feed_pubkey v = None \<or> va_feed_pubkey v = Some (to_hex (replicate 32 (char_of (6 :: nat))))" and "\<not> va_disputed v"
    and "va_session v \<noteq> Some session"
  shows "poll_any v (forked_answer session vouched served) =
    (if chain_of last_hash [served] = chain_of last_hash [vouched]
     then (Some (Verified 1), v\<lparr>va_feed_pubkey := Some (to_hex (replicate 32 (char_of (6 :: nat)))), va_session := Some session,
            va_cursor := 1, va_chain := chain_of last_hash [vouched], va_unchecked := 0\<rparr>)
     else (Some Disputed, v\<lparr>va_feed_pubkey := Some (to_hex (replicate 32 (char_of (6 :: nat)))), va_session := Some session,
            va_cursor := 0, va_chain := EMPTY_CHAIN, va_unchecked := 0, va_disputed := True,
            va_reason := Some (1, chain_of last_hash [vouched], chain_of last_hash [served])\<rparr>))"
proof -
  have v: "head_verifies (\<lambda>_. True) (\<lambda>_ _ _. True) session (forked_head vouched)"
    by (simp add: head_verifies_def forked_head_def from_hex_to_hex verify_head_def)
  have f: "fold_chain last_hash EMPTY_CHAIN [\<lparr>rm_id = Suc 0, rm_kind = ''New'', rm_bytes = served\<rparr>] = chain_of last_hash [served]"
    by (simp add: fold_chain_def chain_of_def)
  have s: "sat_add_u64 0 (Suc 0) = Suc 0" by (simp add: sat_add_u64_def u64_max_def)
  have key: "fh_public_key (forked_head vouched) = to_hex (replicate 32 (char_of (6 :: nat)))" "fh_last_id (forked_head vouched) = Suc 0"
    "fh_chain (forked_head vouched) = chain_of last_hash [vouched]"
    by (simp_all add: forked_head_def)
  let ?w = "take_session (v\<lparr>va_feed_pubkey := Some (fh_public_key (forked_head vouched))\<rparr>) session"
  have w: "va_cursor ?w = 0" "va_chain ?w = EMPTY_CHAIN" using assms(3) by (simp_all add: take_session_def)
  have served: "va_cursor w = 0 \<Longrightarrow> va_chain w = EMPTY_CHAIN \<Longrightarrow>
    compare_served last_hash w (forked_head vouched) [\<lparr>rm_id = 1, rm_kind = ''New'', rm_bytes = served\<rparr>] =
    (if chain_of last_hash [served] = chain_of last_hash [vouched]
    then (Verified 1, w\<lparr>va_chain := chain_of last_hash [served], va_cursor := 1, va_unchecked := 0\<rparr>)
    else dispute w (1, chain_of last_hash [vouched], chain_of last_hash [served]))" for w
    by (simp add: compare_served_def s f key Let_def)
  have "poll_any v (forked_answer session vouched served) =
    apfst Some (compare_served last_hash ?w (forked_head vouched) [\<lparr>rm_id = 1, rm_kind = ''New'', rm_bytes = served\<rparr>])"
    using assms(1,2) v unfolding poll_def forked_answer_def ingest_def by (elim disjE) (simp_all add: key)
  also note served [OF w]
  finally show ?thesis using assms(3) by (simp add: take_session_def dispute_def key)
qed

lemma forked_run: "run_any v n u \<Longrightarrow> run_any v (n + 1) (snd (poll_any u (forked_answer session vouched served)))"
  using vr_poll [where answer = "forked_answer session vouched served"] by (force simp: forked_answer_def)






text \<open>C30: An honest validator can be made to contradict itself: a sequencer that signs a session, then another,
  then the first again with other messages, has one validator sign two chains for one session
  and message number, neither of them disputed or stalled.\<close>

theorem validator_contradicts_itself:
  "\<exists>u v. run_any (open_validator ''k'') 1 u \<and> run_any u 2 v \<and> at_session (attest (\<lambda>k. k) (\<lambda>_ m. m) u) = ''s'' \<and>
    at_session (attest (\<lambda>k. k) (\<lambda>_ m. m) v) = ''s'' \<and> at_last_id (attest (\<lambda>k. k) (\<lambda>_ m. m) u) = 1 \<and>
    at_last_id (attest (\<lambda>k. k) (\<lambda>_ m. m) v) = 1 \<and> at_chain (attest (\<lambda>k. k) (\<lambda>_ m. m) u) \<noteq> at_chain (attest (\<lambda>k. k) (\<lambda>_ m. m) v) \<and>
    is_vouching (validator_status u) \<and> is_vouching (validator_status v)"
proof -
  define u where "u = snd (poll_any (open_validator ''k'') (forked_answer ''s'' ''a'' ''a''))"
  define t where "t = snd (poll_any u (forked_answer ''other'' ''a'' ''a''))"
  define v where "v = snd (poll_any t (forked_answer ''s'' ''b'' ''b''))"
  have runs: "run_any (open_validator ''k'') 1 u" "run_any u 2 v"
    using forked_run [OF vr_start] forked_run [OF forked_run [OF vr_start]] unfolding u_def t_def v_def by (simp_all add: numeral_2_eq_2)
  have u: "va_session u = Some ''s''" "va_cursor u = 1" "va_chain u = chain_of last_hash [''a'']" "\<not> va_disputed u" "va_unchecked u = 0"
    "va_feed_pubkey u = Some (to_hex (replicate 32 (char_of (6 :: nat))))"
    by (simp_all add: u_def forked_poll open_validator_def)
  have t: "va_session t = Some ''other''" "\<not> va_disputed t" "va_feed_pubkey t = Some (to_hex (replicate 32 (char_of (6 :: nat))))"
    using u by (simp_all add: t_def forked_poll)
  have v: "va_session v = Some ''s''" "va_cursor v = 1" "va_chain v = chain_of last_hash [''b'']" "\<not> va_disputed v" "va_unchecked v = 0"
    using t by (simp_all add: v_def forked_poll)
  have "to_hex (va_chain u) \<noteq> to_hex (va_chain v)" using forked_chains to_hex_inj u(3) v(3) by metis
  then show ?thesis
    using runs u v by (intro exI [of _ u] exI [of _ v])
      (simp add: attest_def Let_def validator_status_def stalled_def is_vouching_def UNCHECKED_POLLS_BEFORE_STALL_def)
qed

end
