(* ===== verification/Spec2Isabelle.thy ===== *)
theory Spec2Isabelle
  imports Ledger_Properties Engine_Properties Order_Properties Component_Properties Inbox_Properties Feed_Exchange Validator_Properties
begin

text \<open>
  Verification of the verifiable exchange (services/src).

  Prelude: bounded arithmetic, results as sums, machines. Ordered_Map: BTreeMap. F64: doubles.
  Domain: domain.rs. Logchain: hex and nonces. Operator: operator.rs. Ledger and its
  Ledger_* theories: ledger.rs.
\<close>

end
